(* ===== verification/Hai_Prelude.thy ===== *)
theory Hai_Prelude
  imports Main "HOL-Library.Word"
begin

text \<open>
  Shared vocabulary of the development.

  \<^item> \<open>kres\<close> is the outcome of a kernel routine: a value, a call of
    \<^verbatim>\<open>panic\<close> (with its message), or a call of \<^verbatim>\<open>sleep\<close> on a
    wait channel. \<open>kbind\<close> runs one routine after another.
  \<^item> A C array of bytes is a function from offsets to bytes; \<open>get_le\<close> and
    \<open>put_le\<close> read and write a little-endian integer of a given number of
    bytes in it, the layout of every on-disk and in-memory structure.
  \<^item> The lemmas on \<open>find\<close> and \<open>fold\<close> over an index range carry the
    table scans and the loops of the components.
\<close>

section \<open>Machine vocabulary\<close>

type_synonym byte = "8 word"
type_synonym bytes = "nat \<Rightarrow> byte"

lemma uint_eq_iff_word [simp]:
  "uint (a :: 'a::len word) = uint b \<longleftrightarrow> a = b"
  by (simp add: word_uint_eq_iff)

lemma uint_eq_zero_word [simp]:
  "uint (a :: 'a::len word) = 0 \<longleftrightarrow> a = 0" "0 = uint a \<longleftrightarrow> a = 0"
  by (simp_all add: uint_0_iff)

lemma upt_add_Suc: "[i..<i + Suc n] = i # [Suc i..<Suc i + n]"
  by (simp add: upt_conv_Cons)

text \<open>The wait channels of the kernel: each is the address of a distinct object.\<close>

datatype chan =
    NoChan
  | ChanProc nat
  | ChanTicks
  | ChanLog
  | ChanBufLock nat
  | ChanInodeLock nat
  | ChanPipeRead nat
  | ChanPipeWrite nat
  | ChanConsR
  | ChanTx
  | ChanDiskFree
  | ChanDiskBuf nat

section \<open>Outcomes of kernel routines\<close>

datatype 'a kres = Ok 'a | Panic string | Sleep chan

fun kbind :: "'a kres \<Rightarrow> ('a \<Rightarrow> 'b kres) \<Rightarrow> 'b kres" where
  "kbind (Ok x) f = f x"
| "kbind (Panic m) f = Panic m"
| "kbind (Sleep c) f = Sleep c"

named_theorems kres_simps "inversion of outcomes"

lemma kbind_eq_Ok [kres_simps]: "kbind m f = Ok y \<longleftrightarrow> (\<exists>x. m = Ok x \<and> f x = Ok y)"
  by (cases m) auto

lemma kbind_eq_Panic [kres_simps]:
  "kbind m f = Panic e \<longleftrightarrow> m = Panic e \<or> (\<exists>x. m = Ok x \<and> f x = Panic e)"
  by (cases m) auto

lemma kbind_assoc: "kbind (kbind m f) g = kbind m (\<lambda>x. kbind (f x) g)"
  by (cases m) auto

lemma kbind_OkE:
  assumes "kbind m f = Ok y"
  obtains x where "m = Ok x" and "f x = Ok y"
  using assms by (cases m) auto

text \<open>
  \<open>returns m Q\<close>: the routine comes back, without panic and without sleeping, and
  its result satisfies \<open>Q\<close>.
\<close>

definition returns :: "'a kres \<Rightarrow> ('a \<Rightarrow> bool) \<Rightarrow> bool" where
  "returns m Q \<longleftrightarrow> (\<exists>x. m = Ok x \<and> Q x)"

lemma returns_Ok [simp]: "returns (Ok x) Q \<longleftrightarrow> Q x"
  and returns_Panic [simp]: "\<not> returns (Panic e) Q"
  and returns_Sleep [simp]: "\<not> returns (Sleep c) Q"
  by (simp_all add: returns_def)

lemma returns_kbind [simp]: "returns (kbind m f) Q \<longleftrightarrow> returns m (\<lambda>x. returns (f x) Q)"
  by (cases m) (simp_all add: returns_def)

lemma returns_mono: "returns m P \<Longrightarrow> (\<And>x. P x \<Longrightarrow> Q x) \<Longrightarrow> returns m Q"
  by (auto simp: returns_def)

lemma returnsE:
  assumes "returns m Q"
  obtains x where "m = Ok x" and "Q x"
  using assms by (auto simp: returns_def)

text \<open>A loop whose body may panic or sleep, over a list of values.\<close>

fun kfold :: "('b \<Rightarrow> 's \<Rightarrow> 's kres) \<Rightarrow> 'b list \<Rightarrow> 's \<Rightarrow> 's kres" where
  "kfold f [] s = Ok s"
| "kfold f (x # xs) s = kbind (f x s) (kfold f xs)"

lemma kfold_append: "kfold f (xs @ ys) s = kbind (kfold f xs s) (kfold f ys)"
proof (induction xs arbitrary: s)
  case (Cons x xs)
  then show ?case by (cases "f x s") simp_all
qed simp

lemma kfold_returns:
  assumes "I 0 s"
    and "\<And>k t. k < n \<Longrightarrow> I k t \<Longrightarrow> returns (f k t) (I (Suc k))"
  shows "returns (kfold f [0..<n] s) (I n)"
  using assms
proof (induction n)
  case 0
  then show ?case by simp
next
  case (Suc n)
  have "returns (kfold f [0..<n] s) (I n)" using Suc by simp
  then show ?case
    by (simp add: kfold_append) (rule returns_mono, assumption, rule Suc.prems(2), simp_all)
qed

section \<open>Routines that wait\<close>

text \<open>
  A routine that may sleep in the middle of its work ends with a result, or waits on a
  channel; then \<open>k\<close> is where it stands (its loop variables) and the state is the one it
  leaves behind. \<open>finish\<close> is the view of a caller that does not continue after a wait.
\<close>

datatype ('r, 'k, 's) run = Done 'r 's | Wait chan 'k 's

fun finish :: "('r, 'k, 's) run \<Rightarrow> ('r \<times> 's) kres" where
  "finish (Done r s) = Ok (r, s)"
| "finish (Wait c k s) = Sleep c"

text \<open>\<open>okp P m\<close>: if the routine comes back, its result satisfies \<open>P\<close>.\<close>

definition okp :: "('a \<Rightarrow> bool) \<Rightarrow> 'a kres \<Rightarrow> bool" where
  "okp P m \<longleftrightarrow> (\<forall>x. m = Ok x \<longrightarrow> P x)"

lemma okp_simps [simp]: "okp P (Ok x) = P x" "okp P (Panic e)" "okp P (Sleep c)"
  by (simp_all add: okp_def)

lemma okp_kbind: "okp (\<lambda>x. okp P (f x)) m \<Longrightarrow> okp P (kbind m f)"
  by (auto simp: okp_def elim!: kbind_OkE)

lemma okp_if: "(b \<Longrightarrow> okp P m) \<Longrightarrow> (\<not> b \<Longrightarrow> okp P n) \<Longrightarrow> okp P (if b then m else n)"
  by simp

lemma okp_let: "okp P (f a) \<Longrightarrow> okp P (let x = a in f x)"
  by simp

lemma okp_option: "(x = None \<Longrightarrow> okp P m) \<Longrightarrow> (\<And>y. x = Some y \<Longrightarrow> okp P (f y)) \<Longrightarrow> okp P (case x of None \<Rightarrow> m | Some y \<Rightarrow> f y)"
  by (cases x) simp_all

lemma okp_prod: "(\<And>a b. x = (a, b) \<Longrightarrow> okp P (f a b)) \<Longrightarrow> okp P (case x of (a, b) \<Rightarrow> f a b)"
  by (cases x) simp

lemmas okp_intros = okp_kbind okp_if okp_let okp_option okp_prod

lemma okp_kfold:
  assumes "\<And>x s. x \<in> set xs \<Longrightarrow> I s \<Longrightarrow> okp I (f x s)" "I s" "\<And>t. I t \<Longrightarrow> P t"
  shows "okp P (kfold f xs s)"
proof -
  have "okp I (kfold f xs s)" using assms(1,2)
  proof (induction xs arbitrary: s)
    case (Cons x xs)
    have "okp I (f x s)" "\<And>t. I t \<Longrightarrow> okp I (kfold f xs t)"
      by (rule Cons.prems(1); simp add: Cons.prems(2)) (rule Cons.IH; simp add: Cons.prems(1))
    then show ?case by (auto simp: okp_def elim!: kbind_OkE)
  qed simp
  then show ?thesis using assms(3) by (auto simp: okp_def)
qed

lemma okp_weaken: "okp Q m \<Longrightarrow> (\<And>x. Q x \<Longrightarrow> P x) \<Longrightarrow> okp P m"
  by (simp add: okp_def)

lemma okp_kfold_upt:
  assumes "\<And>k s. k < n \<Longrightarrow> I k s \<Longrightarrow> okp (I (Suc k)) (f k s)" "I 0 s" "\<And>t. I n t \<Longrightarrow> P t"
  shows "okp P (kfold f [0..<n] s)"
proof -
  have "okp (I (k + m)) (kfold f [k..<k + m] s)" if "k + m \<le> n" "I k s" for m k s
    using that
  proof (induction m arbitrary: k s)
    case (Suc m)
    have r: "okp (I (Suc k + m)) (kfold f [Suc k..<Suc k + m] t)" if "I (Suc k) t" for t
      using Suc.IH[of "Suc k" t] Suc.prems(1) that by simp
    have "okp (\<lambda>t. okp (I (Suc k + m)) (kfold f [Suc k..<Suc k + m] t)) (f k s)"
      using Suc.prems by (intro okp_weaken[OF assms(1) r]) auto
    from okp_kbind[OF this] show ?case by (simp add: upt_conv_Cons del: upt_Suc)
  qed simp
  from this[of 0 n s] show ?thesis using assms(2,3) by (auto simp: okp_def)
qed

lemma okp_plain: "(\<And>x. P x) \<Longrightarrow> okp P m"
  by (simp add: okp_def)

lemma okp_finish: "(\<And>x s. r = Done x s \<Longrightarrow> P (x, s)) \<Longrightarrow> okp P (finish r)"
  by (cases r) auto

section \<open>Table scans\<close>

text \<open>
  A loop \<^verbatim>\<open>for(i = 0; i < n; i++) if(P(i)) return i;\<close> is
  \<open>find P [0..<n]\<close>.
\<close>

lemma find_SomeD: "find P xs = Some x \<Longrightarrow> x \<in> set xs \<and> P x"
  by (induction xs) (auto split: if_splits)

lemma find_upt_Some:
  "find P [0..<n] = Some i \<longleftrightarrow> i < n \<and> P i \<and> (\<forall>j<i. \<not> P j)"
proof -
  have "find P [0..<n] = Some i \<longleftrightarrow> (\<exists>k<n. P k \<and> i = k \<and> (\<forall>j<k. \<not> P j))"
    by (auto simp: find_Some_iff)
  then show ?thesis by auto
qed

lemma find_upt_None: "find P [0..<n] = None \<longleftrightarrow> (\<forall>i<n. \<not> P i)"
  by (auto simp: find_None_iff)

lemma find_upt_ex: "i < n \<Longrightarrow> P i \<Longrightarrow> \<exists>k. find P [0..<n] = Some k"
  by (metis find_upt_None not_None_eq)

text \<open>A loop whose body only touches slot \<open>i\<close> of an array acts on every slot alone.\<close>

lemma fold_fun_upd:
  "fold (\<lambda>i a. a(i := f i (a i))) [0..<n] a = (\<lambda>i. if i < n then f i (a i) else a i)"
  by (induction n) (auto simp: fun_eq_iff)

section \<open>Little-endian integers in byte arrays\<close>

fun get_le :: "nat \<Rightarrow> bytes \<Rightarrow> nat \<Rightarrow> nat" where
  "get_le 0 m a = 0"
| "get_le (Suc k) m a = unat (m a) + 256 * get_le k m (Suc a)"

fun put_le :: "nat \<Rightarrow> bytes \<Rightarrow> nat \<Rightarrow> nat \<Rightarrow> bytes" where
  "put_le 0 m a v = m"
| "put_le (Suc k) m a v = put_le k (m(a := of_nat v)) (Suc a) (v div 256)"

lemma put_le_outside: "i < a \<or> a + k \<le> i \<Longrightarrow> put_le k m a v i = m i"
  by (induction k arbitrary: m a v) auto

lemma get_le_cong:
  "(\<And>i. a \<le> i \<Longrightarrow> i < a + k \<Longrightarrow> m i = m' i) \<Longrightarrow> get_le k m a = get_le k m' a"
proof (induction k arbitrary: a)
  case 0
  then show ?case by simp
next
  case (Suc k)
  have "m a = m' a" using Suc.prems[of a] by simp
  moreover have "get_le k m (Suc a) = get_le k m' (Suc a)"
    using Suc.prems by (intro Suc.IH) auto
  ultimately show ?case by simp
qed

lemma get_put_le: "get_le k (put_le k m a v) a = v mod 256 ^ k"
proof (induction k arbitrary: m a v)
  case 0
  then show ?case by simp
next
  case (Suc k)
  have "put_le k (m(a := of_nat v)) (Suc a) (v div 256) a = of_nat v"
    by (simp add: put_le_outside)
  moreover have "unat (of_nat v :: byte) = v mod 256"
    by (simp add: unat_of_nat)
  ultimately show ?case
    by (simp add: Suc.IH mod_mult2_eq)
qed

lemma get_put_le_other:
  "a + k \<le> b \<or> b + j \<le> a \<Longrightarrow> get_le k (put_le j m b v) a = get_le k m a"
  by (rule get_le_cong) (auto simp: put_le_outside)

lemma get_le_bound: "get_le k m a < 256 ^ k"
proof (induction k arbitrary: a)
  case 0
  then show ?case by simp
next
  case (Suc k)
  have "unat (m a) < 256" using unsigned_less[of "m a"] by simp
  with Suc[of "Suc a"] show ?case by simp
qed

text \<open>A range of an array, as a list.\<close>

definition slice_bytes :: "bytes \<Rightarrow> nat \<Rightarrow> nat \<Rightarrow> byte list" where
  "slice_bytes m a n = map (\<lambda>i. m (a + i)) [0..<n]"

text \<open>A list of bytes as an array; null bytes follow.\<close>

definition arr :: "byte list \<Rightarrow> bytes" where
  "arr xs i = (if i < length xs then xs ! i else 0)"

lemma length_slice_bytes [simp]: "length (slice_bytes m a n) = n"
  by (simp add: slice_bytes_def)

lemma nth_slice_bytes [simp]: "i < n \<Longrightarrow> slice_bytes m a n ! i = m (a + i)"
  by (simp add: slice_bytes_def)

end
