(* ===== verification/Klib.thy ===== *)
theory Klib
  imports Hai_Prelude
begin

text \<open>
  The byte-string library of the kernel, \<^verbatim>\<open>kernel/string.c\<close>, and the two
  routines in which the user library \<^verbatim>\<open>user/ulib.c\<close> differs from it.
  Memory is an array of bytes; a string argument that is only read is the array
  of the bytes from its first one on. Each loop is a recursion on its counter.
\<close>

section \<open>memset, memcmp, memmove\<close>

fun memset_loop :: "bytes \<Rightarrow> nat \<Rightarrow> byte \<Rightarrow> nat \<Rightarrow> nat \<Rightarrow> bytes" where
  "memset_loop m dst c i 0 = m"
| "memset_loop m dst c i (Suc k) = memset_loop (m(dst + i := c)) dst c (Suc i) k"

definition memset :: "bytes \<Rightarrow> nat \<Rightarrow> byte \<Rightarrow> nat \<Rightarrow> bytes" where
  "memset m dst c n = memset_loop m dst c 0 n"

fun memcmp_loop :: "bytes \<Rightarrow> bytes \<Rightarrow> nat \<Rightarrow> nat \<Rightarrow> int" where
  "memcmp_loop s1 s2 i 0 = 0"
| "memcmp_loop s1 s2 i (Suc n) =
     (if s1 i \<noteq> s2 i then int (unat (s1 i)) - int (unat (s2 i))
      else memcmp_loop s1 s2 (Suc i) n)"

definition memcmp :: "bytes \<Rightarrow> bytes \<Rightarrow> nat \<Rightarrow> int" where
  "memcmp s1 s2 n = memcmp_loop s1 s2 0 n"

text \<open>The two copy loops: ascending, and descending from the ends.\<close>

fun copy_up :: "bytes \<Rightarrow> nat \<Rightarrow> nat \<Rightarrow> nat \<Rightarrow> bytes" where
  "copy_up m d s 0 = m"
| "copy_up m d s (Suc n) = copy_up (m(d := m s)) (Suc d) (Suc s) n"

fun copy_down :: "bytes \<Rightarrow> nat \<Rightarrow> nat \<Rightarrow> nat \<Rightarrow> bytes" where
  "copy_down m d s 0 = m"
| "copy_down m d s (Suc n) = copy_down (m(d + n := m (s + n))) d s n"

definition memmove :: "bytes \<Rightarrow> nat \<Rightarrow> nat \<Rightarrow> nat \<Rightarrow> bytes" where
  "memmove m d s n =
     (if n = 0 then m
      else if s < d \<and> d < s + n then copy_down m d s n
      else copy_up m d s n)"

definition memcpy :: "bytes \<Rightarrow> nat \<Rightarrow> nat \<Rightarrow> nat \<Rightarrow> bytes" where
  "memcpy m d s n = memmove m d s n"

text \<open>The user library chooses the direction by the order of the pointers alone.\<close>

definition ulib_memmove :: "bytes \<Rightarrow> nat \<Rightarrow> nat \<Rightarrow> nat \<Rightarrow> bytes" where
  "ulib_memmove m d s n = (if d < s then copy_up m d s n else copy_down m d s n)"

section \<open>Strings\<close>

fun strncmp_loop :: "bytes \<Rightarrow> bytes \<Rightarrow> nat \<Rightarrow> nat \<Rightarrow> int" where
  "strncmp_loop p q i 0 = 0"
| "strncmp_loop p q i (Suc n) =
     (if p i \<noteq> 0 \<and> p i = q i then strncmp_loop p q (Suc i) n
      else int (unat (p i)) - int (unat (q i)))"

definition strncmp :: "bytes \<Rightarrow> bytes \<Rightarrow> nat \<Rightarrow> int" where
  "strncmp p q n = strncmp_loop p q 0 n"

text \<open>
  \<^verbatim>\<open>strncpy\<close>: the first loop copies up to and including the NUL; the
  second pads with zeros what is left of the count.
\<close>

fun zero_fill :: "bytes \<Rightarrow> nat \<Rightarrow> nat \<Rightarrow> bytes" where
  "zero_fill s i 0 = s"
| "zero_fill s i (Suc n) = zero_fill (s(i := 0)) (Suc i) n"

fun strncpy_loop :: "bytes \<Rightarrow> bytes \<Rightarrow> nat \<Rightarrow> nat \<Rightarrow> bytes" where
  "strncpy_loop s t i 0 = s"
| "strncpy_loop s t i (Suc n) =
     (let s' = s(i := t i) in
      if t i \<noteq> 0 then strncpy_loop s' t (Suc i) n else zero_fill s' (Suc i) n)"

definition strncpy :: "bytes \<Rightarrow> bytes \<Rightarrow> nat \<Rightarrow> bytes" where
  "strncpy s t n = strncpy_loop s t 0 n"

text \<open>
  \<^verbatim>\<open>safestrcpy\<close>: \<^verbatim>\<open>--n > 0\<close> bounds the copy loop; the store
  after it puts the terminating NUL at the position the loop stopped at.
\<close>

fun safestrcpy_loop :: "bytes \<Rightarrow> bytes \<Rightarrow> nat \<Rightarrow> nat \<Rightarrow> bytes" where
  "safestrcpy_loop s t i 0 = s(i := 0)"
| "safestrcpy_loop s t i (Suc n) =
     (let s' = s(i := t i) in
      if t i \<noteq> 0 then safestrcpy_loop s' t (Suc i) n else s'(Suc i := 0))"

definition safestrcpy :: "bytes \<Rightarrow> bytes \<Rightarrow> int \<Rightarrow> bytes" where
  "safestrcpy s t n = (if n \<le> 0 then s else safestrcpy_loop s t 0 (nat (n - 1)))"

text \<open>\<^verbatim>\<open>strlen\<close> runs until it meets a NUL and has no bound of its own.\<close>

partial_function (option) strlen_loop :: "bytes \<Rightarrow> nat \<Rightarrow> nat option" where
  "strlen_loop s n = (if s n = 0 then Some n else strlen_loop s (Suc n))"

definition strlen :: "bytes \<Rightarrow> nat option" where
  "strlen s = strlen_loop s 0"

section \<open>Correctness\<close>

lemma memset_loop_eq:
  "memset_loop m dst c i n = (\<lambda>a. if dst + i \<le> a \<and> a < dst + i + n then c else m a)"
  by (induction n arbitrary: m i) (auto simp: fun_eq_iff)

lemma memset_eq: "memset m dst c n = (\<lambda>a. if dst \<le> a \<and> a < dst + n then c else m a)"
  by (simp add: memset_def memset_loop_eq)

lemma copy_up_eq:
  "d \<le> s \<or> s + n \<le> d \<Longrightarrow>
   copy_up m d s n = (\<lambda>a. if d \<le> a \<and> a < d + n then m (s + (a - d)) else m a)"
proof (induction n arbitrary: m d s)
  case 0
  then show ?case by (intro ext) auto
next
  case (Suc n)
  then have "Suc d \<le> Suc s \<or> Suc s + n \<le> Suc d" by auto
  note IH = Suc.IH[OF this, of "m(d := m s)"]
  show ?case
  proof
    fix a
    consider "a < d" | "a = d" | "Suc d \<le> a \<and> a < Suc d + n" | "d + Suc n \<le> a" by linarith
    then show "copy_up m d s (Suc n) a =
        (if d \<le> a \<and> a < d + Suc n then m (s + (a - d)) else m a)"
    proof cases
      case 3
      then obtain k where a: "a = Suc d + k" using le_Suc_ex by blast
      with 3 Suc.prems show ?thesis by (auto simp: IH)
    qed (use Suc.prems in \<open>auto simp: IH\<close>)
  qed
qed

lemma copy_down_eq:
  "s \<le> d \<Longrightarrow>
   copy_down m d s n = (\<lambda>a. if d \<le> a \<and> a < d + n then m (s + (a - d)) else m a)"
proof (induction n arbitrary: m)
  case 0
  then show ?case by (intro ext) auto
next
  case (Suc n)
  note IH = Suc.IH[OF Suc.prems, of "m(d + n := m (s + n))"]
  show ?case
  proof
    fix a
    consider "a < d" | "d \<le> a \<and> a < d + n" | "a = d + n" | "d + Suc n \<le> a" by linarith
    then show "copy_down m d s (Suc n) a =
        (if d \<le> a \<and> a < d + Suc n then m (s + (a - d)) else m a)"
      using Suc.prems by cases (auto simp: IH)
  qed
qed

text \<open>What a copy must do: the destination holds the \<^emph>\<open>old\<close> source bytes.\<close>

definition moved :: "bytes \<Rightarrow> nat \<Rightarrow> nat \<Rightarrow> nat \<Rightarrow> bytes" where
  "moved m d s n = (\<lambda>a. if d \<le> a \<and> a < d + n then m (s + (a - d)) else m a)"

lemma memmove_moved: "memmove m d s n = moved m d s n"
proof -
  consider "n = 0" | "n \<noteq> 0" "s < d \<and> d < s + n" | "n \<noteq> 0" "d \<le> s \<or> s + n \<le> d"
    by linarith
  then show ?thesis
  proof cases
    case 1
    then show ?thesis by (intro ext) (auto simp: memmove_def moved_def)
  next
    case 2
    then show ?thesis by (simp add: memmove_def moved_def copy_down_eq)
  next
    case 3
    then have "\<not> (s < d \<and> d < s + n)" by auto
    with 3 show ?thesis by (simp only: memmove_def moved_def copy_up_eq if_False)
  qed
qed

lemma ulib_memmove_moved: "ulib_memmove m d s n = moved m d s n"
  by (simp add: ulib_memmove_def moved_def copy_up_eq copy_down_eq)

text \<open>
  \<^verbatim>\<open>memmove\<close> between two different objects: \<open>n\<close> bytes of \<open>src\<close>
  from offset \<open>so\<close> go to \<open>dst\<close> at offset \<open>d\<close>. It is what
  \<open>memmove\<close> does in a memory that holds both.
\<close>

definition blit :: "bytes \<Rightarrow> nat \<Rightarrow> bytes \<Rightarrow> nat \<Rightarrow> nat \<Rightarrow> bytes" where
  "blit dst d src so n = (\<lambda>a. if d \<le> a \<and> a < d + n then src (so + (a - d)) else dst a)"

lemma memmove_blit:
  assumes "\<And>a. a < len \<Longrightarrow> m (p + a) = dst a" "\<And>a. m (q + a) = src a" "d + n \<le> len" "a < len"
  shows "memmove m (p + d) (q + so) n (p + a) = blit dst d src so n a"
proof (cases "d \<le> a \<and> a < d + n")
  case True
  then have "q + so + (p + a - (p + d)) = q + (so + (a - d))" by simp
  then show ?thesis using True assms(2)[of "so + (a - d)"] by (simp add: memmove_moved moved_def blit_def)
next
  case False
  then show ?thesis using assms(1,4) by (auto simp: memmove_moved moved_def blit_def)
qed

lemma memcmp_loop_zero: "memcmp_loop s1 s2 i n = 0 \<longleftrightarrow> (\<forall>j<n. s1 (i + j) = s2 (i + j))"
proof (induction n arbitrary: i)
  case 0
  then show ?case by simp
next
  case (Suc n)
  have split: "(\<forall>j<Suc n. s1 (i + j) = s2 (i + j)) \<longleftrightarrow>
      s1 i = s2 i \<and> (\<forall>j<n. s1 (Suc i + j) = s2 (Suc i + j))"
    by (auto simp: less_Suc_eq_0_disj)
  show ?case by (simp add: split Suc.IH del: add_Suc)
qed

text \<open>
  The string a field of \<open>n\<close> bytes holds: the bytes before the first NUL, all
  \<open>n\<close> of them if there is none.
\<close>

definition cstr :: "bytes \<Rightarrow> nat \<Rightarrow> byte list" where
  "cstr p n = takeWhile (\<lambda>b. b \<noteq> 0) (map p [0..<n])"

lemma strncmp_loop_zero:
  "strncmp_loop p q i n = 0 \<longleftrightarrow>
   takeWhile (\<lambda>b. b \<noteq> 0) (map p [i..<i+n]) = takeWhile (\<lambda>b. b \<noteq> 0) (map q [i..<i+n])"
proof (induction n arbitrary: i)
  case 0
  then show ?case by simp
next
  case (Suc n)
  show ?case
    using Suc.IH[of "Suc i"] by (auto simp: upt_add_Suc simp del: upt_Suc add_Suc_right)
qed

lemma strncmp_zero: "strncmp p q n = 0 \<longleftrightarrow> cstr p n = cstr q n"
  using strncmp_loop_zero[of p q 0 n] by (simp add: strncmp_def cstr_def)

lemma zero_fill_eq: "zero_fill s i n = (\<lambda>a. if i \<le> a \<and> a < i + n then 0 else s a)"
  by (induction n arbitrary: s i) (auto simp: fun_eq_iff)

lemma strncpy_loop_prefix:
  "a < i \<or> i + n \<le> a \<Longrightarrow> strncpy_loop s t i n a = s a"
  by (induction n arbitrary: s i) (auto simp: Let_def zero_fill_eq)

lemma strncpy_loop_cstr:
  "takeWhile (\<lambda>b. b \<noteq> 0) (map (strncpy_loop s t i n) [i..<i+n]) =
   takeWhile (\<lambda>b. b \<noteq> 0) (map t [i..<i+n])"
proof (induction n arbitrary: s i)
  case 0
  then show ?case by simp
next
  case (Suc n)
  show ?case
  proof (cases "t i = 0")
    case True
    then show ?thesis by (simp add: upt_add_Suc Let_def zero_fill_eq del: upt_Suc add_Suc_right)
  next
    case False
    have "strncpy_loop (s(i := t i)) t (Suc i) n i = t i"
      by (simp add: strncpy_loop_prefix)
    with False Suc.IH[of "s(i := t i)" "Suc i"] show ?thesis
      by (simp add: upt_add_Suc Let_def del: upt_Suc add_Suc_right fun_upd_apply)
  qed
qed

lemma strncpy_cstr: "cstr (strncpy s t n) n = cstr t n"
  using strncpy_loop_cstr[of s t 0 n] by (simp add: cstr_def strncpy_def)

lemma strncpy_outside: "n \<le> a \<Longrightarrow> strncpy s t n a = s a"
  by (simp add: strncpy_def strncpy_loop_prefix)

lemma safestrcpy_loop_props:
  "(\<exists>k. i \<le> k \<and> k \<le> i + n \<and> safestrcpy_loop s t i n k = 0 \<and>
      (\<forall>a. i \<le> a \<and> a < k \<longrightarrow> safestrcpy_loop s t i n a = t a \<and> t a \<noteq> 0) \<and>
      (k = i + n \<or> t k = 0)) \<and>
   (\<forall>a. a < i \<or> i + n < a \<longrightarrow> safestrcpy_loop s t i n a = s a)"
proof (induction n arbitrary: s i)
  case 0
  then show ?case by auto
next
  case (Suc n)
  show ?case
  proof (cases "t i = 0")
    case True
    then show ?thesis by (auto simp: Let_def intro!: exI[of _ i])
  next
    case False
    let ?r = "safestrcpy_loop (s(i := t i)) t (Suc i) n"
    from Suc.IH[of "Suc i" "s(i := t i)"] obtain k where
      k: "Suc i \<le> k" "k \<le> Suc i + n" "?r k = 0" "k = Suc i + n \<or> t k = 0"
        "\<forall>a. Suc i \<le> a \<and> a < k \<longrightarrow> ?r a = t a \<and> t a \<noteq> 0"
      and out: "\<forall>a. a < Suc i \<or> Suc i + n < a \<longrightarrow> ?r a = (s(i := t i)) a"
      by blast
    have "\<forall>a. i \<le> a \<and> a < k \<longrightarrow> ?r a = t a \<and> t a \<noteq> 0"
      using k(5) out False by (metis Suc_leI fun_upd_same le_neq_implies_less lessI)
    with k out False show ?thesis
      by (auto simp: Let_def intro!: exI[of _ k])
  qed
qed

lemma strlen_loop_least:
  "(\<forall>j. i \<le> j \<and> j < i + n \<longrightarrow> s j \<noteq> 0) \<Longrightarrow> s (i + n) = 0 \<Longrightarrow> strlen_loop s i = Some (i + n)"
proof (induction n arbitrary: i)
  case 0
  then show ?case by (subst strlen_loop.simps) simp
next
  case (Suc n)
  have "s i \<noteq> 0" using Suc.prems(1) by simp
  moreover have "strlen_loop s (Suc i) = Some (Suc i + n)"
    using Suc.prems by (intro Suc.IH) auto
  ultimately show ?case by (subst strlen_loop.simps) simp
qed

text \<open>
  C38. \<^verbatim>\<open>memmove\<close> of the kernel and of the user library, and
  \<^verbatim>\<open>memcpy\<close>, move the old contents of the source to the destination
  for every pair of ranges, overlapping or not, and change nothing else.
\<close>

theorem memmove_correct:
  "memmove m d s n = moved m d s n \<and> memcpy m d s n = moved m d s n \<and>
   ulib_memmove m d s n = moved m d s n"
  by (simp add: memmove_moved ulib_memmove_moved memcpy_def)

text \<open>
  A name stored with \<^verbatim>\<open>strncpy\<close> in a field of \<open>n\<close> bytes is the
  one \<^verbatim>\<open>strncmp\<close> finds there, and no byte past the field changes.
\<close>

theorem strncpy_strncmp_roundtrip:
  "strncmp t (strncpy s t n) n = 0 \<and>
   (strncmp u (strncpy s t n) n = 0 \<longleftrightarrow> cstr u n = cstr t n) \<and>
   (\<forall>a. strncpy s t n (n + a) = s (n + a))"
  by (simp add: strncmp_zero strncpy_cstr strncpy_outside)

text \<open>
  \<^verbatim>\<open>safestrcpy\<close> into a buffer of \<open>n > 0\<close> bytes leaves a
  NUL-terminated string in it, the source string cut to \<open>n - 1\<close> bytes, and
  writes nothing outside the buffer.
\<close>

theorem safestrcpy_terminates:
  assumes "0 < n"
  shows "(\<exists>k<n. safestrcpy s t (int n) k = 0 \<and> (k = n - 1 \<or> t k = 0) \<and>
            (\<forall>a<k. safestrcpy s t (int n) a = t a \<and> t a \<noteq> 0)) \<and>
         (\<forall>a. safestrcpy s t (int n) (n + a) = s (n + a))"
proof -
  obtain k where n: "n = Suc k" using assms by (cases n) auto
  then have eq: "safestrcpy s t (int n) = safestrcpy_loop s t 0 k"
    by (simp add: safestrcpy_def)
  show ?thesis
    using safestrcpy_loop_props[of 0 k s t] unfolding eq unfolding n
    by (auto simp: less_Suc_eq_le)
qed

theorem safestrcpy_terminates_witness:
  "\<exists>k<(4::nat). safestrcpy (\<lambda>_. 7) (\<lambda>_. 65) (int 4) k = 0 \<and>
      safestrcpy (\<lambda>_. 7) (\<lambda>_. 65) (int 4) 4 = 7"
proof -
  have "0 < (4::nat)" by simp
  from safestrcpy_terminates[OF this, of "\<lambda>_. 7" "\<lambda>_. 65"]
  have "\<exists>k<4. safestrcpy (\<lambda>_. 7) (\<lambda>_. 65) (int 4) k = 0"
    and "\<forall>a. safestrcpy (\<lambda>_. 7) (\<lambda>_. 65) (int 4) (4 + a) = 7" by blast+
  moreover from this(2)[THEN spec, of 0] have "safestrcpy (\<lambda>_. 7) (\<lambda>_. 65) (int 4) 4 = 7" by simp
  ultimately show ?thesis by blast
qed

end
