(* ===== verification/Printf.thy ===== *)
theory Printf
  imports Klib
begin

text \<open>
  Formatted output: \<^verbatim>\<open>kernel/printf.c\<close> and the user library's
  \<^verbatim>\<open>user/printf.c\<close>. The routines send characters one at a time to the console
  or to a file descriptor; here they return the list of characters sent. The two files have
  digit tables of their own (lower and upper case): the argument \<open>dg\<close> of the kernel's routines, which
  the theorems instantiate. Each file's conversions and loop are translated on their own, and both are
  proved to send what a third definition, of what a format string means, prescribes.

  A format string is the list of its bytes before the terminating null byte. The variable
  arguments are a list; the outcome \<open>None\<close> is a call with too few arguments or with
  arguments of the wrong kind, which C leaves undefined.
\<close>

section \<open>Characters\<close>

definition ch :: "char \<Rightarrow> byte" where "ch c = of_char c"

definition str :: "string \<Rightarrow> byte list" where "str s = map ch s"

definition kdigits :: "byte list" where "kdigits = str ''0123456789abcdef''"
definition udigits :: "byte list" where "udigits = str ''0123456789ABCDEF''"

section \<open>Integers\<close>

text \<open>
  The digits of \<open>x\<close>, the last one first: the contents of \<^verbatim>\<open>buf\<close> after the loop
  of \<^verbatim>\<open>printint\<close>. The callers pass base 10 or 16; for a base below 2 the loop
  would not end.
\<close>

function int_digits :: "byte list \<Rightarrow> nat \<Rightarrow> nat \<Rightarrow> byte list" where
  "int_digits dg base x =
     dg ! (x mod base) # (if x div base = 0 \<or> base < 2 then [] else int_digits dg base (x div base))"
  by pat_completeness auto
termination int_digits
  by (relation "measure (\<lambda>(dg, base, x). x)") (auto intro!: div_less_dividend gr0I)

declare int_digits.simps [simp del]

definition printint :: "byte list \<Rightarrow> 64 word \<Rightarrow> nat \<Rightarrow> bool \<Rightarrow> byte list" where
  "printint dg xx base sign =
     (let neg = sign \<and> sint xx < 0;
          x = (if neg then unat (- xx) else unat xx);
          buf = int_digits dg base x
      in rev (if neg then buf @ [ch CHR ''-''] else buf))"

text \<open>The loop of \<^verbatim>\<open>printptr\<close> for \<open>i\<close> more digits.\<close>

fun ptr_digits :: "byte list \<Rightarrow> nat \<Rightarrow> 64 word \<Rightarrow> byte list" where
  "ptr_digits dg 0 x = []"
| "ptr_digits dg (Suc i) x = dg ! unat (drop_bit 60 x) # ptr_digits dg i (push_bit 4 x)"

definition printptr :: "byte list \<Rightarrow> 64 word \<Rightarrow> byte list" where
  "printptr dg x = ch CHR ''0'' # ch CHR ''x'' # ptr_digits dg 16 x"

text \<open>The routines of the user library, with their own table.\<close>

definition uprintint :: "64 word \<Rightarrow> nat \<Rightarrow> bool \<Rightarrow> byte list" where
  "uprintint xx base sg =
     (let (neg, x) = (if sg \<and> sint xx < 0 then (True, unat (- xx)) else (False, unat xx));
          buf = int_digits udigits base x;
          buf = (if neg then buf @ [ch CHR ''-''] else buf)
      in rev buf)"

definition uprintptr :: "64 word \<Rightarrow> byte list" where
  "uprintptr x = [ch CHR ''0'', ch CHR ''x''] @ ptr_digits udigits 16 x"

section \<open>Format strings\<close>

text \<open>The arguments of a call: 64-bit registers, and strings (\<open>None\<close> is the null pointer).\<close>

datatype va = VInt "64 word" | VStr "byte list option"

text \<open>\<^verbatim>\<open>va_arg\<close> at the types int, uint32, uint64 and char pointer.\<close>

fun va_int :: "va list \<Rightarrow> (64 word \<times> va list) option" where
  "va_int (VInt w # r) = Some (scast (ucast w :: 32 word), r)"
| "va_int _ = None"

fun va_uint32 :: "va list \<Rightarrow> (64 word \<times> va list) option" where
  "va_uint32 (VInt w # r) = Some (ucast (ucast w :: 32 word), r)"
| "va_uint32 _ = None"

fun va_uint64 :: "va list \<Rightarrow> (64 word \<times> va list) option" where
  "va_uint64 (VInt w # r) = Some (w, r)"
| "va_uint64 _ = None"

fun va_str :: "va list \<Rightarrow> (byte list option \<times> va list) option" where
  "va_str (VStr p # r) = Some (p, r)"
| "va_str _ = None"

text \<open>
  What \<^verbatim>\<open>%c\<close> sends: the kernel's \<^verbatim>\<open>consputc\<close> takes the code 0x100 as a
  request to erase the last character, the user library's \<^verbatim>\<open>putc\<close> sends a byte.
\<close>

definition cons_chars :: "64 word \<Rightarrow> byte list" where
  "cons_chars c = (if c = 0x100 then [8, 32, 8] else [ucast c])"

definition put_chars :: "64 word \<Rightarrow> byte list" where
  "put_chars c = [ucast c]"

text \<open>The character at an index of a string, 0 at its end.\<close>

definition at :: "byte list \<Rightarrow> nat \<Rightarrow> byte" where
  "at xs i = (if i < length xs then xs ! i else 0)"

text \<open>
  The kernel's conversion at the characters after a percent sign: what it sends, by how much it advances the
  index beyond the first character (\<open>None\<close> when it leaves the loop), and the arguments left.
\<close>

definition kconversion :: "byte list \<Rightarrow> va list \<Rightarrow> (byte list \<times> nat option \<times> va list) option" where
  "kconversion rest ap =
     (let c0 = at rest 0;
          c1 = (if c0 \<noteq> 0 then at rest 1 else 0);
          c2 = (if c1 \<noteq> 0 then at rest 2 else 0);
          l = ch CHR ''l''; d = ch CHR ''d''; u = ch CHR ''u''; x = ch CHR ''x'' in
      if c0 = d then map_option (\<lambda>(v, ap). (printint kdigits v 10 True, Some 0, ap)) (va_int ap)
      else if c0 = l \<and> c1 = d then map_option (\<lambda>(v, ap). (printint kdigits v 10 True, Some 1, ap)) (va_uint64 ap)
      else if c0 = l \<and> c1 = l \<and> c2 = d then map_option (\<lambda>(v, ap). (printint kdigits v 10 True, Some 2, ap)) (va_uint64 ap)
      else if c0 = u then map_option (\<lambda>(v, ap). (printint kdigits v 10 False, Some 0, ap)) (va_uint32 ap)
      else if c0 = l \<and> c1 = u then map_option (\<lambda>(v, ap). (printint kdigits v 10 False, Some 1, ap)) (va_uint64 ap)
      else if c0 = l \<and> c1 = l \<and> c2 = u then map_option (\<lambda>(v, ap). (printint kdigits v 10 False, Some 2, ap)) (va_uint64 ap)
      else if c0 = x then map_option (\<lambda>(v, ap). (printint kdigits v 16 False, Some 0, ap)) (va_uint32 ap)
      else if c0 = l \<and> c1 = x then map_option (\<lambda>(v, ap). (printint kdigits v 16 False, Some 1, ap)) (va_uint64 ap)
      else if c0 = l \<and> c1 = l \<and> c2 = x then map_option (\<lambda>(v, ap). (printint kdigits v 16 False, Some 2, ap)) (va_uint64 ap)
      else if c0 = ch CHR ''p'' then map_option (\<lambda>(v, ap). (printptr kdigits v, Some 0, ap)) (va_uint64 ap)
      else if c0 = ch CHR ''c'' then map_option (\<lambda>(v, ap). (cons_chars v, Some 0, ap)) (va_uint32 ap)
      else if c0 = ch CHR ''s'' then
        map_option (\<lambda>(p, ap). (case p of None \<Rightarrow> str ''(null)'' | Some t \<Rightarrow> t, Some 0, ap)) (va_str ap)
      else if c0 = ch CHR ''%'' then Some ([ch CHR ''%''], Some 0, ap)
      else if c0 = 0 then Some ([], None, ap)
      else Some ([ch CHR ''%'', c0], Some 0, ap))"

text \<open>The kernel's loop.\<close>

function vprintfmt :: "byte list \<Rightarrow> va list \<Rightarrow> byte list option" where
  "vprintfmt [] ap = Some []"
| "vprintfmt (cx # rest) ap =
     (if cx \<noteq> ch CHR ''%'' then map_option ((#) cx) (vprintfmt rest ap)
      else case kconversion rest ap of
        None \<Rightarrow> None
      | Some (out, None, ap) \<Rightarrow> Some out
      | Some (out, Some k, ap) \<Rightarrow> map_option (\<lambda>t. out @ t) (vprintfmt (drop (k + 1) rest) ap))"
  by pat_completeness auto
termination vprintfmt
  by (relation "measure (\<lambda>(fmt, ap). length fmt)") auto

text \<open>
  The conversion of the user library, which looks at the character \<open>c0\<close> of the loop and at those after it.
\<close>

definition uconversion :: "byte \<Rightarrow> byte list \<Rightarrow> va list \<Rightarrow> (byte list \<times> nat \<times> va list) option" where
  "uconversion c0 rest ap =
     (let c1 = (if c0 \<noteq> 0 then at rest 0 else 0);
          c2 = (if c1 \<noteq> 0 then at rest 1 else 0);
          l = ch CHR ''l''; d = ch CHR ''d''; u = ch CHR ''u''; x = ch CHR ''x'' in
      if c0 = d then map_option (\<lambda>(v, ap). (uprintint v 10 True, 0, ap)) (va_int ap)
      else if c0 = l \<and> c1 = d then map_option (\<lambda>(v, ap). (uprintint v 10 True, 1, ap)) (va_uint64 ap)
      else if c0 = l \<and> c1 = l \<and> c2 = d then map_option (\<lambda>(v, ap). (uprintint v 10 True, 2, ap)) (va_uint64 ap)
      else if c0 = u then map_option (\<lambda>(v, ap). (uprintint v 10 False, 0, ap)) (va_uint32 ap)
      else if c0 = l \<and> c1 = u then map_option (\<lambda>(v, ap). (uprintint v 10 False, 1, ap)) (va_uint64 ap)
      else if c0 = l \<and> c1 = l \<and> c2 = u then map_option (\<lambda>(v, ap). (uprintint v 10 False, 2, ap)) (va_uint64 ap)
      else if c0 = x then map_option (\<lambda>(v, ap). (uprintint v 16 False, 0, ap)) (va_uint32 ap)
      else if c0 = l \<and> c1 = x then map_option (\<lambda>(v, ap). (uprintint v 16 False, 1, ap)) (va_uint64 ap)
      else if c0 = l \<and> c1 = l \<and> c2 = x then map_option (\<lambda>(v, ap). (uprintint v 16 False, 2, ap)) (va_uint64 ap)
      else if c0 = ch CHR ''p'' then map_option (\<lambda>(v, ap). (uprintptr v, 0, ap)) (va_uint64 ap)
      else if c0 = ch CHR ''c'' then map_option (\<lambda>(v, ap). (put_chars v, 0, ap)) (va_uint32 ap)
      else if c0 = ch CHR ''s'' then
        map_option (\<lambda>(p, ap). (case p of None \<Rightarrow> str ''(null)'' | Some t \<Rightarrow> t, 0, ap)) (va_str ap)
      else if c0 = ch CHR ''%'' then Some ([ch CHR ''%''], 0, ap)
      else Some ([ch CHR ''%'', c0], 0, ap))"

text \<open>
  The loop of the user library, with its \<^verbatim>\<open>state\<close> (whether a percent sign was just
  read).
\<close>

function vprintf :: "bool \<Rightarrow> byte list \<Rightarrow> va list \<Rightarrow> byte list option" where
  "vprintf st [] ap = Some []"
| "vprintf st (c0 # rest) ap =
     (if \<not> st then
        if c0 = ch CHR ''%'' then vprintf True rest ap
        else map_option ((#) c0) (vprintf False rest ap)
      else case uconversion c0 rest ap of
        None \<Rightarrow> None
      | Some (out, k, ap) \<Rightarrow> map_option (\<lambda>t. out @ t) (vprintf False (drop k rest) ap))"
  by pat_completeness auto
termination vprintf
  by (relation "measure (\<lambda>(st, fmt, ap). length fmt)") auto

section \<open>Log messages\<close>

text \<open>
  \<^verbatim>\<open>enum log_level\<close> is an unsigned 32-bit integer; a system call can set any value.
\<close>

definition LOG_INFO :: nat where "LOG_INFO = 0"
definition LOG_WARN :: nat where "LOG_WARN = 1"
definition LOG_ERR :: nat where "LOG_ERR = 2"
definition LOG_DEBUG :: nat where "LOG_DEBUG = 3"

definition print_level_prefix :: "nat \<Rightarrow> 64 word \<Rightarrow> 64 word \<Rightarrow> byte list" where
  "print_level_prefix level cpu time =
     (let levels = [str ''INFO'', str ''WARN'', str ''ERROR'', str ''DEBUG''];
          tag = (if level < length levels then levels ! level else str ''INFO'')
      in str ''[Hai-OS h'' @ printint kdigits cpu 10 False @ str '' t'' @ printint kdigits time 10 False @
         str '' '' @ tag @ str ''] '')"

text \<open>
  \<open>cur_level\<close> is \<^verbatim>\<open>current_log_level\<close>; the CPU number and the time are read from
  registers.
\<close>

definition klog ::
    "nat \<Rightarrow> nat \<Rightarrow> 64 word \<Rightarrow> 64 word \<Rightarrow> byte list \<Rightarrow> va list \<Rightarrow> byte list option" where
  "klog cur_level level cpu time fmt ap =
     (if level < cur_level then Some []
      else map_option (\<lambda>t. print_level_prefix level cpu time @ t @ [10]) (vprintfmt fmt ap))"

section \<open>Correctness\<close>

text \<open>
  Reading a printed number back: the value of a digit is its place in the table, and a
  number is a sequence of digits, perhaps after a minus sign.
\<close>

definition digit_val :: "byte list \<Rightarrow> byte \<Rightarrow> nat" where
  "digit_val dg c = length (takeWhile (\<lambda>d. d \<noteq> c) dg)"

definition parse_nat :: "byte list \<Rightarrow> nat \<Rightarrow> byte list \<Rightarrow> nat" where
  "parse_nat dg base cs = foldl (\<lambda>a c. a * base + digit_val dg c) 0 cs"

definition parse_int :: "byte list \<Rightarrow> nat \<Rightarrow> byte list \<Rightarrow> int" where
  "parse_int dg base cs =
     (if cs \<noteq> [] \<and> hd cs = ch CHR ''-'' then - int (parse_nat dg base (tl cs)) else int (parse_nat dg base cs))"

text \<open>A digit table for a base: enough distinct digits, none of them the minus sign.\<close>

definition digit_table :: "byte list \<Rightarrow> nat \<Rightarrow> bool" where
  "digit_table dg base \<longleftrightarrow> 2 \<le> base \<and> base \<le> length dg \<and> distinct dg \<and> ch CHR ''-'' \<notin> set dg"

lemma digit_tables:
  "base = 10 \<or> base = 16 \<Longrightarrow> digit_table kdigits base"
  "base = 10 \<or> base = 16 \<Longrightarrow> digit_table udigits base"
  by (auto simp: digit_table_def kdigits_def udigits_def str_def ch_def)

lemma digit_val_nth:
  assumes "distinct dg" "i < length dg"
  shows "digit_val dg (dg ! i) = i"
proof -
  have "takeWhile (\<lambda>d. d \<noteq> dg ! i) dg = take i dg"
    using assms by (intro takeWhile_eq_take_P_nth) (auto simp: nth_eq_iff_index_eq)
  then show ?thesis using assms(2) by (simp add: digit_val_def)
qed

lemma int_digits_set: "digit_table dg base \<Longrightarrow> set (int_digits dg base x) \<subseteq> set dg"
proof (induction dg base x rule: int_digits.induct)
  case (1 dg base x)
  have "x mod base < length dg" using 1(2) by (auto simp: digit_table_def intro: less_le_trans[OF mod_less_divisor])
  then show ?case using 1 by (subst int_digits.simps) (auto split: if_splits)
qed

lemma int_digits_value:
  assumes "digit_table dg base"
  shows "parse_nat dg base (rev (int_digits dg base x)) = x"
  using assms
proof (induction dg base x rule: int_digits.induct)
  case (1 dg base x)
  have b: "2 \<le> base" "distinct dg" and lt: "x mod base < length dg"
    using 1(2) by (auto simp: digit_table_def intro: less_le_trans[OF mod_less_divisor])
  have d: "digit_val dg (dg ! (x mod base)) = x mod base" by (rule digit_val_nth[OF b(2) lt])
  show ?case
  proof (cases "x div base = 0")
    case True
    then have "x mod base = x" by (metis div_mult_mod_eq mult_zero_left add_0)
    then show ?thesis using True d by (subst int_digits.simps) (simp add: parse_nat_def)
  next
    case False
    then have "parse_nat dg base (rev (int_digits dg base (x div base))) = x div base"
      using 1 b by simp
    then show ?thesis using False b d by (subst int_digits.simps) (simp add: parse_nat_def)
  qed
qed

lemma int_digits_length: "2 \<le> base \<Longrightarrow> x < base ^ Suc n \<Longrightarrow> length (int_digits dg base x) \<le> Suc n"
proof (induction n arbitrary: x)
  case 0
  then show ?case by (subst int_digits.simps) simp
next
  case (Suc n)
  have "x div base < base ^ Suc n"
    using Suc.prems by (simp add: div_less_iff_less_mult ac_simps)
  from Suc.IH[OF Suc.prems(1) this] show ?case by (subst int_digits.simps) simp
qed

lemma sint_bounds: "- (2 ^ 63) \<le> sint (xx :: 64 word)" "sint xx < 2 ^ 63"
  using sint_range_size[of xx] by (simp_all add: word_size)

lemma uint_neg:
  assumes "sint (xx :: 64 word) < 0"
  shows "uint (- xx) = - sint xx"
proof -
  have "- xx = word_of_int (- sint xx)" by (simp add: wi_hom_neg)
  then have "uint (- xx) = (- sint xx) mod 2 ^ 64"
    by (simp only: uint_word_of_int) simp
  moreover have "0 \<le> - sint xx" "- sint xx < 2 ^ 64"
    using assms sint_bounds[of xx] by simp_all
  ultimately show ?thesis by simp
qed

lemma unat_nonneg:
  assumes "0 \<le> sint (xx :: 64 word)"
  shows "int (unat xx) = sint xx"
proof -
  have "uint xx = sint xx mod 2 ^ 64" by (simp add: uint_sint take_bit_eq_mod)
  then show ?thesis using assms sint_bounds[of xx] by simp
qed

lemma int_digits_nonempty: "int_digits dg base x \<noteq> []"
  by (subst int_digits.simps) simp

text \<open>The representation of a number in a base, the most significant digit first.\<close>

fun nat_digits :: "nat \<Rightarrow> nat \<Rightarrow> nat list" where
  "nat_digits base n = (if n < base \<or> base < 2 then [n mod base] else nat_digits base (n div base) @ [n mod base])"

declare nat_digits.simps [simp del]

definition num_text :: "byte list \<Rightarrow> nat \<Rightarrow> int \<Rightarrow> byte list" where
  "num_text dg base v = (if v < 0 then [ch CHR ''-''] else []) @ map ((!) dg) (nat_digits base (nat \<bar>v\<bar>))"

lemma int_digits_nat_digits: "2 \<le> base \<Longrightarrow> rev (int_digits dg base x) = map ((!) dg) (nat_digits base x)"
proof (induction base x rule: nat_digits.induct)
  case (1 base n)
  have "n div base = 0 \<longleftrightarrow> n < base" using 1(2) by (auto simp: div_eq_0_iff)
  then show ?case
    using 1 by (subst nat_digits.simps, subst int_digits.simps) (auto simp: not_less)
qed

lemma nat_digits_lead: "2 \<le> base \<Longrightarrow> nat_digits base n \<noteq> [] \<and> (0 < n \<longrightarrow> hd (nat_digits base n) \<noteq> 0) \<and>
    set (nat_digits base n) \<subseteq> {..<base}"
proof (induction base n rule: nat_digits.induct)
  case (1 base n)
  show ?case
  proof (cases "n < base")
    case False
    then have "0 < n div base" using 1(2) by (simp add: div_greater_zero_iff)
    then show ?thesis using 1 False by (subst (1 2 3) nat_digits.simps) auto
  qed (use 1 in \<open>subst (1 2 3) nat_digits.simps, auto\<close>)
qed

lemma printint_text:
  assumes "2 \<le> base"
  shows "printint dg xx base sign = num_text dg base (if sign then sint xx else uint xx)"
proof (cases "sign \<and> sint xx < 0")
  case True
  then have "nat \<bar>sint xx\<bar> = unat (- xx)" using uint_neg[of xx] by (simp add: unat_eq_nat_uint)
  then show ?thesis using True int_digits_nat_digits[OF assms] by (simp add: printint_def num_text_def)
next
  case False
  let ?v = "if sign then sint xx else uint xx"
  have v: "int (unat xx) = ?v" using False unat_nonneg[of xx] by auto
  then have "nat \<bar>?v\<bar> = unat xx" "\<not> ?v < 0" by linarith+
  then have "num_text dg base ?v = rev (int_digits dg base (unat xx))"
    unfolding num_text_def int_digits_nat_digits[OF assms] by simp
  moreover have "printint dg xx base sign = rev (int_digits dg base (unat xx))"
    using False unfolding printint_def Let_def by (simp only: if_False)
  ultimately show ?thesis by simp
qed

lemma uprintint_printint: "uprintint xx base sg = printint udigits xx base sg"
  by (auto simp: uprintint_def printint_def Let_def)

text \<open>Reading a printed number back, and its length.\<close>

lemma printint_reads:
  assumes "base = 10 \<or> base = 16" and "dg = kdigits \<or> dg = udigits"
  shows "parse_int dg base (printint dg xx base sign) = (if sign then sint xx else uint xx)"
    "length (printint dg xx base sign) \<le> 20"
proof -
  have t: "digit_table dg base" using assms digit_tables by blast
  note v = int_digits_value[OF t]
  have hd: "hd (rev (int_digits dg base x)) \<noteq> ch CHR ''-''" for x
    using int_digits_set[OF t, of x] int_digits_nonempty[of dg base x] t
    by (metis digit_table_def hd_in_set rev_is_Nil_conv set_rev subsetD)
  have pos: "parse_int dg base (rev (int_digits dg base x)) = int x" for x
    using hd[of x] by (simp add: parse_int_def v)
  have neg: "parse_int dg base (rev (int_digits dg base x @ [ch CHR ''-''])) = - int x" for x
    by (simp add: parse_int_def v)
  have long: "length (int_digits dg base x) \<le> Suc 19" if "x < 2 ^ 64" for x
    using that assms(1) by (intro int_digits_length) auto
  have short: "length (int_digits dg base x) \<le> Suc 18" if "x \<le> 2 ^ 63" for x
    using that assms(1) by (intro int_digits_length) auto
  have "parse_int dg base (printint dg xx base sign) = (if sign then sint xx else uint xx) \<and>
    length (printint dg xx base sign) \<le> 20"
  proof (cases "sign \<and> sint xx < 0")
    case True
    then have "int (unat (- xx)) \<le> 2 ^ 63" using sint_bounds(1)[of xx] by (simp add: uint_neg)
    then have "unat (- xx) \<le> 2 ^ 63" by (simp only: nat_int_comparison(3) of_nat_power of_nat_numeral)
    then show ?thesis using True neg short[of "unat (- xx)"] by (simp add: printint_def uint_neg)
  next
    case False
    have "unat xx < 2 ^ 64" using unsigned_less[of xx] by simp
    moreover have "int (unat xx) = (if sign then sint xx else uint xx)"
      using False unat_nonneg[of xx] by auto
    ultimately show ?thesis using False pos long[of "unat xx"] by (auto simp: printint_def)
  qed
  then show "parse_int dg base (printint dg xx base sign) = (if sign then sint xx else uint xx)"
    "length (printint dg xx base sign) \<le> 20" by simp_all
qed

lemma digits_shape:
  fixes n :: nat
  assumes t: "digit_table dg base"
  defines "ds \<equiv> map ((!) dg) (nat_digits base n)"
  shows "ds \<noteq> []" "set ds \<subseteq> set (take base dg)" "hd ds = dg ! 0 \<longrightarrow> ds = [dg ! 0]" "parse_nat dg base ds = n"
proof -
  have b: "2 \<le> base" "base \<le> length dg" "distinct dg" using t by (auto simp: digit_table_def)
  note l = nat_digits_lead[OF b(1), of n]
  show "ds \<noteq> []" using l by (simp add: ds_def)
  have "dg ! i \<in> set (take base dg)" if "i < base" for i
    using that b(2) by (metis length_take min.absorb2 nth_mem nth_take)
  then show "set ds \<subseteq> set (take base dg)" using l by (auto simp: ds_def)
  have "hd (nat_digits base n) < base" using l by (meson hd_in_set lessThan_iff subsetD)
  then have "hd (nat_digits base n) < length dg" "0 < length dg" using b(1,2) by linarith+
  then have "dg ! hd (nat_digits base n) = dg ! 0 \<longleftrightarrow> hd (nat_digits base n) = 0"
    by (rule nth_eq_iff_index_eq[OF b(3)])
  then have "hd ds = dg ! 0 \<Longrightarrow> hd (nat_digits base n) = 0" using l by (simp add: ds_def hd_map)
  then have "hd ds = dg ! 0 \<Longrightarrow> n = 0" using l by auto
  moreover have "nat_digits base 0 = [0]" using b(1) by (subst nat_digits.simps) simp
  ultimately show "hd ds = dg ! 0 \<longrightarrow> ds = [dg ! 0]" by (auto simp: ds_def)
  show "parse_nat dg base ds = n"
    using int_digits_value[OF t, of n] int_digits_nat_digits[OF b(1), of dg n] by (simp add: ds_def)
qed

text \<open>
  C39. \<^verbatim>\<open>printint\<close> prints the number, for every 64-bit argument, both bases and both digit tables:
  a minus sign exactly when the argument is signed and negative, then a nonempty sequence of digits of the base
  without a leading zero that stands for the absolute value. Read back, the characters are the value of the
  argument, and they never exceed the 20 bytes of the buffer.
\<close>

theorem printint_correct:
  assumes "base = 10 \<or> base = 16" and "dg = kdigits \<or> dg = udigits"
  shows "(\<exists>ds. printint dg xx base sign = (if sign \<and> sint xx < 0 then ch CHR ''-'' # ds else ds) \<and>
      ds \<noteq> [] \<and> set ds \<subseteq> set (take base dg) \<and> (hd ds = ch CHR ''0'' \<longrightarrow> ds = [ch CHR ''0'']) \<and>
      int (parse_nat dg base ds) = \<bar>if sign then sint xx else uint xx\<bar>) \<and>
    parse_int dg base (printint dg xx base sign) = (if sign then sint xx else uint xx) \<and>
    length (printint dg xx base sign) \<le> 20"
proof -
  have t: "digit_table dg base" using assms digit_tables by blast
  then have b: "2 \<le> base" by (simp add: digit_table_def)
  let ?v = "if sign then sint xx else uint xx"
  let ?ds = "map ((!) dg) (nat_digits base (nat \<bar>?v\<bar>))"
  have d0: "dg ! 0 = ch CHR ''0''" using assms(2) by (auto simp: kdigits_def udigits_def str_def)
  have neg: "?v < 0 \<longleftrightarrow> sign \<and> sint xx < 0" using uint_nonnegative[of xx] by (auto simp: not_less)
  have "printint dg xx base sign = (if sign \<and> sint xx < 0 then ch CHR ''-'' # ?ds else ?ds)"
    unfolding printint_text[OF b] num_text_def neg by simp
  moreover have "int (parse_nat dg base ?ds) = \<bar>?v\<bar>" by (simp add: digits_shape(4)[OF t])
  ultimately show ?thesis
    using digits_shape(1-3)[OF t, of "nat \<bar>?v\<bar>", unfolded d0] printint_reads[OF assms, of xx sign]
    by (intro conjI exI[of _ ?ds])
qed

theorem printint_correct_witness:
  "\<exists>ds. printint kdigits (- 42) 10 True = ch CHR ''-'' # ds \<and> set ds \<subseteq> set (take 10 kdigits) \<and> parse_nat kdigits 10 ds = 42 \<and>
   parse_int kdigits 10 (printint kdigits (- 42) 10 True) = - 42"
  using printint_correct[of 10 kdigits "- 42" True] by auto

section \<open>What a format string means\<close>

text \<open>
  A format string is a sequence of directives: characters sent as they are, conversions given by the table of
  their names, and unknown sequences. A percent sign at the end of the string means nothing.
\<close>

datatype directive = Plain byte | Number nat bool bool | Pointer | Character | String | Percent | Unknown byte

text \<open>A number has a base, and is signed or not, and a \<^verbatim>\<open>long\<close> or not.\<close>

definition conversions :: "(string \<times> directive) list" where
  "conversions =
     [(''d'', Number 10 True False), (''ld'', Number 10 True True), (''lld'', Number 10 True True),
      (''u'', Number 10 False False), (''lu'', Number 10 False True), (''llu'', Number 10 False True),
      (''x'', Number 16 False False), (''lx'', Number 16 False True), (''llx'', Number 16 False True),
      (''p'', Pointer), (''c'', Character), (''s'', String), (''%'', Percent)]"

definition next_conversion :: "byte list \<Rightarrow> directive \<times> nat" where
  "next_conversion rest =
     (case find (\<lambda>(nm, _). take (length nm) rest = str nm) conversions of
        Some (nm, d) \<Rightarrow> (d, length nm - 1)
      | None \<Rightarrow> (Unknown (hd rest), 0))"

fun directives :: "byte list \<Rightarrow> directive list" where
  "directives [] = []"
| "directives (c # rest) =
     (if c \<noteq> ch CHR ''%'' then Plain c # directives rest
      else if rest = [] then []
      else case next_conversion rest of (d, k) \<Rightarrow> d # directives (drop (k + 1) rest))"

text \<open>
  The text of a directive and the arguments left: a number is written in its base with the digits \<open>dg\<close>, a pointer
  as 16 hexadecimal digits, a character as \<open>pc\<close> says.
\<close>

definition arg_value :: "bool \<Rightarrow> bool \<Rightarrow> 64 word \<Rightarrow> int" where
  "arg_value sg long w =
     (if long then (if sg then sint w else uint w)
      else (if sg then sint (ucast w :: 32 word) else uint (ucast w :: 32 word)))"

fun direct :: "byte list \<Rightarrow> (64 word \<Rightarrow> byte list) \<Rightarrow> directive \<Rightarrow> va list \<Rightarrow> (byte list \<times> va list) option" where
  "direct dg pc (Plain c) ap = Some ([c], ap)"
| "direct dg pc Percent ap = Some (str ''%'', ap)"
| "direct dg pc (Unknown c) ap = Some (str ''%'' @ [c], ap)"
| "direct dg pc (Number base sg long) (VInt w # ap) = Some (num_text dg base (arg_value sg long w), ap)"
| "direct dg pc Pointer (VInt w # ap) =
     Some (str ''0x'' @ map (\<lambda>i. dg ! (unat w div 16 ^ (15 - i) mod 16)) [0..<16], ap)"
| "direct dg pc Character (VInt w # ap) = Some (pc (ucast (ucast w :: 32 word)), ap)"
| "direct dg pc String (VStr None # ap) = Some (str ''(null)'', ap)"
| "direct dg pc String (VStr (Some t) # ap) = Some (t, ap)"
| "direct dg pc _ _ = None"

primrec render :: "byte list \<Rightarrow> (64 word \<Rightarrow> byte list) \<Rightarrow> directive list \<Rightarrow> va list \<Rightarrow> byte list option" where
  "render dg pc [] ap = Some []"
| "render dg pc (d # ds) ap =
     (case direct dg pc d ap of None \<Rightarrow> None | Some (out, ap) \<Rightarrow> map_option (\<lambda>t. out @ t) (render dg pc ds ap))"

text \<open>The directives whose text is the same in the kernel and in the user library: not hexadecimal, not \<^verbatim>\<open>%c\<close>.\<close>

fun common :: "directive \<Rightarrow> bool" where
  "common (Number base sg long) \<longleftrightarrow> base = 10"
| "common Pointer \<longleftrightarrow> False"
| "common Character \<longleftrightarrow> False"
| "common _ \<longleftrightarrow> True"

lemma ptr_digits_map: "ptr_digits dg n x = map (\<lambda>i. dg ! unat (drop_bit 60 (push_bit (4 * i) x))) [0..<n]"
proof (induction n arbitrary: x)
  case (Suc n)
  have "[0..<Suc n] = 0 # map Suc [0..<n]" by (simp add: upt_conv_Cons map_Suc_upt del: upt_Suc)
  then show ?case by (simp add: Suc comp_def ac_simps del: upt_Suc)
qed simp

lemma top_digit:
  fixes x :: "64 word"
  assumes "i < 16"
  shows "unat (drop_bit 60 (push_bit (4 * i) x)) = unat x div 16 ^ (15 - i) mod 16"
proof -
  have k: "60 - 4 * i = 4 * (15 - i)" by simp
  have "unat (drop_bit 60 (push_bit (4 * i) x)) = drop_bit 60 (take_bit 64 (push_bit (4 * i) (unat x)))"
    by (simp add: unsigned_drop_bit_eq unsigned_push_bit_eq)
  also have "\<dots> = take_bit 4 (drop_bit (60 - 4 * i) (unat x))"
    using assms by (intro bit_eqI) (auto simp: bit_simps)
  also have "\<dots> = unat x div 16 ^ (15 - i) mod 16"
    by (simp add: k take_bit_eq_mod drop_bit_eq_div power_mult)
  finally show ?thesis .
qed

lemma printptr_text: "printptr dg w = str ''0x'' @ map (\<lambda>i. dg ! (unat w div 16 ^ (15 - i) mod 16)) [0..<16]"
proof -
  have "ptr_digits dg 16 w = map (\<lambda>i. dg ! (unat w div 16 ^ (15 - i) mod 16)) [0..<16]"
    unfolding ptr_digits_map by (intro map_cong refl) (simp add: top_digit)
  then show ?thesis by (simp add: printptr_def str_def)
qed

lemma uprintptr_printptr: "uprintptr x = printptr udigits x"
  by (simp add: uprintptr_def printptr_def)

text \<open>The conversions, argument by argument; \<open>n\<close> is by how much the index advances.\<close>

lemma va_casts:
  "sint (scast (ucast w :: 32 word) :: 64 word) = sint (ucast w :: 32 word)"
  "uint (ucast (ucast w :: 32 word) :: 64 word) = uint (ucast w :: 32 word)"
  for w :: "64 word"
  by (simp_all add: sint_up_scast uint_up_ucast is_up)

lemma va_direct:
  assumes "2 \<le> b"
  shows "map_option (\<lambda>(v, ap). (printint dg v b True, n, ap)) (va_int ap) =
      map_option (\<lambda>(t, ap). (t, n, ap)) (direct dg pc (Number b True False) ap)"
    "map_option (\<lambda>(v, ap). (printint dg v b False, n, ap)) (va_uint32 ap) =
      map_option (\<lambda>(t, ap). (t, n, ap)) (direct dg pc (Number b False False) ap)"
    "map_option (\<lambda>(v, ap). (printint dg v b sg, n, ap)) (va_uint64 ap) =
      map_option (\<lambda>(t, ap). (t, n, ap)) (direct dg pc (Number b sg True) ap)"
  by (cases ap rule: va_int.cases; simp add: printint_text[OF assms] arg_value_def va_casts)+

lemma va_direct_others:
  "map_option (\<lambda>(v, ap). (printptr dg v, n, ap)) (va_uint64 ap) =
    map_option (\<lambda>(t, ap). (t, n, ap)) (direct dg pc Pointer ap)"
  "map_option (\<lambda>(v, ap). (pc v, n, ap)) (va_uint32 ap) =
    map_option (\<lambda>(t, ap). (t, n, ap)) (direct dg pc Character ap)"
  "map_option (\<lambda>(p, ap). (case p of None \<Rightarrow> str ''(null)'' | Some t \<Rightarrow> t, n, ap)) (va_str ap) =
    map_option (\<lambda>(t, ap). (t, n, ap)) (direct dg pc String ap)"
  by (cases ap rule: va_int.cases; simp add: printptr_text del: upt_Suc split: option.split)+

text \<open>The table of conversions, read as a chain of tests on the next characters of a string without null bytes.\<close>

lemma take_str:
  assumes "0 \<notin> set r" "ch a \<noteq> 0" "ch b \<noteq> 0"
  shows "take (length [x]) (c0 # r) = str [x] \<longleftrightarrow> c0 = ch x"
    "take (length [x, a]) (c0 # r) = str [x, a] \<longleftrightarrow> c0 = ch x \<and> at r 0 = ch a"
    "take (length [x, a, b]) (c0 # r) = str [x, a, b] \<longleftrightarrow> c0 = ch x \<and> at r 0 = ch a \<and> at r 1 = ch b"
  using assms by (cases r; cases "tl r"; auto simp: str_def at_def)+

lemma next_conversion_tests:
  assumes "0 \<notin> set r"
  shows "next_conversion (c0 # r) =
    (let c1 = at r 0; c2 = at r 1; l = ch CHR ''l''; d = ch CHR ''d''; u = ch CHR ''u''; x = ch CHR ''x'' in
     if c0 = d then (Number 10 True False, 0) else if c0 = l \<and> c1 = d then (Number 10 True True, 1)
     else if c0 = l \<and> c1 = l \<and> c2 = d then (Number 10 True True, 2)
     else if c0 = u then (Number 10 False False, 0) else if c0 = l \<and> c1 = u then (Number 10 False True, 1)
     else if c0 = l \<and> c1 = l \<and> c2 = u then (Number 10 False True, 2)
     else if c0 = x then (Number 16 False False, 0) else if c0 = l \<and> c1 = x then (Number 16 False True, 1)
     else if c0 = l \<and> c1 = l \<and> c2 = x then (Number 16 False True, 2)
     else if c0 = ch CHR ''p'' then (Pointer, 0) else if c0 = ch CHR ''c'' then (Character, 0)
     else if c0 = ch CHR ''s'' then (String, 0) else if c0 = ch CHR ''%'' then (Percent, 0)
     else (Unknown c0, 0))"
proof -
  have nz: "ch CHR ''l'' \<noteq> 0" "ch CHR ''d'' \<noteq> 0" "ch CHR ''u'' \<noteq> 0" "ch CHR ''x'' \<noteq> 0" by (simp_all add: ch_def)
  note T = take_str[OF assms]
  show ?thesis
    unfolding next_conversion_def conversions_def find.simps prod.case T(1)[OF nz(1,1)]
      T(2)[OF nz(2,1)] T(2)[OF nz(3,1)] T(2)[OF nz(4,1)] T(3)[OF nz(1,2)] T(3)[OF nz(1,3)] T(3)[OF nz(1,4)] Let_def
    by (simp only: if_distrib[where f = "case_option _ _"] option.case prod.case list.size list.sel
        One_nat_def numeral_2_eq_2 add_Suc_right add_0_right diff_Suc_Suc minus_nat.diff_0)
qed

lemma at_Cons: "at (c # r) 0 = c" "at (c # r) 1 = at r 0" "at (c # r) 2 = at r 1"
  by (simp_all add: at_def)

lemma at_guard: "0 \<notin> set r \<Longrightarrow> (if at r 0 \<noteq> 0 then at r 1 else 0) = at r 1"
  by (cases r) (auto simp: at_def)

lemma bases: "2 \<le> (10 :: nat)" "2 \<le> (16 :: nat)" by simp_all

lemma kconversion_direct:
  assumes "c0 \<noteq> 0" "0 \<notin> set r"
  shows "kconversion (c0 # r) ap =
    (case next_conversion (c0 # r) of (d, k) \<Rightarrow> map_option (\<lambda>(t, ap). (t, Some k, ap)) (direct kdigits cons_chars d ap))"
  unfolding next_conversion_tests[OF assms(2)] kconversion_def Let_def at_Cons if_P[OF assms(1)] at_guard[OF assms(2)]
    if_not_P[OF assms(1)] va_direct_others[where pc = cons_chars and dg = kdigits]
    va_direct[OF bases(1), where pc = cons_chars] va_direct[OF bases(2), where pc = cons_chars]
  by (simp only: if_distrib[where f = "case_prod _"] prod.case direct.simps option.map assms(1) str_def list.map append.simps if_False)

lemma uconversion_direct:
  assumes "c0 \<noteq> 0" "0 \<notin> set r"
  shows "uconversion c0 r ap =
    (case next_conversion (c0 # r) of (d, k) \<Rightarrow> map_option (\<lambda>(t, ap). (t, k, ap)) (direct udigits put_chars d ap))"
  unfolding next_conversion_tests[OF assms(2)] uconversion_def Let_def if_P[OF assms(1)] at_guard[OF assms(2)]
    uprintint_printint uprintptr_printptr
    va_direct_others[where pc = put_chars and dg = udigits]
    va_direct[OF bases(1), where pc = put_chars] va_direct[OF bases(2), where pc = put_chars]
  by (simp only: if_distrib[where f = "case_prod _"] prod.case direct.simps option.map str_def list.map append.simps)

lemma num_text_decimal: "num_text kdigits 10 v = num_text udigits 10 v"
proof -
  have "take 10 kdigits = take 10 udigits" by (simp add: kdigits_def udigits_def str_def)
  then have "kdigits ! i = udigits ! i" if "i < 10" for i using that nth_take by metis
  then have "map ((!) kdigits) ds = map ((!) udigits) ds" if "set ds \<subseteq> {..<10}" for ds
    using that by (intro map_cong refl) auto
  from this[of "nat_digits 10 (nat \<bar>v\<bar>)"] show ?thesis
    using nat_digits_lead[OF bases(1), of "nat \<bar>v\<bar>"] by (simp only: num_text_def)
qed

lemma direct_common:
  assumes "common d"
  shows "direct kdigits cons_chars d ap = direct udigits put_chars d ap"
proof (cases d)
  case (Number b sg l)
  then have "b = 10" using assms by simp
  then show ?thesis by (cases ap rule: va_int.cases) (simp_all add: Number num_text_decimal)
next
  case String
  then show ?thesis by (cases "(kdigits, cons_chars, String, ap)" rule: direct.cases) simp_all
qed (use assms in simp_all)

lemma render_common: "\<forall>d \<in> set ds. common d \<Longrightarrow> render kdigits cons_chars ds ap = render udigits put_chars ds ap"
  by (induction ds arbitrary: ap) (simp_all add: direct_common split: option.split)

lemma append_one: "(@) [c] = (#) c"
  by (simp add: fun_eq_iff)

lemma vprintfmt_render: "0 \<notin> set fmt \<Longrightarrow> vprintfmt fmt ap = render kdigits cons_chars (directives fmt) ap"
proof (induction fmt ap rule: vprintfmt.induct)
  case (2 cx rest ap)
  show ?case
  proof (cases "cx = ch CHR ''%'' \<and> rest \<noteq> []")
    case True
    then obtain c0 r where r: "rest = c0 # r" by (cases rest) auto
    have nz: "c0 \<noteq> 0" "0 \<notin> set r" using 2(3) r by auto
    obtain d k where n: "next_conversion rest = (d, k)" by (cases "next_conversion rest")
    show ?thesis
    proof (cases "direct kdigits cons_chars d ap")
      case None
      then show ?thesis using True kconversion_direct[OF nz, of ap] n r by simp
    next
      case (Some q)
      obtain t ap' where q: "q = (t, ap')" by (cases q)
      have c: "kconversion rest ap = Some (t, Some k, ap')" using Some q kconversion_direct[OF nz, of ap] n r by simp
      have "0 \<notin> set (drop (k + 1) rest)" using 2(3) by (auto dest: in_set_dropD)
      from 2(2)[OF _ c refl refl refl this] True have
        "vprintfmt (drop (k + 1) rest) ap' = render kdigits cons_chars (directives (drop (k + 1) rest)) ap'" by simp
      then show ?thesis using True c n Some q by simp
    qed
  qed (use 2(1,3) in \<open>auto simp: kconversion_def at_def Let_def ch_def append_one\<close>)
qed simp

lemma vprintf_render: "0 \<notin> set fmt \<Longrightarrow> vprintf False fmt ap = render udigits put_chars (directives fmt) ap"
proof (induction fmt arbitrary: ap rule: directives.induct)
  case (2 c rest)
  show ?case
  proof (cases "c = ch CHR ''%'' \<and> rest \<noteq> []")
    case True
    then obtain c0 r where r: "rest = c0 # r" by (cases rest) auto
    have nz: "c0 \<noteq> 0" "0 \<notin> set r" using 2(3) r by auto
    obtain d k where n: "next_conversion rest = (d, k)" by (cases "next_conversion rest")
    have "0 \<notin> set (drop (k + 1) rest)" using 2(3) by (auto dest: in_set_dropD)
    from 2(2)[OF _ _ n[symmetric] this] True have
      "vprintf False (drop k r) ap' = render udigits put_chars (directives (drop (k + 1) rest)) ap'" for ap'
      by (simp add: r)
    then show ?thesis
      using True n r uconversion_direct[OF nz, of ap] by (auto split: option.split)
  qed (use 2(1,3) in \<open>auto simp: append_one\<close>)
qed simp



end
