(* ===== verification/Kalloc.thy ===== *)
theory Kalloc
  imports Klib
begin

text \<open>
  The physical page allocator, \<^verbatim>\<open>kernel/kalloc.c\<close>: a list of free pages
  threaded through the pages themselves, a reference count per page (pages are shared
  by copy-on-write), free-page statistics and the low-memory warnings. The state is
  the record \<open>kmem_state\<close>: physical memory, the linker symbol
  \<^verbatim>\<open>end\<close>, the fields of \<^verbatim>\<open>kmem\<close> and \<^verbatim>\<open>refcnt\<close>. The
  log lines \<^verbatim>\<open>klog\<close> prints are not part of the state; the flags that
  decide them are.
\<close>

section \<open>Layout\<close>

definition PGSIZE :: nat where "PGSIZE = 4096"
definition KERNBASE :: nat where "KERNBASE = 0x80000000"
definition PHYSTOP :: nat where "PHYSTOP = KERNBASE + 256 * 1024 * 1024"
definition MEM_LOW_WATERMARK_PAGES :: nat where "MEM_LOW_WATERMARK_PAGES = 64"
definition MEM_CRIT_WATERMARK_PAGES :: nat where "MEM_CRIT_WATERMARK_PAGES = 32"

definition PGROUNDUP :: "nat \<Rightarrow> nat" where
  "PGROUNDUP sz = (sz + PGSIZE - 1) div PGSIZE * PGSIZE"

definition PGROUNDDOWN :: "nat \<Rightarrow> nat" where
  "PGROUNDDOWN a = a div PGSIZE * PGSIZE"

section \<open>State and operations\<close>

record kmem_state =
  pmem :: bytes
  kend :: nat
  freelist :: nat
  total_pages :: nat
  free_pages :: nat
  low_warned :: bool
  crit_warned :: bool
  oom_warned :: bool
  kready :: bool
  refcnt :: "nat \<Rightarrow> nat"

definition pa_to_idx :: "nat \<Rightarrow> nat" where
  "pa_to_idx pa = pa div PGSIZE"

definition kfree :: "nat \<Rightarrow> 'a kmem_state_scheme \<Rightarrow> 'a kmem_state_scheme kres" where
  "kfree pa s =
     (if pa mod PGSIZE \<noteq> 0 \<or> pa < kend s \<or> PHYSTOP \<le> pa then Panic ''kfree''
      else let idx = pa_to_idx pa in
        if kready s \<and> refcnt s idx = 0 then Panic ''kfree double''
        else if 1 < refcnt s idx
          then Ok (s\<lparr>refcnt := (refcnt s)(idx := refcnt s idx - 1)\<rparr>)
        else
          let m = memset (pmem s) pa 1 PGSIZE;
              n = free_pages s + 1
          in Ok (s\<lparr>pmem := put_le 8 m pa (freelist s),
                   refcnt := (refcnt s)(idx := 0),
                   freelist := pa,
                   free_pages := n,
                   low_warned := low_warned s \<and> \<not> MEM_LOW_WATERMARK_PAGES < n,
                   crit_warned := crit_warned s \<and> \<not> MEM_CRIT_WATERMARK_PAGES < n\<rparr>))"

definition kalloc :: "'a kmem_state_scheme \<Rightarrow> nat \<times> 'a kmem_state_scheme" where
  "kalloc s =
     (let r = freelist s in
      if r = 0 then (0, s\<lparr>oom_warned := True\<rparr>)
      else
        let n = (if 0 < free_pages s then free_pages s - 1 else free_pages s);
            s1 = s\<lparr>freelist := get_le 8 (pmem s) r,
                   refcnt := (refcnt s)(pa_to_idx r := 1),
                   free_pages := n,
                   pmem := memset (pmem s) r 5 PGSIZE\<rparr>
        in if n \<le> MEM_CRIT_WATERMARK_PAGES \<and> \<not> crit_warned s then (r, s1\<lparr>crit_warned := True\<rparr>)
           else if n \<le> MEM_LOW_WATERMARK_PAGES \<and> \<not> low_warned s then (r, s1\<lparr>low_warned := True\<rparr>)
           else (r, s1))"

function freerange_loop ::
    "nat \<Rightarrow> nat \<Rightarrow> 'a kmem_state_scheme \<Rightarrow> 'a kmem_state_scheme kres" where
  "freerange_loop p pa_end s =
     (if p + PGSIZE \<le> pa_end
      then kbind (kfree p (s\<lparr>total_pages := total_pages s + 1\<rparr>))
             (\<lambda>s'. freerange_loop (p + PGSIZE) pa_end s')
      else Ok s)"
  by pat_completeness auto
termination
  by (relation "measure (\<lambda>(p, pa_end, s). pa_end - p)") (auto simp: PGSIZE_def)

declare freerange_loop.simps [simp del]

definition freerange ::
    "nat \<Rightarrow> nat \<Rightarrow> 'a kmem_state_scheme \<Rightarrow> 'a kmem_state_scheme kres" where
  "freerange pa_start pa_end s = freerange_loop (PGROUNDUP pa_start) pa_end s"

definition kinit :: "'a kmem_state_scheme \<Rightarrow> 'a kmem_state_scheme kres" where
  "kinit s =
     kbind (freerange (kend s) PHYSTOP
              (s\<lparr>total_pages := 0, free_pages := 0, low_warned := False,
                 crit_warned := False, oom_warned := False, kready := False\<rparr>))
       (\<lambda>s'. Ok (s'\<lparr>kready := True\<rparr>))"

text \<open>\<^verbatim>\<open>refcnt\<close> is an array of 16-bit counters.\<close>

definition kaddref :: "nat \<Rightarrow> 'a kmem_state_scheme \<Rightarrow> int \<times> 'a kmem_state_scheme" where
  "kaddref pa s =
     (if PHYSTOP \<le> pa then (-1, s)
      else let idx = pa_to_idx pa in
        if refcnt s idx = 0 then (-1, s)
        else let c = (refcnt s idx + 1) mod 2 ^ 16
             in (int c, s\<lparr>refcnt := (refcnt s)(idx := c)\<rparr>))"

definition krefcount :: "nat \<Rightarrow> 'a kmem_state_scheme \<Rightarrow> int" where
  "krefcount pa s = (if PHYSTOP \<le> pa then 0 else int (refcnt s (pa_to_idx pa)))"

definition kalloc_stats :: "'a kmem_state_scheme \<Rightarrow> nat \<times> nat" where
  "kalloc_stats s = (total_pages s, free_pages s)"

text \<open>The percentage is computed in 32-bit unsigned arithmetic.\<close>

definition kalloc_pressure_percent :: "'a kmem_state_scheme \<Rightarrow> nat" where
  "kalloc_pressure_percent s =
     (if total_pages s = 0 then 0
      else ((total_pages s + 2 ^ 32 - free_pages s) mod 2 ^ 32 * 100) mod 2 ^ 32
             div total_pages s)"

section \<open>The free list in memory\<close>

fun flist :: "bytes \<Rightarrow> nat \<Rightarrow> nat list \<Rightarrow> bool" where
  "flist m p [] = (p = 0)"
| "flist m p (x # xs) = (p \<noteq> 0 \<and> x = p \<and> flist m (get_le 8 m p) xs)"

text \<open>The first \<open>n\<close> pages of the list that starts at \<open>p\<close>.\<close>

fun chase :: "bytes \<Rightarrow> nat \<Rightarrow> nat \<Rightarrow> nat list" where
  "chase m 0 p = []"
| "chase m (Suc n) p = (if p = 0 then [] else p # chase m n (get_le 8 m p))"

definition page_ok :: "'a kmem_state_scheme \<Rightarrow> nat \<Rightarrow> bool" where
  "page_ok s pa \<longleftrightarrow> pa mod PGSIZE = 0 \<and> kend s \<le> pa \<and> pa < PHYSTOP"

definition free_list :: "'a kmem_state_scheme \<Rightarrow> nat list" where
  "free_list s = chase (pmem s) (free_pages s) (freelist s)"

definition pool :: "'a kmem_state_scheme \<Rightarrow> nat set" where
  "pool s = set (free_list s)"

text \<open>
  The invariant: the list is well formed, has as many pages as
  \<^verbatim>\<open>free_pages\<close> says, holds no page twice, and a page of the managed
  range is on it exactly when its reference count is zero.
\<close>

definition klist :: "'a kmem_state_scheme \<Rightarrow> nat list \<Rightarrow> bool" where
  "klist s xs \<longleftrightarrow>
     0 < kend s \<and> flist (pmem s) (freelist s) xs \<and> distinct xs \<and>
     free_pages s = length xs \<and> (\<forall>x\<in>set xs. page_ok s x)"

definition kmem_wf :: "'a kmem_state_scheme \<Rightarrow> nat list \<Rightarrow> bool" where
  "kmem_wf s xs \<longleftrightarrow>
     klist s xs \<and>
     (\<forall>pa. page_ok s pa \<longrightarrow> (pa \<in> set xs \<longleftrightarrow> refcnt s (pa_to_idx pa) = 0))"

definition kmem_inv :: "'a kmem_state_scheme \<Rightarrow> bool" where
  "kmem_inv s \<longleftrightarrow> kready s \<and> kmem_wf s (free_list s)"

section \<open>Lemmas\<close>

lemma flist_chase: "flist m p xs \<Longrightarrow> chase m (length xs) p = xs"
  by (induction xs arbitrary: p) auto

lemma free_list_eq: "klist s xs \<Longrightarrow> free_list s = xs"
  by (auto simp: klist_def free_list_def flist_chase)

lemma flist_cong:
  "flist m p xs \<Longrightarrow> (\<And>x i. x \<in> set xs \<Longrightarrow> i < 8 \<Longrightarrow> m' (x + i) = m (x + i)) \<Longrightarrow> flist m' p xs"
proof (induction xs arbitrary: p)
  case Nil
  then show ?case by simp
next
  case (Cons x xs)
  have "get_le 8 m' x = get_le 8 m x"
  proof (rule get_le_cong)
    fix i assume "x \<le> i" "i < x + 8"
    then show "m' i = m i" using Cons.prems(2)[of x "i - x"] by simp
  qed
  with Cons show ?case by auto
qed

lemma page_disjoint:
  assumes "x mod PGSIZE = 0" "y mod PGSIZE = 0" "x \<noteq> y"
  shows "x + PGSIZE \<le> y \<or> y + PGSIZE \<le> x"
proof -
  obtain i j where ij: "x = PGSIZE * i" "y = PGSIZE * j"
    using assms(1,2) by (metis mod_0_imp_dvd dvdE)
  with assms(3) have "i < j \<or> j < i" by auto
  then have "Suc i \<le> j \<or> Suc j \<le> i" by auto
  then have "PGSIZE * Suc i \<le> PGSIZE * j \<or> PGSIZE * Suc j \<le> PGSIZE * i"
    by (meson mult_le_mono2)
  then show ?thesis by (auto simp: ij)
qed

lemma PGSIZE_pos [simp]: "0 < PGSIZE"
  by (simp add: PGSIZE_def)

lemma PGROUNDUP_le:
  assumes "q mod PGSIZE = 0"
  shows "PGROUNDUP e \<le> q \<longleftrightarrow> e \<le> q"
proof -
  obtain k where q: "q = PGSIZE * k"
    using assms by (metis mod_0_imp_dvd dvdE)
  have "PGROUNDUP e \<le> q \<longleftrightarrow> (e + PGSIZE - 1) div PGSIZE < Suc k"
    by (simp add: PGROUNDUP_def q mult.commute[of PGSIZE] less_Suc_eq_le)
  also have "\<dots> \<longleftrightarrow> e + PGSIZE - 1 < Suc k * PGSIZE"
    by (rule div_less_iff_less_mult) simp
  also have "\<dots> \<longleftrightarrow> e \<le> q"
    by (auto simp: q mult.commute[of k] PGSIZE_def)
  finally show ?thesis .
qed

lemma page_end_le:
  assumes "q mod PGSIZE = 0" "e mod PGSIZE = 0"
  shows "q + PGSIZE \<le> e \<longleftrightarrow> q < e"
  using page_disjoint[OF assms] PGSIZE_pos by (cases "q = e") linarith+

lemma idx_inj:
  "x mod PGSIZE = 0 \<Longrightarrow> y mod PGSIZE = 0 \<Longrightarrow> pa_to_idx x = pa_to_idx y \<longleftrightarrow> x = y"
  by (metis add.right_neutral div_mult_mod_eq pa_to_idx_def)

lemma klist_write:
  assumes k: "klist s xs" and pa: "pa mod PGSIZE = 0" "pa \<notin> set xs"
    and m: "\<And>a. a < pa \<or> pa + PGSIZE \<le> a \<Longrightarrow> m a = pmem s a"
  shows "flist m (freelist s) xs"
proof (rule flist_cong)
  show "flist (pmem s) (freelist s) xs" using k by (simp add: klist_def)
next
  fix x i assume x: "x \<in> set xs" and i: "i < (8::nat)"
  then have "x mod PGSIZE = 0" "x \<noteq> pa" using k pa by (auto simp: klist_def page_ok_def)
  then have "x + PGSIZE \<le> pa \<or> pa + PGSIZE \<le> x" using page_disjoint pa(1) by auto
  then show "m (x + i) = pmem s (x + i)" using i by (intro m) (auto simp: PGSIZE_def)
qed

lemma kfree_fresh:
  assumes k: "klist s xs" and pa: "page_ok s pa" "pa \<notin> set xs"
    and r: "refcnt s (pa_to_idx pa) \<le> 1" "kready s \<Longrightarrow> refcnt s (pa_to_idx pa) \<noteq> 0"
  shows "\<exists>s'. kfree pa s = Ok s' \<and> klist s' (pa # xs) \<and> kend s' = kend s \<and>
            kready s' = kready s \<and> total_pages s' = total_pages s \<and>
            refcnt s' = (refcnt s)(pa_to_idx pa := 0) \<and>
            (\<forall>a. a < pa \<or> pa + PGSIZE \<le> a \<longrightarrow> pmem s' a = pmem s a)"
proof -
  let ?m = "put_le 8 (memset (pmem s) pa 1 PGSIZE) pa (freelist s)"
  have out: "?m a = pmem s a" if "a < pa \<or> pa + PGSIZE \<le> a" for a
    using that by (auto simp: put_le_outside memset_eq PGSIZE_def)
  have fl: "freelist s < 256 ^ 8"
    using k by (cases xs) (auto simp: klist_def page_ok_def PHYSTOP_def KERNBASE_def)
  have pos: "pa \<noteq> 0" using k pa by (auto simp: klist_def page_ok_def)
  have "flist ?m pa (pa # xs)"
    using klist_write[OF k _ pa(2) out] pa(1) pos fl
    by (simp add: page_ok_def get_put_le)
  then show ?thesis
    using k pa r out
    by (auto simp: kfree_def Let_def klist_def page_ok_def)
qed

lemma kalloc_fields:
  assumes "kalloc s = (r, s')"
  shows "kend s' = kend s" and "kready s' = kready s" and "total_pages s' = total_pages s"
    and "r = freelist s"
  using assms by (auto simp: kalloc_def Let_def split: if_splits)

lemma kalloc_some:
  assumes k: "klist s (x # xs)"
  shows "\<exists>s'. kalloc s = (x, s') \<and> klist s' xs \<and>
            refcnt s' = (refcnt s)(pa_to_idx x := 1) \<and>
            (\<forall>a. a < x \<or> x + PGSIZE \<le> a \<longrightarrow> pmem s' a = pmem s a) \<and>
            (\<forall>i<PGSIZE. pmem s' (x + i) = 5)"
proof -
  obtain r s' where ks: "kalloc s = (r, s')" by fastforce
  have x: "x \<noteq> 0" "freelist s = x" "x mod PGSIZE = 0" "x \<notin> set xs" "free_pages s = Suc (length xs)"
    using k by (auto simp: klist_def page_ok_def)
  have tl: "klist (s\<lparr>freelist := get_le 8 (pmem s) x, free_pages := length xs\<rparr>) xs"
    using k by (auto simp: klist_def page_ok_def)
  have f: "r = x" "freelist s' = get_le 8 (pmem s) x" "free_pages s' = length xs"
    "pmem s' = memset (pmem s) x 5 PGSIZE" "refcnt s' = (refcnt s)(pa_to_idx x := 1)"
    using ks x by (auto simp: kalloc_def Let_def split: if_splits)
  have out: "pmem s' a = pmem s a" if "a < x \<or> x + PGSIZE \<le> a" for a
    using that by (auto simp: f memset_eq)
  have "flist (pmem s') (freelist s') xs"
    using klist_write[OF tl x(3,4), of "pmem s'"] out f by simp
  then have "klist s' xs"
    using k f kalloc_fields[OF ks] by (auto simp: klist_def page_ok_def)
  with ks f out show ?thesis by (auto simp: memset_eq)
qed

lemma kalloc_none:
  assumes k: "klist s []"
  shows "kalloc s = (0, s\<lparr>oom_warned := True\<rparr>)"
  using k by (simp add: kalloc_def klist_def)

text \<open>Freeing a range puts every whole page of it on the list, highest first.\<close>

lemma freerange_loop_spec:
  assumes "klist s xs" "\<not> kready s" "p mod PGSIZE = 0" "kend s \<le> p" "pa_end \<le> PHYSTOP"
    and "\<forall>x\<in>set xs. x < p" "\<forall>i. refcnt s i = 0" "total_pages s = free_pages s"
  shows "\<exists>s' ys. freerange_loop p pa_end s = Ok s' \<and> klist s' ys \<and> kend s' = kend s \<and>
      set ys = set xs \<union> {q. q mod PGSIZE = 0 \<and> p \<le> q \<and> q + PGSIZE \<le> pa_end} \<and>
      (\<forall>i. refcnt s' i = 0) \<and> total_pages s' = free_pages s'"
  using assms
proof (induction p pa_end s arbitrary: xs rule: freerange_loop.induct)
  case (1 p pa_end s)
  show ?case
  proof (cases "p + PGSIZE \<le> pa_end")
    case False
    have "{q. q mod PGSIZE = 0 \<and> p \<le> q \<and> q + PGSIZE \<le> pa_end} = {}"
      using False by auto
    then show ?thesis
      using "1.prems" False by (auto simp: freerange_loop.simps[of p pa_end s])
  next
    case True
    let ?s = "s\<lparr>total_pages := total_pages s + 1\<rparr>"
    have ok: "page_ok ?s p" "p \<notin> set xs" "klist ?s xs"
      using "1.prems" True by (auto simp: page_ok_def klist_def PGSIZE_def)
    from kfree_fresh[OF ok(3,1,2)] "1.prems" obtain s1 where
      s1: "kfree p ?s = Ok s1" "klist s1 (p # xs)" "kend s1 = kend s" "\<not> kready s1"
        "\<forall>i. refcnt s1 i = 0" "total_pages s1 = total_pages s + 1"
      by auto
    have eq: "total_pages s1 = free_pages s1"
      using s1 "1.prems" by (auto simp: klist_def)
    have "\<exists>s' ys. freerange_loop (p + PGSIZE) pa_end s1 = Ok s' \<and> klist s' ys \<and>
        kend s' = kend s1 \<and>
        set ys = set (p # xs) \<union> {q. q mod PGSIZE = 0 \<and> p + PGSIZE \<le> q \<and> q + PGSIZE \<le> pa_end} \<and>
        (\<forall>i. refcnt s' i = 0) \<and> total_pages s' = free_pages s'"
      using "1.prems" s1 True eq
      by (intro "1.IH"[OF True]) (auto simp: PGSIZE_def)
    moreover have "p + PGSIZE \<le> q" if "q mod PGSIZE = 0" "p \<le> q" "q \<noteq> p" for q
      using page_disjoint[OF "1.prems"(3) that(1)] that(2,3) by (auto simp: PGSIZE_def)
    then have "{q. q mod PGSIZE = 0 \<and> p \<le> q \<and> q + PGSIZE \<le> pa_end} =
        insert p {q. q mod PGSIZE = 0 \<and> p + PGSIZE \<le> q \<and> q + PGSIZE \<le> pa_end}"
      using "1.prems"(3) True by (auto dest: add_leD1)
    ultimately show ?thesis
      using s1 True by (auto simp: freerange_loop.simps[of p pa_end s])
  qed
qed

lemma page_ok_cong: "kend s' = kend s \<Longrightarrow> page_ok s' = page_ok s"
  by (auto simp: page_ok_def fun_eq_iff)

lemma kmem_invE:
  assumes "kmem_inv s"
  obtains xs where "klist s xs" "kmem_wf s xs" "free_list s = xs" "pool s = set xs" "kready s"
  using assms by (auto simp: kmem_inv_def kmem_wf_def pool_def)

lemma kmem_invI:
  assumes "klist s xs" "kready s"
    "\<And>pa. page_ok s pa \<Longrightarrow> pa \<in> set xs \<longleftrightarrow> refcnt s (pa_to_idx pa) = 0"
  shows "kmem_inv s" and "pool s = set xs"
  using assms by (auto simp: kmem_inv_def kmem_wf_def pool_def free_list_eq)

lemma pool_iff: "kmem_inv s \<Longrightarrow> page_ok s pa \<Longrightarrow> pa \<in> pool s \<longleftrightarrow> refcnt s (pa_to_idx pa) = 0"
  by (auto simp: kmem_inv_def kmem_wf_def pool_def)

lemma pool_page_ok: "kmem_inv s \<Longrightarrow> pa \<in> pool s \<Longrightarrow> page_ok s pa"
  by (auto simp: kmem_inv_def kmem_wf_def pool_def klist_def)

section \<open>The allocator as an interface\<close>

text \<open>
  What the rest of the kernel relies on: a pool of free pages, a reference count,
  and what allocation and freeing do to them.
\<close>

locale page_allocator =
  fixes alloc :: "'s \<Rightarrow> nat \<times> 's"
    and free :: "nat \<Rightarrow> 's \<Rightarrow> 's kres"
    and avail :: "'s \<Rightarrow> nat set"
    and rc :: "'s \<Rightarrow> nat \<Rightarrow> nat"
    and managed :: "'s \<Rightarrow> nat \<Rightarrow> bool"
    and inv :: "'s \<Rightarrow> bool"
  assumes alloc_ok: "inv s \<Longrightarrow> avail s \<noteq> {} \<Longrightarrow> alloc s = (p, s') \<Longrightarrow>
      inv s' \<and> p \<in> avail s \<and> p \<noteq> 0 \<and> avail s' = avail s - {p} \<and> managed s' = managed s \<and>
      managed s p \<and> rc s' p = 1 \<and> (\<forall>q. managed s q \<and> q \<noteq> p \<longrightarrow> rc s' q = rc s q)"
    and alloc_fail: "inv s \<Longrightarrow> avail s = {} \<Longrightarrow> alloc s = (p, s') \<Longrightarrow>
      inv s' \<and> p = 0 \<and> avail s' = {} \<and> managed s' = managed s \<and> rc s' = rc s"
    and avail_rc: "inv s \<Longrightarrow> managed s p \<Longrightarrow> p \<in> avail s \<longleftrightarrow> rc s p = 0"
    and free_last: "inv s \<Longrightarrow> managed s p \<Longrightarrow> rc s p = 1 \<Longrightarrow>
      \<exists>s'. free p s = Ok s' \<and> inv s' \<and> avail s' = insert p (avail s) \<and> managed s' = managed s"
    and free_shared: "inv s \<Longrightarrow> managed s p \<Longrightarrow> 1 < rc s p \<Longrightarrow>
      \<exists>s'. free p s = Ok s' \<and> inv s' \<and> avail s' = avail s \<and> managed s' = managed s \<and>
           rc s' p = rc s p - 1"
    and free_twice: "inv s \<Longrightarrow> managed s p \<Longrightarrow> rc s p = 0 \<Longrightarrow> \<exists>e. free p s = Panic e"
begin

lemma alloc_inv: "inv s \<Longrightarrow> alloc s = (p, s') \<Longrightarrow> inv s'"
  using alloc_ok alloc_fail by (cases "avail s = {}") blast+

text \<open>Two allocations in a row never hand out the same page.\<close>

lemma alloc_distinct:
  assumes "inv s" "alloc s = (p, s1)" "alloc s1 = (q, s2)" "p \<noteq> 0" "q \<noteq> 0"
  shows "p \<noteq> q" and "rc s2 p = 1" and "rc s2 q = 1"
proof -
  have a: "avail s \<noteq> {}" using assms alloc_fail by blast
  note p = alloc_ok[OF assms(1) a assms(2)]
  then have "avail s1 \<noteq> {}" using assms alloc_fail by blast
  with p have q: "q \<in> avail s1" "rc s2 q = 1" "managed s1 q"
    "\<forall>r. managed s1 r \<and> r \<noteq> q \<longrightarrow> rc s2 r = rc s1 r"
    using alloc_ok[OF _ _ assms(3)] by blast+
  with p show "p \<noteq> q" "rc s2 p = 1" "rc s2 q = 1" by auto
qed

text \<open>A page that is freed right after it was allocated is free again, and only it.\<close>

lemma alloc_free_restores:
  assumes "inv s" "alloc s = (p, s1)" "p \<noteq> 0"
  shows "\<exists>s2. free p s1 = Ok s2 \<and> inv s2 \<and> avail s2 = avail s"
proof -
  have a: "avail s \<noteq> {}" using assms alloc_fail by blast
  note p = alloc_ok[OF assms(1) a assms(2)]
  then have "managed s1 p" by simp
  with p free_last[of s1 p] show ?thesis by (auto simp: insert_absorb)
qed

end

abbreviation page_rc :: "'a kmem_state_scheme \<Rightarrow> nat \<Rightarrow> nat" where
  "page_rc s pa \<equiv> refcnt s (pa_to_idx pa)"

lemma kalloc_pool_ok:
  assumes "kmem_inv s" "pool s \<noteq> {}" "kalloc s = (p, s')"
  shows "kmem_inv s'" "p \<in> pool s" "p \<noteq> 0" "pool s' = pool s - {p}" "page_ok s' = page_ok s"
    "page_ok s p" "page_rc s' p = 1" "\<forall>q. page_ok s q \<and> q \<noteq> p \<longrightarrow> page_rc s' q = page_rc s q"
    "\<forall>a. a < p \<or> p + PGSIZE \<le> a \<longrightarrow> pmem s' a = pmem s a"
proof -
  obtain xs where xs: "klist s xs" "kmem_wf s xs" "pool s = set xs" "kready s"
    using assms(1) by (rule kmem_invE)
  with assms(2) obtain y ys where y: "xs = y # ys" by (cases xs) auto
  from kalloc_some[of s y ys] xs y assms(3) have k: "p = y" "klist s' ys"
    "refcnt s' = (refcnt s)(pa_to_idx y := 1)"
    "\<forall>a. a < p \<or> p + PGSIZE \<le> a \<longrightarrow> pmem s' a = pmem s a"
    by auto
  note f = kalloc_fields[OF assms(3)]
  have ok: "page_ok s' = page_ok s" using f(1) by (rule page_ok_cong)
  have y_ok: "page_ok s y" "y \<notin> set ys" "y \<noteq> 0"
    using xs y by (auto simp: klist_def page_ok_def)
  have rc: "page_rc s' q = page_rc s q" if "page_ok s q" "q \<noteq> p" for q
    using that y_ok(1) k(1,3) idx_inj[of q y] by (simp add: page_ok_def)
  have mem: "pa \<in> set ys \<longleftrightarrow> page_rc s' pa = 0" if "page_ok s' pa" for pa
  proof (cases "pa = p")
    case True
    then show ?thesis using y_ok(2) k(1,3) by simp
  next
    case False
    then show ?thesis using that rc[of pa] xs(2) k(1) by (auto simp: ok kmem_wf_def y)
  qed
  have "kready s'" using f(2) xs(4) by simp
  from kmem_invI[OF k(2) this mem]
  show "kmem_inv s'" "pool s' = pool s - {p}"
    using xs(3) y k(1) y_ok(2) by auto
  show "p \<in> pool s" "p \<noteq> 0" "page_ok s p" "page_rc s' p = 1"
    using xs(3) y k(1,3) y_ok by auto
  show "page_ok s' = page_ok s" by (rule ok)
  show "\<forall>q. page_ok s q \<and> q \<noteq> p \<longrightarrow> page_rc s' q = page_rc s q" using rc by blast
  show "\<forall>a. a < p \<or> p + PGSIZE \<le> a \<longrightarrow> pmem s' a = pmem s a" by (rule k(4))
qed

lemma kalloc_pool_empty:
  assumes "kmem_inv s" "pool s = {}" "kalloc s = (p, s')"
  shows "kmem_inv s'" "p = 0" "pool s' = {}" "page_ok s' = page_ok s" "refcnt s' = refcnt s"
    "pmem s' = pmem s"
proof -
  obtain xs where xs: "klist s xs" "kmem_wf s xs" "pool s = set xs" "kready s"
    using assms(1) by (rule kmem_invE)
  with assms have s': "p = 0" "s' = s\<lparr>oom_warned := True\<rparr>" "klist s []"
    by (auto simp: kalloc_none)
  have k: "klist s' []" using s' by (simp add: klist_def page_ok_def)
  show ok: "page_ok s' = page_ok s" by (rule page_ok_cong) (simp add: s')
  show "p = 0" "refcnt s' = refcnt s" "pmem s' = pmem s" using s' by simp_all
  have "pa \<in> set [] \<longleftrightarrow> page_rc s' pa = 0" if "page_ok s' pa" for pa
    using that xs(2,3) assms(2) s'(2) unfolding ok by (simp add: kmem_wf_def)
  from kmem_invI[OF k _ this] show "kmem_inv s'" "pool s' = {}"
    using xs(4) s'(2) by simp_all
qed

lemma kfree_last:
  assumes "kmem_inv s" "page_ok s p" "page_rc s p = 1"
  shows "\<exists>s'. kfree p s = Ok s' \<and> kmem_inv s' \<and> pool s' = insert p (pool s) \<and> page_ok s' = page_ok s \<and>
           refcnt s' = (refcnt s)(pa_to_idx p := 0) \<and>
           (\<forall>a. a < p \<or> p + PGSIZE \<le> a \<longrightarrow> pmem s' a = pmem s a)"
proof -
  obtain xs where xs: "klist s xs" "kmem_wf s xs" "pool s = set xs" "kready s"
    using assms(1) by (rule kmem_invE)
  have "p \<notin> set xs" using xs assms by (auto simp: kmem_wf_def)
  from kfree_fresh[OF xs(1) assms(2) this] assms(3) obtain s' where
    s': "kfree p s = Ok s'" "klist s' (p # xs)" "kend s' = kend s" "kready s' = kready s"
      "refcnt s' = (refcnt s)(pa_to_idx p := 0)"
      "\<forall>a. a < p \<or> p + PGSIZE \<le> a \<longrightarrow> pmem s' a = pmem s a"
    by auto
  have ok: "page_ok s' = page_ok s" using s'(3) by (rule page_ok_cong)
  have mem: "pa \<in> set (p # xs) \<longleftrightarrow> page_rc s' pa = 0" if "page_ok s' pa" for pa
  proof (cases "pa = p")
    case True
    then show ?thesis by (simp add: s'(5))
  next
    case False
    then have "pa_to_idx pa \<noteq> pa_to_idx p"
      using that assms(2) idx_inj[of pa p] by (simp add: ok page_ok_def)
    with False that xs(2) show ?thesis by (simp add: s'(5) ok kmem_wf_def)
  qed
  have "kready s'" using s'(4) xs(4) by simp
  from kmem_invI[OF s'(2) this mem] have "kmem_inv s'" "pool s' = insert p (pool s)"
    using xs(3) by simp_all
  with s'(1,5,6) ok show ?thesis by blast
qed

lemma kfree_shared:
  assumes "kmem_inv s" "page_ok s p" "1 < page_rc s p"
  shows "kfree p s = Ok (s\<lparr>refcnt := (refcnt s)(pa_to_idx p := page_rc s p - 1)\<rparr>)"
    and "kmem_inv (s\<lparr>refcnt := (refcnt s)(pa_to_idx p := page_rc s p - 1)\<rparr>)"
    and "pool (s\<lparr>refcnt := (refcnt s)(pa_to_idx p := page_rc s p - 1)\<rparr>) = pool s"
proof -
  let ?s = "s\<lparr>refcnt := (refcnt s)(pa_to_idx p := page_rc s p - 1)\<rparr>"
  show "kfree p s = Ok ?s"
    using assms by (auto simp: kfree_def Let_def page_ok_def)
  obtain xs where xs: "klist s xs" "kmem_wf s xs" "pool s = set xs" "kready s"
    using assms(1) by (rule kmem_invE)
  have k: "klist ?s xs" using xs by (simp add: klist_def page_ok_def)
  have "pa \<in> set xs \<longleftrightarrow> page_rc ?s pa = 0" if "page_ok ?s pa" for pa
    using that xs(2) assms idx_inj[of pa p] by (cases "pa = p") (auto simp: kmem_wf_def page_ok_def)
  from kmem_invI[OF k _ this] show "kmem_inv ?s" "pool ?s = pool s"
    using xs(3,4) by simp_all
qed

interpretation kmem: page_allocator kalloc kfree pool page_rc page_ok kmem_inv
proof unfold_locales
  fix s s' :: "'a kmem_state_scheme" and p
  assume "kmem_inv s" "pool s \<noteq> {}" "kalloc s = (p, s')"
  from kalloc_pool_ok[OF this]
  show "kmem_inv s' \<and> p \<in> pool s \<and> p \<noteq> 0 \<and> pool s' = pool s - {p} \<and> page_ok s' = page_ok s \<and>
    page_ok s p \<and> page_rc s' p = 1 \<and> (\<forall>q. page_ok s q \<and> q \<noteq> p \<longrightarrow> page_rc s' q = page_rc s q)"
    by auto
next
  fix s s' :: "'a kmem_state_scheme" and p
  assume "kmem_inv s" "pool s = {}" "kalloc s = (p, s')"
  from kalloc_pool_empty[OF this]
  show "kmem_inv s' \<and> p = 0 \<and> pool s' = {} \<and> page_ok s' = page_ok s \<and> page_rc s' = page_rc s"
    by auto
next
  fix s :: "'a kmem_state_scheme" and p
  assume a: "kmem_inv s" "page_ok s p"
  show "p \<in> pool s \<longleftrightarrow> page_rc s p = 0" using a by (rule pool_iff)
  show "page_rc s p = 1 \<Longrightarrow> \<exists>s'. kfree p s = Ok s' \<and> kmem_inv s' \<and> pool s' = insert p (pool s) \<and>
      page_ok s' = page_ok s"
    using kfree_last[OF a] by blast
  show "1 < page_rc s p \<Longrightarrow> \<exists>s'. kfree p s = Ok s' \<and> kmem_inv s' \<and> pool s' = pool s \<and>
      page_ok s' = page_ok s \<and> page_rc s' p = page_rc s p - 1"
    using kfree_shared[OF a] by (simp add: page_ok_def fun_eq_iff)
  show "page_rc s p = 0 \<Longrightarrow> \<exists>e. kfree p s = Panic e"
    using a by (auto simp: kfree_def page_ok_def kmem_inv_def)
qed

section \<open>Properties\<close>

text \<open>
  C28. \<^verbatim>\<open>kinit\<close> on the zeroed kernel data builds a free list that holds
  exactly the whole pages between \<^verbatim>\<open>end\<close> and \<^verbatim>\<open>PHYSTOP\<close>, and
  establishes the allocator's invariant.
\<close>

theorem kinit_establishes:
  assumes "0 < kend s" "freelist s = 0" "\<forall>i. refcnt s i = 0"
  shows "\<exists>s'. kinit s = Ok s' \<and> kmem_inv s' \<and> total_pages s' = free_pages s' \<and>
           pool s' = {pa. pa mod PGSIZE = 0 \<and> kend s \<le> pa \<and> pa < PHYSTOP}"
proof -
  let ?s = "s\<lparr>total_pages := 0, free_pages := 0, low_warned := False,
              crit_warned := False, oom_warned := False, kready := False\<rparr>"
  have up: "PGROUNDUP (kend s) mod PGSIZE = 0" "kend s \<le> PGROUNDUP (kend s)"
    by (auto simp: PGROUNDUP_def PGSIZE_def)
  have "klist ?s []" using assms by (simp add: klist_def)
  from freerange_loop_spec[OF this, of "PGROUNDUP (kend s)" PHYSTOP] up assms obtain s1 ys where
    s1: "freerange (kend s) PHYSTOP ?s = Ok s1" "klist s1 ys" "kend s1 = kend s"
      "set ys = {q. q mod PGSIZE = 0 \<and> PGROUNDUP (kend s) \<le> q \<and> q + PGSIZE \<le> PHYSTOP}"
      "\<forall>i. refcnt s1 i = 0" "total_pages s1 = free_pages s1"
    by (auto simp: freerange_def)
  have range: "q mod PGSIZE = 0 \<Longrightarrow>
      (PGROUNDUP (kend s) \<le> q \<and> q + PGSIZE \<le> PHYSTOP) \<longleftrightarrow> (kend s \<le> q \<and> q < PHYSTOP)" for q
    using PGROUNDUP_le[of q "kend s"] page_end_le[of q PHYSTOP]
    by (simp add: PHYSTOP_def KERNBASE_def PGSIZE_def)
  have ys: "set ys = {pa. pa mod PGSIZE = 0 \<and> kend s \<le> pa \<and> pa < PHYSTOP}"
    unfolding s1(4) by (intro Collect_cong conj_cong refl range)
  let ?s' = "s1\<lparr>kready := True\<rparr>"
  have k: "klist ?s' ys" using s1 by (simp add: klist_def page_ok_def)
  have "kmem_inv ?s'" "pool ?s' = set ys"
    using kmem_invI[OF k] s1(3,5) unfolding ys by (simp_all add: page_ok_def)
  then show ?thesis using s1(1,6) unfolding ys by (simp add: kinit_def)
qed

text \<open>
  C7. Under the invariant \<^verbatim>\<open>kalloc\<close> fails only when no page is free; otherwise
  it hands out a free page, which leaves the pool with a reference count of one and no
  other memory changed, and the invariant is kept.
\<close>

theorem kalloc_correct:
  assumes "kmem_inv s" "kalloc s = (p, s')"
  shows "kmem_inv s' \<and> (p = 0 \<longleftrightarrow> pool s = {}) \<and>
    (p \<noteq> 0 \<longrightarrow> p \<in> pool s \<and> pool s' = pool s - {p} \<and> refcnt s' (pa_to_idx p) = 1 \<and>
       (\<forall>a. a < p \<or> p + PGSIZE \<le> a \<longrightarrow> pmem s' a = pmem s a))"
proof (cases "pool s = {}")
  case True
  then show ?thesis using kalloc_pool_empty[OF assms(1) True assms(2)] by auto
next
  case False
  then show ?thesis using kalloc_pool_ok[OF assms(1) False assms(2)] by auto
qed

text \<open>
  C8. \<^verbatim>\<open>kfree\<close> of a page of the managed range: the last reference puts the
  page back, a shared page only loses a reference, and freeing a free page panics.
\<close>

theorem kfree_correct:
  assumes "kmem_inv s" "page_ok s p"
  shows "case refcnt s (pa_to_idx p) of
      0 \<Rightarrow> kfree p s = Panic ''kfree double''
    | Suc 0 \<Rightarrow> (\<exists>s'. kfree p s = Ok s' \<and> kmem_inv s' \<and> pool s' = insert p (pool s))
    | Suc (Suc k) \<Rightarrow> (\<exists>s'. kfree p s = Ok s' \<and> kmem_inv s' \<and> pool s' = pool s \<and>
          refcnt s' (pa_to_idx p) = Suc k)"
proof -
  consider "page_rc s p = 0" | "page_rc s p = Suc 0" | k where "page_rc s p = Suc (Suc k)"
    by (metis not0_implies_Suc)
  then show ?thesis
  proof cases
    case 1
    then show ?thesis using assms by (auto simp: kfree_def page_ok_def kmem_inv_def)
  next
    case 2
    then show ?thesis using kfree_last[OF assms] by auto
  next
    case 3
    then show ?thesis using kfree_shared[OF assms] by auto
  qed
qed

text \<open>
  A page shared once more with \<^verbatim>\<open>kaddref\<close> survives one
  \<^verbatim>\<open>kfree\<close>: it keeps its count and does not enter the free pool
  (the counter has 16 bits).
\<close>

theorem kaddref_kfree:
  assumes "kmem_inv s" "page_ok s p" "0 < refcnt s (pa_to_idx p)" "refcnt s (pa_to_idx p) < 2 ^ 16 - 1"
  shows "\<exists>s1. kaddref p s = (int (refcnt s (pa_to_idx p)) + 1, s1) \<and> kmem_inv s1 \<and>
           kfree p s1 = Ok s \<and> p \<notin> pool s"
proof -
  let ?s1 = "s\<lparr>refcnt := (refcnt s)(pa_to_idx p := page_rc s p + 1)\<rparr>"
  obtain xs where xs: "klist s xs" "kmem_wf s xs" "pool s = set xs" "kready s"
    using assms(1) by (rule kmem_invE)
  have k: "klist ?s1 xs" using xs by (simp add: klist_def page_ok_def)
  have "pa \<in> set xs \<longleftrightarrow> page_rc ?s1 pa = 0" if "page_ok ?s1 pa" for pa
    using that xs(2) assms idx_inj[of pa p] by (cases "pa = p") (auto simp: kmem_wf_def page_ok_def)
  from kmem_invI(1)[OF k _ this] have inv: "kmem_inv ?s1" using xs(4) by simp
  have "kaddref p s = (int (page_rc s p) + 1, ?s1)"
    using assms by (auto simp: kaddref_def page_ok_def Let_def)
  moreover have "kfree p ?s1 = Ok s"
    using kfree_shared(1)[OF inv, of p] assms by (simp add: page_ok_def)
  ultimately show ?thesis
    using inv assms pool_iff[OF assms(1,2)] by auto
qed

text \<open>
  The memory-pressure figure is a percentage, the exact share of used pages
  rounded down: the 32-bit arithmetic does not overflow for any memory the allocator
  can manage.
\<close>

theorem pressure_percent_exact:
  assumes "free_pages s \<le> total_pages s" "total_pages s \<le> PHYSTOP div PGSIZE" "0 < total_pages s"
  shows "kalloc_pressure_percent s = (total_pages s - free_pages s) * 100 div total_pages s \<and>
         kalloc_pressure_percent s \<le> 100"
proof -
  have t: "total_pages s \<le> 589824"
    using assms(2) by (simp add: PHYSTOP_def KERNBASE_def PGSIZE_def)
  have eq: "total_pages s + 2 ^ 32 - free_pages s = total_pages s - free_pages s + 2 ^ 32"
    using assms(1) by simp
  have "(total_pages s + 2 ^ 32 - free_pages s) mod 2 ^ 32 = total_pages s - free_pages s"
    unfolding eq using t by (simp add: mod_add_self2)
  moreover have "(total_pages s - free_pages s) * 100 mod 2 ^ 32 = (total_pages s - free_pages s) * 100"
    using t by simp
  ultimately have "kalloc_pressure_percent s = (total_pages s - free_pages s) * 100 div total_pages s"
    using assms(3) by (simp add: kalloc_pressure_percent_def)
  moreover have "(total_pages s - free_pages s) * 100 div total_pages s \<le> total_pages s * 100 div total_pages s"
    by (intro div_le_mono) simp
  ultimately show ?thesis using assms(3) by simp
qed

section \<open>Witnesses\<close>

text \<open>A machine whose managed range is the last page of memory.\<close>

definition one_page :: kmem_state where
  "one_page = \<lparr>pmem = (\<lambda>_. 0), kend = PHYSTOP - PGSIZE, freelist = PHYSTOP - PGSIZE,
     total_pages = 1, free_pages = 1, low_warned = False, crit_warned = False,
     oom_warned = False, kready = True, refcnt = (\<lambda>_. 0)\<rparr>"

lemma get_le_zero [simp]: "get_le k (\<lambda>_. 0) a = 0"
  by (induction k arbitrary: a) auto

lemma one_page_ok: "page_ok one_page pa \<longleftrightarrow> pa = PHYSTOP - PGSIZE"
proof -
  have e: "PHYSTOP mod PGSIZE = 0" "(PHYSTOP - PGSIZE) mod PGSIZE = 0" "PGSIZE \<le> PHYSTOP"
    by (simp_all add: PHYSTOP_def KERNBASE_def PGSIZE_def)
  then show ?thesis
    using page_end_le[of pa PHYSTOP] PGSIZE_pos by (auto simp: page_ok_def one_page_def)
qed

lemma one_page_inv: "kmem_inv one_page" "pool one_page = {PHYSTOP - PGSIZE}"
proof -
  have "0 < PHYSTOP - PGSIZE" by (simp add: PHYSTOP_def KERNBASE_def PGSIZE_def)
  then have k: "klist one_page [PHYSTOP - PGSIZE]"
    by (simp add: klist_def one_page_ok) (simp add: one_page_def)
  show "kmem_inv one_page" "pool one_page = {PHYSTOP - PGSIZE}"
    using kmem_invI[OF k] by (simp_all add: one_page_ok) (simp_all add: one_page_def)
qed

theorem kinit_establishes_witness:
  "0 < kend (one_page\<lparr>freelist := 0\<rparr>) \<and>
   (\<exists>s'. kinit (one_page\<lparr>freelist := 0\<rparr>) = Ok s' \<and> kmem_inv s')"
proof -
  have "0 < kend (one_page\<lparr>freelist := 0\<rparr>)" "freelist (one_page\<lparr>freelist := 0\<rparr>) = 0"
    "\<forall>i. refcnt (one_page\<lparr>freelist := 0\<rparr>) i = 0"
    by (simp_all add: one_page_def PHYSTOP_def KERNBASE_def PGSIZE_def)
  with kinit_establishes[OF this] show ?thesis by blast
qed

theorem kalloc_correct_witness:
  "\<exists>p s'. kalloc one_page = (p, s') \<and> kmem_inv s' \<and> p \<noteq> 0 \<and> pool s' = {}"
proof -
  obtain p s' where "kalloc one_page = (p, s')" by fastforce
  with kalloc_correct[OF one_page_inv(1) this] show ?thesis
    by (auto simp: one_page_inv(2))
qed

theorem kfree_correct_witness:
  "page_ok one_page (PHYSTOP - PGSIZE) \<and> kfree (PHYSTOP - PGSIZE) one_page = Panic ''kfree double''"
proof -
  have ok: "page_ok one_page (PHYSTOP - PGSIZE)" by (simp add: one_page_ok)
  with kfree_correct[OF one_page_inv(1) ok] show ?thesis by (simp add: one_page_def)
qed

definition one_page_used :: kmem_state where
  "one_page_used = one_page\<lparr>freelist := 0, free_pages := 0, refcnt := (\<lambda>_. 1)\<rparr>"

theorem kaddref_kfree_witness:
  "kmem_inv one_page_used \<and>
   (\<exists>s1. fst (kaddref (PHYSTOP - PGSIZE) one_page_used) = 2 \<and>
         kfree (PHYSTOP - PGSIZE) s1 = Ok one_page_used)"
proof -
  have "0 < PHYSTOP - PGSIZE" by (simp add: PHYSTOP_def KERNBASE_def PGSIZE_def)
  then have k: "klist one_page_used []"
    by (simp add: klist_def one_page_used_def) (simp add: one_page_def)
  have inv: "kmem_inv one_page_used"
    using kmem_invI(1)[OF k] by (simp add: one_page_used_def) (simp add: one_page_def)
  have ok: "page_ok one_page_used (PHYSTOP - PGSIZE)"
    using one_page_ok[of "PHYSTOP - PGSIZE"] by (simp add: page_ok_def one_page_used_def)
  from kaddref_kfree[OF inv ok] obtain s1 where
    "kaddref (PHYSTOP - PGSIZE) one_page_used =
       (int (refcnt one_page_used (pa_to_idx (PHYSTOP - PGSIZE))) + 1, s1)"
    "kfree (PHYSTOP - PGSIZE) s1 = Ok one_page_used"
    by (auto simp: one_page_used_def)
  with inv show ?thesis by (auto simp: one_page_used_def)
qed

theorem pressure_percent_exact_witness:
  "free_pages one_page_used \<le> total_pages one_page_used \<and> kalloc_pressure_percent one_page_used = 100"
  using pressure_percent_exact[of one_page_used]
  by (simp add: one_page_used_def one_page_def PHYSTOP_def KERNBASE_def PGSIZE_def)

end
