(* ===== verification/Proc_Table.thy ===== *)
theory Proc_Table
  imports Kalloc
begin

text \<open>
  The process table and the scheduler: the part of \<^verbatim>\<open>kernel/proc.c\<close> that
  reads and writes scheduling state, the constants of \<^verbatim>\<open>kernel/param.h\<close>,
  \<^verbatim>\<open>struct proc\<close> of \<^verbatim>\<open>kernel/proc.h\<close> and the timer
  interrupt of \<^verbatim>\<open>kernel/trap.c\<close>.

  The table is a function from slot numbers; slots from \<open>NPROC\<close> on do not exist
  and no operation looks at them. Each routine runs under the lock of the slot it
  touches, so it is one atomic step; \<^verbatim>\<open>acquire\<close> and
  \<^verbatim>\<open>release\<close> themselves are not part of these definitions.
  A call of \<^verbatim>\<open>swtch\<close> hands the CPU back to the scheduler, which clears
  \<^verbatim>\<open>c->proc\<close>; the definitions describe the state up to that point.
  Using a null process pointer faults in the kernel, which ends in the panic of
  \<^verbatim>\<open>kerneltrap\<close>.
\<close>

section \<open>Constants and data\<close>

definition NPROC :: nat where "NPROC = 128"
definition NCPU :: nat where "NCPU = 8"
definition NOFILE :: nat where "NOFILE = 16"

definition PRI_MIN :: int where "PRI_MIN = 0"
definition PRI_DEFAULT :: int where "PRI_DEFAULT = 1"
definition PRI_MAX :: int where "PRI_MAX = 3"

datatype procstate = UNUSED | USED | SLEEPING | RUNNABLE | RUNNING | ZOMBIE

record proc =
  p_state :: procstate
  p_chan :: chan
  p_killed :: bool
  p_xstate :: int
  p_pid :: int
  p_priority :: int
  p_budget :: int
  p_rtime :: nat
  p_sched_cnt :: nat
  p_sched_stamp :: nat
  p_page_faults :: nat
  p_parent :: "nat option"
  p_kstack :: nat
  p_sz :: nat
  p_pagetable :: nat
  p_trapframe :: nat
  p_ctx_ra :: nat
  p_ctx_sp :: nat
  p_ofile :: "nat \<Rightarrow> nat option"
  p_cwd :: "nat option"
  p_name :: bytes

record sched_state = kmem_state +
  procs :: "nat \<Rightarrow> proc"
  nextpid :: int
  initproc :: "nat option"
  ticks :: nat
  cpu_proc :: "nat \<Rightarrow> nat option"
  hart :: nat

definition upd_proc ::
    "nat \<Rightarrow> (proc \<Rightarrow> proc) \<Rightarrow> 'a sched_state_scheme \<Rightarrow> 'a sched_state_scheme" where
  "upd_proc i f s = s\<lparr>procs := (procs s)(i := f (procs s i))\<rparr>"

section \<open>Operations\<close>

definition slices :: "int list" where
  "slices = [8, 6, 4, 2]"

definition slice_for_priority :: "int \<Rightarrow> int" where
  "slice_for_priority prio =
     (let p = (if prio < PRI_MIN then PRI_MIN else prio);
          q = (if PRI_MAX < p then PRI_MAX else p)
      in slices ! nat q)"

definition myproc :: "'a sched_state_scheme \<Rightarrow> nat option" where
  "myproc s = cpu_proc s (hart s)"

definition allocpid :: "'a sched_state_scheme \<Rightarrow> int \<times> 'a sched_state_scheme" where
  "allocpid s = (nextpid s, s\<lparr>nextpid := nextpid s + 1\<rparr>)"

definition MAXVA :: nat where "MAXVA = 2 ^ 38"
definition TRAMPOLINE :: nat where "TRAMPOLINE = MAXVA - PGSIZE"
definition TRAPFRAME :: nat where "TRAPFRAME = TRAMPOLINE - PGSIZE"

definition KSTACK :: "nat \<Rightarrow> nat" where
  "KSTACK p = TRAMPOLINE - (p + 1) * 2 * PGSIZE"

definition procinit :: "'a sched_state_scheme \<Rightarrow> 'a sched_state_scheme" where
  "procinit s =
     fold (\<lambda>i. upd_proc i (\<lambda>p. p\<lparr>p_state := UNUSED, p_kstack := KSTACK i\<rparr>)) [0..<NPROC] s"

text \<open>\<^verbatim>\<open>proc_tick\<close> charges a timer tick to the running process.\<close>

definition tick_proc :: "proc \<Rightarrow> proc" where
  "tick_proc p =
     (let b = p_budget p - 1;
          p1 = p\<lparr>p_rtime := p_rtime p + 1, p_budget := b\<rparr>
      in if b \<le> 0 then
           let pr = (if PRI_MIN < p_priority p then p_priority p - 1 else p_priority p)
           in p1\<lparr>p_priority := pr, p_budget := slice_for_priority pr\<rparr>
         else p1)"

definition proc_tick :: "'a sched_state_scheme \<Rightarrow> 'a sched_state_scheme" where
  "proc_tick s =
     (case myproc s of
        None \<Rightarrow> s
      | Some i \<Rightarrow> if p_state (procs s i) = RUNNING then upd_proc i tick_proc s else s)"

text \<open>
  One pass of the loop of \<^verbatim>\<open>scheduler\<close>: the scan over the table, and the
  switch to the process it found.
\<close>

definition sched_wait :: "nat \<Rightarrow> proc \<Rightarrow> nat" where
  "sched_wait now p = (if p_sched_stamp p \<le> now then now - p_sched_stamp p else 0)"

definition scan_step ::
    "'a sched_state_scheme \<Rightarrow> nat \<Rightarrow> nat option \<times> int \<times> nat \<Rightarrow> nat option \<times> int \<times> nat" where
  "scan_step s i acc =
     (case acc of (best, best_prio, best_wait) \<Rightarrow>
        let p = procs s i in
        if p_state p = RUNNABLE then
          let pr = p_priority p; wait = sched_wait (ticks s) p in
          if best_prio < pr \<or> (pr = best_prio \<and> (best = None \<or> best_wait < wait))
          then (Some i, pr, wait) else acc
        else acc)"

definition sched_pick :: "'a sched_state_scheme \<Rightarrow> nat option" where
  "sched_pick s = fst (fold (scan_step s) [0..<NPROC] (None, -1, 0))"

definition switch_to :: "nat \<Rightarrow> nat \<Rightarrow> 'a sched_state_scheme \<Rightarrow> 'a sched_state_scheme" where
  "switch_to now b s =
     (upd_proc b (\<lambda>p. p\<lparr>p_state := RUNNING,
                         p_budget := slice_for_priority (p_priority p),
                         p_sched_cnt := p_sched_cnt p + 1,
                         p_sched_stamp := now\<rparr>) s)
     \<lparr>cpu_proc := (cpu_proc s)(hart s := Some b)\<rparr>"

definition scheduler_round :: "'a sched_state_scheme \<Rightarrow> 'a sched_state_scheme" where
  "scheduler_round s = (case sched_pick s of None \<Rightarrow> s | Some b \<Rightarrow> switch_to (ticks s) b s)"

text \<open>
  \<^verbatim>\<open>sched\<close>. Its arguments are the lock state of the CPU, which the process
  table does not record: whether the process lock is held, the nesting depth
  \<^verbatim>\<open>noff\<close>, whether interrupts are on.
\<close>

definition sched ::
    "bool \<Rightarrow> nat \<Rightarrow> bool \<Rightarrow> 'a sched_state_scheme \<Rightarrow> 'a sched_state_scheme kres" where
  "sched holding noff intr s =
     (case myproc s of
        None \<Rightarrow> Panic ''kerneltrap''
      | Some i \<Rightarrow>
          if \<not> holding then Panic ''sched p->lock''
          else if noff \<noteq> 1 then Panic ''sched locks''
          else if p_state (procs s i) = RUNNING then Panic ''sched RUNNING''
          else if intr then Panic ''sched interruptible''
          else Ok (s\<lparr>cpu_proc := (cpu_proc s)(hart s := None)\<rparr>))"

definition yield_proc :: "nat \<Rightarrow> proc \<Rightarrow> proc" where
  "yield_proc now p =
     (let slice = slice_for_priority (p_priority p);
          pr = (if slice div 2 < p_budget p \<and> p_priority p < PRI_MAX
                then p_priority p + 1 else p_priority p)
      in p\<lparr>p_priority := pr, p_budget := slice_for_priority pr,
           p_sched_stamp := now, p_state := RUNNABLE\<rparr>)"

definition yield :: "'a sched_state_scheme \<Rightarrow> 'a sched_state_scheme kres" where
  "yield s =
     (case myproc s of
        None \<Rightarrow> Panic ''kerneltrap''
      | Some i \<Rightarrow> sched True 1 False (upd_proc i (yield_proc (ticks s)) s))"

definition sleep :: "chan \<Rightarrow> 'a sched_state_scheme \<Rightarrow> 'a sched_state_scheme kres" where
  "sleep c s =
     (case myproc s of
        None \<Rightarrow> Panic ''kerneltrap''
      | Some i \<Rightarrow> sched True 1 False (upd_proc i (\<lambda>p. p\<lparr>p_chan := c, p_state := SLEEPING\<rparr>) s))"

definition wake_proc :: "nat \<Rightarrow> proc \<Rightarrow> proc" where
  "wake_proc now p =
     (let pr = (if p_priority p < PRI_MAX then p_priority p + 1 else p_priority p)
      in p\<lparr>p_priority := pr, p_budget := slice_for_priority pr,
           p_sched_stamp := now, p_state := RUNNABLE\<rparr>)"

definition wakeup :: "chan \<Rightarrow> 'a sched_state_scheme \<Rightarrow> 'a sched_state_scheme" where
  "wakeup c s =
     fold (\<lambda>i s. if Some i \<noteq> myproc s \<and>
                    p_state (procs s i) = SLEEPING \<and> p_chan (procs s i) = c
                 then upd_proc i (wake_proc (ticks s)) s else s) [0..<NPROC] s"

definition find_pid :: "int \<Rightarrow> 'a sched_state_scheme \<Rightarrow> nat option" where
  "find_pid pid s = find (\<lambda>i. p_pid (procs s i) = pid) [0..<NPROC]"

definition kkill :: "int \<Rightarrow> 'a sched_state_scheme \<Rightarrow> int \<times> 'a sched_state_scheme" where
  "kkill pid s =
     (case find_pid pid s of
        None \<Rightarrow> (-1, s)
      | Some i \<Rightarrow>
          (0, upd_proc i (\<lambda>p. let p1 = p\<lparr>p_killed := True\<rparr> in
                 if p_state p = SLEEPING then p1\<lparr>p_state := RUNNABLE\<rparr> else p1) s))"

definition setpriority :: "int \<Rightarrow> int \<Rightarrow> 'a sched_state_scheme \<Rightarrow> int \<times> 'a sched_state_scheme" where
  "setpriority pid prio s =
     (if prio < PRI_MIN \<or> PRI_MAX < prio then (-1, s)
      else case find_pid pid s of
        None \<Rightarrow> (-1, s)
      | Some i \<Rightarrow>
          (0, upd_proc i (\<lambda>p. let p1 = p\<lparr>p_priority := prio,
                                         p_budget := slice_for_priority prio\<rparr> in
                 if p_state p = RUNNABLE then p1\<lparr>p_sched_stamp := ticks s\<rparr> else p1) s))"

definition getpriority :: "int \<Rightarrow> 'a sched_state_scheme \<Rightarrow> int" where
  "getpriority pid s =
     (case find_pid pid s of None \<Rightarrow> -1 | Some i \<Rightarrow> p_priority (procs s i))"

definition setkilled :: "nat \<Rightarrow> 'a sched_state_scheme \<Rightarrow> 'a sched_state_scheme" where
  "setkilled i s = upd_proc i (\<lambda>p. p\<lparr>p_killed := True\<rparr>) s"

definition killed :: "nat \<Rightarrow> 'a sched_state_scheme \<Rightarrow> bool" where
  "killed i s = p_killed (procs s i)"

text \<open>
  The scheduling fields \<^verbatim>\<open>allocproc\<close> gives the slot it found, and the ones
  a new process gets when \<^verbatim>\<open>kfork\<close> or \<^verbatim>\<open>userinit\<close> makes it
  runnable.
\<close>

definition claim_proc :: "int \<Rightarrow> nat \<Rightarrow> proc \<Rightarrow> proc" where
  "claim_proc pid now p =
     p\<lparr>p_pid := pid, p_state := USED, p_priority := PRI_DEFAULT,
       p_budget := slice_for_priority PRI_DEFAULT, p_rtime := 0, p_sched_cnt := 0,
       p_sched_stamp := now, p_page_faults := 0\<rparr>"

definition start_proc :: "nat \<Rightarrow> proc \<Rightarrow> proc" where
  "start_proc now p =
     p\<lparr>p_state := RUNNABLE, p_sched_stamp := now,
       p_budget := slice_for_priority (p_priority p)\<rparr>"

text \<open>The scheduling fields \<^verbatim>\<open>freeproc\<close> resets.\<close>

definition unclaim_proc :: "proc \<Rightarrow> proc" where
  "unclaim_proc p =
     p\<lparr>p_sz := 0, p_pid := 0, p_parent := None, p_name := (p_name p)(0 := 0),
       p_chan := NoChan, p_killed := False, p_xstate := 0,
       p_priority := PRI_DEFAULT, p_budget := slice_for_priority PRI_DEFAULT,
       p_rtime := 0, p_sched_cnt := 0, p_sched_stamp := 0, p_page_faults := 0,
       p_state := UNUSED\<rparr>"

text \<open>The timer interrupt: hart 0 counts the ticks, a 32-bit counter.\<close>

definition clockintr :: "'a sched_state_scheme \<Rightarrow> 'a sched_state_scheme" where
  "clockintr s =
     (if hart s = 0 then wakeup ChanTicks (s\<lparr>ticks := (ticks s + 1) mod 2 ^ 32\<rparr>) else s)"

section \<open>Lemmas\<close>

lemma slice_values [simp]:
  "slice_for_priority 0 = 8" "slice_for_priority 1 = 6"
  "slice_for_priority 2 = 4" "slice_for_priority 3 = 2"
  by (simp_all add: slice_for_priority_def slices_def PRI_MIN_def PRI_MAX_def Let_def
        eval_nat_numeral)

lemma pri_cases:
  assumes "PRI_MIN \<le> p" "p \<le> PRI_MAX"
  obtains "p = 0" | "p = 1" | "p = 2" | "p = 3"
  using assms unfolding PRI_MIN_def PRI_MAX_def by linarith

lemma slice_pos: "0 < slice_for_priority p"
proof -
  have "0 < slices ! n" if "n < 4" for n
    using that by (auto simp: slices_def less_Suc_eq eval_nat_numeral)
  moreover have "nat p < 4" if "p \<le> 3" using that by simp
  ultimately show ?thesis
    by (auto simp: slice_for_priority_def PRI_MIN_def PRI_MAX_def Let_def)
qed

lemma upd_proc_simps [simp]:
  "procs (upd_proc i f s) j = (if j = i then f (procs s i) else procs s j)"
  "cpu_proc (upd_proc i f s) = cpu_proc s" "hart (upd_proc i f s) = hart s"
  "ticks (upd_proc i f s) = ticks s" "nextpid (upd_proc i f s) = nextpid s"
  "initproc (upd_proc i f s) = initproc s" "myproc (upd_proc i f s) = myproc s"
  by (simp_all add: upd_proc_def myproc_def)

definition wakes :: "chan \<Rightarrow> 'a sched_state_scheme \<Rightarrow> nat \<Rightarrow> bool" where
  "wakes c s i \<longleftrightarrow> i < NPROC \<and> Some i \<noteq> myproc s \<and>
     p_state (procs s i) = SLEEPING \<and> p_chan (procs s i) = c"

lemma wakeup_eq:
  "wakeup c s =
     s\<lparr>procs := \<lambda>i. if wakes c s i then wake_proc (ticks s) (procs s i) else procs s i\<rparr>"
proof -
  let ?f = "\<lambda>i s. if Some i \<noteq> myproc s \<and> p_state (procs s i) = SLEEPING \<and> p_chan (procs s i) = c
                  then upd_proc i (wake_proc (ticks s)) s else s"
  have "fold ?f [0..<n] s = s\<lparr>procs := \<lambda>i. if i < n \<and> Some i \<noteq> myproc s \<and>
      p_state (procs s i) = SLEEPING \<and> p_chan (procs s i) = c
      then wake_proc (ticks s) (procs s i) else procs s i\<rparr>" for n
  proof (induction n)
    case 0
    then show ?case by simp
  next
    case (Suc n)
    show ?case
      by (simp add: Suc.IH) (auto simp: upd_proc_def myproc_def fun_eq_iff less_Suc_eq)
  qed
  then show ?thesis by (simp add: wakeup_def wakes_def)
qed

lemma wakeup_simps [simp]:
  "procs (wakeup c s) i = (if wakes c s i then wake_proc (ticks s) (procs s i) else procs s i)"
  "cpu_proc (wakeup c s) = cpu_proc s" "hart (wakeup c s) = hart s" "ticks (wakeup c s) = ticks s"
  "nextpid (wakeup c s) = nextpid s" "initproc (wakeup c s) = initproc s"
  "myproc (wakeup c s) = myproc s"
  by (simp_all add: wakeup_eq myproc_def)

lemma find_pid_Some:
  "find_pid pid s = Some i \<longleftrightarrow> i < NPROC \<and> p_pid (procs s i) = pid \<and> (\<forall>j<i. p_pid (procs s j) \<noteq> pid)"
  by (simp add: find_pid_def find_upt_Some)

lemma find_pid_None: "find_pid pid s = None \<longleftrightarrow> (\<forall>i<NPROC. p_pid (procs s i) \<noteq> pid)"
  by (simp add: find_pid_def find_upt_None)

text \<open>The order in which the scheduler ranks runnable processes.\<close>

definition runnable :: "'a sched_state_scheme \<Rightarrow> nat \<Rightarrow> bool" where
  "runnable s i \<longleftrightarrow> p_state (procs s i) = RUNNABLE"

definition better :: "'a sched_state_scheme \<Rightarrow> nat \<Rightarrow> nat \<Rightarrow> bool" where
  "better s i j \<longleftrightarrow>
     (let p = procs s i; q = procs s j; wp = sched_wait (ticks s) p; wq = sched_wait (ticks s) q
      in p_priority q < p_priority p \<or>
         (p_priority p = p_priority q \<and> (wq < wp \<or> (wp = wq \<and> i < j))))"

lemma scan_invariant:
  assumes "\<And>i. i < n \<Longrightarrow> runnable s i \<Longrightarrow> 0 \<le> p_priority (procs s i)"
  shows "case fold (scan_step s) [0..<n] (None, -1, 0) of (best, bp, bw) \<Rightarrow>
     (case best of
        None \<Rightarrow> bp = -1 \<and> (\<forall>i<n. \<not> runnable s i)
      | Some b \<Rightarrow> b < n \<and> runnable s b \<and> bp = p_priority (procs s b) \<and>
          bw = sched_wait (ticks s) (procs s b) \<and>
          (\<forall>j<n. runnable s j \<and> j \<noteq> b \<longrightarrow> better s b j))"
  using assms
proof (induction n)
  case 0
  then show ?case by simp
next
  case (Suc n)
  obtain best bp bw where acc: "fold (scan_step s) [0..<n] (None, -1, 0) = (best, bp, bw)"
    by (metis prod_cases3)
  note IH = Suc.IH[unfolded acc, simplified]
  have step: "fold (scan_step s) [0..<Suc n] (None, -1, 0) = scan_step s n (best, bp, bw)"
    by (simp add: acc)
  show ?case
  proof (cases "runnable s n")
    case False
    then have "scan_step s n (best, bp, bw) = (best, bp, bw)"
      by (simp add: scan_step_def runnable_def Let_def)
    with IH Suc.prems False show ?thesis
      unfolding step by (auto simp: less_Suc_eq split: option.splits)
  next
    case True
    then have pos: "0 \<le> p_priority (procs s n)" using Suc.prems by simp
    show ?thesis
    proof (cases best)
      case None
      then have "bp = -1" using IH Suc.prems by simp
      with None have "scan_step s n (best, bp, bw) =
          (Some n, p_priority (procs s n), sched_wait (ticks s) (procs s n))"
        using True pos by (auto simp: scan_step_def runnable_def Let_def)
      with None IH Suc.prems True show ?thesis unfolding step by (auto simp: less_Suc_eq)
    next
      case (Some b)
      have b: "b < n" "runnable s b" "bp = p_priority (procs s b)"
        "bw = sched_wait (ticks s) (procs s b)" "\<forall>j<n. runnable s j \<and> j \<noteq> b \<longrightarrow> better s b j"
        using IH Suc.prems Some by auto
      show ?thesis
      proof (cases "better s n b")
        case nb: True
        then have "scan_step s n (best, bp, bw) =
          (Some n, p_priority (procs s n), sched_wait (ticks s) (procs s n))"
          using True b Some by (auto simp: scan_step_def runnable_def Let_def better_def)
        moreover have "\<forall>j<n. runnable s j \<longrightarrow> better s n j"
          using nb b by (auto simp: better_def Let_def)
        ultimately show ?thesis unfolding step using True by (auto simp: less_Suc_eq)
      next
        case nb: False
        then have "scan_step s n (best, bp, bw) = (best, bp, bw)"
          using True b Some by (auto simp: scan_step_def runnable_def Let_def better_def)
        moreover have "better s b n" using nb b(1) by (auto simp: better_def Let_def)
        ultimately show ?thesis unfolding step using b Some by (auto simp: less_Suc_eq)
      qed
    qed
  qed
qed

section \<open>The scheduling invariant\<close>

text \<open>
  Priorities stay in range, and the CPUs and the states of the processes agree: what a CPU
  runs is marked running, what is marked running is on a CPU, and no process is on two CPUs.
\<close>

definition sched_inv :: "'a sched_state_scheme \<Rightarrow> bool" where
  "sched_inv s \<longleftrightarrow>
     (\<forall>i<NPROC. PRI_MIN \<le> p_priority (procs s i) \<and> p_priority (procs s i) \<le> PRI_MAX) \<and>
     (\<forall>c i. cpu_proc s c = Some i \<longrightarrow> i < NPROC \<and> p_state (procs s i) = RUNNING) \<and>
     (\<forall>i<NPROC. p_state (procs s i) = RUNNING \<longrightarrow> (\<exists>c. cpu_proc s c = Some i)) \<and>
     (\<forall>c d i. cpu_proc s c = Some i \<and> cpu_proc s d = Some i \<longrightarrow> c = d)"

text \<open>
  The slice of the process on a CPU is full, or one tick short while the CPU is in the timer
  trap of user mode, between \<^verbatim>\<open>proc_tick\<close> and \<^verbatim>\<open>yield\<close>. \<open>K\<close> is the set of the CPUs
  that are there.
\<close>

definition slice_ok :: "bool \<Rightarrow> proc \<Rightarrow> bool" where
  "slice_ok late p \<longleftrightarrow> p_budget p = slice_for_priority (p_priority p) \<or>
     late \<and> p_budget p = slice_for_priority (p_priority p) - 1"

definition slice_inv :: "nat set \<Rightarrow> 'a sched_state_scheme \<Rightarrow> bool" where
  "slice_inv K s \<longleftrightarrow> (\<forall>c i. cpu_proc s c = Some i \<longrightarrow> slice_ok (c \<in> K) (procs s i))"

text \<open>
  The steps of the process table, each what a CPU does while it holds the lock of one slot;
  \<open>hart\<close> is the CPU that takes the step. The scheduler keeps the lock of the slot it will switch to,
  and the other slots may have changed since it looked at them, so any runnable slot can be the one.
  A \<^verbatim>\<open>wakeup\<close> goes through the slots one by one. A timer interrupt is several steps: the clock,
  the wakeups, in user mode the tick, and the yield; from the tick to the yield the CPU has
  interrupts off and does nothing else, but the other CPUs go on.
\<close>

inductive sched_step :: "'a sched_state_scheme \<times> nat set \<Rightarrow> 'a sched_state_scheme \<times> nat set \<Rightarrow> bool" where
  on_hart: "c < NCPU \<Longrightarrow> sched_step (s, K) (s\<lparr>hart := c\<rparr>, K)"
| dispatch: "hart s \<notin> K \<Longrightarrow> myproc s = None \<Longrightarrow> b < NPROC \<Longrightarrow> p_state (procs s b) = RUNNABLE \<Longrightarrow>
    sched_step (s, K) (switch_to now b s, K)"
| clock: "hart s \<notin> K \<Longrightarrow> hart s = 0 \<Longrightarrow> sched_step (s, K) (s\<lparr>ticks := (ticks s + 1) mod 2 ^ 32\<rparr>, K)"
| wake: "hart s \<notin> K \<Longrightarrow> i < NPROC \<Longrightarrow> Some i \<noteq> myproc s \<Longrightarrow> p_state (procs s i) = SLEEPING \<Longrightarrow>
    sched_step (s, K) (upd_proc i (wake_proc (ticks s)) s, K)"
| user_tick: "hart s \<notin> K \<Longrightarrow> myproc s = Some i \<Longrightarrow> sched_step (s, K) (proc_tick s, insert (hart s) K)"
| user_yield: "hart s \<in> K \<Longrightarrow> yield s = Ok t \<Longrightarrow> sched_step (s, K) (t, K - {hart s})"
| kernel_yield: "hart s \<notin> K \<Longrightarrow> yield s = Ok t \<Longrightarrow> sched_step (s, K) (t, K)"
| do_sleep: "hart s \<notin> K \<Longrightarrow> sleep c s = Ok t \<Longrightarrow> sched_step (s, K) (t, K)"
| do_kill: "hart s \<notin> K \<Longrightarrow> sched_step (s, K) (snd (kkill pid s), K)"
| do_setpriority: "hart s \<notin> K \<Longrightarrow> sched_step (s, K) (snd (setpriority pid prio s), K)"
| do_alloc: "hart s \<notin> K \<Longrightarrow> i < NPROC \<Longrightarrow> p_state (procs s i) = UNUSED \<Longrightarrow>
    sched_step (s, K) (upd_proc i (claim_proc (nextpid s) (ticks s)) (snd (allocpid s)), K)"
| do_start: "hart s \<notin> K \<Longrightarrow> i < NPROC \<Longrightarrow> p_state (procs s i) = USED \<Longrightarrow>
    sched_step (s, K) (upd_proc i (start_proc (ticks s)) s, K)"
| do_exit: "hart s \<notin> K \<Longrightarrow> myproc s = Some i \<Longrightarrow>
    sched True 1 False (upd_proc i (\<lambda>p. p\<lparr>p_xstate := st, p_state := ZOMBIE\<rparr>) s) = Ok t \<Longrightarrow>
    sched_step (s, K) (t, K)"
| do_free: "hart s \<notin> K \<Longrightarrow> i < NPROC \<Longrightarrow> p_state (procs s i) \<in> {USED, ZOMBIE} \<Longrightarrow>
    sched_step (s, K) (upd_proc i unclaim_proc s, K)"

inductive sched_reachable :: "'a sched_state_scheme \<Rightarrow> 'a sched_state_scheme \<times> nat set \<Rightarrow> bool"
  for s0 :: "'a sched_state_scheme" where
  init: "sched_reachable s0 (s0, {})"
| step: "sched_reachable s0 x \<Longrightarrow> sched_step x y \<Longrightarrow> sched_reachable s0 y"

lemmas sched_defs = PRI_MIN_def PRI_MAX_def PRI_DEFAULT_def

lemma sched_inv_fields [simp]:
  "sched_inv (s\<lparr>hart := c\<rparr>) = sched_inv s" "sched_inv (s\<lparr>ticks := n\<rparr>) = sched_inv s"
  "slice_inv K (s\<lparr>hart := c\<rparr>) = slice_inv K s" "slice_inv K (s\<lparr>ticks := n\<rparr>) = slice_inv K s"
  by (simp_all add: sched_inv_def slice_inv_def)

lemma sched_invI_upd:
  assumes inv: "sched_inv s"
    and pri: "PRI_MIN \<le> p_priority (f (procs s i))" "p_priority (f (procs s i)) \<le> PRI_MAX"
    and run: "p_state (f (procs s i)) = RUNNING \<longleftrightarrow> p_state (procs s i) = RUNNING"
  shows "sched_inv (upd_proc i f s)"
  using assms unfolding sched_inv_def by simp

lemma sched_inv_leave:
  assumes inv: "sched_inv s" and me: "myproc s = Some i"
    and pri: "PRI_MIN \<le> p_priority (f (procs s i))" "p_priority (f (procs s i)) \<le> PRI_MAX"
    and st: "p_state (f (procs s i)) \<noteq> RUNNING"
    and t: "sched True 1 False (upd_proc i f s) = Ok t"
  shows "sched_inv t"
proof -
  have cpu: "cpu_proc s (hart s) = Some i" using me by (simp add: myproc_def)
  have t': "t = (upd_proc i f s)\<lparr>cpu_proc := (cpu_proc s)(hart s := None)\<rparr>"
    using t me st by (simp add: sched_def split: if_splits)
  have other: "cpu_proc s c \<noteq> Some i" if "c \<noteq> hart s" for c
    using inv cpu that unfolding sched_inv_def by blast
  have keep: "\<exists>c. c \<noteq> hart s \<and> cpu_proc s c = Some j"
    if "j < NPROC" "j \<noteq> i" "p_state (procs s j) = RUNNING" for j
    using inv cpu that unfolding sched_inv_def by (metis option.inject)
  show ?thesis
    using inv pri st other keep unfolding t' sched_inv_def
    by (auto split: if_splits) (metis option.inject)+
qed

lemma sched_inv_idle:
  assumes "sched_inv s" "p_state (procs s i) \<noteq> RUNNING" "p_state (f (procs s i)) \<noteq> RUNNING"
    and "PRI_MIN \<le> p_priority (f (procs s i))" "p_priority (f (procs s i)) \<le> PRI_MAX"
  shows "sched_inv (upd_proc i f s)"
  using assms by (intro sched_invI_upd) auto

lemma sched_inv_wakeup: "sched_inv s \<Longrightarrow> sched_inv (wakeup c s)"
  unfolding sched_inv_def by (auto simp: wakes_def wake_proc_def Let_def sched_defs)

lemma sched_inv_clockintr: "sched_inv s \<Longrightarrow> sched_inv (clockintr s)"
proof -
  assume "sched_inv s"
  then have "sched_inv (s\<lparr>ticks := n\<rparr>)" for n by (simp add: sched_inv_def)
  then show ?thesis using \<open>sched_inv s\<close> by (simp add: clockintr_def sched_inv_wakeup)
qed

lemma clockintr_me [simp]:
  "myproc (clockintr s) = myproc s" "hart (clockintr s) = hart s" "cpu_proc (clockintr s) = cpu_proc s"
  by (simp_all add: clockintr_def myproc_def)

lemma clockintr_myproc: "myproc s = Some i \<Longrightarrow> procs (clockintr s) i = procs s i"
  by (auto simp: clockintr_def wakes_def myproc_def)

lemma sched_inv_running:
  assumes "sched_inv s" "myproc s = Some i"
  shows "i < NPROC" "p_state (procs s i) = RUNNING"
    "PRI_MIN \<le> p_priority (procs s i)" "p_priority (procs s i) \<le> PRI_MAX"
  using assms by (auto simp: sched_inv_def myproc_def)

lemma tick_full_slice:
  assumes "p_budget p = slice_for_priority (p_priority p)" "PRI_MIN \<le> p_priority p" "p_priority p \<le> PRI_MAX"
  shows "tick_proc p = p\<lparr>p_rtime := p_rtime p + 1, p_budget := slice_for_priority (p_priority p) - 1\<rparr>"
  using assms(2,3) by (rule pri_cases) (simp_all add: tick_proc_def assms(1))

lemma yield_pri: "p_priority (yield_proc now p) = p_priority p \<or>
    p_priority p < PRI_MAX \<and> p_priority (yield_proc now p) = p_priority p + 1"
  by (auto simp: yield_proc_def Let_def)

lemma yield_proc_state [simp]: "p_state (yield_proc now p) = RUNNABLE"
  by (simp add: yield_proc_def Let_def)

lemma sched_inv_yield:
  assumes inv: "sched_inv s" and me: "myproc s = Some i" and t: "yield s = Ok t"
  shows "sched_inv t"
proof (rule sched_inv_leave[OF inv me])
  show "sched True 1 False (upd_proc i (yield_proc (ticks s)) s) = Ok t"
    using t me by (simp add: yield_def)
qed (use sched_inv_running[OF inv me] yield_pri[of "ticks s" "procs s i"] in \<open>auto simp: sched_defs\<close>)

lemma sched_pick_runnable:
  assumes "sched_inv s" "sched_pick s = Some b"
  shows "b < NPROC" "p_state (procs s b) = RUNNABLE"
    "\<forall>j<NPROC. p_state (procs s j) = RUNNABLE \<and> j \<noteq> b \<longrightarrow> better s b j"
proof -
  have "\<And>i. i < NPROC \<Longrightarrow> runnable s i \<Longrightarrow> 0 \<le> p_priority (procs s i)"
    using assms(1) by (auto simp: sched_inv_def sched_defs)
  from scan_invariant[where n = NPROC, OF this] assms(2)
  show "b < NPROC" "p_state (procs s b) = RUNNABLE"
    "\<forall>j<NPROC. p_state (procs s j) = RUNNABLE \<and> j \<noteq> b \<longrightarrow> better s b j"
    by (auto simp: sched_pick_def runnable_def split: prod.splits option.splits)
qed

lemma sched_pick_none:
  assumes "sched_inv s" "sched_pick s = None" "i < NPROC"
  shows "p_state (procs s i) \<noteq> RUNNABLE"
proof -
  have "\<And>i. i < NPROC \<Longrightarrow> runnable s i \<Longrightarrow> 0 \<le> p_priority (procs s i)"
    using assms(1) by (auto simp: sched_inv_def sched_defs)
  from scan_invariant[where n = NPROC, OF this] assms(2,3) show ?thesis
    by (auto simp: sched_pick_def runnable_def split: prod.splits option.splits)
qed

lemma sched_inv_switch:
  assumes inv: "sched_inv s" and me: "myproc s = None" and b: "b < NPROC" "p_state (procs s b) = RUNNABLE"
  shows "sched_inv (switch_to now b s)"
proof -
  have idle: "cpu_proc s (hart s) = None" using me by (simp add: myproc_def)
  have off: "cpu_proc s c \<noteq> Some b" for c
  proof
    assume "cpu_proc s c = Some b"
    then have "p_state (procs s b) = RUNNING" using inv unfolding sched_inv_def by blast
    then show False using b(2) by simp
  qed
  have keep: "\<exists>c. (c = hart s \<longrightarrow> j = b) \<and> (c \<noteq> hart s \<longrightarrow> cpu_proc s c = Some j)"
    if "j < NPROC" "p_state (procs s j) = RUNNING" for j
    using inv idle that unfolding sched_inv_def by (metis option.distinct(1))
  show ?thesis
    using inv b(1) off idle keep unfolding sched_inv_def switch_to_def
    by (simp add: upd_proc_def) blast
qed

lemma tick_pri: "PRI_MIN \<le> p_priority p \<Longrightarrow> p_priority p \<le> PRI_MAX \<Longrightarrow>
    PRI_MIN \<le> p_priority (tick_proc p) \<and> p_priority (tick_proc p) \<le> PRI_MAX \<and> p_state (tick_proc p) = p_state p"
  by (simp add: tick_proc_def Let_def sched_defs)

lemma sched_inv_tick:
  assumes "sched_inv s"
  shows "sched_inv (proc_tick s)"
proof (cases "myproc s")
  case (Some i)
  have "sched_inv (upd_proc i tick_proc s)"
    using tick_pri[of "procs s i"] sched_inv_running[OF assms Some] by (intro sched_invI_upd[OF assms]) auto
  then show ?thesis using Some assms by (simp add: proc_tick_def)
qed (use assms in \<open>simp add: proc_tick_def\<close>)

lemma sched_inv_kkill:
  assumes inv: "sched_inv s"
  shows "sched_inv (snd (kkill pid s))"
proof (cases "find_pid pid s")
  case None
  then show ?thesis using inv by (simp add: kkill_def)
next
  case (Some i)
  then have "i < NPROC" by (simp add: find_pid_Some)
  then show ?thesis unfolding kkill_def Some option.case snd_conv
    by (intro sched_invI_upd[OF inv]) (use inv in \<open>auto simp: sched_inv_def Let_def\<close>)
qed

lemma sched_inv_setpriority:
  assumes inv: "sched_inv s"
  shows "sched_inv (snd (setpriority pid prio s))"
proof (cases "prio < PRI_MIN \<or> PRI_MAX < prio \<or> find_pid pid s = None")
  case True
  then show ?thesis using inv by (auto simp: setpriority_def)
next
  case False
  then obtain i where i: "find_pid pid s = Some i" and r: "\<not> (prio < PRI_MIN \<or> PRI_MAX < prio)" by auto
  show ?thesis unfolding setpriority_def i option.case if_not_P[OF r] snd_conv
    by (intro sched_invI_upd[OF inv]) (use r in \<open>simp_all add: Let_def\<close>)
qed

lemma yield_myproc: "yield s = Ok t \<Longrightarrow> \<exists>i. myproc s = Some i"
  by (auto simp: yield_def split: option.splits)

lemma sleep_myproc: "sleep c s = Ok t \<Longrightarrow> \<exists>i. myproc s = Some i"
  by (auto simp: sleep_def split: option.splits)

lemma sched_step_inv: "sched_step x y \<Longrightarrow> sched_inv (fst x) \<Longrightarrow> sched_inv (fst y)"
proof (induction rule: sched_step.induct)
  case (dispatch s K b now)
  then show ?case by (simp add: sched_inv_switch)
next
  case (wake s K i)
  show ?case
    unfolding fst_conv
    by (rule sched_inv_idle) (use wake in \<open>auto simp: wake_proc_def Let_def sched_inv_def sched_defs\<close>)
next
  case (user_yield s K t)
  obtain i where i: "myproc s = Some i" using yield_myproc[OF user_yield.hyps(2)] by blast
  then show ?case using user_yield sched_inv_yield[OF _ i] by simp
next
  case (kernel_yield s K t)
  obtain i where i: "myproc s = Some i" using yield_myproc[OF kernel_yield.hyps(2)] by blast
  then show ?case using kernel_yield sched_inv_yield[OF _ i] by simp
next
  case (do_sleep s K c t)
  obtain i where i: "myproc s = Some i" using sleep_myproc[OF do_sleep.hyps(2)] by blast
  have inv: "sched_inv s" using do_sleep.prems by simp
  let ?f = "\<lambda>p. p\<lparr>p_chan := c, p_state := SLEEPING\<rparr>"
  have "sched True 1 False (upd_proc i ?f s) = Ok t" using do_sleep.hyps i by (simp add: sleep_def)
  from sched_inv_leave[OF inv i _ _ _ this] show ?case by (simp add: sched_inv_running[OF inv i])
next
  case (do_alloc s K i)
  have "sched_inv (snd (allocpid s))" using do_alloc.prems by (simp add: sched_inv_def allocpid_def)
  then show ?case
    unfolding fst_conv
    by (rule sched_inv_idle) (use do_alloc.hyps in \<open>simp_all add: allocpid_def claim_proc_def sched_defs\<close>)
next
  case (do_start s K i)
  show ?case
    unfolding fst_conv by (rule sched_inv_idle) (use do_start in \<open>simp_all add: start_proc_def sched_inv_def\<close>)
next
  case (do_exit s K i st t)
  have inv: "sched_inv s" using do_exit.prems by simp
  from sched_inv_leave[OF inv do_exit.hyps(2) _ _ _ do_exit.hyps(3)] show ?case
    by (simp add: sched_inv_running[OF inv do_exit.hyps(2)])
next
  case (do_free s K i)
  show ?case
    unfolding fst_conv by (rule sched_inv_idle) (use do_free in \<open>auto simp: unclaim_proc_def sched_defs\<close>)
qed (simp_all add: sched_inv_tick sched_inv_kkill sched_inv_setpriority)

section \<open>Slices\<close>

lemma slice_ok_mono: "slice_ok a p \<Longrightarrow> (a \<Longrightarrow> b) \<Longrightarrow> slice_ok b p"
  by (auto simp: slice_ok_def)

lemma slice_inv_upd:
  assumes "slice_inv K s" "\<And>c. cpu_proc s c = Some i \<Longrightarrow> slice_ok (c \<in> K) (f (procs s i))"
  shows "slice_inv K (upd_proc i f s)"
  using assms by (simp add: slice_inv_def)

text \<open>A slot that no CPU runs may change in any way.\<close>

lemma slice_inv_off:
  assumes "slice_inv K s" "sched_inv s" "p_state (procs s i) \<noteq> RUNNING"
  shows "slice_inv K (upd_proc i f s)"
proof (rule slice_inv_upd[OF assms(1)])
  show "slice_ok (c \<in> K) (f (procs s i))" if "cpu_proc s c = Some i" for c
    using assms(2,3) that unfolding sched_inv_def by blast
qed

text \<open>A process that gives up its CPU.\<close>

lemma slice_inv_leave:
  assumes "slice_inv K s" "sched_inv s" "myproc s = Some i" "sched True 1 False (upd_proc i f s) = Ok t"
  shows "slice_inv K t" "slice_inv (K - {hart s}) t"
proof -
  have t: "t = (upd_proc i f s)\<lparr>cpu_proc := (cpu_proc s)(hart s := None)\<rparr>"
    using assms(3,4) by (simp add: sched_def split: if_splits)
  have "cpu_proc s c \<noteq> Some i" if "c \<noteq> hart s" for c
    using assms(2,3) that unfolding sched_inv_def myproc_def by blast
  then show "slice_inv K t" "slice_inv (K - {hart s}) t" using assms(1) by (auto simp: t slice_inv_def)
qed

lemma slice_inv_clockintr:
  assumes "slice_inv K s" "sched_inv s"
  shows "slice_inv K (clockintr s)"
proof -
  have run: "p_state (procs s i) = RUNNING" if "cpu_proc s c = Some i" for c i
    using assms(2) that unfolding sched_inv_def by blast
  have "slice_inv K (wakeup c (s\<lparr>ticks := n\<rparr>))" for c n
    using assms(1) run by (fastforce simp: slice_inv_def wakes_def)
  then show ?thesis using assms(1) by (simp add: clockintr_def)
qed

lemma slice_inv_tick:
  assumes "slice_inv K s" "sched_inv s" "hart s \<notin> K" "myproc s = Some i"
  shows "slice_inv (insert (hart s) K) (proc_tick s)"
proof -
  note r = sched_inv_running[OF assms(2,4)]
  have full: "p_budget (procs s i) = slice_for_priority (p_priority (procs s i))"
    using assms(1,3,4) by (auto simp: slice_inv_def slice_ok_def myproc_def)
  have only: "c = hart s" if "cpu_proc s c = Some i" for c
    using assms(2,4) that unfolding sched_inv_def myproc_def by blast
  have "slice_ok True (tick_proc (procs s i))" by (simp add: tick_full_slice[OF full r(3,4)] slice_ok_def)
  moreover have "slice_inv (insert (hart s) K) s" using assms(1) by (auto simp: slice_inv_def intro: slice_ok_mono)
  ultimately show ?thesis
    using slice_inv_upd[of "insert (hart s) K" s i tick_proc] only r(2) assms(4) by (auto simp: proc_tick_def)
qed

lemma slice_inv_switch:
  assumes "slice_inv K s" "sched_inv s" "p_state (procs s b) = RUNNABLE"
  shows "slice_inv K (switch_to now b s)"
proof -
  have "cpu_proc s c \<noteq> Some b" for c
    using assms(2,3) unfolding sched_inv_def by (metis procstate.distinct(25))
  then show ?thesis using assms(1) by (auto simp: slice_inv_def slice_ok_def switch_to_def)
qed

lemma slice_inv_setpriority:
  assumes "slice_inv K s"
  shows "slice_inv K (snd (setpriority pid prio s))"
  using assms
  by (auto simp: setpriority_def slice_inv_def slice_ok_def Let_def split: option.split)

lemma slice_inv_kkill:
  assumes "slice_inv K s"
  shows "slice_inv K (snd (kkill pid s))"
  using assms by (auto simp: kkill_def slice_inv_def slice_ok_def Let_def split: option.split)

lemma sched_step_slice:
  "sched_step x y \<Longrightarrow> sched_inv (fst x) \<Longrightarrow> slice_inv (snd x) (fst x) \<Longrightarrow> slice_inv (snd y) (fst y)"
proof (induction rule: sched_step.induct)
  case (wake s K i)
  then show ?case by (simp add: slice_inv_off)
next
  case (user_yield s K t)
  obtain i where i: "myproc s = Some i" using yield_myproc[OF user_yield.hyps(2)] by blast
  then show ?case using user_yield slice_inv_leave(2)[of K s i] by (simp add: yield_def)
next
  case (kernel_yield s K t)
  obtain i where i: "myproc s = Some i" using yield_myproc[OF kernel_yield.hyps(2)] by blast
  then show ?case using kernel_yield slice_inv_leave(1)[of K s i] by (simp add: yield_def)
next
  case (do_sleep s K c t)
  obtain i where i: "myproc s = Some i" using sleep_myproc[OF do_sleep.hyps(2)] by blast
  then show ?case using do_sleep slice_inv_leave(1)[of K s i] by (simp add: sleep_def)
next
  case (do_alloc s K i)
  have "slice_inv K (snd (allocpid s))" "sched_inv (snd (allocpid s))"
    using do_alloc.prems by (simp_all add: slice_inv_def sched_inv_def allocpid_def)
  then show ?case using do_alloc.hyps by (simp add: slice_inv_off allocpid_def)
next
  case (do_start s K i)
  then show ?case by (simp add: slice_inv_off)
next
  case (do_exit s K i st t)
  then show ?case using slice_inv_leave(1)[of K s i] by simp
next
  case (do_free s K i)
  then show ?case by (auto intro: slice_inv_off)
qed (simp_all add: slice_inv_tick slice_inv_switch slice_inv_kkill slice_inv_setpriority)

text \<open>The routines that take more than one step: a round of the scheduler, \<^verbatim>\<open>wakeup\<close> and the clock interrupt.\<close>

lemma scheduler_round_step:
  assumes "sched_inv s" "hart s \<notin> K" "myproc s = None"
  shows "sched_step\<^sup>*\<^sup>* (s, K) (scheduler_round s, K)"
proof (cases "sched_pick s")
  case (Some b)
  then show ?thesis
    using dispatch[OF assms(2,3) sched_pick_runnable(1,2)[OF assms(1) Some]] by (auto simp: scheduler_round_def)
qed (simp add: scheduler_round_def)

lemma wakeup_steps:
  assumes "hart s \<notin> K"
  shows "sched_step\<^sup>*\<^sup>* (s, K) (wakeup c s, K)"
proof -
  let ?f = "\<lambda>i s. if Some i \<noteq> myproc s \<and> p_state (procs s i) = SLEEPING \<and> p_chan (procs s i) = c
                  then upd_proc i (wake_proc (ticks s)) s else s"
  have "n \<le> NPROC \<Longrightarrow> sched_step\<^sup>*\<^sup>* (s, K) (fold ?f [0..<n] s, K) \<and> hart (fold ?f [0..<n] s) = hart s" for n
  proof (induction n)
    case (Suc n)
    let ?t = "fold ?f [0..<n] s"
    have "sched_step\<^sup>*\<^sup>* (?t, K) (?f n ?t, K)" using wake[of ?t K n] Suc assms by auto
    with Suc show ?case by (auto intro: rtranclp_trans)
  qed simp
  then show ?thesis by (simp add: wakeup_def)
qed

lemma clockintr_steps:
  assumes "hart s \<notin> K"
  shows "sched_step\<^sup>*\<^sup>* (s, K) (clockintr s, K)"
proof (cases "hart s = 0")
  case True
  let ?t = "s\<lparr>ticks := (ticks s + 1) mod 2 ^ 32\<rparr>"
  have "sched_step\<^sup>*\<^sup>* (?t, K) (wakeup ChanTicks ?t, K)" by (rule wakeup_steps) (simp add: assms)
  with clock[OF assms True] True show ?thesis by (simp add: clockintr_def converse_rtranclp_into_rtranclp)
qed (simp add: clockintr_def)

section \<open>Properties\<close>

text \<open>A static object of C starts as zeros.\<close>

definition zero_proc :: proc where
  "zero_proc = \<lparr>p_state = UNUSED, p_chan = NoChan, p_killed = False, p_xstate = 0, p_pid = 0,
     p_priority = 0, p_budget = 0, p_rtime = 0, p_sched_cnt = 0, p_sched_stamp = 0,
     p_page_faults = 0, p_parent = None, p_kstack = 0, p_sz = 0, p_pagetable = 0,
     p_trapframe = 0, p_ctx_ra = 0, p_ctx_sp = 0, p_ofile = (\<lambda>_. None), p_cwd = None,
     p_name = (\<lambda>_. 0)\<rparr>"

definition sched_bss :: sched_state where
  "sched_bss = \<lparr>pmem = (\<lambda>_. 0), kend = KERNBASE, freelist = 0, total_pages = 0, free_pages = 0,
     low_warned = False, crit_warned = False, oom_warned = False, kready = False,
     refcnt = (\<lambda>_. 0), procs = (\<lambda>_. zero_proc), nextpid = 1, initproc = None, ticks = 0,
     cpu_proc = (\<lambda>_. None), hart = 0\<rparr>"

lemma fold_upd_proc:
  "fold (\<lambda>i. upd_proc i (f i)) [0..<n] s =
     s\<lparr>procs := \<lambda>i. if i < n then f i (procs s i) else procs s i\<rparr>"
  by (induction n) (auto simp: upd_proc_def fun_eq_iff less_Suc_eq)

lemma procinit_eq:
  "procinit s = s\<lparr>procs := \<lambda>i. if i < NPROC
     then (procs s i)\<lparr>p_state := UNUSED, p_kstack := KSTACK i\<rparr> else procs s i\<rparr>"
  by (simp add: procinit_def fold_upd_proc)

lemma sched_inv_start: "sched_inv (procinit sched_bss)"
  by (simp add: sched_inv_def procinit_eq sched_bss_def zero_proc_def sched_defs)

lemma sched_reachable_inv:
  "sched_reachable s0 x \<Longrightarrow> sched_inv s0 \<Longrightarrow> slice_inv {} s0 \<Longrightarrow> sched_inv (fst x) \<and> slice_inv (snd x) (fst x)"
  by (induction rule: sched_reachable.induct) (auto dest: sched_step_inv sched_step_slice)

lemma slice_inv_start: "slice_inv {} (procinit sched_bss)"
  by (simp add: slice_inv_def procinit_eq sched_bss_def)

lemma sched_reachable_steps: "sched_reachable s0 x \<Longrightarrow> sched_step\<^sup>*\<^sup>* x y \<Longrightarrow> sched_reachable s0 y"
  by (rotate_tac, induction rule: rtranclp_induct) (auto intro: sched_reachable.step)

text \<open>
  C4. In every state the kernel reaches from the initialised process table, whatever the
  order of dispatches, clock ticks, wakeups, ticks charged and yields of timer traps, sleeps,
  kills, priority changes, process creation and exit on the CPUs, a process is marked running
  exactly when one CPU, and only one, runs it, its priority is between the least and the
  greatest level, and the slice of the process on a CPU is the full slice of its level, or one tick less
  while that CPU is between \<^verbatim>\<open>proc_tick\<close> and \<^verbatim>\<open>yield\<close> of a timer trap.
\<close>

theorem running_on_one_cpu:
  assumes "sched_reachable (procinit sched_bss) (s, K)" and "i < NPROC"
  shows "(p_state (procs s i) = RUNNING \<longleftrightarrow> (\<exists>!c. cpu_proc s c = Some i)) \<and>
    PRI_MIN \<le> p_priority (procs s i) \<and> p_priority (procs s i) \<le> PRI_MAX \<and>
    (\<forall>c. cpu_proc s c = Some i \<longrightarrow>
       p_budget (procs s i) = slice_for_priority (p_priority (procs s i)) \<or>
       c \<in> K \<and> p_budget (procs s i) = slice_for_priority (p_priority (procs s i)) - 1)"
proof -
  have inv: "sched_inv s" "slice_inv K s"
    using sched_reachable_inv[OF assms(1) sched_inv_start slice_inv_start] by simp_all
  have "p_state (procs s i) = RUNNING \<longleftrightarrow> (\<exists>!c. cpu_proc s c = Some i)"
    "PRI_MIN \<le> p_priority (procs s i) \<and> p_priority (procs s i) \<le> PRI_MAX"
    using inv(1) assms(2) unfolding sched_inv_def by blast+
  then show ?thesis using inv(2) by (simp add: slice_inv_def slice_ok_def)
qed

text \<open>A process table in which slot 0 was started and dispatched on hart 0.\<close>

definition one_ready :: sched_state where
  "one_ready = upd_proc 0 (start_proc 0)
     (upd_proc 0 (claim_proc 1 0) (snd (allocpid (procinit sched_bss))))"

lemma one_ready_reachable: "sched_reachable (procinit sched_bss) (one_ready, {})"
proof -
  let ?s = "procinit sched_bss" let ?t = "upd_proc 0 (claim_proc 1 0) (snd (allocpid ?s))"
  have z: "nextpid ?s = 1" "ticks ?s = 0" by (simp_all add: procinit_eq sched_bss_def)
  have "sched_step (?s, {}) (?t, {})"
    using do_alloc[of ?s "{}" 0] z by (simp add: procinit_eq sched_bss_def NPROC_def)
  moreover have "sched_step (?t, {}) (upd_proc 0 (start_proc 0) ?t, {})"
    using do_start[of ?t "{}" 0] by (simp add: z allocpid_def claim_proc_def NPROC_def)
  ultimately show ?thesis unfolding one_ready_def by (meson sched_reachable.intros)
qed

lemma one_ready_simps:
  "p_state (procs one_ready 0) = RUNNABLE" "p_priority (procs one_ready 0) = 1"
  "hart one_ready = 0" "cpu_proc one_ready = (\<lambda>_. None)" "ticks one_ready = 0"
  "i \<noteq> 0 \<Longrightarrow> p_state (procs one_ready i) = UNUSED" "p_pid (procs one_ready 0) = 1"
  by (simp_all add: one_ready_def allocpid_def procinit_eq sched_bss_def start_proc_def
      claim_proc_def zero_proc_def sched_defs)

lemma one_ready_inv: "sched_inv one_ready"
  using sched_reachable_inv[OF one_ready_reachable sched_inv_start slice_inv_start] by simp

lemma one_ready_pick: "sched_pick one_ready = Some 0"
proof (cases "sched_pick one_ready")
  case None
  from sched_pick_none[OF one_ready_inv None, of 0] show ?thesis
    by (simp add: one_ready_simps NPROC_def)
next
  case (Some b)
  from sched_pick_runnable(2)[OF one_ready_inv Some] show ?thesis
    by (cases "b = 0") (simp_all add: one_ready_simps Some)
qed

definition one_running :: sched_state where "one_running = scheduler_round one_ready"

lemma one_running_simps:
  "p_state (procs one_running 0) = RUNNING" "p_priority (procs one_running 0) = 1"
  "hart one_running = 0" "cpu_proc one_running = (\<lambda>_. None)(0 := Some 0)"
  "ticks one_running = 0" "myproc one_running = Some 0"
  by (simp_all add: one_running_def scheduler_round_def switch_to_def one_ready_pick one_ready_simps myproc_def)

lemma one_running_reachable: "sched_reachable (procinit sched_bss) (one_running, {})"
  unfolding one_running_def
  by (rule sched_reachable_steps[OF one_ready_reachable scheduler_round_step[OF one_ready_inv]])
    (simp_all add: myproc_def one_ready_simps)

text \<open>Hart 0 has charged a tick and has not yet yielded.\<close>

theorem running_on_one_cpu_witness:
  "sched_reachable (procinit sched_bss) (proc_tick one_running, {0}) \<and>
   p_state (procs (proc_tick one_running) 0) = RUNNING \<and> (\<exists>!c. cpu_proc (proc_tick one_running) c = Some 0) \<and>
   p_budget (procs (proc_tick one_running) 0) = 5"
proof -
  have "sched_step (one_running, {}) (proc_tick one_running, {0})"
    using user_tick[of one_running "{}" 0] by (simp add: one_running_simps)
  with one_running_reachable have r: "sched_reachable (procinit sched_bss) (proc_tick one_running, {0})"
    by (rule sched_reachable.step)
  have "p_budget (procs one_running 0) = 6"
    by (simp add: one_running_def scheduler_round_def switch_to_def one_ready_pick one_ready_simps)
  then have "p_state (procs (proc_tick one_running) 0) = RUNNING" "p_budget (procs (proc_tick one_running) 0) = 5"
    by (simp_all add: proc_tick_def one_running_simps tick_proc_def Let_def)
  with r running_on_one_cpu[OF r, of 0] show ?thesis by (simp add: NPROC_def)
qed

text \<open>
  C23. The scan of the scheduler takes the best process: it finds none exactly when no slot
  is runnable; otherwise the one it takes is runnable, and any other runnable process has
  a lower priority, or the same priority and a shorter wait, or the same priority and wait
  and a later slot.
\<close>

theorem sched_pick_correct:
  assumes "sched_inv s"
  shows "case sched_pick s of
      None \<Rightarrow> \<forall>i<NPROC. p_state (procs s i) \<noteq> RUNNABLE
    | Some b \<Rightarrow> b < NPROC \<and> p_state (procs s b) = RUNNABLE \<and>
        (\<forall>j<NPROC. p_state (procs s j) = RUNNABLE \<and> j \<noteq> b \<longrightarrow>
           p_priority (procs s j) < p_priority (procs s b) \<or>
           p_priority (procs s j) = p_priority (procs s b) \<and>
             (sched_wait (ticks s) (procs s j) < sched_wait (ticks s) (procs s b) \<or>
              sched_wait (ticks s) (procs s j) = sched_wait (ticks s) (procs s b) \<and> b < j))"
proof (cases "sched_pick s")
  case None
  then show ?thesis using sched_pick_none[OF assms] by simp
next
  case (Some b)
  have "p_priority (procs s j) < p_priority (procs s b) \<or>
           p_priority (procs s j) = p_priority (procs s b) \<and>
             (sched_wait (ticks s) (procs s j) < sched_wait (ticks s) (procs s b) \<or>
              sched_wait (ticks s) (procs s j) = sched_wait (ticks s) (procs s b) \<and> b < j)"
    if "j < NPROC" "p_state (procs s j) = RUNNABLE" "j \<noteq> b" for j
    using sched_pick_runnable(3)[OF assms Some] that by (auto simp: better_def Let_def)
  with sched_pick_runnable(1,2)[OF assms Some] Some show ?thesis by simp
qed

definition two_ready :: sched_state where
  "two_ready = one_ready\<lparr>procs := (procs one_ready)(1 := (procs one_ready 0)\<lparr>p_pid := 2, p_priority := 2\<rparr>)\<rparr>"

theorem sched_pick_correct_witness:
  "sched_inv two_ready \<and> sched_pick two_ready = Some 1"
proof -
  have inv: "sched_inv two_ready"
    using one_ready_inv by (simp add: sched_inv_def two_ready_def one_ready_simps sched_defs)
  have st1: "p_state (procs two_ready i) = RUNNABLE \<longleftrightarrow> i \<le> 1" for i
    by (cases "i = 0"; cases "i = 1") (simp_all add: two_ready_def one_ready_simps)
  have st2: "p_priority (procs two_ready 0) = 1" "p_priority (procs two_ready 1) = 2"
    by (simp_all add: two_ready_def one_ready_simps)
  from sched_pick_correct[OF inv] have "sched_pick two_ready = Some 1"
  proof (cases "sched_pick two_ready")
    case None
    with sched_pick_correct[OF inv] show ?thesis by (auto simp: st1 NPROC_def dest: spec[of _ 0])
  next
    case (Some b)
    with sched_pick_correct[OF inv] have "b \<le> 1"
      and *: "b = 0 \<longrightarrow> p_priority (procs two_ready 1) \<le> p_priority (procs two_ready 0)"
      by (auto simp: st1 NPROC_def dest: spec[of _ 1])
    then show ?thesis using Some st2 by (cases "b = 0") auto
  qed
  with inv show ?thesis by simp
qed

text \<open>
  C29. \<^verbatim>\<open>setpriority\<close> and \<^verbatim>\<open>getpriority\<close>: a level out of range or
  a pid that no slot has is an error that leaves the table alone; otherwise the level is
  what \<^verbatim>\<open>getpriority\<close> returns afterwards, the slice is the one of the new
  level, and no other slot changes.
\<close>

theorem setpriority_getpriority:
  "if prio < PRI_MIN \<or> PRI_MAX < prio \<or> (\<forall>i<NPROC. p_pid (procs s i) \<noteq> pid)
   then setpriority pid prio s = (-1, s)
   else fst (setpriority pid prio s) = 0 \<and>
     getpriority pid (snd (setpriority pid prio s)) = prio \<and>
     (\<exists>i<NPROC. p_pid (procs s i) = pid \<and>
        p_budget (procs (snd (setpriority pid prio s)) i) = slice_for_priority prio \<and>
        (\<forall>j. j \<noteq> i \<longrightarrow> procs (snd (setpriority pid prio s)) j = procs s j))"
proof (cases "prio < PRI_MIN \<or> PRI_MAX < prio \<or> find_pid pid s = None")
  case True
  then have "setpriority pid prio s = (-1, s)" by (auto simp: setpriority_def)
  then show ?thesis using True find_pid_None[of pid s] by auto
next
  case False
  then obtain i where i: "find_pid pid s = Some i" by auto
  define t where "t = snd (setpriority pid prio s)"
  have sp: "setpriority pid prio s = (0, t)" and
    ti: "p_priority (procs t i) = prio" "p_budget (procs t i) = slice_for_priority prio" and
    pid: "\<And>j. p_pid (procs t j) = p_pid (procs s j)" and
    oth: "\<And>j. j \<noteq> i \<Longrightarrow> procs t j = procs s j"
    using False unfolding t_def by (simp_all add: setpriority_def i Let_def)
  have "find_pid pid t = Some i" using i by (simp add: find_pid_Some pid)
  then have "getpriority pid t = prio" by (simp add: getpriority_def ti)
  moreover have "i < NPROC" "p_pid (procs s i) = pid" using i by (auto simp: find_pid_Some)
  ultimately show ?thesis using sp ti oth False find_pid_None[of pid s] by auto
qed

theorem setpriority_getpriority_witness:
  "setpriority 1 7 one_ready = (-1, one_ready) \<and> fst (setpriority 1 3 one_ready) = 0 \<and>
   getpriority 1 (snd (setpriority 1 3 one_ready)) = 3"
proof -
  have "\<not> (\<forall>i<NPROC. p_pid (procs one_ready i) \<noteq> 1)"
    by (auto simp: NPROC_def one_ready_simps intro: exI[of _ 0])
  then show ?thesis
    using setpriority_getpriority[of 7 one_ready 1] setpriority_getpriority[of 3 one_ready 1]
    by (simp add: sched_defs)
qed

end
