(* ===== verification/Sleeplock.thy ===== *)
theory Sleeplock
  imports Proc_Table
begin

text \<open>
  Sleep locks, \<^verbatim>\<open>kernel/sleeplock.c\<close>. A lock is a field of the buffer or
  inode it protects; \<open>c\<close> is the wait channel that stands for its address. A call that
  finds the lock taken has to wait, and its outcome is \<open>Sleep c\<close>.
\<close>

record sleeplock =
  sl_locked :: bool
  sl_pid :: int

text \<open>\<^verbatim>\<open>myproc()->pid\<close>\<close>

definition curpid :: "'a sched_state_scheme \<Rightarrow> int kres" where
  "curpid s =
     (case myproc s of None \<Rightarrow> Panic ''kerneltrap'' | Some i \<Rightarrow> Ok (p_pid (procs s i)))"

definition initsleeplock :: sleeplock where
  "initsleeplock = \<lparr>sl_locked = False, sl_pid = 0\<rparr>"

definition acquiresleep :: "chan \<Rightarrow> sleeplock \<Rightarrow> 'a sched_state_scheme \<Rightarrow> sleeplock kres" where
  "acquiresleep c lk s =
     (if sl_locked lk then Sleep c
      else kbind (curpid s) (\<lambda>pid. Ok \<lparr>sl_locked = True, sl_pid = pid\<rparr>))"

definition releasesleep ::
    "chan \<Rightarrow> sleeplock \<Rightarrow> 'a sched_state_scheme \<Rightarrow> sleeplock \<times> 'a sched_state_scheme" where
  "releasesleep c lk s = (lk\<lparr>sl_locked := False, sl_pid := 0\<rparr>, wakeup c s)"

definition holdingsleep :: "sleeplock \<Rightarrow> 'a sched_state_scheme \<Rightarrow> bool kres" where
  "holdingsleep lk s =
     (if sl_locked lk then kbind (curpid s) (\<lambda>pid. Ok (sl_pid lk = pid)) else Ok False)"

lemma initsleeplock_simps [simp]: "sl_locked initsleeplock = False" "sl_pid initsleeplock = 0"
  by (simp_all add: initsleeplock_def)

lemma sleeplock_upd_all [simp]:
  "(lk :: sleeplock)\<lparr>sl_locked := l, sl_pid := p\<rparr> = \<lparr>sl_locked = l, sl_pid = p\<rparr>"
  by (cases lk) simp

lemma wake_proc_pid [simp]: "p_pid (wake_proc now p) = p_pid p"
  by (simp add: wake_proc_def Let_def)

lemma curpid_wakeup [simp]: "curpid (wakeup c s) = curpid s"
  by (simp add: curpid_def split: option.splits)

lemma curpid_cong:
  "cpu_proc t = cpu_proc s \<Longrightarrow> hart t = hart s \<Longrightarrow> procs t = procs s \<Longrightarrow> curpid t = curpid s"
  by (simp add: curpid_def myproc_def split: option.split)

end
