(* ===== verification/Bio.thy ===== *)
theory Bio
  imports Sleeplock
begin

text \<open>
  The buffer cache, \<^verbatim>\<open>kernel/bio.c\<close>, over a disk that is an array of blocks.

  The doubly linked list through \<^verbatim>\<open>prev\<close> and \<^verbatim>\<open>next\<close> is the list
  \<open>lru\<close> of buffer numbers from \<^verbatim>\<open>head.next\<close> (most recently released) to
  \<^verbatim>\<open>head.prev\<close>. \<open>disk_rw\<close> is the effect of a completed request:
  the driver ignores the device number, so there is one disk. \<open>dhist\<close> records the
  writes in the order the device saw them; it is what a crash can cut short.

  Reference counts only ever count the processes that use a buffer and one pin, so they
  stay far below the width of \<^verbatim>\<open>uint\<close>; decrementing a zero count wraps, as in C.
\<close>

section \<open>Data\<close>

definition BSIZE :: nat where "BSIZE = 1024"
definition NBUF :: nat where "NBUF = 30"
definition ROOTDEV :: nat where "ROOTDEV = 1"

record buf =
  b_valid :: bool
  b_dev :: nat
  b_blockno :: nat
  b_lock :: sleeplock
  b_refcnt :: nat
  b_data :: bytes

record bio_state = sched_state +
  bufs :: "nat \<Rightarrow> buf"
  lru :: "nat list"
  disk :: "nat \<Rightarrow> bytes"
  dhist :: "(nat \<times> bytes) list"
  bio_io_reads :: nat
  bio_io_writes :: nat
  bio_checksum_errors :: nat

definition upd_buf :: "nat \<Rightarrow> (buf \<Rightarrow> buf) \<Rightarrow> 'a bio_state_scheme \<Rightarrow> 'a bio_state_scheme" where
  "upd_buf i f s = s\<lparr>bufs := (bufs s)(i := f (bufs s i))\<rparr>"

text \<open>Changing the data of a buffer through its pointer.\<close>

definition upd_data :: "nat \<Rightarrow> (bytes \<Rightarrow> bytes) \<Rightarrow> 'a bio_state_scheme \<Rightarrow> 'a bio_state_scheme" where
  "upd_data i f s = upd_buf i (\<lambda>b. b\<lparr>b_data := f (b_data b)\<rparr>) s"

abbreviation bdata :: "'a bio_state_scheme \<Rightarrow> nat \<Rightarrow> bytes" where
  "bdata s i \<equiv> b_data (bufs s i)"

section \<open>Operations\<close>

definition binit :: "'a bio_state_scheme \<Rightarrow> 'a bio_state_scheme" where
  "binit s =
     fold (\<lambda>i s. upd_buf i (\<lambda>b. b\<lparr>b_lock := initsleeplock\<rparr>) (s\<lparr>lru := i # lru s\<rparr>))
       [0..<NBUF] (s\<lparr>lru := []\<rparr>)"

definition dec_uint :: "nat \<Rightarrow> nat" where
  "dec_uint n = (if n = 0 then 2 ^ 32 - 1 else n - 1)"

definition is_block :: "'a bio_state_scheme \<Rightarrow> nat \<Rightarrow> nat \<Rightarrow> nat \<Rightarrow> bool" where
  "is_block s dev blockno i \<longleftrightarrow> b_dev (bufs s i) = dev \<and> b_blockno (bufs s i) = blockno"

text \<open>The part of \<^verbatim>\<open>bget\<close> under the lock of the cache.\<close>

definition bget_ref ::
    "nat \<Rightarrow> nat \<Rightarrow> 'a bio_state_scheme \<Rightarrow> (nat \<times> 'a bio_state_scheme) kres" where
  "bget_ref dev blockno s =
     (case find (is_block s dev blockno) (lru s) of
        Some i \<Rightarrow> Ok (i, upd_buf i (\<lambda>b. b\<lparr>b_refcnt := b_refcnt b + 1\<rparr>) s)
      | None \<Rightarrow>
          (case find (\<lambda>i. b_refcnt (bufs s i) = 0) (rev (lru s)) of
             Some i \<Rightarrow>
               Ok (i, upd_buf i (\<lambda>b. b\<lparr>b_dev := dev, b_blockno := blockno,
                                       b_valid := False, b_refcnt := 1\<rparr>) s)
           | None \<Rightarrow> Panic ''bget: no buffers''))"

definition bget :: "nat \<Rightarrow> nat \<Rightarrow> 'a bio_state_scheme \<Rightarrow> (nat \<times> 'a bio_state_scheme) kres" where
  "bget dev blockno s =
     kbind (bget_ref dev blockno s) (\<lambda>(i, s).
     kbind (acquiresleep (ChanBufLock i) (b_lock (bufs s i)) s) (\<lambda>lk.
     Ok (i, upd_buf i (\<lambda>b. b\<lparr>b_lock := lk\<rparr>) s)))"

definition disk_rw :: "nat \<Rightarrow> bool \<Rightarrow> 'a bio_state_scheme \<Rightarrow> 'a bio_state_scheme" where
  "disk_rw i write s =
     (let blk = b_blockno (bufs s i) in
      if write
      then s\<lparr>disk := (disk s)(blk := bdata s i), dhist := dhist s @ [(blk, bdata s i)]\<rparr>
      else upd_buf i (\<lambda>b. b\<lparr>b_data := disk s blk\<rparr>) s)"

definition bread :: "nat \<Rightarrow> nat \<Rightarrow> 'a bio_state_scheme \<Rightarrow> (nat \<times> 'a bio_state_scheme) kres" where
  "bread dev blockno s =
     kbind (bget dev blockno s) (\<lambda>(i, s).
     let s1 = (if b_valid (bufs s i) then s
               else upd_buf i (\<lambda>b. b\<lparr>b_valid := True\<rparr>) (disk_rw i False s))
     in Ok (i, s1\<lparr>bio_io_reads := (bio_io_reads s1 + 1) mod 2 ^ 32\<rparr>))"

definition bwrite :: "nat \<Rightarrow> 'a bio_state_scheme \<Rightarrow> 'a bio_state_scheme kres" where
  "bwrite i s =
     kbind (holdingsleep (b_lock (bufs s i)) s) (\<lambda>h.
     if \<not> h then Panic ''bwrite''
     else let s1 = disk_rw i True s
          in Ok (s1\<lparr>bio_io_writes := (bio_io_writes s1 + 1) mod 2 ^ 32\<rparr>))"

definition brelse :: "nat \<Rightarrow> 'a bio_state_scheme \<Rightarrow> 'a bio_state_scheme kres" where
  "brelse i s =
     kbind (holdingsleep (b_lock (bufs s i)) s) (\<lambda>h.
     if \<not> h then Panic ''brelse''
     else let (lk, s1) = releasesleep (ChanBufLock i) (b_lock (bufs s i)) s;
              s2 = upd_buf i (\<lambda>b. b\<lparr>b_lock := lk, b_refcnt := dec_uint (b_refcnt b)\<rparr>) s1
          in Ok (if b_refcnt (bufs s2 i) = 0
                 then s2\<lparr>lru := i # remove1 i (lru s2)\<rparr> else s2))"

definition bpin :: "nat \<Rightarrow> 'a bio_state_scheme \<Rightarrow> 'a bio_state_scheme" where
  "bpin i s = upd_buf i (\<lambda>b. b\<lparr>b_refcnt := b_refcnt b + 1\<rparr>) s"

definition bunpin :: "nat \<Rightarrow> 'a bio_state_scheme \<Rightarrow> 'a bio_state_scheme" where
  "bunpin i s = upd_buf i (\<lambda>b. b\<lparr>b_refcnt := dec_uint (b_refcnt b)\<rparr>) s"

section \<open>Invariant and the contents the kernel sees\<close>

text \<open>
  \<open>cur s b\<close> is the content of block \<open>b\<close> as the kernel sees it: the cached copy,
  or the disk. \<open>P\<close> is the set of pinned blocks. Only unpinned, unlocked buffers have
  to agree with the disk; those are the ones that can be recycled. The invariant is the
  one between two steps of a process that runs alone: it holds every lock that is taken,
  and nobody waits for a buffer.
\<close>

definition lookup :: "'a bio_state_scheme \<Rightarrow> nat \<Rightarrow> nat option" where
  "lookup s b = find (is_block s ROOTDEV b) [0..<NBUF]"

definition cur :: "'a bio_state_scheme \<Rightarrow> nat \<Rightarrow> bytes" where
  "cur s b = (case lookup s b of Some i \<Rightarrow> bdata s i | None \<Rightarrow> disk s b)"

definition held :: "'a bio_state_scheme \<Rightarrow> nat set" where
  "held s = {i. i < NBUF \<and> sl_locked (b_lock (bufs s i))}"

definition bnorm :: "bytes \<Rightarrow> bool" where
  "bnorm m \<longleftrightarrow> (\<forall>k\<ge>BSIZE. m k = 0)"

definition buf_ok :: "nat set \<Rightarrow> 'a bio_state_scheme \<Rightarrow> nat \<Rightarrow> bool" where
  "buf_ok P s i \<longleftrightarrow>
     (let b = bufs s i; l = sl_locked (b_lock b); r = (b_dev b = ROOTDEV) in
      b_refcnt b = of_bool l + of_bool (r \<and> b_blockno b \<in> P) \<and>
      (r \<longrightarrow> b_valid b) \<and> (l \<longrightarrow> r \<and> curpid s = Ok (sl_pid (b_lock b))) \<and>
      (r \<and> \<not> l \<and> b_blockno b \<notin> P \<longrightarrow> b_data b = disk s (b_blockno b)) \<and>
      bnorm (b_data b))"

definition uniq_blocks :: "'a bio_state_scheme \<Rightarrow> bool" where
  "uniq_blocks s \<longleftrightarrow> (\<forall>i<NBUF. \<forall>j<NBUF. \<forall>b. is_block s ROOTDEV b i \<and> is_block s ROOTDEV b j \<longrightarrow> i = j)"

definition bio_inv :: "nat set \<Rightarrow> 'a bio_state_scheme \<Rightarrow> bool" where
  "bio_inv P s \<longleftrightarrow>
     distinct (lru s) \<and> set (lru s) = {..<NBUF} \<and> uniq_blocks s \<and>
     (\<forall>i<NBUF. buf_ok P s i) \<and> (\<forall>b. bnorm (disk s b)) \<and>
     finite P \<and> (\<forall>b\<in>P. \<exists>i<NBUF. is_block s ROOTDEV b i) \<and> (\<exists>pid. curpid s = Ok pid)"

text \<open>What the cache operations never touch.\<close>

definition bio_frame :: "'a bio_state_scheme \<Rightarrow> 'a bio_state_scheme \<Rightarrow> bool" where
  "bio_frame s t \<longleftrightarrow>
     t = s\<lparr>procs := procs t, bufs := bufs t, lru := lru t, disk := disk t, dhist := dhist t,
           bio_io_reads := bio_io_reads t, bio_io_writes := bio_io_writes t\<rparr>"

lemma bio_frame_refl [simp]: "bio_frame s s"
  by (simp add: bio_frame_def)

lemma bio_frameE:
  assumes "bio_frame s t"
  obtains p b l d h r w where "t = s\<lparr>procs := p, bufs := b, lru := l, disk := d,
      dhist := h, bio_io_reads := r, bio_io_writes := w\<rparr>"
  using assms unfolding bio_frame_def by (rule that)

lemma bio_frame_trans [trans]: "bio_frame s t \<Longrightarrow> bio_frame t u \<Longrightarrow> bio_frame s u"
  by (elim bio_frameE) (simp add: bio_frame_def)

lemma bio_frame_wakeup: "bio_frame s (wakeup c s)"
proof -
  define p where "p = procs (wakeup c s)"
  have "wakeup c s = s\<lparr>procs := p\<rparr>" by (simp add: p_def wakeup_eq)
  then show ?thesis by (simp add: bio_frame_def)
qed

lemma bio_frame_upd: "bio_frame s (upd_buf i f s)"
  and bio_frame_lru: "bio_frame s (s\<lparr>lru := l\<rparr>)"
  by (simp_all add: bio_frame_def upd_buf_def)

lemma upd_buf_simps [simp]:
  "bufs (upd_buf i f s) j = (if j = i then f (bufs s i) else bufs s j)"
  "lru (upd_buf i f s) = lru s" "disk (upd_buf i f s) = disk s" "dhist (upd_buf i f s) = dhist s"
  "curpid (upd_buf i f s) = curpid s" "procs (upd_buf i f s) = procs s"
  by (simp_all add: upd_buf_def curpid_def myproc_def split: option.split)

lemma curpid_bio [simp]:
  "curpid (s\<lparr>bufs := b\<rparr>) = curpid s" "curpid (s\<lparr>lru := l\<rparr>) = curpid s"
  "curpid (s\<lparr>disk := d\<rparr>) = curpid s" "curpid (s\<lparr>dhist := h\<rparr>) = curpid s"
  "curpid (s\<lparr>bio_io_reads := n\<rparr>) = curpid s" "curpid (s\<lparr>bio_io_writes := n\<rparr>) = curpid s"
  by (simp_all add: curpid_def myproc_def split: option.split)

lemma wakeup_bio [simp]:
  "bufs (wakeup c s) = bufs s" "lru (wakeup c s) = lru s" "disk (wakeup c s) = disk s"
  "dhist (wakeup c s) = dhist s"
  by (simp_all add: wakeup_eq)

lemma bio_cong:
  assumes e: "bufs t = bufs s" "disk t = disk s" "lru t = lru s" "curpid t = curpid s"
  shows "bio_inv P t = bio_inv P s" "held t = held s" "cur t = cur s"
proof -
  have a: "is_block t = is_block s" by (intro ext) (simp add: is_block_def e)
  show "bio_inv P t = bio_inv P s" "held t = held s"
    by (simp_all add: bio_inv_def uniq_blocks_def buf_ok_def a e held_def)
  show "cur t = cur s"
    by (intro ext) (simp add: cur_def lookup_def a e split: option.split)
qed

lemma lookup_Some:
  assumes "uniq_blocks s"
  shows "lookup s b = Some i \<longleftrightarrow> i < NBUF \<and> is_block s ROOTDEV b i"
proof
  assume i: "i < NBUF \<and> is_block s ROOTDEV b i"
  then obtain k where k: "lookup s b = Some k" unfolding lookup_def using find_upt_ex by blast
  then have "k < NBUF" "is_block s ROOTDEV b k" by (simp_all add: lookup_def find_upt_Some)
  with i assms have "k = i" unfolding uniq_blocks_def by blast
  with k show "lookup s b = Some i" by simp
qed (simp add: lookup_def find_upt_Some)

lemma lookup_None: "lookup s b = None \<longleftrightarrow> (\<forall>i<NBUF. \<not> is_block s ROOTDEV b i)"
  by (simp add: lookup_def find_upt_None)

lemma cur_cached: "uniq_blocks s \<Longrightarrow> i < NBUF \<Longrightarrow> is_block s ROOTDEV b i \<Longrightarrow> cur s b = bdata s i"
  using lookup_Some[of s b i] by (simp add: cur_def)

lemma cur_uncached: "(\<And>i. i < NBUF \<Longrightarrow> \<not> is_block s ROOTDEV b i) \<Longrightarrow> cur s b = disk s b"
  using lookup_None[of s b] by (simp add: cur_def)

lemma bio_invD:
  assumes "bio_inv P s"
  shows "distinct (lru s)" "set (lru s) = {..<NBUF}" "uniq_blocks s" "finite P"
    "i < NBUF \<Longrightarrow> buf_ok P s i" "bnorm (disk s b)"
    "b \<in> P \<Longrightarrow> \<exists>i<NBUF. is_block s ROOTDEV b i" "\<exists>pid. curpid s = Ok pid"
  using assms by (auto simp: bio_inv_def)

lemma lru_lookup: "bio_inv P s \<Longrightarrow> find (is_block s ROOTDEV b) (lru s) = lookup s b"
proof (cases "lookup s b")
  case None
  assume "bio_inv P s"
  then have "find (is_block s ROOTDEV b) (lru s) = None"
    using None bio_invD(2)[of P s] by (auto simp: find_None_iff lookup_None)
  then show ?thesis using None by simp
next
  case (Some i)
  assume inv: "bio_inv P s"
  have i: "i < NBUF" "is_block s ROOTDEV b i" using Some lookup_Some[OF bio_invD(3)[OF inv]] by auto
  show ?thesis
  proof (cases "find (is_block s ROOTDEV b) (lru s)")
    case None
    then show ?thesis using i bio_invD(2)[OF inv] by (auto simp: find_None_iff)
  next
    case (Some j)
    then have "j \<in> set (lru s)" "is_block s ROOTDEV b j" by (auto simp: find_Some_iff)
    then have "lookup s b = Some j"
      using bio_invD(2)[OF inv] by (simp add: lookup_Some[OF bio_invD(3)[OF inv]])
    with Some show ?thesis by simp
  qed
qed

text \<open>A cache in which few blocks are pinned or in use has a buffer to give.\<close>

lemma free_buffer:
  assumes inv: "bio_inv P s" and room: "card (held s) + card P < NBUF"
  shows "\<exists>i<NBUF. b_refcnt (bufs s i) = 0"
proof (rule ccontr)
  assume none: "\<not> ?thesis"
  let ?Q = "{i. i < NBUF \<and> b_dev (bufs s i) = ROOTDEV \<and> b_blockno (bufs s i) \<in> P}"
  have "{..<NBUF} \<subseteq> held s \<union> ?Q"
  proof
    fix i assume "i \<in> {..<NBUF}"
    then have i: "i < NBUF" by simp
    have "b_refcnt (bufs s i) \<noteq> 0" using none i by auto
    then show "i \<in> held s \<union> ?Q"
      using bio_invD(5)[OF inv i] i by (auto simp: buf_ok_def Let_def held_def split: if_splits)
  qed
  then have "NBUF \<le> card (held s \<union> ?Q)"
    using card_mono[of "held s \<union> ?Q" "{..<NBUF}"] by (simp add: held_def)
  also have "\<dots> \<le> card (held s) + card ?Q" by (rule card_Un_le)
  also have "card ?Q \<le> card P"
  proof (rule card_inj_on_le[where f = "\<lambda>i. b_blockno (bufs s i)"])
    show "inj_on (\<lambda>i. b_blockno (bufs s i)) ?Q"
      using bio_invD(3)[OF inv] by (auto simp: inj_on_def uniq_blocks_def is_block_def)
  qed (use bio_invD(4)[OF inv] in auto)
  finally show False using room by simp
qed

section \<open>What the operations do\<close>

text \<open>Steps that change one buffer.\<close>

lemma bio_inv_one:
  assumes inv: "bio_inv P s" and i: "i < NBUF"
    and t: "bufs t = (bufs s)(i := x)" "disk t = disk s" "curpid t = curpid s"
      "distinct (lru t)" "set (lru t) = {..<NBUF}"
    and ok: "buf_ok P t i"
    and fresh: "\<And>j. j < NBUF \<Longrightarrow> j \<noteq> i \<Longrightarrow> b_dev x = ROOTDEV \<Longrightarrow> \<not> is_block s ROOTDEV (b_blockno x) j"
    and keep: "b_dev (bufs s i) = ROOTDEV \<Longrightarrow> b_blockno (bufs s i) \<in> P \<Longrightarrow>
      b_dev x = ROOTDEV \<and> b_blockno x = b_blockno (bufs s i)"
  shows "bio_inv P t"
proof -
  have ib: "is_block t d b j \<longleftrightarrow> (if j = i then b_dev x = d \<and> b_blockno x = b else is_block s d b j)"
    for d b j by (simp add: is_block_def t(1))
  have "uniq_blocks t"
    using bio_invD(3)[OF inv] fresh unfolding uniq_blocks_def ib by (auto split: if_splits)
  moreover have "buf_ok P t j" if "j < NBUF" for j
  proof (cases "j = i")
    case False
    then show ?thesis using bio_invD(5)[OF inv that] by (simp add: buf_ok_def t(1,2,3))
  qed (use ok in simp)
  moreover have "\<exists>j<NBUF. is_block t ROOTDEV b j" if b: "b \<in> P" for b
  proof -
    obtain j where j: "j < NBUF" "is_block s ROOTDEV b j" using bio_invD(7)[OF inv b] by blast
    then have "is_block t ROOTDEV b j" using keep b by (auto simp: t(1) is_block_def)
    with j show ?thesis by blast
  qed
  ultimately show ?thesis using inv t unfolding bio_inv_def by simp
qed

lemma same_key_fresh:
  assumes "uniq_blocks s" "i < NBUF" "b_dev x = b_dev (bufs s i)" "b_blockno x = b_blockno (bufs s i)"
    "j < NBUF" "j \<noteq> i" "b_dev x = ROOTDEV"
  shows "\<not> is_block s ROOTDEV (b_blockno x) j"
  using assms unfolding uniq_blocks_def is_block_def by metis

lemma cur_same_key:
  assumes u: "uniq_blocks s" and i: "i < NBUF"
    and t: "bufs t = (bufs s)(i := x)" "disk t = disk s"
    and key: "b_dev x = b_dev (bufs s i)" "b_blockno x = b_blockno (bufs s i)" "b_dev x = ROOTDEV"
  shows "cur t = (cur s)(b_blockno x := b_data x)"
proof
  fix c
  have lk: "lookup t c = lookup s c"
    unfolding lookup_def by (rule arg_cong[where f = "\<lambda>P. find P _"])
      (auto simp: is_block_def t(1) key fun_eq_iff)
  show "cur t c = ((cur s)(b_blockno x := b_data x)) c"
  proof (cases "c = b_blockno x")
    case True
    then have "lookup s c = Some i" using i key by (simp add: lookup_Some[OF u] is_block_def)
    then show ?thesis using True lk by (simp add: cur_def t(1))
  next
    case False
    then have "lookup s c \<noteq> Some i" using key by (simp add: lookup_Some[OF u] is_block_def)
    then show ?thesis using False lk by (simp add: cur_def t split: option.split)
  qed
qed

text \<open>A clean buffer that takes over a block nobody cached.\<close>

lemma cur_recycle:
  assumes u: "uniq_blocks s" and u': "uniq_blocks t" and k: "i < NBUF"
    and none: "\<And>j. j < NBUF \<Longrightarrow> \<not> is_block s ROOTDEV b j"
    and t: "bufs t = (bufs s)(i := x)" "disk t = disk s"
    and x: "b_dev x = ROOTDEV" "b_blockno x = b" "b_data x = disk s b"
    and clean: "b_dev (bufs s i) = ROOTDEV \<Longrightarrow> bdata s i = disk s (b_blockno (bufs s i))"
  shows "cur t = cur s"
proof
  fix c
  consider "c = b" | "c \<noteq> b" "is_block s ROOTDEV c i" | "c \<noteq> b" "\<not> is_block s ROOTDEV c i" by blast
  then show "cur t c = cur s c"
  proof cases
    case 1
    then show ?thesis using cur_cached[OF u' k, of b] cur_uncached[of s b] none t x
      by (simp add: is_block_def)
  next
    case 2
    then have "\<And>j. j < NBUF \<Longrightarrow> \<not> is_block t ROOTDEV c j"
      using u k x t unfolding uniq_blocks_def by (auto simp: is_block_def split: if_splits)
    then show ?thesis
      using 2 cur_uncached[of t c] cur_cached[OF u k 2(2)] clean t by (simp add: is_block_def)
  next
    case 3
    have "is_block t ROOTDEV c = is_block s ROOTDEV c"
      using 3 x t by (intro ext) (auto simp: is_block_def)
    then have lk: "lookup t c = lookup s c" by (simp add: lookup_def)
    moreover have "lookup s c \<noteq> Some i" using 3 lookup_Some[OF u] by simp
    ultimately show ?thesis using t by (simp add: cur_def split: option.split)
  qed
qed

lemma bread_hit:
  assumes inv: "bio_inv P s" and i: "lookup s b = Some i" and free: "i \<notin> held s"
    and pid: "curpid s = Ok pid"
  shows "bread ROOTDEV b s = Ok (i, (upd_buf i (\<lambda>b. b\<lparr>b_refcnt := b_refcnt b + 1,
      b_lock := \<lparr>sl_locked = True, sl_pid = pid\<rparr>\<rparr>) s)
      \<lparr>bio_io_reads := (bio_io_reads s + 1) mod 2 ^ 32\<rparr>)"
proof -
  have k: "i < NBUF" "is_block s ROOTDEV b i" using i lookup_Some[OF bio_invD(3)[OF inv]] by auto
  then have "\<not> sl_locked (b_lock (bufs s i))" "b_valid (bufs s i)"
    using free bio_invD(5)[OF inv k(1)] by (auto simp: held_def buf_ok_def is_block_def Let_def)
  then show ?thesis
    by (simp add: bread_def bget_def bget_ref_def lru_lookup[OF inv] i acquiresleep_def pid Let_def
        upd_buf_def)
qed

lemma buf_upd_all:
  "(x :: buf)\<lparr>b_dev := d, b_blockno := n, b_refcnt := r, b_lock := l, b_data := m, b_valid := v\<rparr> =
   \<lparr>b_valid = v, b_dev = d, b_blockno = n, b_lock = l, b_refcnt = r, b_data = m\<rparr>"
  by (cases x) simp

lemma bread_miss:
  assumes inv: "bio_inv P s" and none: "lookup s b = None"
    and room: "\<exists>i<NBUF. b_refcnt (bufs s i) = 0" and pid: "curpid s = Ok pid"
  shows "\<exists>i<NBUF. b_refcnt (bufs s i) = 0 \<and>
    bread ROOTDEV b s = Ok (i, (upd_buf i (\<lambda>x. \<lparr>b_valid = True, b_dev = ROOTDEV, b_blockno = b,
      b_lock = \<lparr>sl_locked = True, sl_pid = pid\<rparr>, b_refcnt = 1, b_data = disk s b\<rparr>) s)
      \<lparr>bio_io_reads := (bio_io_reads s + 1) mod 2 ^ 32\<rparr>)"
proof -
  obtain i where i: "find (\<lambda>i. b_refcnt (bufs s i) = 0) (rev (lru s)) = Some i"
    using room bio_invD(2)[OF inv] by (cases "find (\<lambda>i. b_refcnt (bufs s i) = 0) (rev (lru s))")
      (auto simp: find_None_iff)
  then have "i \<in> set (rev (lru s))" and r: "b_refcnt (bufs s i) = 0"
    using find_SomeD by fast+
  then have k: "i < NBUF" using bio_invD(2)[OF inv] by auto
  then have "\<not> sl_locked (b_lock (bufs s i))"
    using r bio_invD(5)[OF inv k] by (auto simp: buf_ok_def Let_def)
  then show ?thesis using k r
    by (intro exI[of _ i]) (simp add: bread_def bget_def bget_ref_def lru_lookup[OF inv] none i
        acquiresleep_def pid Let_def upd_buf_def disk_rw_def buf_upd_all)
qed

lemma bread_spec:
  assumes inv: "bio_inv P s" and room: "b \<in> P \<or> card (held s) + card P < NBUF"
    and free: "\<And>j. j \<in> held s \<Longrightarrow> b_blockno (bufs s j) \<noteq> b"
  shows "returns (bread ROOTDEV b s) (\<lambda>(i, t).
    bio_inv P t \<and> i < NBUF \<and> is_block t ROOTDEV b i \<and> i \<notin> held s \<and> held t = insert i (held s) \<and>
    bdata t i = cur s b \<and> cur t = cur s \<and> (\<forall>j\<in>held s. bufs t j = bufs s j) \<and>
    disk t = disk s \<and> dhist t = dhist s \<and> procs t = procs s \<and> bio_frame s t)"
proof -
  obtain pid where pid: "curpid s = Ok pid" using bio_invD(8)[OF inv] by blast
  note u = bio_invD(3)[OF inv]
  show ?thesis
  proof (cases "lookup s b")
    case (Some i)
    have k: "i < NBUF" "is_block s ROOTDEV b i" using Some lookup_Some[OF u] by auto
    have i: "i \<notin> held s" using free k by (auto simp: is_block_def)
    let ?x = "(bufs s i)\<lparr>b_refcnt := b_refcnt (bufs s i) + 1, b_lock := \<lparr>sl_locked = True, sl_pid = pid\<rparr>\<rparr>"
    let ?t = "s\<lparr>bufs := (bufs s)(i := ?x), bio_io_reads := (bio_io_reads s + 1) mod 2 ^ 32\<rparr>"
    have "bio_inv P ?t"
      by (rule bio_inv_one[OF inv k(1), where x = ?x])
        (use same_key_fresh[OF u k(1), of ?x] bio_invD(1,2)[OF inv] bio_invD(5)[OF inv k(1)] k(2) i pid
          in \<open>auto simp: buf_ok_def Let_def is_block_def held_def k(1)\<close>)
    moreover have "cur ?t = (cur s)(b_blockno ?x := b_data ?x)"
      by (rule cur_same_key[OF u k(1)]) (use k(2) in \<open>auto simp: is_block_def\<close>)
    moreover have "cur s b = bdata s i" using cur_cached[OF u k] .
    ultimately show ?thesis
      using bread_hit[OF inv Some i pid] k i
      by (auto simp: upd_buf_def is_block_def held_def bio_frame_def)
  next
    case None
    then have none: "\<And>j. j < NBUF \<Longrightarrow> \<not> is_block s ROOTDEV b j" by (simp add: lookup_None)
    then have bP: "b \<notin> P" using bio_invD(7)[OF inv, of b] by blast
    then have "card (held s) + card P < NBUF" using room by blast
    from bread_miss[OF inv None free_buffer[OF inv this] pid] obtain i where
      k: "i < NBUF" and r: "b_refcnt (bufs s i) = 0" and
      eq: "bread ROOTDEV b s = Ok (i, (upd_buf i (\<lambda>x. \<lparr>b_valid = True, b_dev = ROOTDEV, b_blockno = b,
      b_lock = \<lparr>sl_locked = True, sl_pid = pid\<rparr>, b_refcnt = 1, b_data = disk s b\<rparr>) s)
      \<lparr>bio_io_reads := (bio_io_reads s + 1) mod 2 ^ 32\<rparr>)" by blast
    let ?x = "\<lparr>b_valid = True, b_dev = ROOTDEV, b_blockno = b,
      b_lock = \<lparr>sl_locked = True, sl_pid = pid\<rparr>, b_refcnt = 1, b_data = disk s b\<rparr>"
    let ?t = "s\<lparr>bufs := (bufs s)(i := ?x), bio_io_reads := (bio_io_reads s + 1) mod 2 ^ 32\<rparr>"
    have i: "i \<notin> held s" and clean: "b_dev (bufs s i) = ROOTDEV \<Longrightarrow>
        b_blockno (bufs s i) \<notin> P \<and> bdata s i = disk s (b_blockno (bufs s i))"
      using bio_invD(5)[OF inv k] r by (auto simp: buf_ok_def Let_def held_def split: if_splits)
    have inv': "bio_inv P ?t"
      by (rule bio_inv_one[OF inv k, where x = ?x])
        (use none bio_invD(1,2,6)[OF inv] clean bP pid in \<open>auto simp: buf_ok_def Let_def\<close>)
    have "cur ?t = cur s"
      by (rule cur_recycle[OF u bio_invD(3)[OF inv'] k none, where x = ?x]) (use clean in auto)
    with inv' show ?thesis
      using eq k i cur_uncached[of s b] none
      by (auto simp: upd_buf_def is_block_def held_def bio_frame_def)
  qed
qed

lemma held_blocks:
  assumes inv: "bio_inv P s" and i: "i \<in> held s"
  shows "i < NBUF" "b_dev (bufs s i) = ROOTDEV" "is_block s ROOTDEV (b_blockno (bufs s i)) i"
    "holdingsleep (b_lock (bufs s i)) s = Ok True"
    "b_refcnt (bufs s i) = (if b_blockno (bufs s i) \<in> P then 2 else 1)"
  using assms bio_invD(5)[OF inv, of i]
  by (auto simp: held_def buf_ok_def Let_def is_block_def holdingsleep_def)

lemma upd_data_spec:
  assumes inv: "bio_inv P s" and i: "i \<in> held s" and norm: "bnorm (f (bdata s i))"
  shows "bio_inv P (upd_data i f s)" "held (upd_data i f s) = held s"
    "cur (upd_data i f s) = (cur s)(b_blockno (bufs s i) := f (bdata s i))"
    "bdata (upd_data i f s) i = f (bdata s i)" "bio_frame s (upd_data i f s)"
proof -
  note k = held_blocks[OF inv i] and u = bio_invD(3)[OF inv]
  let ?x = "(bufs s i)\<lparr>b_data := f (bdata s i)\<rparr>"
  show "bio_inv P (upd_data i f s)"
    by (rule bio_inv_one[OF inv k(1), where x = ?x])
      (use same_key_fresh[OF u k(1), of ?x] bio_invD(1,2)[OF inv] bio_invD(5)[OF inv k(1)] norm i
        in \<open>auto simp: upd_data_def upd_buf_def buf_ok_def Let_def held_def\<close>)
  have "cur (upd_data i f s) = (cur s)(b_blockno ?x := b_data ?x)"
    by (rule cur_same_key[OF u k(1)]) (use k(2) in \<open>auto simp: upd_data_def upd_buf_def\<close>)
  then show "cur (upd_data i f s) = (cur s)(b_blockno (bufs s i) := f (bdata s i))" by simp
  show "held (upd_data i f s) = held s" by (auto simp: held_def upd_data_def)
  show "bdata (upd_data i f s) i = f (bdata s i)" by (simp add: upd_data_def)
  show "bio_frame s (upd_data i f s)" by (simp add: upd_data_def upd_buf_def bio_frame_def)
qed

lemma brelse_spec:
  assumes inv: "bio_inv P s" and i: "i \<in> held s"
    and clean: "b_blockno (bufs s i) \<notin> P \<Longrightarrow> bdata s i = disk s (b_blockno (bufs s i))"
  shows "returns (brelse i s) (\<lambda>t. bio_inv P t \<and> held t = held s - {i} \<and> cur t = cur s \<and>
    (\<forall>j. j \<noteq> i \<longrightarrow> bufs t j = bufs s j) \<and> disk t = disk s \<and> dhist t = dhist s \<and> bio_frame s t)"
proof -
  note k = held_blocks[OF inv i] and u = bio_invD(3)[OF inv]
  let ?x = "(bufs s i)\<lparr>b_lock := \<lparr>sl_locked = False, sl_pid = 0\<rparr>, b_refcnt := b_refcnt (bufs s i) - 1\<rparr>"
  define s2 where "s2 = upd_buf i (\<lambda>_. ?x) (wakeup (ChanBufLock i) s)"
  define t where "t = (if b_refcnt ?x = 0 then s2\<lparr>lru := i # remove1 i (lru s2)\<rparr> else s2)"
  have t: "brelse i s = Ok t"
    using k(4,5) by (simp add: brelse_def releasesleep_def dec_uint_def t_def s2_def upd_buf_def)
  have b: "bufs t = (bufs s)(i := ?x)" "disk t = disk s" "dhist t = dhist s" "curpid t = curpid s"
    by (auto simp: t_def s2_def)
  have lru: "lru t = lru s \<or> lru t = i # remove1 i (lru s)" by (simp add: t_def s2_def)
  have fr2: "bio_frame s s2" unfolding s2_def by (rule bio_frame_trans[OF bio_frame_wakeup bio_frame_upd])
  have fr: "bio_frame s t"
    unfolding t_def by (rule if_split[THEN iffD2]) (use fr2 bio_frame_trans[OF fr2 bio_frame_lru] in blast)
  have l: "distinct (lru t) \<and> set (lru t) = {..<NBUF}"
    using lru
  proof
    assume e: "lru t = i # remove1 i (lru s)"
    show ?thesis unfolding e using bio_invD(1,2)[OF inv] k(1) by auto
  qed (use bio_invD(1,2)[OF inv] in simp)
  have "bio_inv P t"
    by (rule bio_inv_one[OF inv k(1) b(1,2,4) conjunct1[OF l] conjunct2[OF l]])
      (use same_key_fresh[OF u k(1), of ?x] bio_invD(5)[OF inv k(1)] clean k(2,5) b(1,2)
        in \<open>auto simp: buf_ok_def Let_def\<close>)
  moreover have "cur t = (cur s)(b_blockno ?x := b_data ?x)"
    by (rule cur_same_key[OF u k(1) b(1,2)]) (use k(2) in auto)
  moreover have "cur s (b_blockno (bufs s i)) = bdata s i" by (rule cur_cached[OF u k(1,3)])
  ultimately show ?thesis using t b fr by (auto simp: returns_def held_def)
qed

lemma bwrite_spec:
  assumes inv: "bio_inv P s" and i: "i \<in> held s"
  shows "returns (bwrite i s) (\<lambda>t. bio_inv P t \<and> bufs t = bufs s \<and> held t = held s \<and> cur t = cur s \<and>
    disk t = (disk s)(b_blockno (bufs s i) := bdata s i) \<and>
    dhist t = dhist s @ [(b_blockno (bufs s i), bdata s i)] \<and> bio_frame s t)"
proof -
  note k = held_blocks[OF inv i] and u = bio_invD(3)[OF inv]
  let ?b = "b_blockno (bufs s i)"
  define t where "t = s\<lparr>disk := (disk s)(?b := bdata s i), dhist := dhist s @ [(?b, bdata s i)],
    bio_io_writes := (bio_io_writes s + 1) mod 2 ^ 32\<rparr>"
  have ib: "is_block t = is_block s" by (intro ext) (simp add: is_block_def t_def)
  have other: "b_blockno (bufs s j) \<noteq> ?b" if "j < NBUF" "b_dev (bufs s j) = ROOTDEV" "j \<noteq> i" for j
    using u k that unfolding uniq_blocks_def by (metis is_block_def)
  have "buf_ok P t j" if "j < NBUF" for j
    using bio_invD(5)[OF inv that] other[OF that] i by (auto simp: buf_ok_def Let_def held_def t_def)
  moreover have "bnorm (bdata s i)" using bio_invD(5)[OF inv k(1)] by (simp add: buf_ok_def Let_def)
  ultimately have "bio_inv P t" using inv unfolding bio_inv_def uniq_blocks_def ib by (simp add: t_def)
  moreover have "cur t = cur s"
  proof
    fix c show "cur t c = cur s c"
    proof (cases "lookup s c")
      case None
      then have "c \<noteq> ?b" using k(1,3) by (auto simp: lookup_None)
      then show ?thesis using None by (simp add: cur_def lookup_def ib, simp add: t_def)
    qed (simp add: cur_def lookup_def ib, simp add: t_def)
  qed
  ultimately show ?thesis
    using k(4) by (simp add: bwrite_def disk_rw_def Let_def held_def bio_frame_def t_def)
qed

lemma bpin_spec:
  assumes inv: "bio_inv P s" and i: "i \<in> held s" and new: "b_blockno (bufs s i) \<notin> P"
  shows "bio_inv (insert (b_blockno (bufs s i)) P) (bpin i s)" "held (bpin i s) = held s"
    "cur (bpin i s) = cur s" "bdata (bpin i s) = bdata s"
    "b_blockno (bufs (bpin i s) j) = b_blockno (bufs s j)" "bio_frame s (bpin i s)"
proof -
  note k = held_blocks[OF inv i] and u = bio_invD(3)[OF inv]
  let ?t = "bpin i s" let ?b = "b_blockno (bufs s i)"
  have ib: "is_block ?t = is_block s" by (intro ext) (simp add: is_block_def bpin_def)
  have other: "b_blockno (bufs s j) \<noteq> ?b" if "j < NBUF" "b_dev (bufs s j) = ROOTDEV" "j \<noteq> i" for j
    using u k that unfolding uniq_blocks_def by (metis is_block_def)
  have "buf_ok (insert ?b P) ?t j" if "j < NBUF" for j
    using bio_invD(5)[OF inv that] other[OF that] new k(2)
    by (cases "j = i") (auto simp: buf_ok_def Let_def bpin_def)
  then show "bio_inv (insert ?b P) ?t"
    using inv k(1,3) unfolding bio_inv_def uniq_blocks_def ib by (auto simp: bpin_def)
  show "held ?t = held s" "bdata ?t = bdata s" "bio_frame s ?t"
    "b_blockno (bufs (bpin i s) j) = b_blockno (bufs s j)"
    by (auto simp: held_def bpin_def upd_buf_def bio_frame_def)
  show "cur ?t = cur s"
    by (intro ext) (simp add: cur_def lookup_def ib, simp add: bpin_def split: option.split)
qed

lemma bunpin_spec:
  assumes inv: "bio_inv P s" and i: "i \<in> held s" and pin: "b_blockno (bufs s i) \<in> P"
  shows "bio_inv (P - {b_blockno (bufs s i)}) (bunpin i s)" "held (bunpin i s) = held s"
    "cur (bunpin i s) = cur s" "bdata (bunpin i s) = bdata s"
    "b_blockno (bufs (bunpin i s) j) = b_blockno (bufs s j)" "bio_frame s (bunpin i s)"
proof -
  note k = held_blocks[OF inv i] and u = bio_invD(3)[OF inv]
  let ?t = "bunpin i s" let ?b = "b_blockno (bufs s i)"
  have ib: "is_block ?t = is_block s" by (intro ext) (simp add: is_block_def bunpin_def)
  have other: "b_blockno (bufs s j) \<noteq> ?b" if "j < NBUF" "b_dev (bufs s j) = ROOTDEV" "j \<noteq> i" for j
    using u k that unfolding uniq_blocks_def by (metis is_block_def)
  have "buf_ok (P - {?b}) ?t j" if "j < NBUF" for j
    using bio_invD(5)[OF inv that] other[OF that] pin k(2,5) i
    by (cases "j = i") (auto simp: buf_ok_def Let_def bunpin_def dec_uint_def held_def)
  then show "bio_inv (P - {?b}) ?t"
    using inv unfolding bio_inv_def uniq_blocks_def ib by (auto simp: bunpin_def)
  show "held ?t = held s" "bdata ?t = bdata s" "bio_frame s ?t"
    "b_blockno (bufs (bunpin i s) j) = b_blockno (bufs s j)"
    by (auto simp: held_def bunpin_def upd_buf_def bio_frame_def)
  show "cur ?t = cur s"
    by (intro ext) (simp add: cur_def lookup_def ib, simp add: bunpin_def split: option.split)
qed

lemma bread_obtain:
  assumes "bio_inv P s" and "b \<in> P \<or> card (held s) + card P < NBUF"
    and "\<And>j. j \<in> held s \<Longrightarrow> b_blockno (bufs s j) \<noteq> b"
  obtains i t where "bread ROOTDEV b s = Ok (i, t)" "bio_inv P t" "b_blockno (bufs t i) = b"
    "i \<notin> held s" "held t = insert i (held s)" "bdata t i = cur s b" "cur t = cur s"
    "\<forall>j\<in>held s. bufs t j = bufs s j" "disk t = disk s" "dhist t = dhist s" "bio_frame s t"
  using bread_spec[OF assms] by (auto simp: returns_def is_block_def)

lemma bwrite_obtain:
  assumes "bio_inv P s" and "i \<in> held s"
  obtains t where "bwrite i s = Ok t" "bio_inv P t" "bufs t = bufs s" "held t = held s"
    "cur t = cur s" "disk t = (disk s)(b_blockno (bufs s i) := bdata s i)"
    "dhist t = dhist s @ [(b_blockno (bufs s i), bdata s i)]" "bio_frame s t"
  using bwrite_spec[OF assms] by (auto simp: returns_def)

lemma brelse_obtain:
  assumes "bio_inv P s" and "i \<in> held s"
    and "b_blockno (bufs s i) \<notin> P \<Longrightarrow> bdata s i = disk s (b_blockno (bufs s i))"
  obtains t where "brelse i s = Ok t" "bio_inv P t" "held t = held s - {i}" "cur t = cur s"
    "\<forall>j. j \<noteq> i \<longrightarrow> bufs t j = bufs s j" "disk t = disk s" "dhist t = dhist s" "bio_frame s t"
  using brelse_spec[OF assms] by (auto simp: returns_def)

lemma held_norm: "bio_inv P s \<Longrightarrow> i \<in> held s \<Longrightarrow> bnorm (bdata s i)"
  using bio_invD(5)[of P s i] by (auto simp: held_def buf_ok_def Let_def)

lemma upd_data_blockno [simp]: "b_blockno (bufs (upd_data i f s) j) = b_blockno (bufs s j)"
  and upd_data_disk [simp]: "disk (upd_data i f s) = disk s" "dhist (upd_data i f s) = dhist s"
  by (simp_all add: upd_data_def)

lemma bio_inv_dirty:
  assumes inv: "bio_inv P s" and b: "b \<notin> P" and nh: "\<And>j. j \<in> held s \<Longrightarrow> b_blockno (bufs s j) \<noteq> b"
  shows "cur s b = disk s b"
proof (cases "lookup s b")
  case (Some i)
  then have k: "i < NBUF" "is_block s ROOTDEV b i" using lookup_Some[OF bio_invD(3)[OF inv]] by auto
  then have "\<not> sl_locked (b_lock (bufs s i))" using nh by (auto simp: held_def is_block_def)
  then show ?thesis
    using bio_invD(5)[OF inv k(1)] k cur_cached[OF bio_invD(3)[OF inv] k] b
    by (auto simp: buf_ok_def Let_def is_block_def)
qed (simp add: cur_def)

lemma bio_clean: "bio_inv P s \<Longrightarrow> held s = {} \<Longrightarrow> b \<notin> P \<Longrightarrow> cur s b = disk s b"
  by (rule bio_inv_dirty) auto

lemma cur_norm: "bio_inv P s \<Longrightarrow> bnorm (cur s b)"
  by (auto simp: cur_def lookup_def find_upt_Some bio_inv_def buf_ok_def Let_def split: option.split)

section \<open>Reading and writing whole blocks\<close>

text \<open>
  The interface a client of a block layer relies on: \<open>view\<close> is the content of the
  blocks, \<open>rd\<close> reads a block, \<open>upd\<close> changes one, \<open>cap s n\<close> says that
  \<open>n\<close> more changes fit, and \<open>keeps\<close> bounds what else may change.
\<close>

definition put_all :: "(nat \<times> (bytes \<Rightarrow> bytes)) list \<Rightarrow> (nat \<Rightarrow> bytes) \<Rightarrow> nat \<Rightarrow> bytes" where
  "put_all us v = fold (\<lambda>(b, f) v. v(b := f (v b))) us v"

locale block_store =
  fixes inv :: "'s \<Rightarrow> bool" and view :: "'s \<Rightarrow> nat \<Rightarrow> bytes" and cap :: "'s \<Rightarrow> nat \<Rightarrow> bool"
    and writable :: "'s \<Rightarrow> nat \<Rightarrow> bool" and keeps :: "'s \<Rightarrow> 's \<Rightarrow> bool"
    and rd :: "nat \<Rightarrow> 's \<Rightarrow> (bytes \<times> 's) kres" and upd :: "nat \<Rightarrow> (bytes \<Rightarrow> bytes) \<Rightarrow> 's \<Rightarrow> 's kres"
  assumes view_norm: "inv s \<Longrightarrow> bnorm (view s b)"
    and keeps_refl: "keeps s s"
    and keeps_trans: "keeps s t \<Longrightarrow> keeps t u \<Longrightarrow> keeps s u"
    and rd_law: "inv s \<Longrightarrow> returns (rd b s) (\<lambda>(m, t). m = view s b \<and> inv t \<and> view t = view s \<and> keeps s t)"
    and upd_law: "inv s \<Longrightarrow> cap s (Suc n) \<Longrightarrow> writable s b \<Longrightarrow> bnorm (f (view s b)) \<Longrightarrow>
      returns (upd b f s) (\<lambda>t. inv t \<and> view t = (view s)(b := f (view s b)) \<and> cap t n \<and>
        writable t = writable s \<and> keeps s t)"
begin

lemma upd_all:
  assumes "inv s" "cap s (length us)" "\<forall>(b, f) \<in> set us. writable s b \<and> (\<forall>m. bnorm m \<longrightarrow> bnorm (f m))"
  shows "returns (kfold (\<lambda>(b, f). upd b f) us s) (\<lambda>t. inv t \<and> view t = put_all us (view s) \<and>
    writable t = writable s \<and> keeps s t)"
  using assms
proof (induction us arbitrary: s)
  case Nil
  then show ?case by (simp add: put_all_def keeps_refl)
next
  case (Cons u us)
  obtain b f where u: "u = (b, f)" by (cases u)
  have "returns (upd b f s) (\<lambda>t. inv t \<and> view t = (view s)(b := f (view s b)) \<and> cap t (length us) \<and>
        writable t = writable s \<and> keeps s t)"
    using Cons.prems view_norm[of s b] by (intro upd_law) (auto simp: u)
  then show ?case
  proof (rule returnsE)
    fix t assume t: "upd b f s = Ok t" "inv t \<and> view t = (view s)(b := f (view s b)) \<and> cap t (length us) \<and>
        writable t = writable s \<and> keeps s t"
    have "returns (kfold (\<lambda>(b, f). upd b f) us t) (\<lambda>t'. inv t' \<and> view t' = put_all us (view t) \<and>
      writable t' = writable t \<and> keeps t t')"
      using Cons.prems t by (intro Cons.IH) auto
    then show ?case
      using t by (auto simp: u put_all_def elim!: returns_mono intro: keeps_trans)
  qed
qed

lemma read_back:
  assumes "inv s" "cap s (Suc 0)" "writable s b" "bnorm (f (view s b))"
  shows "returns (kbind (upd b f s) (rd c)) (\<lambda>(m, t). m = (if c = b then f (view s b) else view s c))"
proof -
  obtain t where t: "upd b f s = Ok t" "inv t" "view t = (view s)(b := f (view s b))"
    using upd_law[where f = f, OF assms] by (auto simp: returns_def)
  then show ?thesis using rd_law[OF t(2), of c] by (auto elim!: returns_mono)
qed

end

definition block_read :: "nat \<Rightarrow> 'a bio_state_scheme \<Rightarrow> (bytes \<times> 'a bio_state_scheme) kres" where
  "block_read b s = kbind (bread ROOTDEV b s) (\<lambda>(i, s).
     kbind (brelse i s) (\<lambda>t. Ok (bdata s i, t)))"

definition block_write :: "nat \<Rightarrow> (bytes \<Rightarrow> bytes) \<Rightarrow> 'a bio_state_scheme \<Rightarrow> 'a bio_state_scheme kres" where
  "block_write b f s = kbind (bread ROOTDEV b s) (\<lambda>(i, s).
     kbind (bwrite i (upd_data i f s)) (brelse i))"

lemma block_write_spec:
  assumes inv: "bio_inv P s" and idle: "held s = {}" and room: "card P < NBUF" and b: "b \<notin> P"
    and norm: "bnorm (f (cur s b))"
  shows "returns (block_write b f s) (\<lambda>t. bio_inv P t \<and> held t = {} \<and>
    cur t = (cur s)(b := f (cur s b)) \<and> disk t = (disk s)(b := f (cur s b)) \<and>
    dhist t = dhist s @ [(b, f (cur s b))] \<and> bio_frame s t)"
proof -
  obtain l s1 where s1: "bread ROOTDEV b s = Ok (l, s1)" "bio_inv P s1" "b_blockno (bufs s1 l) = b"
    "held s1 = {l}" "bdata s1 l = cur s b" "cur s1 = cur s" "disk s1 = disk s" "dhist s1 = dhist s" "bio_frame s s1"
    by (rule bread_obtain[OF inv, of b]) (use idle room in auto)
  define s2 where "s2 = upd_data l f s1"
  have "bnorm (f (bdata s1 l))" using norm s1(5) by simp
  from upd_data_spec[where i = l and f = f, OF s1(2) _ this]
  have s2: "bio_inv P s2" "held s2 = {l}" "cur s2 = (cur s)(b := f (cur s b))" "bdata s2 l = f (cur s b)"
    "bio_frame s1 s2" "b_blockno (bufs s2 l) = b" "disk s2 = disk s" "dhist s2 = dhist s"
    using s1 by (auto simp: s2_def)
  obtain s3 where s3: "bwrite l s2 = Ok s3" "bio_inv P s3" "bufs s3 = bufs s2" "held s3 = {l}"
    "cur s3 = cur s2" "disk s3 = (disk s)(b := f (cur s b))" "dhist s3 = dhist s @ [(b, f (cur s b))]" "bio_frame s2 s3"
    by (rule bwrite_obtain[OF s2(1), of l]) (use s2 in auto)
  obtain s4 where s4: "brelse l s3 = Ok s4" "bio_inv P s4" "held s4 = {}" "cur s4 = cur s2"
    "disk s4 = disk s3" "dhist s4 = dhist s3" "bio_frame s3 s4"
    by (rule brelse_obtain[OF s3(2), of l]) (use s3 s2 in auto)
  have "block_write b f s = Ok s4" using s1 s3 s4 by (simp add: block_write_def s2_def)
  moreover have "bio_frame s s4" using s1(9) s2(5) s3(8) s4(7) by (blast intro: bio_frame_trans)
  ultimately show ?thesis using s4 s3 s2 by simp
qed

lemma block_read_raw:
  assumes inv: "bio_inv P s" and idle: "held s = {}" and room: "card P < NBUF"
  shows "returns (block_read b s) (\<lambda>(m, t). m = cur s b \<and> bio_inv P t \<and> held t = {} \<and> cur t = cur s \<and>
    disk t = disk s \<and> dhist t = dhist s \<and> bio_frame s t)"
proof -
  obtain l s1 where s1: "bread ROOTDEV b s = Ok (l, s1)" "bio_inv P s1" "b_blockno (bufs s1 l) = b"
    "held s1 = {l}" "bdata s1 l = cur s b" "cur s1 = cur s" "disk s1 = disk s" "dhist s1 = dhist s" "bio_frame s s1"
    by (rule bread_obtain[OF inv, of b]) (use idle room in auto)
  obtain s2 where s2: "brelse l s1 = Ok s2" "bio_inv P s2" "held s2 = {}" "cur s2 = cur s1"
    "disk s2 = disk s1" "dhist s2 = dhist s1" "bio_frame s1 s2"
    by (rule brelse_obtain[OF s1(2), of l]) (use s1 bio_clean[OF inv idle, of b] in auto)
  then show ?thesis using s1 bio_frame_trans[OF s1(9) s2(7)] by (simp add: block_read_def)
qed

interpretation raw: block_store "\<lambda>s. bio_inv {} s \<and> held s = {}" cur "\<lambda>_ _. True" "\<lambda>_ _. True"
  bio_frame block_read block_write
proof
  show "returns (block_read b s) (\<lambda>(m, t). m = cur s b \<and> (bio_inv {} t \<and> held t = {}) \<and> cur t = cur s \<and> bio_frame s t)"
    if "bio_inv {} s \<and> held s = {}" for s :: "'a bio_state_scheme" and b
    by (rule returns_mono[OF block_read_raw[of "{}" s b]]) (use that in \<open>auto simp: NBUF_def\<close>)
  show "returns (block_write b f s) (\<lambda>t. (bio_inv {} t \<and> held t = {}) \<and>
      cur t = (cur s)(b := f (cur s b)) \<and> True \<and> (\<lambda>_. True) = (\<lambda>_. True) \<and> bio_frame s t)"
    if "bio_inv {} s \<and> held s = {}" "bnorm (f (cur s b))" for s :: "'a bio_state_scheme" and b f
    by (rule returns_mono[OF block_write_spec[of "{}" s b f]]) (use that in \<open>auto simp: NBUF_def\<close>)
qed (auto intro: cur_norm bio_frame_trans)

end
