(* ===== verification/Log.thy ===== *)
theory Log
  imports Bio
begin

text \<open>
  The write-ahead log, \<^verbatim>\<open>kernel/log.c\<close>.

  The in-memory header \<^verbatim>\<open>log.lh\<close> is the fields \<open>lh_n\<close> and
  \<open>lh_block\<close>; on disk it is the block \<open>log_start\<close>, the count at offset 0 and
  the block numbers from offset 4, and the logged contents follow in the next blocks.
  \<^verbatim>\<open>begin_op\<close> waits by sleeping on the log; the model gives
  \<open>Sleep ChanLog\<close> for a call that has to wait.
\<close>

section \<open>Data\<close>

definition MAXOPBLOCKS :: nat where "MAXOPBLOCKS = 10"
definition LOGBLOCKS :: nat where "LOGBLOCKS = 30"

record log_state = bio_state +
  log_start :: nat
  log_outstanding :: int
  log_committing :: bool
  log_dev :: nat
  lh_n :: int
  lh_block :: "nat \<Rightarrow> nat"

text \<open>A 32-bit word read as a signed integer.\<close>

definition s32 :: "nat \<Rightarrow> int" where
  "s32 v = (if v < 2 ^ 31 then int v else int v - 2 ^ 32)"

section \<open>Operations\<close>

definition install_tail :: "bool \<Rightarrow> nat \<Rightarrow> 'a log_state_scheme \<Rightarrow> 'a log_state_scheme kres" where
  "install_tail recovering tail s =
     kbind (bread (log_dev s) (log_start s + tail + 1) s) (\<lambda>(l, s).
     kbind (bread (log_dev s) (lh_block s tail) s) (\<lambda>(d, s).
     let s1 = upd_data d (\<lambda>m. blit m 0 (bdata s l) 0 BSIZE) s in
     kbind (bwrite d s1) (\<lambda>s.
     let s1 = (if recovering then s else bunpin d s) in
     kbind (brelse l s1) (\<lambda>s. brelse d s))))"

definition install_trans :: "bool \<Rightarrow> 'a log_state_scheme \<Rightarrow> 'a log_state_scheme kres" where
  "install_trans recovering s = kfold (install_tail recovering) [0..<nat (lh_n s)] s"

definition read_head :: "'a log_state_scheme \<Rightarrow> 'a log_state_scheme kres" where
  "read_head s =
     kbind (bread (log_dev s) (log_start s) s) (\<lambda>(i, s).
     let m = bdata s i; n = s32 (get_le 4 m 0);
         s1 = s\<lparr>lh_n := n,
                lh_block := \<lambda>k. if int k < n then get_le 4 m (4 + 4 * k) else lh_block s k\<rparr>
     in brelse i s1)"

text \<open>The header as \<^verbatim>\<open>write_head\<close> stores it in the buffer.\<close>

definition hdr_fill :: "int \<Rightarrow> (nat \<Rightarrow> nat) \<Rightarrow> bytes \<Rightarrow> bytes" where
  "hdr_fill n blk m =
     fold (\<lambda>k m. put_le 4 m (4 + 4 * k) (blk k)) [0..<nat n] (put_le 4 m 0 (nat (n mod 2 ^ 32)))"

definition write_head :: "'a log_state_scheme \<Rightarrow> 'a log_state_scheme kres" where
  "write_head s =
     kbind (bread (log_dev s) (log_start s) s) (\<lambda>(i, s).
     kbind (bwrite i (upd_data i (hdr_fill (lh_n s) (lh_block s)) s)) (\<lambda>s.
     brelse i s))"

definition recover_from_log :: "'a log_state_scheme \<Rightarrow> 'a log_state_scheme kres" where
  "recover_from_log s =
     kbind (read_head s) (\<lambda>s.
     kbind (install_trans True s) (\<lambda>s.
     write_head (s\<lparr>lh_n := 0\<rparr>)))"

definition initlog :: "nat \<Rightarrow> nat \<Rightarrow> 'a log_state_scheme \<Rightarrow> 'a log_state_scheme kres" where
  "initlog dev logstart s =
     (if BSIZE \<le> 4 + 4 * LOGBLOCKS then Panic ''initlog: too big logheader''
      else recover_from_log (s\<lparr>log_start := logstart, log_dev := dev\<rparr>))"

definition begin_op :: "'a log_state_scheme \<Rightarrow> 'a log_state_scheme kres" where
  "begin_op s =
     (if log_committing s then Sleep ChanLog
      else if int LOGBLOCKS < lh_n s + (log_outstanding s + 1) * int MAXOPBLOCKS then Sleep ChanLog
      else Ok (s\<lparr>log_outstanding := log_outstanding s + 1\<rparr>))"

definition write_log_tail :: "nat \<Rightarrow> 'a log_state_scheme \<Rightarrow> 'a log_state_scheme kres" where
  "write_log_tail tail s =
     kbind (bread (log_dev s) (log_start s + tail + 1) s) (\<lambda>(l, s).
     kbind (bread (log_dev s) (lh_block s tail) s) (\<lambda>(d, s).
     kbind (bwrite l (upd_data l (\<lambda>m. blit m 0 (bdata s d) 0 BSIZE) s)) (\<lambda>s.
     kbind (brelse d s) (\<lambda>s. brelse l s))))"

definition write_log :: "'a log_state_scheme \<Rightarrow> 'a log_state_scheme kres" where
  "write_log s = kfold write_log_tail [0..<nat (lh_n s)] s"

definition commit :: "'a log_state_scheme \<Rightarrow> 'a log_state_scheme kres" where
  "commit s =
     (if 0 < lh_n s then
        kbind (write_log s) (\<lambda>s.
        kbind (write_head s) (\<lambda>s.
        kbind (install_trans False s) (\<lambda>s.
        write_head (s\<lparr>lh_n := 0\<rparr>))))
      else Ok s)"

definition end_op :: "'a log_state_scheme \<Rightarrow> 'a log_state_scheme kres" where
  "end_op s =
     (let s1 = s\<lparr>log_outstanding := log_outstanding s - 1\<rparr> in
      if log_committing s1 then Panic ''log.committing''
      else if log_outstanding s1 = 0 then
        kbind (commit (s1\<lparr>log_committing := True\<rparr>)) (\<lambda>s.
        Ok (wakeup ChanLog (s\<lparr>log_committing := False\<rparr>)))
      else Ok (wakeup ChanLog s1))"

definition log_write :: "nat \<Rightarrow> 'a log_state_scheme \<Rightarrow> 'a log_state_scheme kres" where
  "log_write b s =
     (if int LOGBLOCKS \<le> lh_n s then Panic ''too big a transaction''
      else if log_outstanding s < 1 then Panic ''log_write outside of trans''
      else let blk = b_blockno (bufs s b); n = nat (lh_n s);
               i = (case find (\<lambda>i. lh_block s i = blk) [0..<n] of Some i \<Rightarrow> i | None \<Rightarrow> n);
               s1 = s\<lparr>lh_block := (lh_block s)(i := blk)\<rparr>
           in Ok (if i = n then (bpin b s1)\<lparr>lh_n := lh_n s + 1\<rparr> else s1))"

section \<open>The header block\<close>

lemma hdr_fold_outside:
  "a < 4 \<or> 4 + 4 * n \<le> a \<Longrightarrow> fold (\<lambda>k m. put_le 4 m (4 + 4 * k) (blk k)) [0..<n] m a = m a"
  by (induction n) (auto simp: put_le_outside)

lemma hdr_fold_get:
  "k < n \<Longrightarrow> get_le 4 (fold (\<lambda>k m. put_le 4 m (4 + 4 * k) (blk k)) [0..<n] m) (4 + 4 * k) = blk k mod 2 ^ 32"
proof (induction n)
  case (Suc n)
  then show ?case
    by (cases "k = n") (auto simp: get_put_le get_put_le_other)
qed simp

lemma hdr_fill_n: "get_le 4 (hdr_fill n blk m) 0 = nat (n mod 2 ^ 32)"
proof -
  have "get_le 4 (hdr_fill n blk m) 0 = get_le 4 (put_le 4 m 0 (nat (n mod 2 ^ 32))) 0"
    unfolding hdr_fill_def by (rule get_le_cong) (simp add: hdr_fold_outside)
  then show ?thesis by (simp add: get_put_le nat_less_iff)
qed

lemma hdr_fill_block: "k < nat n \<Longrightarrow> get_le 4 (hdr_fill n blk m) (4 + 4 * k) = blk k mod 2 ^ 32"
  by (simp add: hdr_fill_def hdr_fold_get)

lemma hdr_fill_norm: "n \<le> int LOGBLOCKS \<Longrightarrow> bnorm m \<Longrightarrow> bnorm (hdr_fill n blk m)"
  by (auto simp: bnorm_def hdr_fill_def hdr_fold_outside put_le_outside LOGBLOCKS_def BSIZE_def)

lemma s32_small: "0 \<le> n \<Longrightarrow> n < 2 ^ 31 \<Longrightarrow> s32 (nat (n mod 2 ^ 32)) = n"
  by (simp add: s32_def)

lemma blit_block: "bnorm m \<Longrightarrow> bnorm d \<Longrightarrow> blit d 0 m 0 BSIZE = m"
  by (auto simp: blit_def bnorm_def fun_eq_iff)

section \<open>What the steps do\<close>

lemma frame_log:
  assumes "bio_frame s t"
  shows "log_start t = log_start s" "log_outstanding t = log_outstanding s"
    "log_committing t = log_committing s" "log_dev t = log_dev s" "lh_n t = lh_n s"
    "lh_block t = lh_block s"
  using assms by (auto elim: bio_frameE)

text \<open>
  The two copying steps: from the cache to the log, and from the log to the home location.
\<close>

lemma write_log_tail_spec:
  assumes inv: "bio_inv P s" and idle: "held s = {}" and room: "card P < NBUF" and dev: "log_dev s = ROOTDEV"
    and L: "L = log_start s + tail + 1" "L \<notin> P" and B: "B = lh_block s tail" "B \<in> P"
  shows "returns (write_log_tail tail s) (\<lambda>t. bio_inv P t \<and> held t = {} \<and>
    cur t = (cur s)(L := cur s B) \<and> disk t = (disk s)(L := cur s B) \<and>
    dhist t = dhist s @ [(L, cur s B)] \<and> bio_frame s t)"
proof -
  obtain l s1 where s1: "bread ROOTDEV L s = Ok (l, s1)" "bio_inv P s1" "b_blockno (bufs s1 l) = L"
    "held s1 = {l}" "cur s1 = cur s" "disk s1 = disk s" "dhist s1 = dhist s" "bio_frame s s1"
    by (rule bread_obtain[OF inv, of L]) (use idle room in auto)
  obtain d s2 where s2: "bread ROOTDEV B s1 = Ok (d, s2)" "bio_inv P s2" "b_blockno (bufs s2 d) = B"
    "d \<noteq> l" "held s2 = {d, l}" "bdata s2 d = cur s B" "cur s2 = cur s" "bufs s2 l = bufs s1 l"
    "disk s2 = disk s" "dhist s2 = dhist s" "bio_frame s1 s2"
    by (rule bread_obtain[OF s1(2), of B]) (use s1 B L in auto)
  define s3 where "s3 = upd_data l (\<lambda>m. blit m 0 (bdata s2 d) 0 BSIZE) s2"
  have val: "blit (bdata s2 l) 0 (bdata s2 d) 0 BSIZE = cur s B"
    using held_norm[OF s2(2), of l] held_norm[OF s2(2), of d] s2(5,6) by (simp add: blit_block)
  note u = upd_data_spec[OF s2(2), of l "\<lambda>m. blit m 0 (bdata s2 d) 0 BSIZE", folded s3_def,
      unfolded val, simplified s2 s1(3)]
  have s3: "bio_inv P s3" "held s3 = {d, l}" "cur s3 = (cur s)(L := cur s B)" "bdata s3 l = cur s B"
    "bio_frame s2 s3"
    using u held_norm[OF s2(2), of d] s2(5,6) by auto
  have b3: "b_blockno (bufs s3 l) = L" "disk s3 = disk s" "dhist s3 = dhist s" "b_blockno (bufs s3 d) = B"
    using s1 s2 by (simp_all add: s3_def)
  obtain s4 where s4: "bwrite l s3 = Ok s4" "bio_inv P s4" "bufs s4 = bufs s3" "held s4 = {d, l}"
    "cur s4 = cur s3" "disk s4 = (disk s)(L := cur s B)" "dhist s4 = dhist s @ [(L, cur s B)]" "bio_frame s3 s4"
    by (rule bwrite_obtain[OF s3(1), of l]) (use s3 b3 in auto)
  obtain s5 where s5: "brelse d s4 = Ok s5" "bio_inv P s5" "held s5 = {l}" "cur s5 = cur s3"
    "bufs s5 l = bufs s3 l" "disk s5 = disk s4" "dhist s5 = dhist s4" "bio_frame s4 s5"
    by (rule brelse_obtain[OF s4(2), of d]) (use s4 b3 B s2(4) in auto)
  obtain s6 where s6: "brelse l s5 = Ok s6" "bio_inv P s6" "held s6 = {}" "cur s6 = cur s3"
    "disk s6 = disk s4" "dhist s6 = dhist s4" "bio_frame s5 s6"
    by (rule brelse_obtain[OF s5(2), of l]) (use s5 s4 s3 b3 L in auto)
  have "write_log_tail tail s = Ok s6"
    using s1 s2 s4 s5 s6 L B dev frame_log[OF s1(8)] by (simp add: write_log_tail_def s3_def)
  moreover have "bio_frame s s6"
    using s1(8) s2(11) s3(5) s4(8) s5(8) s6(7) by (blast intro: bio_frame_trans)
  ultimately show ?thesis using s6 s4 s3 by simp
qed

lemma install_tail_spec:
  assumes inv: "bio_inv P s" and idle: "held s = {}" and dev: "log_dev s = ROOTDEV"
    and room: "card P < NBUF" "rec \<Longrightarrow> card P + 1 < NBUF"
    and L: "L = log_start s + tail + 1" "L \<notin> P" and B: "B = lh_block s tail" "B \<noteq> L" "B \<in> P \<longleftrightarrow> \<not> rec"
  shows "returns (install_tail rec tail s) (\<lambda>t. bio_inv (P - {B}) t \<and> held t = {} \<and>
    cur t = (cur s)(B := cur s L) \<and> disk t = (disk s)(B := cur s L) \<and>
    dhist t = dhist s @ [(B, cur s L)] \<and> bio_frame s t)"
proof -
  obtain l s1 where s1: "bread ROOTDEV L s = Ok (l, s1)" "bio_inv P s1" "b_blockno (bufs s1 l) = L"
    "held s1 = {l}" "bdata s1 l = cur s L" "cur s1 = cur s" "disk s1 = disk s" "dhist s1 = dhist s" "bio_frame s s1"
    by (rule bread_obtain[OF inv, of L]) (use idle room in auto)
  obtain d s2 where s2: "bread ROOTDEV B s1 = Ok (d, s2)" "bio_inv P s2" "b_blockno (bufs s2 d) = B"
    "d \<noteq> l" "held s2 = {d, l}" "cur s2 = cur s" "bufs s2 l = bufs s1 l"
    "disk s2 = disk s" "dhist s2 = dhist s" "bio_frame s1 s2"
    by (rule bread_obtain[OF s1(2), of B]) (use s1 B L room in auto)
  define s3 where "s3 = upd_data d (\<lambda>m. blit m 0 (bdata s2 l) 0 BSIZE) s2"
  have val: "blit (bdata s2 d) 0 (bdata s2 l) 0 BSIZE = cur s L"
    using held_norm[OF s2(2), of l] held_norm[OF s2(2), of d] s2(5,7) s1(5) by (simp add: blit_block)
  note u = upd_data_spec[OF s2(2), of d "\<lambda>m. blit m 0 (bdata s2 l) 0 BSIZE", folded s3_def,
      unfolded val, simplified s2 s1(3)]
  have s3: "bio_inv P s3" "held s3 = {d, l}" "cur s3 = (cur s)(B := cur s L)" "bdata s3 d = cur s L"
    "bio_frame s2 s3"
    using u held_norm[OF s2(2), of l] s2(5,7) s1(5) by auto
  have b3: "b_blockno (bufs s3 d) = B" "disk s3 = disk s" "dhist s3 = dhist s" "bufs s3 l = bufs s1 l"
    using s1 s2 by (simp_all add: s3_def upd_data_def)
  obtain s4 where s4: "bwrite d s3 = Ok s4" "bio_inv P s4" "bufs s4 = bufs s3" "held s4 = {d, l}"
    "cur s4 = cur s3" "disk s4 = (disk s)(B := cur s L)" "dhist s4 = dhist s @ [(B, cur s L)]" "bio_frame s3 s4"
    by (rule bwrite_obtain[OF s3(1), of d]) (use s3 b3 in auto)
  define s5 where "s5 = (if rec then s4 else bunpin d s4)"
  have s5: "bio_inv (P - {B}) s5" "held s5 = {d, l}" "cur s5 = cur s3" "bdata s5 = bdata s3"
    "b_blockno (bufs s5 l) = L" "b_blockno (bufs s5 d) = B" "disk s5 = disk s4" "dhist s5 = dhist s4" "bio_frame s4 s5"
    using bunpin_spec[OF s4(2), of d] s4 b3 B s1(3) by (auto simp: s5_def bunpin_def)
  obtain s6 where s6: "brelse l s5 = Ok s6" "bio_inv (P - {B}) s6" "held s6 = {d}" "cur s6 = cur s3"
    "bufs s6 d = bufs s5 d" "disk s6 = disk s4" "dhist s6 = dhist s4" "bio_frame s5 s6"
    by (rule brelse_obtain[OF s5(1), of l])
      (use s5 b3 B L s2(4) s1 s4(6) bio_clean[OF inv idle L(2)] in \<open>auto dest: fun_cong[of _ _ l]\<close>)
  obtain s7 where s7: "brelse d s6 = Ok s7" "bio_inv (P - {B}) s7" "held s7 = {}" "cur s7 = cur s3"
    "disk s7 = disk s4" "dhist s7 = dhist s4" "bio_frame s6 s7"
    by (rule brelse_obtain[OF s6(2), of d])
      (use s6 s5 s4 s3 b3 L in \<open>auto dest: fun_cong[of _ _ d]\<close>)
  have "install_tail rec tail s = Ok s7"
    using s1 s2 s4 s6 s7 L B dev frame_log[OF s1(9)] by (simp add: install_tail_def s3_def s5_def Let_def)
  moreover have "bio_frame s s7"
    using s1(9) s2(10) s3(5) s4(8) s5(9) s6(8) s7(7) by (blast intro: bio_frame_trans)
  ultimately show ?thesis using s7 s4 s3 by simp
qed

lemma write_head_spec:
  assumes inv: "bio_inv P s" and idle: "held s = {}" and dev: "log_dev s = ROOTDEV"
    and room: "card P < NBUF" and L: "L = log_start s" "L \<notin> P" and n: "lh_n s \<le> int LOGBLOCKS"
    and H: "H = hdr_fill (lh_n s) (lh_block s) (cur s L)"
  shows "returns (write_head s) (\<lambda>t. bio_inv P t \<and> held t = {} \<and>
    cur t = (cur s)(L := H) \<and> disk t = (disk s)(L := H) \<and>
    dhist t = dhist s @ [(L, H)] \<and> bio_frame s t)"
proof -
  let ?f = "hdr_fill (lh_n s) (lh_block s)"
  obtain l s1 where s1: "bread ROOTDEV L s = Ok (l, s1)" "bio_frame s s1"
    by (rule bread_obtain[OF inv, of L]) (use idle room in auto)
  then have "write_head s = block_write L ?f s"
    using L dev frame_log[OF s1(2)] by (simp add: write_head_def block_write_def)
  moreover have "bnorm (?f (cur s L))" by (rule hdr_fill_norm[OF n cur_norm[OF inv]])
  ultimately show ?thesis
    using block_write_spec[where f = ?f, OF inv idle room L(2)] by (simp add: H)
qed

section \<open>Sequences of block writes\<close>

text \<open>
  \<open>replay\<close> applies a sequence of writes to a disk image; \<open>upd_many\<close> is the
  image after \<open>n\<close> writes, the \<open>j\<close>-th of them to block \<open>a j\<close>.
\<close>

definition replay :: "(nat \<times> bytes) list \<Rightarrow> (nat \<Rightarrow> bytes) \<Rightarrow> nat \<Rightarrow> bytes" where
  "replay ws d = fold (\<lambda>(b, m) e. e(b := m)) ws d"

definition upd_many :: "nat \<Rightarrow> (nat \<Rightarrow> nat) \<Rightarrow> (nat \<Rightarrow> bytes) \<Rightarrow> (nat \<Rightarrow> bytes) \<Rightarrow> nat \<Rightarrow> bytes" where
  "upd_many n a v d = fold (\<lambda>j e. e(a j := v j)) [0..<n] d"

lemma upd_many_simps [simp]:
  "upd_many 0 a v d = d" "upd_many (Suc n) a v d = (upd_many n a v d)(a n := v n)"
  by (simp_all add: upd_many_def)

lemma upd_many_other: "(\<And>j. j < n \<Longrightarrow> a j \<noteq> b) \<Longrightarrow> upd_many n a v d b = d b"
  by (induction n) (auto simp: less_Suc_eq)

lemma upd_many_at: "inj_on a {..<n} \<Longrightarrow> j < n \<Longrightarrow> upd_many n a v d (a j) = v j"
  by (induction n) (auto simp: less_Suc_eq inj_on_def lessThan_Suc)

lemma replay_Nil [simp]: "replay [] d = d"
  and replay_Cons [simp]: "replay ((b, m) # ws) d = replay ws (d(b := m))"
  and replay_append [simp]: "replay (ws @ vs) d = replay vs (replay ws d)"
  and replay_map: "replay (map (\<lambda>j. (a j, v j)) [0..<n]) d = upd_many n a v d"
  by (simp_all add: replay_def upd_many_def fold_map comp_def)

lemma loop_writes:
  assumes init: "bio_inv (Q 0) s" "held s = {}"
    and step: "\<And>k t. k < n \<Longrightarrow> bio_inv (Q k) t \<Longrightarrow> held t = {} \<Longrightarrow> bio_frame s t \<Longrightarrow>
      cur t = upd_many k a v (cur s) \<Longrightarrow> disk t = upd_many k a v (disk s) \<Longrightarrow>
      returns (f k t) (\<lambda>u. bio_inv (Q (Suc k)) u \<and> held u = {} \<and> cur u = (cur t)(a k := v k) \<and>
        disk u = (disk t)(a k := v k) \<and> dhist u = dhist t @ [(a k, v k)] \<and> bio_frame t u)"
  shows "returns (kfold f [0..<n] s) (\<lambda>t. bio_inv (Q n) t \<and> held t = {} \<and>
    cur t = upd_many n a v (cur s) \<and> disk t = upd_many n a v (disk s) \<and>
    dhist t = dhist s @ map (\<lambda>j. (a j, v j)) [0..<n] \<and> bio_frame s t)"
proof (rule kfold_returns)
  fix k t
  assume k: "k < n" and I: "bio_inv (Q k) t \<and> held t = {} \<and>
    cur t = upd_many k a v (cur s) \<and> disk t = upd_many k a v (disk s) \<and>
    dhist t = dhist s @ map (\<lambda>j. (a j, v j)) [0..<k] \<and> bio_frame s t"
  then have "returns (f k t) (\<lambda>u. bio_inv (Q (Suc k)) u \<and> held u = {} \<and> cur u = (cur t)(a k := v k) \<and>
        disk u = (disk t)(a k := v k) \<and> dhist u = dhist t @ [(a k, v k)] \<and> bio_frame t u)"
    by (intro step) auto
  then show "returns (f k t) (\<lambda>u. bio_inv (Q (Suc k)) u \<and> held u = {} \<and>
    cur u = upd_many (Suc k) a v (cur s) \<and> disk u = upd_many (Suc k) a v (disk s) \<and>
    dhist u = dhist s @ map (\<lambda>j. (a j, v j)) [0..<Suc k] \<and> bio_frame s u)"
    by (rule returns_mono) (use I bio_frame_trans in auto)
qed (use init in simp)

section \<open>Commit and recovery\<close>

definition log_area :: "nat \<Rightarrow> nat set" where
  "log_area st = {st..st + LOGBLOCKS}"

definition logged :: "'a log_state_scheme \<Rightarrow> nat set" where
  "logged s = lh_block s ` {..<nat (lh_n s)}"

definition log_inv :: "'a log_state_scheme \<Rightarrow> bool" where
  "log_inv s \<longleftrightarrow> bio_inv (logged s) s \<and> inj_on (lh_block s) {..<nat (lh_n s)} \<and>
     0 \<le> lh_n s \<and> lh_n s \<le> int LOGBLOCKS \<and> log_dev s = ROOTDEV \<and>
     logged s \<inter> log_area (log_start s) = {} \<and> (\<forall>b\<in>logged s. b < 2 ^ 32) \<and>
     get_le 4 (disk s (log_start s)) 0 = 0"

lemma card_logged: "inj_on (lh_block s) {..<nat (lh_n s)} \<Longrightarrow> card (logged s) = nat (lh_n s)"
  by (simp add: logged_def card_image)

lemma write_log_spec:
  assumes inv: "log_inv s" and idle: "held s = {}" and room: "lh_n s < int NBUF"
  shows "returns (write_log s) (\<lambda>t. bio_inv (logged s) t \<and> held t = {} \<and>
    cur t = upd_many (nat (lh_n s)) (\<lambda>j. log_start s + j + 1) (\<lambda>j. cur s (lh_block s j)) (cur s) \<and>
    disk t = upd_many (nat (lh_n s)) (\<lambda>j. log_start s + j + 1) (\<lambda>j. cur s (lh_block s j)) (disk s) \<and>
    dhist t = dhist s @ map (\<lambda>j. (log_start s + j + 1, cur s (lh_block s j))) [0..<nat (lh_n s)] \<and>
    bio_frame s t)"
  unfolding write_log_def
proof (rule loop_writes[where Q = "\<lambda>_. logged s"])
  fix k t
  assume k: "k < nat (lh_n s)" and t: "bio_inv (logged s) t" "held t = {}" "bio_frame s t"
    "cur t = upd_many k (\<lambda>j. log_start s + j + 1) (\<lambda>j. cur s (lh_block s j)) (cur s)"
  have B: "lh_block s k \<in> logged s" using k by (simp add: logged_def)
  have L: "log_start s + k + 1 \<notin> logged s" "lh_block s k \<notin> log_area (log_start s)"
    using inv B k by (auto simp: log_inv_def log_area_def)
  have v: "cur t (lh_block s k) = cur s (lh_block s k)"
    unfolding t(4) by (rule upd_many_other) (use L(2) k inv in \<open>auto simp: log_area_def log_inv_def\<close>)
  show "returns (write_log_tail k t) (\<lambda>u. bio_inv (logged s) u \<and> held u = {} \<and>
      cur u = (cur t)(log_start s + k + 1 := cur s (lh_block s k)) \<and>
      disk u = (disk t)(log_start s + k + 1 := cur s (lh_block s k)) \<and>
      dhist u = dhist t @ [(log_start s + k + 1, cur s (lh_block s k))] \<and> bio_frame t u)"
    unfolding v[symmetric]
    by (rule write_log_tail_spec[OF t(1,2)])
      (use inv room L B in \<open>auto simp: frame_log[OF t(3)] log_inv_def card_logged\<close>)
qed (use inv idle in \<open>auto simp: log_inv_def\<close>)

lemma install_trans_spec:
  assumes inv: "bio_inv P s" and idle: "held s = {}" and dev: "log_dev s = ROOTDEV"
    and n: "lh_n s \<le> int LOGBLOCKS" and inj: "inj_on (lh_block s) {..<nat (lh_n s)}"
    and area: "logged s \<inter> log_area (log_start s) = {}"
    and P: "P = (if rec then {} else logged s)" and room: "card P < NBUF"
  shows "returns (install_trans rec s) (\<lambda>t. bio_inv {} t \<and> held t = {} \<and>
    cur t = upd_many (nat (lh_n s)) (lh_block s) (\<lambda>j. cur s (log_start s + j + 1)) (cur s) \<and>
    disk t = upd_many (nat (lh_n s)) (lh_block s) (\<lambda>j. cur s (log_start s + j + 1)) (disk s) \<and>
    dhist t = dhist s @ map (\<lambda>j. (lh_block s j, cur s (log_start s + j + 1))) [0..<nat (lh_n s)] \<and>
    bio_frame s t)"
proof -
  define Q where "Q k = P - lh_block s ` {..<k}" for k
  have Qn: "Q (nat (lh_n s)) = {}" using P by (auto simp: Q_def logged_def)
  have "returns (kfold (install_tail rec) [0..<nat (lh_n s)] s) (\<lambda>t. bio_inv (Q (nat (lh_n s))) t \<and> held t = {} \<and>
    cur t = upd_many (nat (lh_n s)) (lh_block s) (\<lambda>j. cur s (log_start s + j + 1)) (cur s) \<and>
    disk t = upd_many (nat (lh_n s)) (lh_block s) (\<lambda>j. cur s (log_start s + j + 1)) (disk s) \<and>
    dhist t = dhist s @ map (\<lambda>j. (lh_block s j, cur s (log_start s + j + 1))) [0..<nat (lh_n s)] \<and>
    bio_frame s t)"
  proof (rule loop_writes)
    fix k t
    let ?L = "log_start s + k + 1" and ?B = "lh_block s k"
    assume k: "k < nat (lh_n s)" and t: "bio_inv (Q k) t" "held t = {}" "bio_frame s t"
      "cur t = upd_many k (lh_block s) (\<lambda>j. cur s (log_start s + j + 1)) (cur s)"
    have Bl: "?B \<in> logged s" using k by (simp add: logged_def)
    have nl: "b \<noteq> ?L" if "b \<in> logged s" for b
      using that area k n by (auto simp: log_area_def)
    have L: "?L \<notin> Q k" using nl P by (auto simp: Q_def)
    have "?B \<notin> lh_block s ` {..<k}"
    proof
      assume "?B \<in> lh_block s ` {..<k}"
      then obtain j where "j < k" "lh_block s j = ?B" by auto
      with inj_onD[OF inj, of j k] k show False by simp
    qed
    then have BQ: "?B \<in> Q k \<longleftrightarrow> \<not> rec" using P Bl by (auto simp: Q_def)
    have Qs: "Q (Suc k) = Q k - {?B}" by (auto simp: Q_def lessThan_Suc)
    have v: "cur t ?L = cur s ?L"
      unfolding t(4) by (rule upd_many_other) (use nl k in \<open>auto simp: logged_def\<close>)
    have "card (Q k) \<le> card P" by (rule card_mono) (use bio_invD(4)[OF inv] in \<open>auto simp: Q_def\<close>)
    then have room': "card (Q k) < NBUF" "rec \<Longrightarrow> card (Q k) + 1 < NBUF"
      using room P by (auto simp: Q_def NBUF_def)
    show "returns (install_tail rec k t) (\<lambda>u. bio_inv (Q (Suc k)) u \<and> held u = {} \<and>
        cur u = (cur t)(?B := cur s ?L) \<and> disk u = (disk t)(?B := cur s ?L) \<and>
        dhist u = dhist t @ [(?B, cur s ?L)] \<and> bio_frame t u)"
      unfolding v[symmetric] Qs
      by (rule install_tail_spec[OF t(1,2) _ room']) (use dev L BQ nl[OF Bl] in \<open>auto simp: frame_log[OF t(3)]\<close>)
  qed (use inv idle in \<open>auto simp: Q_def\<close>)
  then show ?thesis unfolding Qn install_trans_def .
qed

text \<open>The writes of a commit, in order.\<close>

definition commit_writes :: "nat \<Rightarrow> int \<Rightarrow> (nat \<Rightarrow> nat) \<Rightarrow> (nat \<Rightarrow> bytes) \<Rightarrow> bytes \<Rightarrow> (nat \<times> bytes) list" where
  "commit_writes st n blk v m =
     map (\<lambda>j. (st + j + 1, v j)) [0..<nat n] @ [(st, hdr_fill n blk m)] @
     map (\<lambda>j. (blk j, v j)) [0..<nat n] @ [(st, hdr_fill 0 blk (hdr_fill n blk m))]"

lemma log_invD:
  assumes "log_inv s"
  shows "bio_inv (logged s) s" "inj_on (lh_block s) {..<nat (lh_n s)}" "0 \<le> lh_n s"
    "lh_n s \<le> int LOGBLOCKS" "log_dev s = ROOTDEV" "logged s \<inter> log_area (log_start s) = {}"
    "b \<in> logged s \<Longrightarrow> b < 2 ^ 32" "get_le 4 (disk s (log_start s)) 0 = 0"
    "log_start s \<notin> logged s" "log_start s + j + 1 \<in> log_area (log_start s) \<longleftrightarrow> j < LOGBLOCKS"
  using assms by (auto simp: log_inv_def log_area_def)

lemma bio_inv_log [simp]: "bio_inv P (s\<lparr>lh_n := n\<rparr>) = bio_inv P s" "held (s\<lparr>lh_n := n\<rparr>) = held s"
  "cur (s\<lparr>lh_n := n\<rparr>) = cur s"
  by (rule bio_cong; simp add: curpid_def myproc_def split: option.split)+

lemma frame_lh_n: "bio_frame s t \<Longrightarrow> bio_frame (s\<lparr>lh_n := n\<rparr>) (t\<lparr>lh_n := n\<rparr>)"
  by (elim bio_frameE) (simp add: bio_frame_def)

lemma commit_spec:
  assumes inv: "log_inv s" and idle: "held s = {}" and some: "0 < lh_n s" and room: "lh_n s < int NBUF"
    and ws: "ws = commit_writes (log_start s) (lh_n s) (lh_block s) (\<lambda>j. cur s (lh_block s j))
      (cur s (log_start s))"
  shows "returns (commit s) (\<lambda>t. bio_inv {} t \<and> held t = {} \<and> lh_n t = 0 \<and>
    disk t = replay ws (disk s) \<and> dhist t = dhist s @ ws \<and> bio_frame (s\<lparr>lh_n := 0\<rparr>) t)"
proof -
  note I = log_invD[OF inv]
  let ?st = "log_start s" and ?n = "nat (lh_n s)" and ?blk = "lh_block s"
  let ?v = "\<lambda>j. cur s (?blk j)" and ?a = "\<lambda>j. ?st + j + 1"
  have card: "card (logged s) < NBUF" using I(2,3) room by (simp add: card_logged nat_less_iff)
  obtain s1 where s1: "write_log s = Ok s1" "bio_inv (logged s) s1" "held s1 = {}"
    "cur s1 = upd_many ?n ?a ?v (cur s)" "disk s1 = upd_many ?n ?a ?v (disk s)"
    "dhist s1 = dhist s @ map (\<lambda>j. (?a j, ?v j)) [0..<?n]" "bio_frame s s1"
    using write_log_spec[OF inv idle room] by (auto simp: returns_def)
  note f1 = frame_log[OF s1(7)]
  define H where "H = hdr_fill (lh_n s) ?blk (cur s ?st)"
  have c1: "cur s1 ?st = cur s ?st" unfolding s1(4) by (rule upd_many_other) simp
  obtain s2 where s2: "write_head s1 = Ok s2" "bio_inv (logged s) s2" "held s2 = {}"
    "cur s2 = (cur s1)(?st := H)" "disk s2 = (disk s1)(?st := H)" "dhist s2 = dhist s1 @ [(?st, H)]"
    "bio_frame s1 s2"
    using write_head_spec[OF s1(2,3) _ card, of ?st H] I f1 c1 by (auto simp: returns_def H_def)
  note f2 = frame_log[OF s2(7)]
  have lg: "logged s2 = logged s" by (simp add: logged_def f1 f2)
  have c2: "cur s2 (?a j) = ?v j" if "j < ?n" for j
    using upd_many_at[of ?a ?n j ?v "cur s"] that by (simp add: s2(4) s1(4) inj_on_def)
  have up: "upd_many ?n ?blk (\<lambda>j. cur s2 (?a j)) d = upd_many ?n ?blk ?v d" for d
    unfolding upd_many_def by (rule fold_cong) (use c2 in auto)
  have mp: "map (\<lambda>j. (?blk j, cur s2 (?a j))) [0..<?n] = map (\<lambda>j. (?blk j, ?v j)) [0..<?n]"
    using c2 by (intro map_cong) auto
  have Pq: "logged s = (if False then {} else logged s)" by simp
  note r3 = install_trans_spec[OF s2(2,3), of False, unfolded lg f1 f2, OF I(5,4,2,6) Pq card]
  obtain s3 where s3: "install_trans False s2 = Ok s3" "bio_inv {} s3" "held s3 = {}"
    "cur s3 = upd_many ?n ?blk ?v (cur s2)" "disk s3 = upd_many ?n ?blk ?v (disk s2)"
    "dhist s3 = dhist s2 @ map (\<lambda>j. (?blk j, ?v j)) [0..<?n]" "bio_frame s2 s3"
    using r3[unfolded f1 f2 up mp] by (auto simp: returns_def)
  note f3 = frame_log[OF s3(7)]
  have "?blk j \<noteq> ?st" if "j < ?n" for j using I(9) that unfolding logged_def by (metis imageI lessThan_iff)
  then have c3: "cur s3 ?st = H" unfolding s3(4) by (subst upd_many_other) (simp_all add: s2(4))
  obtain s4 where s4: "write_head (s3\<lparr>lh_n := 0\<rparr>) = Ok s4" "bio_inv {} s4" "held s4 = {}"
    "disk s4 = (disk s3)(?st := hdr_fill 0 ?blk H)" "dhist s4 = dhist s3 @ [(?st, hdr_fill 0 ?blk H)]"
    "bio_frame (s3\<lparr>lh_n := 0\<rparr>) s4"
    using write_head_spec[of "{}" "s3\<lparr>lh_n := 0\<rparr>" ?st "hdr_fill 0 ?blk H"] I f1 f2 f3 c3 s3
    by (auto simp: returns_def NBUF_def)
  have "bio_frame (s\<lparr>lh_n := 0\<rparr>) (s3\<lparr>lh_n := 0\<rparr>)"
    by (rule frame_lh_n[OF bio_frame_trans[OF bio_frame_trans[OF s1(7) s2(7)] s3(7)]])
  then have "bio_frame (s\<lparr>lh_n := 0\<rparr>) s4" by (rule bio_frame_trans) (rule s4(6))
  moreover have "commit s = Ok s4" using some s1(1) s2(1) s3(1) s4(1) by (simp add: commit_def)
  ultimately show ?thesis
    using s4 frame_log[OF s4(6)] s3 s2 s1
    by (simp add: ws commit_writes_def H_def replay_map)
qed

text \<open>
  The image of a disk after recovery, as a function of the image alone.
\<close>

definition hdr_n :: "nat \<Rightarrow> (nat \<Rightarrow> bytes) \<Rightarrow> int" where
  "hdr_n st d = s32 (get_le 4 (d st) 0)"

definition hdr_block :: "nat \<Rightarrow> (nat \<Rightarrow> bytes) \<Rightarrow> nat \<Rightarrow> nat" where
  "hdr_block st d j = get_le 4 (d st) (4 + 4 * j)"

definition good_header :: "nat \<Rightarrow> (nat \<Rightarrow> bytes) \<Rightarrow> bool" where
  "good_header st d \<longleftrightarrow> hdr_n st d \<le> int LOGBLOCKS \<and>
     inj_on (hdr_block st d) {..<nat (hdr_n st d)} \<and>
     hdr_block st d ` {..<nat (hdr_n st d)} \<inter> log_area st = {}"

definition recover_writes :: "nat \<Rightarrow> (nat \<Rightarrow> bytes) \<Rightarrow> (nat \<times> bytes) list" where
  "recover_writes st d =
     map (\<lambda>j. (hdr_block st d j, d (st + j + 1))) [0..<nat (hdr_n st d)] @
     [(st, put_le 4 (d st) 0 0)]"

lemma hdr_fill_zero: "hdr_fill 0 blk m = put_le 4 m 0 0"
  by (simp add: hdr_fill_def)

lemma read_head_spec:
  assumes inv: "bio_inv {} s" and idle: "held s = {}" and dev: "log_dev s = ROOTDEV"
  shows "returns (read_head s) (\<lambda>t. bio_inv {} t \<and> held t = {} \<and> cur t = cur s \<and> disk t = disk s \<and>
    dhist t = dhist s \<and> lh_n t = hdr_n (log_start s) (cur s) \<and>
    (\<forall>k. int k < lh_n t \<longrightarrow> lh_block t k = hdr_block (log_start s) (cur s) k) \<and>
    bio_frame (s\<lparr>lh_n := lh_n t, lh_block := lh_block t\<rparr>) t)"
proof -
  obtain l s1 where s1: "bread ROOTDEV (log_start s) s = Ok (l, s1)" "bio_inv {} s1"
    "b_blockno (bufs s1 l) = log_start s" "held s1 = {l}" "bdata s1 l = cur s (log_start s)"
    "cur s1 = cur s" "disk s1 = disk s" "dhist s1 = dhist s" "bio_frame s s1"
    by (rule bread_obtain[OF inv, of "log_start s"]) (use idle in \<open>auto simp: NBUF_def\<close>)
  define n where "n = hdr_n (log_start s) (cur s)"
  define blk where "blk k = (if int k < n then hdr_block (log_start s) (cur s) k else lh_block s1 k)" for k
  define s2 where "s2 = s1\<lparr>lh_n := n, lh_block := blk\<rparr>"
  have same: "bufs s2 = bufs s1" "disk s2 = disk s1" "lru s2 = lru s1" "dhist s2 = dhist s1"
    "curpid s2 = curpid s1" by (simp_all add: s2_def curpid_def myproc_def split: option.split)
  have s2: "bio_inv {} s2" "held s2 = {l}" "cur s2 = cur s"
    using s1(2,4,6) bio_cong[OF same(1,2,3,5)] by simp_all
  obtain s3 where s3: "brelse l s2 = Ok s3" "bio_inv {} s3" "held s3 = {}" "cur s3 = cur s"
    "disk s3 = disk s" "dhist s3 = dhist s" "bio_frame s2 s3"
    by (rule brelse_obtain[OF s2(1), of l])
      (use s2 s1 bio_clean[OF inv idle, of "log_start s"] in \<open>auto simp: same\<close>)
  have "read_head s = Ok s3"
    using s1 s3(1) dev unfolding s2_def blk_def n_def
    by (simp add: read_head_def Let_def hdr_n_def hdr_block_def cong: if_cong)
  moreover have "bio_frame (s\<lparr>lh_n := n, lh_block := blk\<rparr>) s2"
    using s1(9) unfolding s2_def by (elim bio_frameE) (simp add: bio_frame_def)
  moreover have "lh_n s3 = n" "lh_block s3 = blk" using frame_log[OF s3(7)] by (simp_all add: s2_def)
  ultimately show ?thesis using s3 bio_frame_trans[OF _ s3(7)] by (simp add: n_def blk_def)
qed

lemma recover_spec:
  assumes inv: "bio_inv {} s" and idle: "held s = {}" and dev: "log_dev s = ROOTDEV"
    and good: "good_header (log_start s) (disk s)"
  shows "returns (recover_from_log s) (\<lambda>t. bio_inv {} t \<and> held t = {} \<and> lh_n t = 0 \<and>
    disk t = replay (recover_writes (log_start s) (disk s)) (disk s) \<and>
    dhist t = dhist s @ recover_writes (log_start s) (disk s) \<and>
    log_start t = log_start s \<and> log_dev t = ROOTDEV \<and> log_outstanding t = log_outstanding s \<and>
    log_committing t = log_committing s)"
proof -
  let ?st = "log_start s" and ?n = "nat (hdr_n (log_start s) (disk s))"
  have cd: "cur s = disk s" using bio_clean[OF inv idle] by auto
  obtain s1 where s1: "read_head s = Ok s1" "bio_inv {} s1" "held s1 = {}" "cur s1 = disk s" "disk s1 = disk s"
    "dhist s1 = dhist s" "lh_n s1 = hdr_n ?st (disk s)"
    "\<forall>k. int k < lh_n s1 \<longrightarrow> lh_block s1 k = hdr_block ?st (disk s) k"
    "bio_frame (s\<lparr>lh_n := lh_n s1, lh_block := lh_block s1\<rparr>) s1"
    using read_head_spec[OF inv idle dev] by (auto simp: returns_def cd)
  have f1: "log_start s1 = ?st" "log_dev s1 = ROOTDEV" "log_outstanding s1 = log_outstanding s"
    "log_committing s1 = log_committing s"
    using frame_log[OF s1(9)] dev by simp_all
  have blk: "lh_block s1 j = hdr_block ?st (disk s) j" if "j < ?n" for j
    using s1(7,8) that by auto
  have im: "logged s1 = hdr_block ?st (disk s) ` {..<?n}"
    unfolding logged_def s1(7) by (rule image_cong) (use blk in auto)
  have pre: "inj_on (lh_block s1) {..<nat (lh_n s1)}" "logged s1 \<inter> log_area (log_start s1) = {}"
    "lh_n s1 \<le> int LOGBLOCKS"
    using good im blk s1(7) f1 by (auto simp: good_header_def inj_on_def)
  have P: "{} = (if True then {} else logged s1)" and c0: "card ({} :: nat set) < NBUF"
    by (simp_all add: NBUF_def)
  have mp: "map (\<lambda>j. (lh_block s1 j, disk s (?st + j + 1))) [0..<?n] =
      map (\<lambda>j. (hdr_block ?st (disk s) j, disk s (?st + j + 1))) [0..<?n]"
    using blk by (intro map_cong) auto
  have um: "upd_many ?n (lh_block s1) v d = upd_many ?n (hdr_block ?st (disk s)) v d" for v d
    unfolding upd_many_def by (rule fold_cong) (use blk in auto)
  note r = install_trans_spec[OF s1(2,3) f1(2) pre(3,1,2) P c0, unfolded f1(1) s1(4,7) mp um]
  obtain s2 where s2: "install_trans True s1 = Ok s2" "bio_inv {} s2" "held s2 = {}"
    "cur s2 = upd_many ?n (hdr_block ?st (disk s)) (\<lambda>j. disk s (?st + j + 1)) (disk s)"
    "disk s2 = upd_many ?n (hdr_block ?st (disk s)) (\<lambda>j. disk s (?st + j + 1)) (disk s)"
    "dhist s2 = dhist s @ map (\<lambda>j. (hdr_block ?st (disk s) j, disk s (?st + j + 1))) [0..<?n]"
    "bio_frame s1 s2"
    using r s1(5,6) by (auto simp: returns_def)
  note f2 = frame_log[OF s2(7)]
  have "hdr_block ?st (disk s) j \<noteq> ?st" if "j < ?n" for j
    using good that by (auto simp: good_header_def log_area_def image_subset_iff)
  then have c2: "cur s2 ?st = disk s ?st" unfolding s2(4) by (intro upd_many_other) auto
  obtain s3 where s3: "write_head (s2\<lparr>lh_n := 0\<rparr>) = Ok s3" "bio_inv {} s3" "held s3 = {}"
    "disk s3 = (disk s2)(?st := put_le 4 (disk s ?st) 0 0)"
    "dhist s3 = dhist s2 @ [(?st, put_le 4 (disk s ?st) 0 0)]" "bio_frame (s2\<lparr>lh_n := 0\<rparr>) s3"
    using write_head_spec[of "{}" "s2\<lparr>lh_n := 0\<rparr>" ?st "put_le 4 (disk s ?st) 0 0"] f1 f2 c2 s2(2,3)
    by (auto simp: returns_def NBUF_def hdr_fill_zero)
  have "recover_from_log s = Ok s3" using s1(1) s2(1) s3(1) by (simp add: recover_from_log_def)
  then show ?thesis
    using s3 s2 f1 f2 frame_log[OF s3(6)] by (simp add: recover_writes_def replay_map)
qed

section \<open>Crashes\<close>

text \<open>An image whose log is empty, and one whose log holds a committed transaction.\<close>

lemma recover_empty:
  assumes "get_le 4 (e st) 0 = 0"
  shows "good_header st e" "b \<notin> log_area st \<Longrightarrow> replay (recover_writes st e) e b = e b"
  using assms by (auto simp: good_header_def hdr_n_def s32_def recover_writes_def log_area_def)

lemma recover_full:
  assumes e: "e st = hdr_fill n blk m" and n: "0 < n" "n \<le> int LOGBLOCKS"
    and inj: "inj_on blk {..<nat n}" and area: "blk ` {..<nat n} \<inter> log_area st = {}"
    and wd: "\<forall>j<nat n. blk j < 2 ^ 32"
  shows "good_header st e"
    "b \<notin> log_area st \<Longrightarrow> replay (recover_writes st e) e b = upd_many (nat n) blk (\<lambda>j. e (st + j + 1)) e b"
proof -
  have hn: "hdr_n st e = n"
    using n by (simp add: hdr_n_def e hdr_fill_n s32_def LOGBLOCKS_def nat_less_iff)
  have hb: "hdr_block st e j = blk j" if "j < nat n" for j
    using hdr_fill_block[OF that] wd that by (simp add: hdr_block_def e)
  have "hdr_block st e ` {..<nat n} = blk ` {..<nat n}" by (rule image_cong) (use hb in auto)
  then show "good_header st e" using n inj area hb by (auto simp: good_header_def hn inj_on_def)
  have "upd_many (nat n) (hdr_block st e) v d = upd_many (nat n) blk v d" for v d
    unfolding upd_many_def by (rule fold_cong) (use hb in auto)
  then show "b \<notin> log_area st \<Longrightarrow> replay (recover_writes st e) e b = upd_many (nat n) blk (\<lambda>j. e (st + j + 1)) e b"
    by (auto simp: recover_writes_def hn replay_map log_area_def)
qed

lemma upd_many_eq:
  assumes inj: "inj_on a {..<n}" and "\<And>j. j < n \<Longrightarrow> v j = w j" and "b \<notin> a ` {..<n} \<Longrightarrow> d b = e b"
  shows "upd_many n a v d b = upd_many n a w e b"
proof (cases "b \<in> a ` {..<n}")
  case True
  then show ?thesis using assms(2) by (auto simp: upd_many_at[OF inj])
next
  case False
  then have "upd_many n a v d b = d b" "upd_many n a w e b = e b" by (auto intro!: upd_many_other)
  then show ?thesis using assms(3)[OF False] by simp
qed

text \<open>The image after the header was written and \<open>i\<close> blocks were installed.\<close>

lemma crash_installing:
  fixes st v d
  assumes n: "0 < n" "n \<le> int LOGBLOCKS"
    and inj: "inj_on blk {..<nat n}" and area: "blk ` {..<nat n} \<inter> log_area st = {}"
    and wd: "\<forall>j<nat n. blk j < 2 ^ 32" and i: "i \<le> nat n"
    and d1: "d1 = (upd_many (nat n) (\<lambda>j. st + j + 1) v d)(st := hdr_fill n blk m)"
    and e: "e = upd_many i blk v d1"
  shows "good_header st e"
    "b \<notin> log_area st \<Longrightarrow> replay (recover_writes st e) e b = upd_many (nat n) blk v d b"
proof -
  have bst: "blk j \<noteq> st + l" if "j < nat n" "l \<le> nat n" for j l
    using area that n by (auto simp: log_area_def disjoint_iff)
  have bs0: "blk j \<noteq> st" if "j < i" for j using bst[of j 0] that i by simp
  have bs1: "blk l \<noteq> st + j + 1" if "l < i" "j < nat n" for l j using bst[of l "j + 1"] that i by simp
  have "e st = d1 st" unfolding e by (rule upd_many_other) (rule bs0)
  then have "e st = hdr_fill n blk m" by (simp add: d1)
  note R = recover_full[where e = e and st = st, OF this n inj area wd]
  show "good_header st e" by (rule R(1))
  have at: "e (st + j + 1) = v j" if "j < nat n" for j
  proof -
    have "e (st + j + 1) = d1 (st + j + 1)" unfolding e
      by (rule upd_many_other) (rule bs1[OF _ that])
    also have "\<dots> = v j"
      using upd_many_at[of "\<lambda>j. st + j + 1" "nat n" j v d] that by (simp add: d1 inj_on_def)
    finally show ?thesis .
  qed
  assume b: "b \<notin> log_area st"
  have "e b = d b" if nb: "b \<notin> blk ` {..<nat n}"
  proof -
    have "e b = d1 b" unfolding e by (rule upd_many_other) (use nb i in auto)
    also have "\<dots> = upd_many (nat n) (\<lambda>j. st + j + 1) v d b" using b by (auto simp: d1 log_area_def)
    also have "\<dots> = d b" by (rule upd_many_other) (use b n in \<open>auto simp: log_area_def\<close>)
    finally show ?thesis .
  qed
  with R(2)[OF b] at upd_many_eq[OF inj, of "\<lambda>j. e (st + j + 1)" v b e d]
  show "replay (recover_writes st e) e b = upd_many (nat n) blk v d b" by simp
qed

lemma commit_image:
  assumes n: "n \<le> int LOGBLOCKS" and inj: "inj_on blk {..<nat n}" and b: "b \<notin> log_area st"
  shows "replay (commit_writes st n blk v m) d b = upd_many (nat n) blk v d b"
proof -
  let ?d1 = "(upd_many (nat n) (\<lambda>j. st + j + 1) v d)(st := hdr_fill n blk m)"
  have bst: "b \<noteq> st" using b by (auto simp: log_area_def)
  have "upd_many (nat n) (\<lambda>j. st + j + 1) v d b = d b"
    by (rule upd_many_other) (use b n in \<open>auto simp: log_area_def\<close>)
  then have "upd_many (nat n) blk v ?d1 b = upd_many (nat n) blk v d b"
    using bst by (intro upd_many_eq[OF inj]) auto
  then show ?thesis using bst by (simp add: commit_writes_def replay_map)
qed

lemma crash_image:
  fixes st v d
  assumes empty: "get_le 4 (d st) 0 = 0" and n: "0 < n" "n \<le> int LOGBLOCKS"
    and inj: "inj_on blk {..<nat n}" and area: "blk ` {..<nat n} \<inter> log_area st = {}"
    and wd: "\<forall>j<nat n. blk j < 2 ^ 32"
    and k: "k \<le> length (commit_writes st n blk v (d st))"
    and e: "e = replay (take k (commit_writes st n blk v (d st))) d"
  shows "good_header st e \<and>
    ((\<forall>b. b \<notin> log_area st \<longrightarrow> replay (recover_writes st e) e b = d b) \<or>
     (\<forall>b. b \<notin> log_area st \<longrightarrow> replay (recover_writes st e) e b = upd_many (nat n) blk v d b))"
proof -
  define N where "N = nat n"
  define H where "H = hdr_fill n blk (d st)"
  let ?a = "\<lambda>j. st + j + 1"
  have N: "0 < N" "N \<le> LOGBLOCKS" using n by (auto simp: N_def)
  have la: "upd_many i ?a v d b = d b" if "i \<le> N" "b \<notin> log_area st" for i b
    by (rule upd_many_other) (use that N in \<open>auto simp: log_area_def\<close>)
  have ws: "commit_writes st n blk v (d st) = map (\<lambda>j. (?a j, v j)) [0..<N] @ [(st, H)] @
     map (\<lambda>j. (blk j, v j)) [0..<N] @ [(st, hdr_fill 0 blk H)]"
    by (simp add: commit_writes_def N_def H_def)
  consider "k \<le> N" | "N < k" "k \<le> N + 1 + N" | "k = N + 1 + N + 1"
    using k unfolding ws by fastforce
  then show ?thesis
  proof cases
    case 1
    then have e1: "e = upd_many k ?a v d" unfolding e ws by (simp add: take_map replay_map min_def)
    then have "e st = d st" by (simp add: upd_many_other)
    with recover_empty[of e st] empty la[OF 1] show ?thesis by (simp add: e1)
  next
    case 2
    define i where "i = k - N - 1"
    have i: "i \<le> nat n" and ki: "k = N + Suc i" using 2 by (auto simp: N_def i_def)
    have "e = upd_many i blk v ((upd_many N ?a v d)(st := H))"
      unfolding e ws ki using i by (simp add: take_map replay_map min_def N_def)
    from crash_installing[OF n inj area wd i refl this[unfolded N_def H_def]] show ?thesis by simp
  next
    case 3
    then have e3: "e = (upd_many N blk v ((upd_many N ?a v d)(st := H)))(st := hdr_fill 0 blk H)"
      unfolding e ws by (simp add: replay_map)
    have "get_le 4 (e st) 0 = 0" by (simp add: e3 hdr_fill_n)
    note R = recover_empty[where e = e and st = st, OF this]
    have "e b = upd_many N blk v d b" if b: "b \<notin> log_area st" for b
      using commit_image[OF n(2) inj b, of v "d st" d] 3 unfolding e ws by (simp add: N_def)
    with R show ?thesis by (simp add: N_def)
  qed
qed

text \<open>A crash during recovery: recovering again gives the same image.\<close>

lemma crash_recovery_image:
  assumes good: "good_header st d" and k: "k \<le> length (recover_writes st d)"
    and e: "e = replay (take k (recover_writes st d)) d" and b: "b \<notin> log_area st"
  shows "good_header st e" "replay (recover_writes st e) e b = replay (recover_writes st d) d b"
proof -
  define N where "N = nat (hdr_n st d)"
  let ?blk = "hdr_block st d" and ?v = "\<lambda>j. d (st + j + 1)"
  have N: "N \<le> LOGBLOCKS" and inj: "inj_on ?blk {..<N}" and ar: "\<And>j. j < N \<Longrightarrow> ?blk j \<notin> log_area st"
    using good by (auto simp: good_header_def N_def nat_le_iff)
  have rw: "recover_writes st d = map (\<lambda>j. (?blk j, ?v j)) [0..<N] @ [(st, put_le 4 (d st) 0 0)]"
    by (simp add: recover_writes_def N_def)
  have bst: "b \<noteq> st" using b by (auto simp: log_area_def)
  have full: "replay (recover_writes st d) d b = upd_many N ?blk ?v d b" using bst by (simp add: rw replay_map)
  have "good_header st e \<and> replay (recover_writes st e) e b = upd_many N ?blk ?v d b"
  proof (cases "k \<le> N")
    case True
    then have e1: "e = upd_many k ?blk ?v d" unfolding e rw by (simp add: take_map replay_map min_def)
    have same: "e a = d a" if "a \<in> log_area st" for a
      unfolding e1 by (rule upd_many_other) (use ar that True in auto)
    have "e st = d st" by (rule same) (simp add: log_area_def)
    then have h: "hdr_n st e = hdr_n st d" "hdr_block st e = ?blk"
      by (simp add: hdr_n_def) (intro ext, simp add: hdr_block_def \<open>e st = d st\<close>)
    have v: "e (st + j + 1) = ?v j" if "j < N" for j
      by (rule same) (use that N in \<open>simp add: log_area_def\<close>)
    have "replay (recover_writes st e) e b = upd_many N ?blk (\<lambda>j. e (st + j + 1)) e b"
      using bst by (simp add: recover_writes_def h replay_map N_def)
    also have "\<dots> = upd_many N ?blk ?v d b"
    proof (rule upd_many_eq[OF inj v])
      assume nb: "b \<notin> ?blk ` {..<N}"
      show "e b = d b" unfolding e1 by (rule upd_many_other) (use nb True in auto)
    qed
    finally show ?thesis using good h by (simp add: good_header_def)
  next
    case False
    then have e2: "e = (upd_many N ?blk ?v d)(st := put_le 4 (d st) 0 0)"
      using k unfolding e rw by (simp add: replay_map)
    then have "get_le 4 (e st) 0 = 0" by (simp add: get_put_le)
    from recover_empty[where e = e and st = st, OF this] b bst show ?thesis by (simp add: e2)
  qed
  then show "good_header st e" "replay (recover_writes st e) e b = replay (recover_writes st d) d b"
    by (simp_all add: full)
qed

section \<open>Transactions\<close>

text \<open>What a file-system operation never changes except through the log.\<close>

definition log_frame :: "'a log_state_scheme \<Rightarrow> 'a log_state_scheme \<Rightarrow> bool" where
  "log_frame s t \<longleftrightarrow>
     t = s\<lparr>procs := procs t, bufs := bufs t, lru := lru t, disk := disk t, dhist := dhist t,
           bio_io_reads := bio_io_reads t, bio_io_writes := bio_io_writes t,
           lh_n := lh_n t, lh_block := lh_block t\<rparr>"

lemma log_frameE:
  assumes "log_frame s t"
  obtains p b l d h r w n k where "t = s\<lparr>procs := p, bufs := b, lru := l, disk := d,
      dhist := h, bio_io_reads := r, bio_io_writes := w, lh_n := n, lh_block := k\<rparr>"
  using assms unfolding log_frame_def by (rule that)

lemma log_frame_refl [simp]: "log_frame s s"
  by (simp add: log_frame_def)

lemma log_frame_trans [trans]: "log_frame s t \<Longrightarrow> log_frame t u \<Longrightarrow> log_frame s u"
  by (elim log_frameE) (simp add: log_frame_def)

lemma bio_frame_log: "bio_frame s t \<Longrightarrow> log_frame s t"
  by (elim bio_frameE) (simp add: log_frame_def)

lemma log_frameD:
  assumes "log_frame s t"
  shows "log_start t = log_start s" "log_outstanding t = log_outstanding s"
    "log_committing t = log_committing s" "log_dev t = log_dev s" "hart t = hart s"
    "cpu_proc t = cpu_proc s"
  using assms by (auto elim: log_frameE)

lemma logged_cong: "bio_frame s t \<Longrightarrow> logged t = logged s"
  by (simp add: logged_def frame_log)

lemma log_inv_frame:
  assumes "log_inv s" "bio_frame s t" "bio_inv (logged s) t" "disk t = disk s"
  shows "log_inv t"
  using assms by (simp add: log_inv_def logged_cong frame_log)

text \<open>
  \<open>in_tx\<close>: a file-system operation is under way. The buffers it holds are
  \<open>held\<close>, and the disk does not change before the commit.
\<close>

definition in_tx :: "'a log_state_scheme \<Rightarrow> bool" where
  "in_tx s \<longleftrightarrow> log_inv s \<and> 1 \<le> log_outstanding s \<and> \<not> log_committing s"

lemma log_write_spec:
  assumes tx: "in_tx s" and i: "i \<in> held s" and room: "lh_n s < int LOGBLOCKS"
    and b: "b = b_blockno (bufs s i)" "b \<notin> log_area (log_start s)" "b < 2 ^ 32"
  shows "returns (log_write i s) (\<lambda>t. in_tx t \<and> held t = held s \<and> cur t = cur s \<and>
    bdata t = bdata s \<and> (\<forall>j. b_blockno (bufs t j) = b_blockno (bufs s j)) \<and> disk t = disk s \<and>
    dhist t = dhist s \<and> logged t = insert b (logged s) \<and>
    lh_n t = lh_n s + (if b \<in> logged s then 0 else 1) \<and> log_frame s t)"
proof (cases "b \<in> logged s")
  case True
  then obtain j where j: "find (\<lambda>i. lh_block s i = b) [0..<nat (lh_n s)] = Some j"
    unfolding logged_def using find_upt_ex[of _ "nat (lh_n s)" "\<lambda>i. lh_block s i = b"] by auto
  then have jb: "j < nat (lh_n s)" "lh_block s j = b" by (auto simp: find_upt_Some)
  then have "(lh_block s)(j := b) = lh_block s" by auto
  then have "log_write i s = Ok s"
    using tx room jb b(1) j by (simp add: log_write_def in_tx_def Let_def)
  then show ?thesis using tx True by (simp add: insert_absorb)
next
  case False
  note I = log_invD[OF conjunct1[OF tx[unfolded in_tx_def]]]
  let ?n = "nat (lh_n s)"
  have none: "find (\<lambda>i. lh_block s i = b) [0..<?n] = None"
    using False by (auto simp: find_upt_None logged_def)
  define t where "t = (bpin i s)\<lparr>lh_n := lh_n s + 1, lh_block := (lh_block s)(?n := b)\<rparr>"
  have lw: "log_write i s = Ok t"
    using tx room b(1) none by (simp add: log_write_def in_tx_def Let_def t_def bpin_def upd_buf_def)
  have n1: "nat (lh_n s + 1) = Suc ?n" using I(3) by simp
  have lg: "logged t = insert b (logged s)"
    by (auto simp: logged_def t_def n1 lessThan_Suc)
  note p = bpin_spec[OF I(1) i, folded b(1), OF False]
  have cong: "bufs t = bufs (bpin i s)" "disk t = disk (bpin i s)" "lru t = lru (bpin i s)"
    "curpid t = curpid (bpin i s)"
    by (simp_all add: t_def curpid_def myproc_def split: option.split)
  note bc = bio_cong[OF cong]
  have "inj_on (lh_block t) {..<nat (lh_n t)}"
    using I(2) False by (auto simp: t_def n1 lessThan_Suc inj_on_def logged_def)
  then have "log_inv t"
    using I p(1) lg bc(1) room b(2,3) by (auto simp: log_inv_def t_def bpin_def upd_buf_def)
  moreover have "log_frame s t" by (simp add: t_def bpin_def upd_buf_def log_frame_def)
  ultimately show ?thesis
    using lw lg bc p False tx by (auto simp: in_tx_def t_def bpin_def upd_buf_def fun_eq_iff)
qed

lemma in_txD:
  assumes "in_tx s"
  shows "bio_inv (logged s) s" "0 \<le> lh_n s" "card (logged s) = nat (lh_n s)" "log_dev s = ROOTDEV"
    "lh_n s \<le> int LOGBLOCKS" "log_inv s"
  using assms by (auto simp: in_tx_def log_inv_def card_logged)

lemma in_tx_frame:
  assumes "in_tx s" "bio_frame s t" "bio_inv (logged s) t" "disk t = disk s"
  shows "in_tx t"
  using assms log_inv_frame[OF _ assms(2,3,4)] by (simp add: in_tx_def frame_log)

lemma tx_bread:
  assumes tx: "in_tx s" and room: "b \<in> logged s \<or> card (held s) + nat (lh_n s) < NBUF"
    and free: "\<And>j. j \<in> held s \<Longrightarrow> b_blockno (bufs s j) \<noteq> b"
  obtains i t where "bread ROOTDEV b s = Ok (i, t)" "in_tx t" "b_blockno (bufs t i) = b"
    "i \<notin> held s" "held t = insert i (held s)" "bdata t i = cur s b" "cur t = cur s"
    "\<forall>j\<in>held s. bufs t j = bufs s j" "disk t = disk s" "dhist t = dhist s" "bio_frame s t"
proof -
  have "b \<in> logged s \<or> card (held s) + card (logged s) < NBUF" using room in_txD(3)[OF tx] by simp
  from bread_obtain[OF in_txD(1)[OF tx] this free] obtain i t where
    a: "bread ROOTDEV b s = Ok (i, t)" "bio_inv (logged s) t" "b_blockno (bufs t i) = b"
    "i \<notin> held s" "held t = insert i (held s)" "bdata t i = cur s b" "cur t = cur s"
    "\<forall>j\<in>held s. bufs t j = bufs s j" "disk t = disk s" "dhist t = dhist s" "bio_frame s t" .
  show thesis by (rule that[OF a(1) in_tx_frame[OF tx a(11,2,9)] a(3-11)])
qed

lemma tx_upd_data:
  assumes tx: "in_tx s" and i: "i \<in> held s" and norm: "bnorm (f (bdata s i))"
  shows "in_tx (upd_data i f s)"
  by (rule in_tx_frame[OF tx])
    (use upd_data_spec[where f = f, OF in_txD(1)[OF tx] i norm] in auto)

lemma tx_brelse:
  assumes tx: "in_tx s" and i: "i \<in> held s"
    and clean: "b_blockno (bufs s i) \<notin> logged s \<Longrightarrow> bdata s i = disk s (b_blockno (bufs s i))"
  obtains t where "brelse i s = Ok t" "in_tx t" "held t = held s - {i}" "cur t = cur s"
    "\<forall>j. j \<noteq> i \<longrightarrow> bufs t j = bufs s j" "disk t = disk s" "dhist t = dhist s" "bio_frame s t"
proof -
  from brelse_obtain[OF in_txD(1)[OF tx] i clean] obtain t where
    a: "brelse i s = Ok t" "bio_inv (logged s) t" "held t = held s - {i}" "cur t = cur s"
    "\<forall>j. j \<noteq> i \<longrightarrow> bufs t j = bufs s j" "disk t = disk s" "dhist t = dhist s" "bio_frame s t" .
  show thesis by (rule that[OF a(1) in_tx_frame[OF tx a(8,2,6)] a(3-8)])
qed

lemma held_cur:
  assumes tx: "in_tx s" and i: "i \<in> held s"
  shows "cur s (b_blockno (bufs s i)) = bdata s i"
  by (rule cur_cached[OF bio_invD(3)[OF in_txD(1)[OF tx]] held_blocks(1,3)[OF in_txD(1)[OF tx] i]])

text \<open>Changing a block inside a transaction.\<close>

definition log_update :: "nat \<Rightarrow> (bytes \<Rightarrow> bytes) \<Rightarrow> 'a log_state_scheme \<Rightarrow> 'a log_state_scheme kres" where
  "log_update b f s = kbind (bread ROOTDEV b s) (\<lambda>(i, s).
     kbind (log_write i (upd_data i f s)) (brelse i))"

lemma block_read_spec:
  assumes tx: "in_tx s" and room: "b \<in> logged s \<or> card (held s) + nat (lh_n s) < NBUF"
    and free: "\<And>j. j \<in> held s \<Longrightarrow> b_blockno (bufs s j) \<noteq> b"
  shows "returns (block_read b s) (\<lambda>(m, t). m = cur s b \<and> in_tx t \<and> cur t = cur s \<and> held t = held s \<and>
    (\<forall>j\<in>held s. bufs t j = bufs s j) \<and> disk t = disk s \<and> dhist t = dhist s \<and> bio_frame s t)"
proof -
  obtain i s1 where s1: "bread ROOTDEV b s = Ok (i, s1)" "in_tx s1" "b_blockno (bufs s1 i) = b"
    "i \<notin> held s" "held s1 = insert i (held s)" "bdata s1 i = cur s b" "cur s1 = cur s"
    "\<forall>j\<in>held s. bufs s1 j = bufs s j" "disk s1 = disk s" "dhist s1 = dhist s" "bio_frame s s1"
    using tx_bread[OF tx room free] .
  obtain s2 where s2: "brelse i s1 = Ok s2" "in_tx s2" "held s2 = held s1 - {i}" "cur s2 = cur s1"
    "\<forall>j. j \<noteq> i \<longrightarrow> bufs s2 j = bufs s1 j" "disk s2 = disk s1" "dhist s2 = dhist s1" "bio_frame s1 s2"
    by (rule tx_brelse[OF s1(2), of i])
      (use s1 bio_inv_dirty[OF in_txD(1)[OF tx] _ free] logged_cong[OF s1(11)] in auto)
  then show ?thesis using s1 bio_frame_trans[OF s1(11) s2(8)] by (auto simp: block_read_def)
qed

lemma log_update_spec:
  assumes tx: "in_tx s" and room: "b \<in> logged s \<or> card (held s) + nat (lh_n s) < NBUF"
    and full: "lh_n s < int LOGBLOCKS"
    and free: "\<And>j. j \<in> held s \<Longrightarrow> b_blockno (bufs s j) \<noteq> b"
    and b: "b \<notin> log_area (log_start s)" "b < 2 ^ 32" and norm: "bnorm (f (cur s b))"
  shows "returns (log_update b f s) (\<lambda>t. in_tx t \<and> cur t = (cur s)(b := f (cur s b)) \<and> held t = held s \<and>
    logged t = insert b (logged s) \<and> lh_n t = lh_n s + (if b \<in> logged s then 0 else 1) \<and>
    (\<forall>j\<in>held s. bdata t j = bdata s j \<and> b_blockno (bufs t j) = b_blockno (bufs s j)) \<and>
    disk t = disk s \<and> dhist t = dhist s \<and> log_frame s t)"
proof -
  obtain i s1 where s1: "bread ROOTDEV b s = Ok (i, s1)" "in_tx s1" "b_blockno (bufs s1 i) = b"
    "i \<notin> held s" "held s1 = insert i (held s)" "bdata s1 i = cur s b" "cur s1 = cur s"
    "\<forall>j\<in>held s. bufs s1 j = bufs s j" "disk s1 = disk s" "dhist s1 = dhist s" "bio_frame s s1"
    using tx_bread[OF tx room free] .
  let ?s2 = "upd_data i f s1"
  have i: "i \<in> held s1" using s1(5) by simp
  have n: "bnorm (f (bdata s1 i))" using norm s1(6) by simp
  note u = upd_data_spec[where f = f, OF in_txD(1)[OF s1(2)] i n]
  have tx2: "in_tx ?s2" by (rule tx_upd_data[where f = f, OF s1(2) i n])
  note f1 = frame_log[OF s1(11)] and f2 = frame_log[OF u(5)]
  have lg: "logged ?s2 = logged s" using logged_cong[OF s1(11)] logged_cong[OF u(5)] by simp
  obtain s3 where s3: "log_write i ?s2 = Ok s3" "in_tx s3" "held s3 = held s1" "cur s3 = cur ?s2"
    "bdata s3 = bdata ?s2" "\<forall>j. b_blockno (bufs s3 j) = b_blockno (bufs s1 j)" "disk s3 = disk s"
    "dhist s3 = dhist s" "logged s3 = insert b (logged s)"
    "lh_n s3 = lh_n s + (if b \<in> logged s then 0 else 1)" "log_frame ?s2 s3"
    using log_write_spec[OF tx2, of i b] u(2) i full b s1 f1 f2 lg by (auto simp: returns_def)
  obtain s4 where s4: "brelse i s3 = Ok s4" "in_tx s4" "held s4 = held s3 - {i}" "cur s4 = cur s3"
    "\<forall>j. j \<noteq> i \<longrightarrow> bufs s4 j = bufs s3 j" "disk s4 = disk s3" "dhist s4 = dhist s3" "bio_frame s3 s4"
    by (rule tx_brelse[OF s3(2), of i]) (use s3 s1 in auto)
  have fr: "log_frame s s4"
    using bio_frame_log[OF s1(11)] bio_frame_log[OF u(5)] s3(11) bio_frame_log[OF s4(8)]
    by (blast intro: log_frame_trans)
  have "bdata ?s2 j = bdata s1 j" if "j \<noteq> i" for j using that by (simp add: upd_data_def)
  then have keep: "\<forall>j\<in>held s. bdata s4 j = bdata s j \<and> b_blockno (bufs s4 j) = b_blockno (bufs s j)"
    using s4(5) s3(5,6) s1(4,8) by (metis (no_types, lifting))
  have "log_update b f s = Ok s4" using s1(1) s3(1) s4(1) by (simp add: log_update_def)
  then show ?thesis
    using s4 s3 s1 u(3) logged_cong[OF s4(8)] frame_log[OF s4(8)] fr keep by auto
qed

text \<open>
  The log as a block store. A transaction can hold \<open>NBUF - 1\<close> blocks, one less than
  the log has room for: each logged block pins a buffer, and the commit needs one more.
\<close>

interpretation txn: block_store "\<lambda>s. in_tx s \<and> held s = {} \<and> lh_n s < int NBUF" cur
  "\<lambda>s n. nat (lh_n s) + n < NBUF" "\<lambda>s b. b \<notin> log_area (log_start s) \<and> b < 2 ^ 32"
  "\<lambda>s t. disk t = disk s \<and> dhist t = dhist s \<and> log_frame s t" block_read log_update
proof
  fix s :: "'a log_state_scheme" and b
  assume I: "in_tx s \<and> held s = {} \<and> lh_n s < int NBUF"
  then show "bnorm (cur s b)" using cur_norm[OF in_txD(1)] by blast
  have room: "card (held s) + nat (lh_n s) < NBUF" using I in_txD(2)[of s] by (simp add: nat_less_iff)
  show "returns (block_read b s) (\<lambda>(m, t). m = cur s b \<and> (in_tx t \<and> held t = {} \<and> lh_n t < int NBUF) \<and>
      cur t = cur s \<and> disk t = disk s \<and> dhist t = dhist s \<and> log_frame s t)"
    by (rule returns_mono[OF block_read_spec[of s b]])
      (use I room in \<open>auto simp: frame_log bio_frame_log\<close>)
  fix n f
  assume cap: "nat (lh_n s) + Suc n < NBUF" and w: "b \<notin> log_area (log_start s) \<and> b < 2 ^ 32"
    and norm: "bnorm (f (cur s b))"
  have full: "lh_n s < int LOGBLOCKS" using I by (simp add: NBUF_def LOGBLOCKS_def)
  have "returns (log_update b f s) (\<lambda>t. in_tx t \<and> cur t = (cur s)(b := f (cur s b)) \<and> held t = held s \<and>
    logged t = insert b (logged s) \<and> lh_n t = lh_n s + (if b \<in> logged s then 0 else 1) \<and>
    (\<forall>j\<in>held s. bdata t j = bdata s j \<and> b_blockno (bufs t j) = b_blockno (bufs s j)) \<and>
    disk t = disk s \<and> dhist t = dhist s \<and> log_frame s t)"
    by (rule log_update_spec) (use I w norm room full in auto)
  then show "returns (log_update b f s) (\<lambda>t. (in_tx t \<and> held t = {} \<and> lh_n t < int NBUF) \<and>
      cur t = (cur s)(b := f (cur s b)) \<and> nat (lh_n t) + n < NBUF \<and>
      (\<lambda>b. b \<notin> log_area (log_start t) \<and> b < 2 ^ 32) = (\<lambda>b. b \<notin> log_area (log_start s) \<and> b < 2 ^ 32) \<and>
      disk t = disk s \<and> dhist t = dhist s \<and> log_frame s t)"
    by (rule returns_mono) (use I cap in_txD(2)[of s] in \<open>auto simp: log_frameD nat_less_iff split: if_splits\<close>)
qed (auto intro: log_frame_trans)

text \<open>
  The log again, for a transaction whose changes are all in the blocks \<open>B\<close>: a block is logged once, however often
  it changes.
\<close>

lemma lh_n_card: "log_inv s \<Longrightarrow> finite B \<Longrightarrow> card (logged s \<union> B) < NBUF \<Longrightarrow> lh_n s < int NBUF"
proof -
  assume s: "log_inv s" "finite B" "card (logged s \<union> B) < NBUF"
  have "nat (lh_n s) = card (logged s)" using s(1) by (simp add: card_logged log_inv_def)
  also have "\<dots> \<le> card (logged s \<union> B)" using s(2) by (intro card_mono) (auto simp: logged_def)
  finally show ?thesis using s(3) by linarith
qed

interpretation txb: block_store "\<lambda>s. in_tx s \<and> held s = {} \<and> finite B \<and> card (logged s \<union> B) < NBUF" cur
  "\<lambda>_ _. True" "\<lambda>s b. b \<in> B \<and> b \<notin> log_area (log_start s) \<and> b < 2 ^ 32"
  "\<lambda>s t. disk t = disk s \<and> dhist t = dhist s \<and> log_frame s t \<and> logged s \<subseteq> logged t" block_read log_update for B :: "nat set"
proof
  fix s :: "'a log_state_scheme" and b
  assume I: "in_tx s \<and> held s = {} \<and> finite B \<and> card (logged s \<union> B) < NBUF"
  then show "bnorm (cur s b)" using cur_norm[OF in_txD(1)] by blast
  have n: "lh_n s < int NBUF" using I lh_n_card by (auto simp: in_tx_def)
  then have room: "card (held s) + nat (lh_n s) < NBUF" using I in_txD(2)[of s] by (simp add: nat_less_iff)
  show "returns (block_read b s) (\<lambda>(m, t). m = cur s b \<and>
      (in_tx t \<and> held t = {} \<and> finite B \<and> card (logged t \<union> B) < NBUF) \<and> cur t = cur s \<and>
      disk t = disk s \<and> dhist t = dhist s \<and> log_frame s t \<and> logged s \<subseteq> logged t)"
    by (rule returns_mono[OF block_read_spec[of s b]])
      (use I room in \<open>auto simp: frame_log bio_frame_log logged_def\<close>)
  fix n f
  assume w: "b \<in> B \<and> b \<notin> log_area (log_start s) \<and> b < 2 ^ 32" and norm: "bnorm (f (cur s b))"
  have full: "lh_n s < int LOGBLOCKS" using n by (simp add: NBUF_def LOGBLOCKS_def)
  have "insert b (logged s) \<union> B = logged s \<union> B" using w by blast
  moreover have "returns (log_update b f s) (\<lambda>t. in_tx t \<and> cur t = (cur s)(b := f (cur s b)) \<and> held t = held s \<and>
    logged t = insert b (logged s) \<and> lh_n t = lh_n s + (if b \<in> logged s then 0 else 1) \<and>
    (\<forall>j\<in>held s. bdata t j = bdata s j \<and> b_blockno (bufs t j) = b_blockno (bufs s j)) \<and>
    disk t = disk s \<and> dhist t = dhist s \<and> log_frame s t)"
    by (rule log_update_spec) (use I w norm room full in auto)
  ultimately show "returns (log_update b f s) (\<lambda>t.
      (in_tx t \<and> held t = {} \<and> finite B \<and> card (logged t \<union> B) < NBUF) \<and> cur t = (cur s)(b := f (cur s b)) \<and> True \<and>
      (\<lambda>b. b \<in> B \<and> b \<notin> log_area (log_start t) \<and> b < 2 ^ 32) = (\<lambda>b. b \<in> B \<and> b \<notin> log_area (log_start s) \<and> b < 2 ^ 32) \<and>
      disk t = disk s \<and> dhist t = dhist s \<and> log_frame s t \<and> logged s \<subseteq> logged t)"
    by (elim returns_mono) (use I in \<open>auto simp: log_frameD\<close>)
qed (auto intro: log_frame_trans log_frame_refl)

text \<open>
  The transaction as the file system sees it: \<open>tx_idle\<close> between two uses of a buffer,
  \<open>tx_room s n\<close> when \<open>n\<close> more blocks can be logged.
\<close>

definition tx_idle :: "'a log_state_scheme \<Rightarrow> bool" where
  "tx_idle s \<longleftrightarrow> in_tx s \<and> held s = {} \<and> lh_n s < int NBUF"

definition tx_room :: "'a log_state_scheme \<Rightarrow> nat \<Rightarrow> bool" where
  "tx_room s n \<longleftrightarrow> nat (lh_n s) + n < NBUF"

definition tx_writable :: "'a log_state_scheme \<Rightarrow> nat \<Rightarrow> bool" where
  "tx_writable s b \<longleftrightarrow> b \<notin> log_area (log_start s) \<and> b < 2 ^ 32"

text \<open>Steps that change nothing the file system stores.\<close>

definition tx_same :: "'a log_state_scheme \<Rightarrow> 'a log_state_scheme \<Rightarrow> bool" where
  "tx_same s t \<longleftrightarrow> disk t = disk s \<and> dhist t = dhist s \<and> log_frame s t"

lemma tx_same_refl [simp]: "tx_same s s"
  by (simp add: tx_same_def)

lemma tx_same_trans [trans]: "tx_same s t \<Longrightarrow> tx_same t u \<Longrightarrow> tx_same s u"
  by (auto simp: tx_same_def intro: log_frame_trans)

lemma tx_same_writable: "tx_same s t \<Longrightarrow> tx_writable t = tx_writable s"
  by (intro ext) (simp add: tx_same_def tx_writable_def log_frameD(1)[of s t])

lemma tx_room_mono: "tx_room s n \<Longrightarrow> m \<le> n \<Longrightarrow> tx_room s m"
  by (simp add: tx_room_def)

lemma tx_room_same: "lh_n t = lh_n s \<Longrightarrow> tx_room t = tx_room s"
  by (intro ext) (simp add: tx_room_def)

lemma tx_idle_norm: "tx_idle s \<Longrightarrow> bnorm (cur s b)"
  using txn.view_norm[of s b] by (simp add: tx_idle_def)

lemma tx_update:
  assumes "tx_idle s" "tx_room s (Suc n)" "tx_writable s b" "bnorm (f (cur s b))"
  obtains t where "log_update b f s = Ok t" "tx_idle t" "tx_room t n" "tx_same s t"
    "cur t = (cur s)(b := f (cur s b))"
proof -
  have "returns (log_update b f s) (\<lambda>t. (in_tx t \<and> held t = {} \<and> lh_n t < int NBUF) \<and>
      cur t = (cur s)(b := f (cur s b)) \<and> nat (lh_n t) + n < NBUF \<and>
      (\<lambda>b. b \<notin> log_area (log_start t) \<and> b < 2 ^ 32) = (\<lambda>b. b \<notin> log_area (log_start s) \<and> b < 2 ^ 32) \<and>
      disk t = disk s \<and> dhist t = dhist s \<and> log_frame s t)"
    by (rule txn.upd_law) (use assms in \<open>simp_all add: tx_idle_def tx_room_def tx_writable_def\<close>)
  then show thesis using that by (auto simp: returns_def tx_idle_def tx_room_def tx_same_def)
qed

text \<open>Opening a block: what its buffer holds, how to close it, how to change and log it.\<close>

lemma tx_open:
  assumes idle: "tx_idle s"
  obtains i s1 t where "bread ROOTDEV c s = Ok (i, s1)" "bdata s1 i = cur s c" "bio_frame s s1"
    "brelse i s1 = Ok t" "tx_idle t" "cur t = cur s" "lh_n t = lh_n s" "tx_same s t"
    "\<forall>f. log_update c f s = kbind (log_write i (upd_data i f s1)) (brelse i)"
proof -
  have tx: "in_tx s" "held s = {}" and room: "card (held s) + nat (lh_n s) < NBUF"
    using idle in_txD(2)[of s] by (auto simp: tx_idle_def nat_less_iff)
  obtain i s1 where s1: "bread ROOTDEV c s = Ok (i, s1)" "bdata s1 i = cur s c" "bio_frame s s1"
    by (rule tx_bread[OF tx(1), of c]) (use room tx in auto)
  have "returns (block_read c s) (\<lambda>(m, t). m = cur s c \<and> in_tx t \<and> cur t = cur s \<and> held t = held s \<and>
    (\<forall>j\<in>held s. bufs t j = bufs s j) \<and> disk t = disk s \<and> dhist t = dhist s \<and> bio_frame s t)"
    by (rule block_read_spec) (use room tx in auto)
  then obtain t where "brelse i s1 = Ok t" "in_tx t" "cur t = cur s" "held t = {}" "disk t = disk s"
    "dhist t = dhist s" "bio_frame s t"
    using s1(1) tx(2) by (auto simp: block_read_def returns_def kbind_eq_Ok)
  then show thesis
    using that[OF s1(1-3), of t] idle s1(1) frame_log[of s t]
    by (simp add: tx_idle_def tx_same_def bio_frame_log log_update_def)
qed

lemma log_fields [simp]:
  "bio_inv P (s\<lparr>log_outstanding := n\<rparr>) = bio_inv P s" "held (s\<lparr>log_outstanding := n\<rparr>) = held s"
  "cur (s\<lparr>log_outstanding := n\<rparr>) = cur s"
  "bio_inv P (s\<lparr>log_committing := c\<rparr>) = bio_inv P s" "held (s\<lparr>log_committing := c\<rparr>) = held s"
  "cur (s\<lparr>log_committing := c\<rparr>) = cur s"
  "bio_inv P (wakeup ch s) = bio_inv P s" "held (wakeup ch s) = held s" "cur (wakeup ch s) = cur s"
  by (rule bio_cong; simp add: curpid_def myproc_def split: option.split)+

lemma wakeup_log [simp]:
  "lh_n (wakeup c s) = lh_n s" "lh_block (wakeup c s) = lh_block s" "log_start (wakeup c s) = log_start s"
  "log_dev (wakeup c s) = log_dev s" "log_outstanding (wakeup c s) = log_outstanding s"
  "log_committing (wakeup c s) = log_committing s"
  by (simp_all add: wakeup_eq)

lemma log_inv_fields [simp]:
  "log_inv (s\<lparr>log_outstanding := n\<rparr>) = log_inv s" "log_inv (s\<lparr>log_committing := c\<rparr>) = log_inv s"
  "log_inv (wakeup ch s) = log_inv s"
  by (simp_all add: log_inv_def logged_def)

section \<open>Properties\<close>

text \<open>
  The machine right after a boot, about to recover: nothing is cached, and the disk holds
  whatever the crash left.
\<close>

definition booted :: "nat \<Rightarrow> (nat \<Rightarrow> bytes) \<Rightarrow> 'a log_state_scheme \<Rightarrow> bool" where
  "booted st d r \<longleftrightarrow> bio_inv {} r \<and> held r = {} \<and> log_dev r = ROOTDEV \<and> log_start r = st \<and> disk r = d"

lemma commit_new_view:
  assumes inv: "log_inv s" and idle: "held s = {}"
  shows "upd_many (nat (lh_n s)) (lh_block s) (\<lambda>j. cur s (lh_block s j)) (disk s) b = cur s b"
proof (cases "b \<in> logged s")
  case True
  then show ?thesis by (auto simp: logged_def upd_many_at[OF log_invD(2)[OF inv]])
next
  case False
  then show ?thesis
    using upd_many_other[of "nat (lh_n s)" "lh_block s" b] bio_clean[OF log_invD(1)[OF inv] idle False]
    by (auto simp: logged_def)
qed

lemma commit_result:
  assumes inv: "log_inv s" and idle: "held s = {}" and room: "lh_n s < int NBUF"
  obtains t where "commit s = Ok t" "log_inv t" "held t = {}" "lh_n t = 0"
    "\<forall>b. b \<notin> log_area (log_start s) \<longrightarrow> disk t b = cur s b"
    "log_outstanding t = log_outstanding s" "log_committing t = log_committing s" "log_start t = log_start s"
    "0 < lh_n s \<Longrightarrow> dhist t = dhist s @ commit_writes (log_start s) (lh_n s) (lh_block s)
       (\<lambda>j. cur s (lh_block s j)) (disk s (log_start s))"
proof (cases "0 < lh_n s")
  case False
  then have "lh_n s = 0" "logged s = {}" "commit s = Ok s"
    using log_invD(3)[OF inv] by (auto simp: logged_def commit_def)
  then show ?thesis
    using that[of s] inv idle bio_clean[OF log_invD(1)[OF inv] idle] by auto
next
  case True
  note I = log_invD[OF inv]
  let ?st = "log_start s" and ?v = "\<lambda>j. cur s (lh_block s j)"
  define ws where "ws = commit_writes ?st (lh_n s) (lh_block s) ?v (disk s ?st)"
  have cst: "cur s ?st = disk s ?st" by (rule bio_clean[OF I(1) idle I(9)])
  from commit_spec[OF inv idle True room refl, unfolded cst, folded ws_def] obtain t where
    t: "commit s = Ok t" "bio_inv {} t" "held t = {}" "lh_n t = 0" "disk t = replay ws (disk s)"
      "dhist t = dhist s @ ws" "bio_frame (s\<lparr>lh_n := 0\<rparr>) t" by (auto simp: returns_def)
  have fr: "log_start t = ?st" "log_dev t = ROOTDEV" "log_outstanding t = log_outstanding s"
    "log_committing t = log_committing s" using frame_log[OF t(7)] I(5) by simp_all
  have hd: "disk t ?st = hdr_fill 0 (lh_block s) (hdr_fill (lh_n s) (lh_block s) (disk s ?st))"
    by (simp add: t(5) ws_def commit_writes_def)
  have "log_inv t" using t(2,4) fr hd by (simp add: log_inv_def logged_def hdr_fill_n)
  moreover have "disk t b = cur s b" if "b \<notin> log_area ?st" for b
    unfolding t(5) ws_def commit_image[OF I(4,2) that] by (rule commit_new_view[OF inv idle])
  ultimately show ?thesis using that[of t] t fr unfolding ws_def by blast
qed

text \<open>
  C1. The log makes a commit atomic. When a transaction commits, the sequence of disk writes
  may stop anywhere (after any number of writes): once the log is recovered on the disk that
  is left, every block outside the log has its content from before the transaction, or every
  block has the content the transaction gave it. When the commit completes, every block
  outside the log has its new content on the disk and the log is empty.
\<close>

theorem commit_atomic:
  assumes inv: "log_inv s" and idle: "held s = {}" and some: "0 < lh_n s" and room: "lh_n s < int NBUF"
  shows "\<exists>t ws. commit s = Ok t \<and> dhist t = dhist s @ ws \<and> log_inv t \<and> lh_n t = 0 \<and>
    (\<forall>b. b \<notin> log_area (log_start s) \<longrightarrow> disk t b = cur s b) \<and>
    (\<forall>k \<le> length ws. \<forall>r :: 'b log_state_scheme.
       booted (log_start s) (replay (take k ws) (disk s)) r \<longrightarrow>
       (\<exists>r'. recover_from_log r = Ok r' \<and> lh_n r' = 0 \<and>
          ((\<forall>b. b \<notin> log_area (log_start s) \<longrightarrow> disk r' b = disk s b) \<or>
           (\<forall>b. b \<notin> log_area (log_start s) \<longrightarrow> disk r' b = cur s b))))"
proof -
  note I = log_invD[OF inv]
  let ?st = "log_start s" and ?n = "nat (lh_n s)" and ?v = "\<lambda>j. cur s (lh_block s j)"
  define ws where "ws = commit_writes ?st (lh_n s) (lh_block s) ?v (disk s ?st)"
  have area: "lh_block s ` {..<?n} \<inter> log_area ?st = {}" and wd: "\<forall>j<?n. lh_block s j < 2 ^ 32"
    using I(6,7) by (auto simp: logged_def)
  note crash = crash_image[where d = "disk s" and st = ?st and v = ?v, OF I(8) some I(4,2) area wd _ refl,
      folded ws_def, unfolded commit_new_view[OF inv idle]]
  have rec: "\<exists>r'. recover_from_log r = Ok r' \<and> lh_n r' = 0 \<and>
          ((\<forall>b. b \<notin> log_area ?st \<longrightarrow> disk r' b = disk s b) \<or> (\<forall>b. b \<notin> log_area ?st \<longrightarrow> disk r' b = cur s b))"
    if k: "k \<le> length ws" and r: "booted ?st (replay (take k ws) (disk s)) r" for k and r :: "'b log_state_scheme"
    using recover_spec[of r] crash[OF k] r unfolding booted_def by (auto simp: returns_def)
  obtain t where "commit s = Ok t" "log_inv t" "lh_n t = 0" "\<forall>b. b \<notin> log_area ?st \<longrightarrow> disk t b = cur s b"
    "dhist t = dhist s @ ws"
    by (rule commit_result[OF inv idle room]) (use some ws_def in blast)
  then show ?thesis using rec by blast
qed

text \<open>
  C3. An operation from \<^verbatim>\<open>begin_op\<close> to \<^verbatim>\<open>end_op\<close>, when the log is not committing and
  \<^verbatim>\<open>begin_op\<close> need not wait for space: as long as the blocks it changes and those already logged are fewer
  than \<open>NBUF\<close>, however often each one changes, every step succeeds, each change is visible at once, and nothing
  reaches the disk before \<^verbatim>\<open>end_op\<close>. If no other operation is outstanding, \<^verbatim>\<open>end_op\<close> commits: the log is
  empty and the disk holds the result of all the changes, those of earlier operations of the group included. If another
  one is, \<^verbatim>\<open>end_op\<close> leaves the disk alone and the changes stay in the log.
\<close>

theorem transaction_commits:
  assumes inv: "log_inv s" and idle: "held s = {}" and quiet: "\<not> log_committing s" "0 \<le> log_outstanding s"
    and space: "lh_n s + (log_outstanding s + 1) * int MAXOPBLOCKS \<le> int LOGBLOCKS"
    and blocks: "card (logged s \<union> fst ` set us) < NBUF"
    and us: "\<forall>(b, f) \<in> set us. (b \<notin> log_area (log_start s) \<and> b < 2 ^ 32) \<and> (\<forall>m. bnorm m \<longrightarrow> bnorm (f m))"
  shows "\<exists>s1 s2 t. begin_op s = Ok s1 \<and> kfold (\<lambda>(b, f). log_update b f) us s1 = Ok s2 \<and>
    cur s2 = put_all us (cur s) \<and> dhist s2 = dhist s \<and> end_op s2 = Ok t \<and> log_inv t \<and> held t = {} \<and>
    log_outstanding t = log_outstanding s \<and> \<not> log_committing t \<and>
    (log_outstanding s = 0 \<longrightarrow> lh_n t = 0 \<and>
       (\<forall>b. b \<notin> log_area (log_start s) \<longrightarrow> disk t b = put_all us (cur s) b)) \<and>
    (log_outstanding s \<noteq> 0 \<longrightarrow> disk t = disk s \<and> dhist t = dhist s \<and> cur t = put_all us (cur s) \<and> logged s \<subseteq> logged t)"
proof -
  define s1 where "s1 = s\<lparr>log_outstanding := log_outstanding s + 1\<rparr>"
  have b: "begin_op s = Ok s1" using quiet space by (simp add: begin_op_def s1_def)
  have l1: "logged s1 = logged s" "cur s1 = cur s" "disk s1 = disk s" "dhist s1 = dhist s" "log_start s1 = log_start s"
    by (simp_all add: s1_def logged_def)
  have tx: "in_tx s1 \<and> held s1 = {} \<and> finite (fst ` set us) \<and> card (logged s1 \<union> fst ` set us) < NBUF"
    using inv idle quiet blocks by (simp add: in_tx_def s1_def logged_def)
  have w: "\<forall>(b, f) \<in> set us. (b \<in> fst ` set us \<and> b \<notin> log_area (log_start s1) \<and> b < 2 ^ 32) \<and> (\<forall>m. bnorm m \<longrightarrow> bnorm (f m))"
    using us by (force simp: l1)
  from txb.upd_all[OF tx TrueI w] obtain s2 where
    s2: "kfold (\<lambda>(b, f). log_update b f) us s1 = Ok s2" "in_tx s2" "held s2 = {}" "card (logged s2 \<union> fst ` set us) < NBUF"
      "cur s2 = put_all us (cur s)" "disk s2 = disk s" "dhist s2 = dhist s" "log_frame s1 s2"
      "logged s \<subseteq> logged s2"
    unfolding returns_def l1 by blast
  have f2: "log_start s2 = log_start s" "log_outstanding s2 = log_outstanding s + 1" "\<not> log_committing s2"
    using log_frameD[OF s2(8)] quiet by (auto simp: s1_def)
  show ?thesis
  proof (cases "log_outstanding s = 0")
    case True
    define s3 where "s3 = s2\<lparr>log_outstanding := 0, log_committing := True\<rparr>"
    have "log_inv s2" using s2(2) by (simp add: in_tx_def)
    then have "log_inv s3" "held s3 = {}" "lh_n s3 < int NBUF" using s2(3,4) lh_n_card[of s2 "fst ` set us"] by (simp_all add: s3_def)
    then obtain t where t: "commit s3 = Ok t" "log_inv t" "held t = {}" "lh_n t = 0"
      "\<forall>b. b \<notin> log_area (log_start s3) \<longrightarrow> disk t b = cur s3 b" "log_outstanding t = log_outstanding s3"
      using commit_result by metis
    have "end_op s2 = Ok (wakeup ChanLog (t\<lparr>log_committing := False\<rparr>))"
      using f2 t(1) True by (simp add: end_op_def Let_def s3_def)
    then show ?thesis using b s2(1,5,7) t f2 True by (simp add: s3_def)
  next
    case False
    then have "end_op s2 = Ok (wakeup ChanLog (s2\<lparr>log_outstanding := log_outstanding s\<rparr>))"
      using f2 by (simp add: end_op_def Let_def)
    moreover have "logged (wakeup ChanLog (s2\<lparr>log_outstanding := log_outstanding s\<rparr>)) = logged s2"
      by (simp add: logged_def)
    ultimately show ?thesis using b s2 f2 False by (simp add: in_tx_def)
  qed
qed

text \<open>
  C2. Recovery can itself be cut short. On any disk whose log header is well formed, recovery
  completes and leaves the log empty; and if only some of its writes reach the disk before
  another crash, recovering again gives every block outside the log the same content.
\<close>

theorem recovery_idempotent:
  assumes boot: "booted st d (r :: 'a log_state_scheme)" and good: "good_header st d"
  shows "\<exists>r' ws. recover_from_log r = Ok r' \<and> dhist r' = dhist r @ ws \<and> log_inv r' \<and> lh_n r' = 0 \<and>
    (\<forall>k \<le> length ws. \<forall>q :: 'b log_state_scheme. booted st (replay (take k ws) d) q \<longrightarrow>
       (\<exists>q'. recover_from_log q = Ok q' \<and> (\<forall>b. b \<notin> log_area st \<longrightarrow> disk q' b = disk r' b)))"
proof -
  note B = boot[unfolded booted_def]
  obtain r' where r': "recover_from_log r = Ok r'" "bio_inv {} r'" "lh_n r' = 0"
    "disk r' = replay (recover_writes st d) d" "dhist r' = dhist r @ recover_writes st d"
    "log_start r' = st" "log_dev r' = ROOTDEV"
    using recover_spec[of r] B good by (auto simp: returns_def)
  have "log_inv r'" using r' by (simp add: log_inv_def logged_def recover_writes_def get_put_le)
  moreover have "\<exists>q'. recover_from_log q = Ok q' \<and> (\<forall>b. b \<notin> log_area st \<longrightarrow> disk q' b = disk r' b)"
    if k: "k \<le> length (recover_writes st d)" and q: "booted st (replay (take k (recover_writes st d)) d) q"
    for k and q :: "'b log_state_scheme"
  proof -
    have out: "st + LOGBLOCKS + 1 \<notin> log_area st" by (simp add: log_area_def)
    note C = crash_recovery_image[OF good k refl]
    show ?thesis
      using recover_spec[of q] q C(1)[OF out] C(2) r'(4) unfolding booted_def by (auto simp: returns_def)
  qed
  ultimately show ?thesis using r'(1,3,5) by blast
qed

lemma all_pinned:
  assumes inv: "bio_inv P s" and full: "card P = NBUF" and i: "i < NBUF"
  shows "b_dev (bufs s i) = ROOTDEV \<and> b_blockno (bufs s i) \<in> P"
proof -
  let ?Q = "{i. i < NBUF \<and> b_dev (bufs s i) = ROOTDEV \<and> b_blockno (bufs s i) \<in> P}"
  have "P \<subseteq> (\<lambda>i. b_blockno (bufs s i)) ` ?Q"
    using bio_invD(7)[OF inv] by (force simp: is_block_def)
  then have "card P \<le> card ((\<lambda>i. b_blockno (bufs s i)) ` ?Q)" by (intro card_mono) auto
  also have "\<dots> \<le> card ?Q" by (rule card_image_le) auto
  finally have "card P \<le> card ?Q" .
  then have "?Q = {..<NBUF}" using full by (intro card_seteq) auto
  then show ?thesis using i by blast
qed

text \<open>
  C27. A transaction that fills the log cannot commit: \<^verbatim>\<open>begin_op\<close> and
  \<^verbatim>\<open>log_write\<close> admit \<open>LOGBLOCKS\<close> blocks, every one pins a buffer, and
  with all \<open>NBUF\<close> buffers pinned the first block read of the commit panics.
\<close>

theorem full_log_commit_panics:
  assumes inv: "log_inv s" and idle: "held s = {}" and full: "lh_n s = int NBUF"
  shows "commit s = Panic ''bget: no buffers''"
proof -
  note I = log_invD[OF inv]
  have card: "card (logged s) = NBUF" using I(2) full by (simp add: card_logged)
  note pin = all_pinned[OF I(1) card]
  have new: "log_start s + 0 + 1 \<notin> logged s" using I(6) by (auto simp: log_area_def LOGBLOCKS_def)
  have "\<not> is_block s ROOTDEV (log_start s + 0 + 1) i" if "i < NBUF" for i
    using pin[OF that] new by (auto simp: is_block_def)
  then have none: "lookup s (log_start s + 0 + 1) = None" by (simp add: lookup_None)
  have "b_refcnt (bufs s i) \<noteq> 0" if "i < NBUF" for i
    using bio_invD(5)[OF I(1) that] pin[OF that] by (auto simp: buf_ok_def Let_def)
  then have "find (\<lambda>i. b_refcnt (bufs s i) = 0) (rev (lru s)) = None"
    using bio_invD(2)[OF I(1)] by (auto simp: find_None_iff)
  then have "bread ROOTDEV (log_start s + 0 + 1) s = Panic ''bget: no buffers''"
    using none by (simp add: bread_def bget_def bget_ref_def lru_lookup[OF I(1)])
  then have "write_log_tail 0 s = Panic ''bget: no buffers''" using I(5) by (simp add: write_log_tail_def)
  moreover have "[0..<nat (lh_n s)] = 0 # [1..<nat (lh_n s)]"
    using full by (simp add: upt_conv_Cons NBUF_def)
  ultimately show ?thesis using full by (simp add: commit_def write_log_def NBUF_def)
qed

section \<open>Witnesses\<close>

text \<open>A booted machine with an empty cache and a process on hart 0.\<close>

definition zero_buf :: buf where
  "zero_buf = \<lparr>b_valid = False, b_dev = 0, b_blockno = 0, b_lock = \<lparr>sl_locked = False, sl_pid = 0\<rparr>,
     b_refcnt = 0, b_data = (\<lambda>_. 0)\<rparr>"

definition log_boot :: "'a \<Rightarrow> (nat \<Rightarrow> bytes) \<Rightarrow> 'a log_state_scheme" where
  "log_boot ext d = binit \<lparr>pmem = (\<lambda>_. 0), kend = KERNBASE, freelist = 0, total_pages = 0, free_pages = 0,
     low_warned = False, crit_warned = False, oom_warned = False, kready = False,
     refcnt = (\<lambda>_. 0), procs = (\<lambda>_. zero_proc)(0 := zero_proc\<lparr>p_pid := 1, p_state := RUNNING\<rparr>),
     nextpid = 2, initproc = Some 0, ticks = 0, cpu_proc = (\<lambda>_. None)(0 := Some 0), hart = 0,
     bufs = (\<lambda>_. zero_buf), lru = [], disk = d, dhist = [], bio_io_reads = 0, bio_io_writes = 0,
     bio_checksum_errors = 0, log_start = 2, log_outstanding = 0, log_committing = False,
     log_dev = ROOTDEV, lh_n = 0, lh_block = (\<lambda>_. 0), \<dots> = ext\<rparr>"

lemma binit_eq:
  "binit s = s\<lparr>bufs := \<lambda>i. if i < NBUF then (bufs s i)\<lparr>b_lock := initsleeplock\<rparr> else bufs s i,
               lru := rev [0..<NBUF]\<rparr>"
proof -
  have "fold (\<lambda>i s. upd_buf i (\<lambda>b. b\<lparr>b_lock := initsleeplock\<rparr>) (s\<lparr>lru := i # lru s\<rparr>)) [0..<n] (s\<lparr>lru := []\<rparr>) =
      s\<lparr>bufs := \<lambda>i. if i < n then (bufs s i)\<lparr>b_lock := initsleeplock\<rparr> else bufs s i, lru := rev [0..<n]\<rparr>" for n
    by (induction n) (auto simp: upd_buf_def fun_eq_iff less_Suc_eq)
  then show ?thesis by (simp add: binit_def)
qed

lemma log_boot_simps:
  "lh_n (log_boot x d) = 0" "log_start (log_boot x d) = 2" "log_dev (log_boot x d) = ROOTDEV"
  "log_outstanding (log_boot x d) = 0" "log_committing (log_boot x d) = False" "disk (log_boot x d) = d"
  "held (log_boot x d) = {}" "dhist (log_boot x d) = []"
  by (simp_all add: log_boot_def binit_eq held_def zero_buf_def)

lemma log_boot_inv: "(\<And>b. bnorm (d b)) \<Longrightarrow> bio_inv {} (log_boot x d)"
  by (auto simp: log_boot_def binit_eq bio_inv_def uniq_blocks_def is_block_def buf_ok_def zero_buf_def
      curpid_def myproc_def ROOTDEV_def bnorm_def Let_def)

lemma log_boot_log_inv: "(\<And>b. bnorm (d b)) \<Longrightarrow> get_le 4 (d 2) 0 = 0 \<Longrightarrow> log_inv (log_boot x d)"
  by (simp add: log_inv_def log_boot_simps logged_def log_boot_inv)

definition ones :: bytes where "ones = (\<lambda>k. if k < BSIZE then 1 else 0)"

lemma block_norms [simp]: "bnorm ones" "bnorm (\<lambda>_. 0)"
  by (simp_all add: bnorm_def ones_def)

theorem recovery_idempotent_witness:
  "booted 2 (\<lambda>_ _. 0) (log_boot () (\<lambda>_ _. 0)) \<and> good_header 2 (\<lambda>_ _. 0) \<and>
   (\<exists>r'. recover_from_log (log_boot () (\<lambda>_ _. 0)) = Ok r' \<and> log_inv r')"
proof -
  have b: "booted 2 (\<lambda>_ _. 0) (log_boot () (\<lambda>_ _. 0))"
    by (simp add: booted_def log_boot_inv log_boot_simps)
  have g: "good_header 2 (\<lambda>_ _. 0)" by (simp add: good_header_def hdr_n_def s32_def)
  from recovery_idempotent[OF b g] b g show ?thesis by blast
qed

theorem transaction_commits_witness:
  "\<exists>s1 s2 t. begin_op (log_boot () (\<lambda>_ _. 0)) = Ok s1 \<and>
     kfold (\<lambda>(b, f). log_update b f) [(100, \<lambda>_. ones), (101, \<lambda>m. m(3 := 7)), (101, \<lambda>m. m(4 := 8))] s1 = Ok s2 \<and>
     dhist s2 = [] \<and> end_op s2 = Ok t \<and> lh_n t = 0 \<and> disk t 100 = ones \<and> disk t 101 3 = 7 \<and> disk t 101 4 = 8"
proof -
  let ?us = "[(100, \<lambda>_. ones), (101, \<lambda>m. m(3 := 7)), (101, \<lambda>m. m(4 := 8))]" and ?s = "log_boot () (\<lambda>_ _. 0)"
  have lg: "logged ?s = {}" by (simp add: logged_def log_boot_simps)
  have "log_inv ?s" by (simp add: log_boot_log_inv)
  from transaction_commits[OF this, of ?us] obtain s1 s2 t where
    "begin_op ?s = Ok s1" "kfold (\<lambda>(b, f). log_update b f) ?us s1 = Ok s2" "dhist s2 = []" "end_op s2 = Ok t" "lh_n t = 0"
    "\<forall>b. b \<notin> log_area 2 \<longrightarrow> disk t b = put_all ?us (cur ?s) b"
    by (auto simp: lg log_boot_simps NBUF_def MAXOPBLOCKS_def log_area_def LOGBLOCKS_def bnorm_def ones_def BSIZE_def)
  then show ?thesis by (fastforce simp: log_area_def LOGBLOCKS_def put_all_def)
qed

definition one_logged :: log_state where
  "one_logged = (case kbind (begin_op (log_boot () (\<lambda>_ _. 0))) (log_update 100 (\<lambda>_. ones)) of
     Ok s \<Rightarrow> s | _ \<Rightarrow> log_boot () (\<lambda>_ _. 0))"

lemma one_logged_facts:
  "log_inv one_logged" "held one_logged = {}" "lh_n one_logged = 1" "log_start one_logged = 2"
  "cur one_logged = (\<lambda>_ _. 0)(100 := ones)" "disk one_logged = (\<lambda>_ _. 0)"
proof -
  define s1 where "s1 = log_boot () (\<lambda>_ _. 0)\<lparr>log_outstanding := 1\<rparr>"
  have b: "begin_op (log_boot () (\<lambda>_ _. 0)) = Ok s1"
    by (simp add: begin_op_def s1_def log_boot_simps LOGBLOCKS_def MAXOPBLOCKS_def)
  have s1: "in_tx s1" "held s1 = {}" "lh_n s1 = 0" "log_start s1 = 2" "disk s1 = (\<lambda>_ _. 0)" "logged s1 = {}"
    by (simp_all add: in_tx_def s1_def log_boot_log_inv log_boot_simps logged_def)
  have c: "cur s1 = (\<lambda>_ _. 0)" using bio_clean[OF in_txD(1)[OF s1(1)] s1(2)] s1(5,6) by auto
  have "returns (log_update 100 (\<lambda>_. ones) s1) (\<lambda>t. in_tx t \<and> cur t = (cur s1)(100 := ones) \<and> held t = held s1 \<and>
    logged t = insert 100 (logged s1) \<and> lh_n t = lh_n s1 + (if 100 \<in> logged s1 then 0 else 1) \<and>
    (\<forall>j\<in>held s1. bdata t j = bdata s1 j \<and> b_blockno (bufs t j) = b_blockno (bufs s1 j)) \<and>
    disk t = disk s1 \<and> dhist t = dhist s1 \<and> log_frame s1 t)"
    by (rule log_update_spec) (use s1 in \<open>simp_all add: NBUF_def LOGBLOCKS_def log_area_def\<close>)
  then obtain t where t: "log_update 100 (\<lambda>_. ones) s1 = Ok t" "in_tx t" "cur t = (cur s1)(100 := ones)"
    "held t = {}" "lh_n t = 1" "disk t = disk s1" "log_frame s1 t"
    using s1 by (auto simp: returns_def)
  have "one_logged = t" by (simp add: one_logged_def b t(1))
  then show "log_inv one_logged" "held one_logged = {}" "lh_n one_logged = 1" "log_start one_logged = 2"
  "cur one_logged = (\<lambda>_ _. 0)(100 := ones)" "disk one_logged = (\<lambda>_ _. 0)"
    using t s1 c log_frameD[OF t(7)] by (simp_all add: in_tx_def)
qed

theorem commit_atomic_witness:
  "log_inv one_logged \<and> held one_logged = {} \<and> lh_n one_logged = 1 \<and>
   (\<exists>t. commit one_logged = Ok t \<and> log_inv t \<and> disk t 100 = ones \<and> disk t 99 = (\<lambda>_. 0))"
proof -
  have "0 < lh_n one_logged" "lh_n one_logged < int NBUF" by (simp_all add: one_logged_facts NBUF_def)
  from commit_atomic[OF one_logged_facts(1,2) this] obtain t where
    "commit one_logged = Ok t" "log_inv t"
    "\<forall>b. b \<notin> log_area (log_start one_logged) \<longrightarrow> disk t b = cur one_logged b" by blast
  then show ?thesis by (auto simp: one_logged_facts log_area_def LOGBLOCKS_def)
qed

definition full_log :: log_state where
  "full_log = (log_boot () (\<lambda>_ _. 0))\<lparr>
     bufs := \<lambda>i. zero_buf\<lparr>b_valid := True, b_dev := ROOTDEV, b_blockno := 1000 + i, b_refcnt := 1\<rparr>,
     lh_n := 30, lh_block := \<lambda>k. 1000 + k\<rparr>"

theorem full_log_commit_panics_witness:
  "log_inv full_log \<and> held full_log = {} \<and> lh_n full_log = int LOGBLOCKS \<and>
   commit full_log = Panic ''bget: no buffers''"
proof -
  have lg: "logged full_log = {1000..<1030}"
    by (simp add: logged_def full_log_def lessThan_atLeast0)
  have "bio_inv {1000..<1030} full_log"
  proof -
    have "\<exists>i<NBUF. is_block full_log ROOTDEV b i" if "b \<in> {1000..<1030}" for b
      using that by (intro exI[of _ "b - 1000"]) (auto simp: is_block_def full_log_def NBUF_def)
    moreover have "\<forall>i<NBUF. buf_ok {1000..<1030} full_log i"
      by (simp add: buf_ok_def full_log_def log_boot_def binit_eq zero_buf_def NBUF_def)
    ultimately show ?thesis
      unfolding bio_inv_def uniq_blocks_def is_block_def
      by (auto simp: full_log_def log_boot_def binit_eq zero_buf_def curpid_def myproc_def)
  qed
  then have inv: "log_inv full_log"
    unfolding log_inv_def lg
    by (auto simp: full_log_def log_boot_simps inj_on_def log_area_def LOGBLOCKS_def)
  have idle: "held full_log = {}" by (simp add: held_def full_log_def zero_buf_def)
  have "lh_n full_log = int NBUF" by (simp add: full_log_def NBUF_def)
  from full_log_commit_panics[OF inv idle this] inv idle this show ?thesis
    by (simp add: NBUF_def LOGBLOCKS_def)
qed

end
