(* ===== verification/Vm.thy ===== *)
theory Vm
  imports Sleeplock
begin

text \<open>
  Page tables and user memory, \<^verbatim>\<open>kernel/vm.c\<close>.

  A page table is the address of a page of physical memory that holds 512 entries of eight
  bytes; entries and addresses are natural numbers below \<^verbatim>\<open>2^64\<close>, and all of
  them live in \<open>pmem\<close>. An entry with bit 0 set is valid. TLB flushes do not change
  memory and have no counterpart here.
\<close>

section \<open>Page-table entries\<close>

definition PTE_V :: nat where "PTE_V = 0"
definition PTE_R :: nat where "PTE_R = 1"
definition PTE_W :: nat where "PTE_W = 2"
definition PTE_X :: nat where "PTE_X = 3"
definition PTE_U :: nat where "PTE_U = 4"
definition PTE_COW :: nat where "PTE_COW = 8"

text \<open>The flags above are bit numbers; \<open>flags\<close> is the mask with these bits set.\<close>

definition flags :: "nat list \<Rightarrow> nat" where
  "flags bs = fold (\<lambda>b m. Bit_Operations.or m (2 ^ b)) bs 0"

definition PA2PTE :: "nat \<Rightarrow> nat" where "PA2PTE pa = pa div 4096 * 1024"
definition PTE2PA :: "nat \<Rightarrow> nat" where "PTE2PA pte = pte div 1024 * 4096 mod 2 ^ 64"
definition PTE_FLAGS :: "nat \<Rightarrow> nat" where "PTE_FLAGS pte = pte mod 1024"
definition PX :: "nat \<Rightarrow> nat \<Rightarrow> nat" where "PX level va = va div 2 ^ (12 + 9 * level) mod 512"

definition read_pte :: "'a kmem_state_scheme \<Rightarrow> nat \<Rightarrow> nat" where
  "read_pte s a = get_le 8 (pmem s) a"

definition write_pte :: "nat \<Rightarrow> nat \<Rightarrow> 'a kmem_state_scheme \<Rightarrow> 'a kmem_state_scheme" where
  "write_pte a v s = s\<lparr>pmem := put_le 8 (pmem s) a v\<rparr>"

definition zero_page :: "nat \<Rightarrow> 'a kmem_state_scheme \<Rightarrow> 'a kmem_state_scheme" where
  "zero_page pa s = s\<lparr>pmem := memset (pmem s) pa 0 PGSIZE\<rparr>"

section \<open>Operations\<close>

text \<open>The loop of \<^verbatim>\<open>walk\<close> from a level down to level 0.\<close>

fun walk_from ::
    "nat \<Rightarrow> nat \<Rightarrow> nat \<Rightarrow> bool \<Rightarrow> 'a kmem_state_scheme \<Rightarrow> nat \<times> 'a kmem_state_scheme" where
  "walk_from 0 pt va alloc s = (pt + 8 * PX 0 va, s)"
| "walk_from (Suc l) pt va alloc s =
     (let a = pt + 8 * PX (Suc l) va; pte = read_pte s a in
      if bit pte PTE_V then walk_from l (PTE2PA pte) va alloc s
      else if \<not> alloc then (0, s)
      else let (p, s1) = kalloc s in
           if p = 0 then (0, s1)
           else walk_from l p va alloc
                  (write_pte a (Bit_Operations.or (PA2PTE p) (flags [PTE_V])) (zero_page p s1)))"

definition walk ::
    "nat \<Rightarrow> nat \<Rightarrow> bool \<Rightarrow> 'a kmem_state_scheme \<Rightarrow> nat \<times> 'a kmem_state_scheme" where
  "walk pt va alloc s = (if MAXVA \<le> va then (0, s) else walk_from 2 pt va alloc s)"

definition walkaddr :: "nat \<Rightarrow> nat \<Rightarrow> 'a kmem_state_scheme \<Rightarrow> nat" where
  "walkaddr pt va s =
     (if MAXVA \<le> va then 0
      else let a = fst (walk pt va False s) in
        if a = 0 then 0
        else let pte = read_pte s a in
          if \<not> bit pte PTE_V then 0 else if \<not> bit pte PTE_U then 0 else PTE2PA pte)"

text \<open>The loop of \<^verbatim>\<open>mappages\<close> over \<open>n\<close> pages.\<close>

fun map_loop ::
    "nat \<Rightarrow> nat \<Rightarrow> nat \<Rightarrow> nat \<Rightarrow> nat \<Rightarrow> 'a kmem_state_scheme \<Rightarrow> (int \<times> 'a kmem_state_scheme) kres" where
  "map_loop 0 pt a pa perm s = Ok (0, s)"
| "map_loop (Suc n) pt a pa perm s =
     (case walk pt a True s of (p, s1) \<Rightarrow>
        if p = 0 then Ok (-1, s1)
        else if bit (read_pte s1 p) PTE_V then Panic ''mappages: remap''
        else map_loop n pt (a + PGSIZE) (pa + PGSIZE) perm
               (write_pte p (Bit_Operations.or (PA2PTE pa) (Bit_Operations.or perm (flags [PTE_V]))) s1))"

definition mappages ::
    "nat \<Rightarrow> nat \<Rightarrow> nat \<Rightarrow> nat \<Rightarrow> nat \<Rightarrow> 'a kmem_state_scheme \<Rightarrow> (int \<times> 'a kmem_state_scheme) kres" where
  "mappages pt va sz pa perm s =
     (if va mod PGSIZE \<noteq> 0 then Panic ''mappages: va not aligned''
      else if sz mod PGSIZE \<noteq> 0 then Panic ''mappages: size not aligned''
      else if sz = 0 then Panic ''mappages: size''
      else map_loop (sz div PGSIZE) pt va pa perm s)"

definition kvmmap ::
    "nat \<Rightarrow> nat \<Rightarrow> nat \<Rightarrow> nat \<Rightarrow> nat \<Rightarrow> 'a kmem_state_scheme \<Rightarrow> 'a kmem_state_scheme kres" where
  "kvmmap kpgtbl va pa sz perm s =
     kbind (mappages kpgtbl va sz pa perm s) (\<lambda>(r, s). if r \<noteq> 0 then Panic ''kvmmap'' else Ok s)"

definition uvmcreate :: "'a kmem_state_scheme \<Rightarrow> nat \<times> 'a kmem_state_scheme" where
  "uvmcreate s = (let (p, s1) = kalloc s in if p = 0 then (0, s1) else (p, zero_page p s1))"

definition unmap_page :: "nat \<Rightarrow> bool \<Rightarrow> nat \<Rightarrow> 'a kmem_state_scheme \<Rightarrow> 'a kmem_state_scheme kres" where
  "unmap_page pt do_free a s =
     (let p = fst (walk pt a False s) in
      if p = 0 then Ok s
      else if \<not> bit (read_pte s p) PTE_V then Ok s
      else kbind (if do_free then kfree (PTE2PA (read_pte s p)) s else Ok s)
             (\<lambda>s. Ok (write_pte p 0 s)))"

definition uvmunmap ::
    "nat \<Rightarrow> nat \<Rightarrow> nat \<Rightarrow> bool \<Rightarrow> 'a kmem_state_scheme \<Rightarrow> 'a kmem_state_scheme kres" where
  "uvmunmap pt va npages do_free s =
     (if va mod PGSIZE \<noteq> 0 then Panic ''uvmunmap: not aligned''
      else kfold (unmap_page pt do_free) (map (\<lambda>k. va + k * PGSIZE) [0..<npages]) s)"

definition uvmdealloc ::
    "nat \<Rightarrow> nat \<Rightarrow> nat \<Rightarrow> 'a kmem_state_scheme \<Rightarrow> (nat \<times> 'a kmem_state_scheme) kres" where
  "uvmdealloc pt oldsz newsz s =
     (if oldsz \<le> newsz then Ok (oldsz, s)
      else kbind (if PGROUNDUP newsz < PGROUNDUP oldsz
                  then uvmunmap pt (PGROUNDUP newsz) ((PGROUNDUP oldsz - PGROUNDUP newsz) div PGSIZE) True s
                  else Ok s)
             (\<lambda>s. Ok (newsz, s)))"

text \<open>The loop of \<^verbatim>\<open>uvmalloc\<close> over \<open>n\<close> more pages, from address \<open>a\<close>.\<close>

fun uvmalloc_loop ::
    "nat \<Rightarrow> nat \<Rightarrow> nat \<Rightarrow> nat \<Rightarrow> nat \<Rightarrow> nat \<Rightarrow> 'a kmem_state_scheme \<Rightarrow> (nat \<times> 'a kmem_state_scheme) kres" where
  "uvmalloc_loop 0 pt a oldsz newsz xperm s = Ok (newsz, s)"
| "uvmalloc_loop (Suc n) pt a oldsz newsz xperm s =
     (case kalloc s of (mem, s1) \<Rightarrow>
        if mem = 0 then kbind (uvmdealloc pt a oldsz s1) (\<lambda>(_, s). Ok (0, s))
        else kbind (mappages pt a PGSIZE mem (Bit_Operations.or (flags [PTE_R, PTE_U]) xperm) (zero_page mem s1))
          (\<lambda>(r, s2).
             if r \<noteq> 0 then
               kbind (kfree mem s2) (\<lambda>s3. kbind (uvmdealloc pt a oldsz s3) (\<lambda>(_, s). Ok (0, s)))
             else uvmalloc_loop n pt (a + PGSIZE) oldsz newsz xperm s2))"

definition uvmalloc ::
    "nat \<Rightarrow> nat \<Rightarrow> nat \<Rightarrow> nat \<Rightarrow> 'a kmem_state_scheme \<Rightarrow> (nat \<times> 'a kmem_state_scheme) kres" where
  "uvmalloc pt oldsz newsz xperm s =
     (if newsz < oldsz then Ok (oldsz, s)
      else let o1 = PGROUNDUP oldsz in
        uvmalloc_loop ((newsz - o1 + PGSIZE - 1) div PGSIZE) pt o1 o1 newsz xperm s)"

text \<open>
  \<^verbatim>\<open>freewalk\<close> recurses over the tree of page-table pages. Sv39 trees have three
  levels, so the recursion is at most that deep; \<open>d\<close> is the number of levels below.
\<close>

fun freewalk :: "nat \<Rightarrow> nat \<Rightarrow> 'a kmem_state_scheme \<Rightarrow> 'a kmem_state_scheme kres" where
  "freewalk 0 pt s = Panic ''freewalk: deeper than three levels''"
| "freewalk (Suc d) pt s =
     kbind (kfold (\<lambda>i s.
         let pte = read_pte s (pt + 8 * i) in
         if bit pte PTE_V \<and> \<not> bit pte PTE_R \<and> \<not> bit pte PTE_W \<and> \<not> bit pte PTE_X then
           kbind (freewalk d (PTE2PA pte) s) (\<lambda>s. Ok (write_pte (pt + 8 * i) 0 s))
         else if bit pte PTE_V then Panic ''freewalk: leaf''
         else Ok s) [0..<512] s)
       (\<lambda>s. kfree pt s)"

definition uvmfree :: "nat \<Rightarrow> nat \<Rightarrow> 'a kmem_state_scheme \<Rightarrow> 'a kmem_state_scheme kres" where
  "uvmfree pt sz s =
     kbind (if 0 < sz then uvmunmap pt 0 (PGROUNDUP sz div PGSIZE) True s else Ok s) (freewalk 3 pt)"

text \<open>One page of \<^verbatim>\<open>uvmcopy\<close>: the new flags drop write permission and mark the page shared.\<close>

definition cow_flags :: "nat \<Rightarrow> nat" where
  "cow_flags fl = (if bit fl PTE_W then set_bit PTE_COW (unset_bit PTE_W fl) else fl)"

fun uvmcopy_loop ::
    "nat list \<Rightarrow> nat \<Rightarrow> nat \<Rightarrow> 'a kmem_state_scheme \<Rightarrow> (int \<times> 'a kmem_state_scheme) kres" where
  "uvmcopy_loop [] old new s = Ok (0, s)"
| "uvmcopy_loop (i # is) old new s =
     (let p = fst (walk old i False s) in
      if p = 0 then uvmcopy_loop is old new s
      else if \<not> bit (read_pte s p) PTE_V then uvmcopy_loop is old new s
      else
        let pte = read_pte s p; pa = PTE2PA pte; fl = PTE_FLAGS pte; newflags = cow_flags fl in
        kbind (mappages new i PGSIZE pa newflags s) (\<lambda>(r, s1).
          if r \<noteq> 0 then kbind (uvmunmap new 0 (i div PGSIZE + 1) True s1) (\<lambda>s. Ok (-1, s))
          else case kaddref pa s1 of (r2, s2) \<Rightarrow>
            if r2 < 0 then kbind (uvmunmap new 0 (i div PGSIZE + 1) True s2) (\<lambda>s. Ok (-1, s))
            else uvmcopy_loop is old new
                   (if newflags \<noteq> fl then write_pte p (Bit_Operations.or (PA2PTE pa) newflags) s2 else s2)))"

definition uvmcopy ::
    "nat \<Rightarrow> nat \<Rightarrow> nat \<Rightarrow> 'a kmem_state_scheme \<Rightarrow> (int \<times> 'a kmem_state_scheme) kres" where
  "uvmcopy old new sz s =
     uvmcopy_loop (map (\<lambda>k. k * PGSIZE) [0..<(sz + PGSIZE - 1) div PGSIZE]) old new s"

definition uvmclear :: "nat \<Rightarrow> nat \<Rightarrow> 'a kmem_state_scheme \<Rightarrow> 'a kmem_state_scheme kres" where
  "uvmclear pt va s =
     (let p = fst (walk pt va False s) in
      if p = 0 then Panic ''uvmclear''
      else Ok (write_pte p (unset_bit PTE_U (read_pte s p)) s))"

definition ismapped :: "nat \<Rightarrow> nat \<Rightarrow> 'a kmem_state_scheme \<Rightarrow> bool" where
  "ismapped pt va s =
     (let p = fst (walk pt va False s) in if p = 0 then False else bit (read_pte s p) PTE_V)"

definition vmfault :: "nat \<Rightarrow> nat \<Rightarrow> 'a sched_state_scheme \<Rightarrow> (nat \<times> 'a sched_state_scheme) kres" where
  "vmfault pt va s =
     (case myproc s of
        None \<Rightarrow> Panic ''kerneltrap''
      | Some i \<Rightarrow>
          let p = procs s i in
          if p_sz p \<le> va then Ok (0, s)
          else let va0 = PGROUNDDOWN va in
          if ismapped pt va0 s then Ok (0, s)
          else case kalloc s of (mem, s1) \<Rightarrow>
            if mem = 0 then Ok (0, s1)
            else kbind (mappages (p_pagetable p) va0 PGSIZE mem (flags [PTE_W, PTE_U, PTE_R]) (zero_page mem s1))
              (\<lambda>(r, s2).
                 if r \<noteq> 0 then kbind (kfree mem s2) (\<lambda>s. Ok (0, s))
                 else Ok (mem, upd_proc i (\<lambda>p. p\<lparr>p_page_faults := p_page_faults p + 1\<rparr>) s2)))"

definition cowfault :: "nat \<Rightarrow> nat \<Rightarrow> 'a kmem_state_scheme \<Rightarrow> (int \<times> 'a kmem_state_scheme) kres" where
  "cowfault pt va s =
     (let va0 = PGROUNDDOWN va; p = fst (walk pt va0 False s) in
      if p = 0 then Ok (-1, s)
      else let pte = read_pte s p in
      if \<not> bit pte PTE_V \<or> \<not> bit pte PTE_COW then Ok (-1, s)
      else let pa = PTE2PA pte in
      case kalloc s of (mem, s1) \<Rightarrow>
        if mem = 0 then Ok (-1, s1)
        else let s2 = s1\<lparr>pmem := memmove (pmem s1) mem pa PGSIZE\<rparr>;
                 fl = unset_bit PTE_COW (set_bit PTE_W (PTE_FLAGS (read_pte s2 p)));
                 s3 = write_pte p (Bit_Operations.or (PA2PTE mem) fl) s2
             in kbind (kfree pa s3) (\<lambda>s. Ok (0, s)))"

text \<open>
  \<^verbatim>\<open>copyout\<close> and \<^verbatim>\<open>copyin\<close>. The kernel side is a buffer \<open>src\<close> or
  \<open>dst\<close> and the offset reached in it.
\<close>

function copyout ::
    "nat \<Rightarrow> nat \<Rightarrow> bytes \<Rightarrow> nat \<Rightarrow> nat \<Rightarrow> 'a sched_state_scheme \<Rightarrow> (int \<times> 'a sched_state_scheme) kres" where
  "copyout pt dstva src so len s =
     (if len = 0 then Ok (0, s)
      else let va0 = PGROUNDDOWN dstva in
      if MAXVA \<le> va0 then Ok (-1, s)
      else
        kbind (if walkaddr pt va0 s = 0 then vmfault pt va0 s else Ok (walkaddr pt va0 s, s)) (\<lambda>(pa0, s1).
        if pa0 = 0 then Ok (-1, s1)
        else let p = fst (walk pt va0 False s1) in
        if p = 0 then Ok (-1, s1)
        else
          kbind (if bit (read_pte s1 p) PTE_W then Ok (Some pa0, s1)
                 else if \<not> bit (read_pte s1 p) PTE_COW then Ok (None, s1)
                 else kbind (cowfault pt va0 s1) (\<lambda>(r, s2).
                        Ok (if r = 0 then Some (walkaddr pt va0 s2) else None, s2))) (\<lambda>(q, s2).
          case q of
            None \<Rightarrow> Ok (-1, s2)
          | Some pa1 \<Rightarrow>
              let n = min (PGSIZE - (dstva - va0)) len
              in copyout pt (va0 + PGSIZE) src (so + n) (len - n)
                   (s2\<lparr>pmem := blit (pmem s2) (pa1 + (dstva - va0)) src so n\<rparr>))))"
  by pat_completeness auto

lemma page_offset: "a - PGROUNDDOWN a < PGSIZE" "PGROUNDDOWN a \<le> a"
proof -
  have "a - a div PGSIZE * PGSIZE = a mod PGSIZE" by (simp add: minus_div_mult_eq_mod)
  then show "a - PGROUNDDOWN a < PGSIZE" by (simp add: PGROUNDDOWN_def)
  show "PGROUNDDOWN a \<le> a" by (simp add: PGROUNDDOWN_def)
qed

lemma page_rest [simp]: "a < PGSIZE + PGROUNDDOWN a"
  using page_offset[of a] by linarith

termination copyout
  by (relation "measure (\<lambda>(pt, dstva, src, so, len, s). len)")
    (auto simp: min_def page_offset intro!: diff_less)

function copyin ::
    "nat \<Rightarrow> bytes \<Rightarrow> nat \<Rightarrow> nat \<Rightarrow> nat \<Rightarrow> 'a sched_state_scheme \<Rightarrow> (int \<times> bytes \<times> 'a sched_state_scheme) kres" where
  "copyin pt dst d srcva len s =
     (if len = 0 then Ok (0, dst, s)
      else let va0 = PGROUNDDOWN srcva in
        kbind (if walkaddr pt va0 s = 0 then vmfault pt va0 s else Ok (walkaddr pt va0 s, s)) (\<lambda>(pa0, s1).
        if pa0 = 0 then Ok (-1, dst, s1)
        else let n = min (PGSIZE - (srcva - va0)) len
             in copyin pt (blit dst d (pmem s1) (pa0 + (srcva - va0)) n) (d + n) (va0 + PGSIZE) (len - n) s1))"
  by pat_completeness auto
termination copyin
  by (relation "measure (\<lambda>(pt, dst, d, srcva, len, s). len)")
    (auto simp: min_def page_offset intro!: diff_less)

text \<open>
  The inner loop of \<^verbatim>\<open>copyinstr\<close> copies up to \<open>n\<close> bytes of a page and
  stops at a null byte.
\<close>

fun str_chunk :: "nat \<Rightarrow> bytes \<Rightarrow> nat \<Rightarrow> bytes \<Rightarrow> nat \<Rightarrow> bytes \<times> bool" where
  "str_chunk 0 m p dst d = (dst, False)"
| "str_chunk (Suc n) m p dst d =
     (if m p = 0 then (dst(d := 0), True) else str_chunk n m (p + 1) (dst(d := m p)) (d + 1))"

function copyinstr ::
    "nat \<Rightarrow> bytes \<Rightarrow> nat \<Rightarrow> nat \<Rightarrow> nat \<Rightarrow> 'a kmem_state_scheme \<Rightarrow> int \<times> bytes" where
  "copyinstr pt dst d srcva mx s =
     (if mx = 0 then (-1, dst)
      else let va0 = PGROUNDDOWN srcva; pa0 = walkaddr pt va0 s in
      if pa0 = 0 then (-1, dst)
      else let n = min (PGSIZE - (srcva - va0)) mx in
        (case str_chunk n (pmem s) (pa0 + (srcva - va0)) dst d of
           (dst1, True) \<Rightarrow> (0, dst1)
         | (dst1, False) \<Rightarrow> copyinstr pt dst1 (d + n) (va0 + PGSIZE) (mx - n) s))"
  by pat_completeness auto
termination copyinstr
  by (relation "measure (\<lambda>(pt, dst, d, srcva, mx, s). mx)")
    (auto simp: min_def page_offset intro!: diff_less)

declare copyout.simps [simp del] copyin.simps [simp del] copyinstr.simps [simp del]

text \<open>The kernel's own page table; \<open>etext\<close> and \<open>trampoline\<close> come from the linker.\<close>

definition UART0 :: nat where "UART0 = 0x10000000"
definition VIRTIO0 :: nat where "VIRTIO0 = 0x10001000"
definition PLIC :: nat where "PLIC = 0x0c000000"

definition proc_mapstacks :: "nat \<Rightarrow> 'a kmem_state_scheme \<Rightarrow> 'a kmem_state_scheme kres" where
  "proc_mapstacks kpgtbl s =
     kfold (\<lambda>i s. case kalloc s of (pa, s1) \<Rightarrow>
         if pa = 0 then Panic ''kalloc''
         else kvmmap kpgtbl (KSTACK i) pa PGSIZE (flags [PTE_R, PTE_W]) s1) [0..<NPROC] s"

definition kvmmake :: "nat \<Rightarrow> nat \<Rightarrow> 'a kmem_state_scheme \<Rightarrow> (nat \<times> 'a kmem_state_scheme) kres" where
  "kvmmake etext trampoline s =
     (let (kp, s1) = kalloc s; s2 = zero_page kp s1; rw = flags [PTE_R, PTE_W]; rx = flags [PTE_R, PTE_X] in
      kbind (kvmmap kp UART0 UART0 PGSIZE rw s2) (\<lambda>s.
      kbind (kvmmap kp VIRTIO0 VIRTIO0 PGSIZE rw s) (\<lambda>s.
      kbind (kvmmap kp PLIC PLIC 0x4000000 rw s) (\<lambda>s.
      kbind (kvmmap kp KERNBASE KERNBASE (etext - KERNBASE) rx s) (\<lambda>s.
      kbind (kvmmap kp etext etext (PHYSTOP - etext) rw s) (\<lambda>s.
      kbind (kvmmap kp TRAMPOLINE trampoline PGSIZE rx s) (\<lambda>s.
      kbind (proc_mapstacks kp s) (\<lambda>s. Ok (kp, s)))))))))"

text \<open>
  An address argument together with the flag that says whose it is: a user virtual address,
  or a kernel object and the offset reached in it.
\<close>

datatype cbuf = User nat | Kern bytes nat

fun cbuf_add :: "cbuf \<Rightarrow> nat \<Rightarrow> cbuf" where
  "cbuf_add (User a) m = User (a + m)"
| "cbuf_add (Kern b k) m = Kern b (k + m)"

fun either_copyout ::
    "cbuf \<Rightarrow> bytes \<Rightarrow> nat \<Rightarrow> nat \<Rightarrow> 'a sched_state_scheme \<Rightarrow> (int \<times> cbuf \<times> 'a sched_state_scheme) kres" where
  "either_copyout (User dst) src so len s =
     (case myproc s of
        None \<Rightarrow> Panic ''kerneltrap''
      | Some i \<Rightarrow> kbind (copyout (p_pagetable (procs s i)) dst src so len s) (\<lambda>(r, s). Ok (r, User dst, s)))"
| "either_copyout (Kern b k) src so len s = Ok (0, Kern (blit b k src so len) k, s)"

fun either_copyin ::
    "bytes \<Rightarrow> nat \<Rightarrow> cbuf \<Rightarrow> nat \<Rightarrow> 'a sched_state_scheme \<Rightarrow> (int \<times> bytes \<times> 'a sched_state_scheme) kres" where
  "either_copyin dst d (User src) len s =
     (case myproc s of
        None \<Rightarrow> Panic ''kerneltrap''
      | Some i \<Rightarrow> copyin (p_pagetable (procs s i)) dst d src len s)"
| "either_copyin dst d (Kern b k) len s = Ok (0, blit dst d b k len, s)"

end
