(* ===== verification/Fs_Block.thy ===== *)
theory Fs_Block
  imports Log Vm
begin

text \<open>
  The block layer of the file system: the super block and the free bitmap of
  \<^verbatim>\<open>kernel/fs.c\<close>, with the state of the file system (the super block and the
  inode table of \<^verbatim>\<open>kernel/fs.h\<close> and \<^verbatim>\<open>kernel/file.h\<close>).

  A bitmap block is read at byte level: the bit of block \<open>b\<close> is bit \<open>b mod 8\<close> of
  byte \<open>b mod BPB div 8\<close> of bitmap block \<open>BBLOCK b\<close>.
\<close>

section \<open>State\<close>

definition NINODE :: nat where "NINODE = 100"
definition NEXTENT :: nat where "NEXTENT = 14"
definition DIRSIZ :: nat where "DIRSIZ = 14"
definition DIRCACHE_MAX :: nat where "DIRCACHE_MAX = 256"
definition MAXFILE :: nat where "MAXFILE = 1024"
definition ROOTINO :: nat where "ROOTINO = 1"
definition FSMAGIC :: nat where "FSMAGIC = 0x48414946"
definition BPB :: nat where "BPB = BSIZE * 8"
definition DINODE_SIZE :: nat where "DINODE_SIZE = 16 + 8 * NEXTENT"
definition IPB :: nat where "IPB = BSIZE div DINODE_SIZE"

record superblock =
  sb_magic :: nat
  sb_version :: nat
  sb_size :: nat
  sb_nblocks :: nat
  sb_ninodes :: nat
  sb_nlog :: nat
  sb_logstart :: nat
  sb_inodestart :: nat
  sb_bmapstart :: nat
  sb_blocksz_exp :: nat
  sb_checksum_alg :: nat
  sb_data_csum :: nat
  sb_log_segments :: nat
  sb_quota_start :: nat
  sb_quota_blocks :: nat

record extent =
  ext_start :: nat
  ext_len :: nat

record dircache_entry =
  dce_name :: bytes
  dce_inum :: nat
  dce_off :: nat

record dircache =
  dc_valid :: bool
  dc_size_snapshot :: nat
  dc_nentries :: nat
  dc_truncated :: bool
  dc_entries :: "nat \<Rightarrow> dircache_entry"

record inode =
  i_dev :: nat
  i_inum :: nat
  i_ref :: int
  i_lock :: sleeplock
  i_valid :: bool
  i_type :: int
  i_major :: int
  i_minor :: int
  i_nlink :: int
  i_size :: nat
  i_flags :: nat
  i_checksum :: nat
  i_extents :: "nat \<Rightarrow> extent"
  i_cache :: dircache

record fs_state = log_state +
  sb :: superblock
  itable :: "nat \<Rightarrow> inode"

definition IBLOCK :: "nat \<Rightarrow> superblock \<Rightarrow> nat" where
  "IBLOCK i b = i div IPB + sb_inodestart b"

definition BBLOCK :: "nat \<Rightarrow> superblock \<Rightarrow> nat" where
  "BBLOCK b sp = b div BPB + sb_bmapstart sp"

section \<open>Operations\<close>

definition sb_of :: "bytes \<Rightarrow> superblock" where
  "sb_of m = \<lparr>sb_magic = get_le 4 m 0, sb_version = get_le 4 m 4, sb_size = get_le 4 m 8,
     sb_nblocks = get_le 4 m 12, sb_ninodes = get_le 4 m 16, sb_nlog = get_le 4 m 20,
     sb_logstart = get_le 4 m 24, sb_inodestart = get_le 4 m 28, sb_bmapstart = get_le 4 m 32,
     sb_blocksz_exp = get_le 4 m 36, sb_checksum_alg = get_le 4 m 40, sb_data_csum = get_le 4 m 44,
     sb_log_segments = get_le 4 m 48, sb_quota_start = get_le 4 m 52, sb_quota_blocks = get_le 4 m 56\<rparr>"

definition readsb :: "nat \<Rightarrow> 'a fs_state_scheme \<Rightarrow> 'a fs_state_scheme kres" where
  "readsb dev s = kbind (bread dev 1 s) (\<lambda>(i, s). brelse i (s\<lparr>sb := sb_of (bdata s i)\<rparr>))"

definition bzero :: "nat \<Rightarrow> nat \<Rightarrow> 'a log_state_scheme \<Rightarrow> 'a log_state_scheme kres" where
  "bzero dev bno s =
     kbind (bread dev bno s) (\<lambda>(i, s).
     kbind (log_write i (upd_data i (\<lambda>m. memset m 0 0 BSIZE) s)) (\<lambda>s.
     brelse i s))"

definition bm_bit :: "bytes \<Rightarrow> nat \<Rightarrow> bool" where
  "bm_bit m bi = bit (m (bi div 8)) (bi mod 8)"

definition bm_set :: "nat \<Rightarrow> bytes \<Rightarrow> bytes" where
  "bm_set bi m = m(bi div 8 := set_bit (bi mod 8) (m (bi div 8)))"

definition bm_clear :: "nat \<Rightarrow> bytes \<Rightarrow> bytes" where
  "bm_clear bi m = m(bi div 8 := unset_bit (bi mod 8) (m (bi div 8)))"

definition balloc_prefer :: "nat \<Rightarrow> nat \<Rightarrow> 'a fs_state_scheme \<Rightarrow> (nat \<times> 'a fs_state_scheme) kres" where
  "balloc_prefer dev b s =
     (if sb_size (sb s) \<le> b then Ok (0, s)
      else kbind (bread dev (BBLOCK b (sb s)) s) (\<lambda>(i, s).
        let bi = b mod BPB in
        if bm_bit (bdata s i) bi then kbind (brelse i s) (\<lambda>s. Ok (0, s))
        else kbind (log_write i (upd_data i (bm_set bi) s)) (\<lambda>s.
             kbind (brelse i s) (\<lambda>s.
             kbind (bzero dev b s) (\<lambda>s. Ok (b, s))))))"

text \<open>The loop of \<^verbatim>\<open>balloc\<close> over the first blocks of the bitmap blocks.\<close>

fun balloc_loop :: "nat list \<Rightarrow> nat \<Rightarrow> 'a fs_state_scheme \<Rightarrow> (nat \<times> 'a fs_state_scheme) kres" where
  "balloc_loop [] dev s = Ok (0, s)"
| "balloc_loop (b # bs) dev s =
     kbind (bread dev (BBLOCK b (sb s)) s) (\<lambda>(i, s).
       case find (\<lambda>bi. \<not> bm_bit (bdata s i) bi) [0..<min BPB (sb_size (sb s) - b)] of
         Some bi \<Rightarrow>
           kbind (log_write i (upd_data i (bm_set bi) s)) (\<lambda>s.
           kbind (brelse i s) (\<lambda>s.
           kbind (bzero dev (b + bi) s) (\<lambda>s. Ok (b + bi, s))))
       | None \<Rightarrow> kbind (brelse i s) (balloc_loop bs dev))"

definition balloc :: "nat \<Rightarrow> 'a fs_state_scheme \<Rightarrow> (nat \<times> 'a fs_state_scheme) kres" where
  "balloc dev s = balloc_loop (map (\<lambda>k. k * BPB) [0..<(sb_size (sb s) + BPB - 1) div BPB]) dev s"

definition bfree :: "nat \<Rightarrow> nat \<Rightarrow> 'a fs_state_scheme \<Rightarrow> 'a fs_state_scheme kres" where
  "bfree dev b s =
     kbind (bread dev (BBLOCK b (sb s)) s) (\<lambda>(i, s).
       let bi = b mod BPB in
       if \<not> bm_bit (bdata s i) bi then Panic ''freeing free block''
       else kbind (log_write i (upd_data i (bm_clear bi) s)) (\<lambda>s. brelse i s))"

section \<open>The bitmap as a set\<close>

lemma log_frame_fs:
  assumes "log_frame s t"
  shows "sb t = sb s" "itable t = itable s"
  using assms by (auto elim: log_frameE)

lemma tx_same_fs: "tx_same s t \<Longrightarrow> sb t = sb s" "tx_same s t \<Longrightarrow> itable t = itable s"
  by (simp_all add: tx_same_def log_frame_fs)

text \<open>
  \<open>used sp v b\<close>: the bit of block \<open>b\<close> is set in the bitmap blocks of image \<open>v\<close>.
\<close>

definition used :: "superblock \<Rightarrow> (nat \<Rightarrow> bytes) \<Rightarrow> nat \<Rightarrow> bool" where
  "used sp v b = bm_bit (v (BBLOCK b sp)) (b mod BPB)"

text \<open>First block after the bitmap.\<close>

definition data_start :: "superblock \<Rightarrow> nat" where
  "data_start sp = sb_bmapstart sp + sb_size sp div BPB + 1"

text \<open>
  The layout of the disk: the log comes before the inode blocks, which come before the bitmap
  and the data blocks; and the bitmap marks everything before the data blocks as used.
\<close>

definition layout_ok :: "'a fs_state_scheme \<Rightarrow> bool" where
  "layout_ok s \<longleftrightarrow> log_start s = sb_logstart (sb s) \<and>
     sb_logstart (sb s) + LOGBLOCKS < sb_inodestart (sb s) \<and>
     sb_inodestart (sb s) + sb_ninodes (sb s) div IPB < sb_bmapstart (sb s) \<and>
     data_start (sb s) < sb_size (sb s) \<and> sb_size (sb s) \<le> 2 ^ 32 \<and>
     (\<forall>b<data_start (sb s). used (sb s) (cur s) b)"

lemma BPB_pos [simp]: "0 < BPB" and BPB_byte: "bi < BPB \<Longrightarrow> bi div 8 < BSIZE"
  by (simp_all add: BPB_def BSIZE_def)

lemma bm_bit_set: "bm_bit (bm_set i m) j \<longleftrightarrow> i = j \<or> bm_bit m j"
proof (cases "i div 8 = j div 8")
  case True
  then have "i = j \<longleftrightarrow> i mod 8 = j mod 8" by (metis div_mult_mod_eq)
  then show ?thesis using True by (auto simp: bm_bit_def bm_set_def bit_set_bit_iff)
qed (auto simp: bm_bit_def bm_set_def)

lemma bm_bit_clear: "bm_bit (bm_clear i m) j \<longleftrightarrow> i \<noteq> j \<and> bm_bit m j"
proof (cases "i div 8 = j div 8")
  case True
  then have "i = j \<longleftrightarrow> i mod 8 = j mod 8" by (metis div_mult_mod_eq)
  then show ?thesis using True by (auto simp: bm_bit_def bm_clear_def bit_unset_bit_iff)
qed (auto simp: bm_bit_def bm_clear_def)

lemma bm_norm: "bi < BPB \<Longrightarrow> bnorm m \<Longrightarrow> bnorm (bm_set bi m)" "bi < BPB \<Longrightarrow> bnorm m \<Longrightarrow> bnorm (bm_clear bi m)"
  using BPB_byte[of bi] by (auto simp: bnorm_def bm_set_def bm_clear_def)

lemma BBLOCK_inj: "BBLOCK b sp = BBLOCK c sp \<Longrightarrow> b mod BPB = c mod BPB \<Longrightarrow> b = c"
  unfolding BBLOCK_def by (metis add_right_cancel div_mult_mod_eq)

lemma BBLOCK_range:
  assumes "layout_ok s" "b < sb_size (sb s)"
  shows "BBLOCK b (sb s) < data_start (sb s)" "tx_writable s (BBLOCK b (sb s))"
proof -
  have "b div BPB \<le> sb_size (sb s) div BPB" using assms(2) by (intro div_le_mono) simp
  then show l: "BBLOCK b (sb s) < data_start (sb s)" by (simp add: BBLOCK_def data_start_def)
  then show "tx_writable s (BBLOCK b (sb s))"
    using assms by (auto simp: layout_ok_def tx_writable_def log_area_def BBLOCK_def)
qed

lemma data_writable:
  "layout_ok s \<Longrightarrow> data_start (sb s) \<le> b \<Longrightarrow> b < sb_size (sb s) \<Longrightarrow> tx_writable s b"
  by (auto simp: layout_ok_def tx_writable_def log_area_def data_start_def)

section \<open>Allocation\<close>

text \<open>The image after block \<open>b\<close> was taken, and after it was given back.\<close>

definition take_block :: "superblock \<Rightarrow> nat \<Rightarrow> (nat \<Rightarrow> bytes) \<Rightarrow> nat \<Rightarrow> bytes" where
  "take_block sp b v = (v(BBLOCK b sp := bm_set (b mod BPB) (v (BBLOCK b sp))))(b := \<lambda>_. 0)"

definition drop_block :: "superblock \<Rightarrow> nat \<Rightarrow> (nat \<Rightarrow> bytes) \<Rightarrow> nat \<Rightarrow> bytes" where
  "drop_block sp b v = v(BBLOCK b sp := bm_clear (b mod BPB) (v (BBLOCK b sp)))"

lemma used_take:
  assumes "BBLOCK c sp \<noteq> b"
  shows "used sp (take_block sp b v) c \<longleftrightarrow> c = b \<or> used sp v c"
proof (cases "BBLOCK c sp = BBLOCK b sp")
  case True
  have "take_block sp b v (BBLOCK c sp) = bm_set (b mod BPB) (v (BBLOCK c sp))"
    using assms unfolding True by (simp add: take_block_def)
  moreover have "b mod BPB = c mod BPB \<longleftrightarrow> c = b" using BBLOCK_inj[OF True] by auto
  ultimately show ?thesis by (simp add: used_def bm_bit_set)
next
  case False
  then have "c \<noteq> b" "take_block sp b v (BBLOCK c sp) = v (BBLOCK c sp)"
    using assms by (auto simp: take_block_def)
  then show ?thesis by (simp add: used_def)
qed

lemma used_drop: "used sp (drop_block sp b v) c \<longleftrightarrow> c \<noteq> b \<and> used sp v c"
proof (cases "BBLOCK c sp = BBLOCK b sp")
  case True
  have "drop_block sp b v (BBLOCK c sp) = bm_clear (b mod BPB) (v (BBLOCK c sp))"
    unfolding True by (simp add: drop_block_def)
  moreover have "b mod BPB = c mod BPB \<longleftrightarrow> c = b" using BBLOCK_inj[OF True] by auto
  ultimately show ?thesis by (simp add: used_def bm_bit_clear)
next
  case False
  then have "c \<noteq> b" "drop_block sp b v (BBLOCK c sp) = v (BBLOCK c sp)" by (auto simp: drop_block_def)
  then show ?thesis by (simp add: used_def)
qed

lemma layout_free: "layout_ok s \<Longrightarrow> \<not> used (sb s) (cur s) b \<Longrightarrow> data_start (sb s) \<le> b"
  by (rule ccontr) (auto simp: layout_ok_def)

lemma layout_same:
  assumes "layout_ok s" "tx_same s t" "\<And>b. b < data_start (sb s) \<Longrightarrow> used (sb s) (cur t) b"
  shows "layout_ok t"
  using assms log_frameD(1)[of s t] by (auto simp: layout_ok_def tx_same_def log_frame_fs)

lemma layout_take:
  assumes l: "layout_ok s" and same: "tx_same s t" and b: "data_start (sb s) \<le> b"
    and c: "cur t = take_block (sb s) b (cur s)"
  shows "layout_ok t"
proof (rule layout_same[OF l same])
  fix d assume d: "d < data_start (sb s)"
  then have "d < sb_size (sb s)" using l by (simp add: layout_ok_def)
  then have "BBLOCK d (sb s) \<noteq> b" using BBLOCK_range(1)[OF l, of d] b by simp
  then show "used (sb s) (cur t) d" using d l by (simp add: c used_take layout_ok_def)
qed

lemma bzero_update: "bzero ROOTDEV b s = log_update b (\<lambda>m. memset m 0 0 BSIZE) s"
  by (simp add: bzero_def log_update_def)

lemma memset_block: "bnorm m \<Longrightarrow> memset m 0 0 BSIZE = (\<lambda>_. 0)"
  by (auto simp: memset_eq bnorm_def fun_eq_iff)

lemma claim_block:
  assumes idle: "tx_idle s" and l: "layout_ok s" and room: "tx_room s (Suc (Suc n))"
    and b: "b < sb_size (sb s)" "\<not> used (sb s) (cur s) b"
  obtains u t where "log_update (BBLOCK b (sb s)) (bm_set (b mod BPB)) s = Ok u" "bzero ROOTDEV b u = Ok t"
    "tx_idle t" "layout_ok t" "tx_room t n" "tx_same s t" "cur t = take_block (sb s) b (cur s)"
proof -
  have d: "data_start (sb s) \<le> b" by (rule layout_free[OF l b(2)])
  note w = BBLOCK_range[OF l b(1)]
  have ne: "b \<noteq> BBLOCK b (sb s)" using w(1) d by simp
  have "bnorm (bm_set (b mod BPB) (cur s (BBLOCK b (sb s))))"
    by (rule bm_norm) (simp_all add: tx_idle_norm[OF idle])
  from tx_update[where f = "bm_set (b mod BPB)", OF idle room w(2) this] obtain u where
    u: "log_update (BBLOCK b (sb s)) (bm_set (b mod BPB)) s = Ok u" "tx_idle u" "tx_room u (Suc n)" "tx_same s u"
      "cur u = (cur s)(BBLOCK b (sb s) := bm_set (b mod BPB) (cur s (BBLOCK b (sb s))))" .
  have wb: "tx_writable u b" using data_writable[OF l d b(1)] tx_same_writable[OF u(4)] by simp
  have z: "memset (cur u b) 0 0 BSIZE = (\<lambda>_. 0)" by (rule memset_block[OF tx_idle_norm[OF u(2)]])
  obtain t where t: "log_update b (\<lambda>m. memset m 0 0 BSIZE) u = Ok t" "tx_idle t" "tx_room t n" "tx_same u t"
    "cur t = (cur u)(b := \<lambda>_. 0)"
    by (rule tx_update[where f = "\<lambda>m. memset m 0 0 BSIZE", OF u(2,3) wb]) (use z in \<open>auto simp: bnorm_def\<close>)
  have same: "tx_same s t" using u(4) t(4) by (rule tx_same_trans)
  have c: "cur t = take_block (sb s) b (cur s)" by (simp add: t(5) u(5) take_block_def)
  show thesis
    using that[OF u(1) _ t(2) layout_take[OF l same d c] t(3) same c] t(1) by (simp add: bzero_update)
qed

text \<open>The outcome of an allocation that may fail.\<close>

definition alloc_post ::
    "'a fs_state_scheme \<Rightarrow> nat \<Rightarrow> (nat \<Rightarrow> bool) \<Rightarrow> bool \<Rightarrow> nat \<times> 'a fs_state_scheme \<Rightarrow> bool" where
  "alloc_post s n good ok r \<longleftrightarrow> (case r of (b, t) \<Rightarrow>
     tx_idle t \<and> layout_ok t \<and> tx_room t n \<and> tx_same s t \<and>
     (if ok then good b \<and> b < sb_size (sb s) \<and> \<not> used (sb s) (cur s) b \<and> cur t = take_block (sb s) b (cur s)
      else b = 0 \<and> cur t = cur s \<and> lh_n t = lh_n s))"

lemma balloc_prefer_spec:
  assumes idle: "tx_idle s" and l: "layout_ok s" and room: "tx_room s (Suc (Suc n))"
  shows "returns (balloc_prefer ROOTDEV b s)
    (alloc_post s n (\<lambda>r. r = b) (b < sb_size (sb s) \<and> \<not> used (sb s) (cur s) b))"
proof (cases "b < sb_size (sb s)")
  case False
  then show ?thesis using idle l tx_room_mono[OF room, of n] by (simp add: balloc_prefer_def alloc_post_def)
next
  case True
  obtain i s1 t where o: "bread ROOTDEV (BBLOCK b (sb s)) s = Ok (i, s1)" "bdata s1 i = cur s (BBLOCK b (sb s))"
    "bio_frame s s1" "brelse i s1 = Ok t" "tx_idle t" "cur t = cur s" "lh_n t = lh_n s" "tx_same s t"
    "\<forall>f. log_update (BBLOCK b (sb s)) f s = kbind (log_write i (upd_data i f s1)) (brelse i)"
    using tx_open[OF idle] .
  show ?thesis
  proof (cases "used (sb s) (cur s) b")
    case u: True
    have "layout_ok t" by (rule layout_same[OF l o(8)]) (use l o(6) in \<open>auto simp: layout_ok_def\<close>)
    then show ?thesis
      using u True o tx_room_mono[OF room, of n] tx_room_same[OF o(7)]
      by (simp add: balloc_prefer_def used_def alloc_post_def)
  next
    case u: False
    obtain v t' where c: "log_update (BBLOCK b (sb s)) (bm_set (b mod BPB)) s = Ok v" "bzero ROOTDEV b v = Ok t'"
      "tx_idle t'" "layout_ok t'" "tx_room t' n" "tx_same s t'" "cur t' = take_block (sb s) b (cur s)"
      using claim_block[OF idle l room True u] .
    have "kbind (log_write i (upd_data i (bm_set (b mod BPB)) s1)) (brelse i) = Ok v" using c(1) o(9) by simp
    then obtain w where w: "log_write i (upd_data i (bm_set (b mod BPB)) s1) = Ok w" "brelse i w = Ok v"
      by (auto simp: kbind_eq_Ok)
    show ?thesis
      using True u o(1,2) w c by (simp add: balloc_prefer_def used_def alloc_post_def)
  qed
qed

lemma bitmap_split:
  "b < k * BPB \<or> b \<ge> k * BPB \<and> b < k * BPB + BPB \<longleftrightarrow> b < Suc k * BPB" for b k :: nat
  by auto

lemma BBLOCK_at: "bi < BPB \<Longrightarrow> BBLOCK (k * BPB + bi) sp = BBLOCK (k * BPB) sp \<and> (k * BPB + bi) mod BPB = bi"
  by (simp add: BBLOCK_def)

lemma balloc_loop_spec:
  assumes "tx_idle s" "layout_ok s" "tx_room s (Suc (Suc n))"
    and "\<forall>b<k * BPB. b < sb_size (sb s) \<longrightarrow> used (sb s) (cur s) b"
    and "k + m = (sb_size (sb s) + BPB - 1) div BPB"
  shows "returns (balloc_loop (map (\<lambda>k. k * BPB) [k..<k + m]) ROOTDEV s)
    (alloc_post s n (\<lambda>r. \<forall>b<r. used (sb s) (cur s) b) (\<exists>b < sb_size (sb s). \<not> used (sb s) (cur s) b))"
  using assms
proof (induction m arbitrary: k s)
  case 0
  have "sb_size (sb s) \<le> k * BPB"
  proof -
    have "sb_size (sb s) + BPB - 1 < Suc k * BPB"
      using 0 by (metis BPB_pos add_0_right div_less_iff_less_mult lessI)
    then show ?thesis using BPB_pos by (simp add: algebra_simps)
  qed
  then have "\<forall>b < sb_size (sb s). used (sb s) (cur s) b" using 0(4) by auto
  then show ?case using 0 tx_room_mono[OF 0(3), of n] by (auto simp: alloc_post_def)
next
  case (Suc m)
  note idle = Suc.prems(1) and l = Suc.prems(2) and room = Suc.prems(3)
  let ?b = "k * BPB" let ?c = "BBLOCK ?b (sb s)" let ?K = "min BPB (sb_size (sb s) - ?b)"
  have kb: "?b < sb_size (sb s)"
  proof -
    have "Suc k \<le> (sb_size (sb s) + BPB - 1) div BPB" using Suc.prems(5) by simp
    then have "Suc k * BPB \<le> sb_size (sb s) + BPB - 1" by (metis BPB_pos less_eq_div_iff_mult_less_eq)
    then show ?thesis using BPB_pos unfolding mult_Suc by linarith
  qed
  obtain i s1 t where o: "bread ROOTDEV ?c s = Ok (i, s1)" "bdata s1 i = cur s ?c"
    "bio_frame s s1" "brelse i s1 = Ok t" "tx_idle t" "cur t = cur s" "lh_n t = lh_n s" "tx_same s t"
    "\<forall>f. log_update ?c f s = kbind (log_write i (upd_data i f s1)) (brelse i)"
    using tx_open[OF idle] .
  have sb1: "sb s1 = sb s" by (rule log_frame_fs(1)[OF bio_frame_log[OF o(3)]])
  have upt: "[k..<k + Suc m] = k # [Suc k..<Suc k + m]" by (rule upt_add_Suc)
  have at: "used (sb s) (cur s) (?b + bi) = bm_bit (cur s ?c) bi" if "bi < ?K" for bi
    using that BBLOCK_at[of bi k "sb s"] by (simp add: used_def)
  show ?case
  proof (cases "find (\<lambda>bi. \<not> bm_bit (cur s ?c) bi) [0..<?K]")
    case None
    then have "\<forall>bi<?K. used (sb s) (cur s) (?b + bi)" using at by (auto simp: find_upt_None)
    then have all: "b < sb_size (sb s) \<longrightarrow> used (sb s) (cur s) b" if "b < Suc k * BPB" for b
      using Suc.prems(4) that by (cases "b < ?b") (auto dest: spec[of _ "b - ?b"])
    have same: "sb t = sb s" by (rule tx_same_fs[OF o(8)])
    have lt: "layout_ok t" by (rule layout_same[OF l o(8)]) (use l o(6) in \<open>auto simp: layout_ok_def\<close>)
    have "returns (balloc_loop (map (\<lambda>k. k * BPB) [Suc k..<Suc k + m]) ROOTDEV t)
      (alloc_post t n (\<lambda>r. \<forall>b<r. used (sb t) (cur t) b) (\<exists>b < sb_size (sb t). \<not> used (sb t) (cur t) b))"
      by (rule Suc.IH) (use o(5) lt room tx_room_same[OF o(7)] all Suc.prems(5) in \<open>auto simp: same o(6)\<close>)
    then have "returns (balloc_loop (map (\<lambda>k. k * BPB) [Suc k..<Suc k + m]) ROOTDEV t)
      (alloc_post s n (\<lambda>r. \<forall>b<r. used (sb s) (cur s) b) (\<exists>b < sb_size (sb s). \<not> used (sb s) (cur s) b))"
      by (rule returns_mono) (auto simp: alloc_post_def same o(6,7) intro: tx_same_trans[OF o(8)] split: if_splits)
    then show ?thesis using o(1,2,4) None unfolding upt by (simp add: sb1)
  next
    case (Some bi)
    then have bi: "bi < ?K" "\<not> bm_bit (cur s ?c) bi" "\<forall>j<bi. bm_bit (cur s ?c) j" by (auto simp: find_upt_Some)
    have fresh: "?b + bi < sb_size (sb s)" "\<not> used (sb s) (cur s) (?b + bi)" using bi at by auto
    have least: "\<forall>b<?b + bi. used (sb s) (cur s) b"
    proof (intro allI impI)
      fix b assume b: "b < ?b + bi"
      show "used (sb s) (cur s) b"
      proof (cases "b < ?b")
        case True
        then show ?thesis using Suc.prems(4) kb by simp
      next
        case False
        then have "b - ?b < bi" "?b + (b - ?b) = b" using b by auto
        then show ?thesis using at[of "b - ?b"] bi by simp
      qed
    qed
    have e: "BBLOCK (?b + bi) (sb s) = ?c" "(?b + bi) mod BPB = bi" using BBLOCK_at[of bi k] bi(1) by auto
    obtain v t' where c: "log_update ?c (bm_set bi) s = Ok v" "bzero ROOTDEV (?b + bi) v = Ok t'"
      "tx_idle t'" "layout_ok t'" "tx_room t' n" "tx_same s t'" "cur t' = take_block (sb s) (?b + bi) (cur s)"
      using claim_block[OF idle l room fresh, unfolded e] .
    have "kbind (log_write i (upd_data i (bm_set bi) s1)) (brelse i) = Ok v" using c(1) o(9) by simp
    then obtain w where w: "log_write i (upd_data i (bm_set bi) s1) = Ok w" "brelse i w = Ok v"
      by (auto simp: kbind_eq_Ok)
    show ?thesis
      using o(1,2) w c(2-) Some fresh least unfolding upt by (auto simp: sb1 alloc_post_def)
  qed
qed

lemma balloc_spec:
  assumes "tx_idle s" "layout_ok s" "tx_room s (Suc (Suc n))"
  shows "returns (balloc ROOTDEV s)
    (alloc_post s n (\<lambda>r. \<forall>b<r. used (sb s) (cur s) b) (\<exists>b < sb_size (sb s). \<not> used (sb s) (cur s) b))"
  using balloc_loop_spec[OF assms, of 0] by (simp add: balloc_def)

lemma bfree_spec:
  assumes idle: "tx_idle s" and l: "layout_ok s" and room: "tx_room s (Suc n)"
    and b: "data_start (sb s) \<le> b" "b < sb_size (sb s)"
  shows "if used (sb s) (cur s) b
    then returns (bfree ROOTDEV b s) (\<lambda>t. tx_idle t \<and> layout_ok t \<and> tx_room t n \<and> tx_same s t \<and>
           cur t = drop_block (sb s) b (cur s))
    else bfree ROOTDEV b s = Panic ''freeing free block''"
proof -
  let ?c = "BBLOCK b (sb s)"
  obtain i s1 t where o: "bread ROOTDEV ?c s = Ok (i, s1)" "bdata s1 i = cur s ?c"
    "bio_frame s s1" "brelse i s1 = Ok t" "tx_idle t" "cur t = cur s" "lh_n t = lh_n s" "tx_same s t"
    "\<forall>f. log_update ?c f s = kbind (log_write i (upd_data i f s1)) (brelse i)"
    using tx_open[OF idle] .
  have "bnorm (bm_clear (b mod BPB) (cur s ?c))"
    by (rule bm_norm) (simp_all add: tx_idle_norm[OF idle])
  from tx_update[where f = "bm_clear (b mod BPB)", OF idle room BBLOCK_range(2)[OF l b(2)] this] obtain u where
    u: "log_update ?c (bm_clear (b mod BPB)) s = Ok u" "tx_idle u" "tx_room u n" "tx_same s u"
      "cur u = (cur s)(?c := bm_clear (b mod BPB) (cur s ?c))" .
  have c: "cur u = drop_block (sb s) b (cur s)" by (simp add: u(5) drop_block_def)
  have "layout_ok u" by (rule layout_same[OF l u(4)]) (use l b(1) in \<open>auto simp: c used_drop layout_ok_def\<close>)
  then show ?thesis using o u c by (simp add: bfree_def used_def)
qed

section \<open>Properties\<close>

lemma bm_take_other:
  assumes "data_start sp \<le> b" "\<And>c. c < n \<Longrightarrow> BBLOCK c sp < data_start sp"
  shows "c < n \<Longrightarrow> used sp (take_block sp b v) c \<longleftrightarrow> c = b \<or> used sp v c"
  using assms by (intro used_take) fastforce

text \<open>
  C21. \<^verbatim>\<open>balloc\<close>. If no block is free it returns 0 and changes nothing. Otherwise it
  returns the lowest block whose bit is clear, which is a data block; the block now reads as
  zeros, its bit and no other is set in the bitmap, and every block but this one and its
  bitmap block keeps its content.
\<close>

theorem balloc_correct:
  assumes idle: "tx_idle s" and l: "layout_ok s" and room: "tx_room s 2"
  shows "\<exists>b t. balloc ROOTDEV s = Ok (b, t) \<and> layout_ok t \<and> disk t = disk s \<and>
    (if \<forall>c < sb_size (sb s). used (sb s) (cur s) c then b = 0 \<and> cur t = cur s
     else data_start (sb s) \<le> b \<and> b < sb_size (sb s) \<and>
       \<not> used (sb s) (cur s) b \<and> (\<forall>c<b. used (sb s) (cur s) c) \<and> cur t b = (\<lambda>_. 0) \<and>
       (\<forall>c < sb_size (sb s). used (sb t) (cur t) c \<longleftrightarrow> c = b \<or> used (sb s) (cur s) c) \<and>
       (\<forall>c. c \<noteq> b \<and> c \<noteq> BBLOCK b (sb s) \<longrightarrow> cur t c = cur s c))"
proof -
  have "tx_room s (Suc (Suc 0))" using room by (simp add: numeral_2_eq_2)
  from balloc_spec[OF idle l this] obtain b t where bt: "balloc ROOTDEV s = Ok (b, t)"
    and post: "alloc_post s 0 (\<lambda>r. \<forall>b<r. used (sb s) (cur s) b) (\<exists>b < sb_size (sb s). \<not> used (sb s) (cur s) b) (b, t)"
    by (auto simp: returns_def)
  have t: "layout_ok t" "disk t = disk s" "sb t = sb s"
    using post tx_same_fs(1)[of s t] by (auto simp: alloc_post_def tx_same_def)
  show ?thesis
  proof (cases "\<forall>c < sb_size (sb s). used (sb s) (cur s) c")
    case True
    then show ?thesis using bt post t by (auto simp: alloc_post_def)
  next
    case False
    then have b: "b < sb_size (sb s)" "\<not> used (sb s) (cur s) b" "\<forall>c<b. used (sb s) (cur s) c"
      "cur t = take_block (sb s) b (cur s)" using post by (auto simp: alloc_post_def)
    have d: "data_start (sb s) \<le> b" by (rule layout_free[OF l b(2)])
    have "used (sb t) (cur t) c \<longleftrightarrow> c = b \<or> used (sb s) (cur s) c" if "c < sb_size (sb s)" for c
      unfolding b(4) t(3) by (rule bm_take_other[OF d BBLOCK_range(1)[OF l] that])
    moreover have "cur t b = (\<lambda>_. 0)" "\<forall>c. c \<noteq> b \<and> c \<noteq> BBLOCK b (sb s) \<longrightarrow> cur t c = cur s c"
      by (simp_all add: b(4) take_block_def)
    ultimately show ?thesis using bt t b(1-3) d False by auto
  qed
qed

text \<open>
  C22. \<^verbatim>\<open>bfree\<close>. Freeing a data block whose bit is set clears that bit, no other bit
  and no other block; freeing a block that is free panics.
\<close>

theorem bfree_correct:
  assumes idle: "tx_idle s" and l: "layout_ok s" and room: "tx_room s 1"
    and b: "data_start (sb s) \<le> b" "b < sb_size (sb s)"
  shows "if used (sb s) (cur s) b
    then \<exists>t. bfree ROOTDEV b s = Ok t \<and> layout_ok t \<and>
      (\<forall>c. used (sb t) (cur t) c \<longleftrightarrow> c \<noteq> b \<and> used (sb s) (cur s) c) \<and>
      (\<forall>c. c \<noteq> BBLOCK b (sb s) \<longrightarrow> cur t c = cur s c)
    else bfree ROOTDEV b s = Panic ''freeing free block''"
proof -
  have "tx_room s (Suc 0)" using room by simp
  from bfree_spec[OF idle l this b] show ?thesis
    by (auto simp: returns_def tx_same_fs used_drop) (simp add: drop_block_def)
qed

section \<open>Witnesses\<close>

text \<open>A disk of 64 blocks: the log at 2, inodes at 33, the bitmap at 35, data from 36.\<close>

definition mini_sb :: superblock where
  "mini_sb = \<lparr>sb_magic = FSMAGIC, sb_version = 2, sb_size = 64, sb_nblocks = 28, sb_ninodes = 8,
     sb_nlog = 31, sb_logstart = 2, sb_inodestart = 33, sb_bmapstart = 35, sb_blocksz_exp = 10,
     sb_checksum_alg = 1, sb_data_csum = 1, sb_log_segments = 1, sb_quota_start = 0, sb_quota_blocks = 0\<rparr>"

definition mini_disk :: "nat \<Rightarrow> bytes" where
  "mini_disk = (\<lambda>_ _. 0)(35 := (\<lambda>k. if k < 4 then 255 else if k = 4 then 15 else 0))"

definition zero_inode :: inode where
  "zero_inode = \<lparr>i_dev = 0, i_inum = 0, i_ref = 0, i_lock = \<lparr>sl_locked = False, sl_pid = 0\<rparr>, i_valid = False,
     i_type = 0, i_major = 0, i_minor = 0, i_nlink = 0, i_size = 0, i_flags = 0, i_checksum = 0,
     i_extents = (\<lambda>_. \<lparr>ext_start = 0, ext_len = 0\<rparr>),
     i_cache = \<lparr>dc_valid = False, dc_size_snapshot = 0, dc_nentries = 0, dc_truncated = False,
       dc_entries = (\<lambda>_. \<lparr>dce_name = (\<lambda>_. 0), dce_inum = 0, dce_off = 0\<rparr>)\<rparr>\<rparr>"

definition mini_fs :: fs_state where
  "mini_fs = (log_boot (fs_state.fields mini_sb (\<lambda>_. zero_inode)) mini_disk)\<lparr>log_outstanding := 1\<rparr>"

lemma mini_disk_norm: "bnorm (mini_disk b)"
  by (simp add: mini_disk_def bnorm_def BSIZE_def)

lemma mini_fs_simps [simp]:
  "sb mini_fs = mini_sb" "log_start mini_fs = 2" "lh_n mini_fs = 0" "disk mini_fs = mini_disk"
  "itable mini_fs = (\<lambda>_. zero_inode)"
  by (simp_all add: mini_fs_def log_boot_def binit_eq fs_state.fields_def)

lemma mini_fs_idle: "tx_idle mini_fs"
proof -
  have "log_inv (log_boot (fs_state.fields mini_sb (\<lambda>_. zero_inode)) mini_disk)"
    by (rule log_boot_log_inv) (simp_all add: mini_disk_norm, simp add: mini_disk_def)
  then show ?thesis
    by (simp add: tx_idle_def in_tx_def mini_fs_def log_boot_simps NBUF_def)
qed

lemma mini_fs_cur: "cur mini_fs = mini_disk"
proof -
  have "logged mini_fs = {}" by (simp add: logged_def)
  then show ?thesis
    using bio_clean[of "logged mini_fs" mini_fs] mini_fs_idle in_txD(1)[of mini_fs]
    by (auto simp: tx_idle_def)
qed

lemma mini_used: "b < 64 \<Longrightarrow> used mini_sb mini_disk b \<longleftrightarrow> b < 36"
proof -
  assume b: "b < 64"
  have m: "(255 :: byte) = mask 8" "(15 :: byte) = mask 4" by (simp_all add: mask_eq_exp_minus_1)
  have "BBLOCK b mini_sb = 35" "b mod BPB = b" using b by (simp_all add: BBLOCK_def mini_sb_def BPB_def BSIZE_def)
  then have "used mini_sb mini_disk b \<longleftrightarrow> b div 8 < 4 \<or> b div 8 = 4 \<and> b mod 8 < 4"
    by (auto simp: used_def bm_bit_def mini_disk_def m bit_mask_iff)
  also have "\<dots> \<longleftrightarrow> b < 36" by presburger
  finally show ?thesis .
qed

lemma mini_sb_simps:
  "sb_size mini_sb = 64" "sb_logstart mini_sb = 2" "sb_inodestart mini_sb = 33" "sb_ninodes mini_sb = 8"
  "sb_bmapstart mini_sb = 35" "data_start mini_sb = 36"
  by (simp_all add: mini_sb_def data_start_def BPB_def BSIZE_def)

lemma mini_fs_layout: "layout_ok mini_fs"
  by (simp add: layout_ok_def mini_fs_cur mini_used mini_sb_simps LOGBLOCKS_def IPB_def DINODE_SIZE_def
      NEXTENT_def BSIZE_def)

lemma mini_fs_room: "n < 30 \<Longrightarrow> tx_room mini_fs n"
  by (simp add: tx_room_def NBUF_def)

theorem balloc_correct_witness:
  "tx_idle mini_fs \<and> layout_ok mini_fs \<and> tx_room mini_fs 2 \<and>
   (\<exists>t. balloc ROOTDEV mini_fs = Ok (36, t) \<and> cur t 36 = (\<lambda>_. 0) \<and> used (sb t) (cur t) 36)"
proof -
  have room: "tx_room mini_fs 2" by (simp add: mini_fs_room)
  have "\<not> used (sb mini_fs) (cur mini_fs) 36" by (simp add: mini_fs_cur mini_used)
  with balloc_correct[OF mini_fs_idle mini_fs_layout room] obtain b t where
    t: "balloc ROOTDEV mini_fs = Ok (b, t)" "36 \<le> b" "b < 64" "\<forall>c<b. used mini_sb mini_disk c"
      "cur t b = (\<lambda>_. 0)" "\<forall>c<64. used (sb t) (cur t) c \<longleftrightarrow> c = b \<or> used mini_sb mini_disk c"
    by (auto simp: mini_fs_cur mini_sb_simps split: if_splits)
  moreover have "b = 36"
  proof (rule ccontr)
    assume "b \<noteq> 36"
    then have "36 < b" using t(2) by simp
    then show False using t(4) mini_used[of 36] by simp
  qed
  ultimately show ?thesis using mini_fs_idle mini_fs_layout room by auto
qed

theorem bfree_correct_witness:
  "tx_idle mini_fs \<and> layout_ok mini_fs \<and> bfree ROOTDEV 40 mini_fs = Panic ''freeing free block''"
  using bfree_correct[OF mini_fs_idle mini_fs_layout, of 40] mini_fs_idle mini_fs_layout
  by (simp add: mini_fs_room mini_sb_simps mini_fs_cur mini_used)

end
