(* ===== verification/Fs_Inode.thy ===== *)
theory Fs_Inode
  imports Fs_Block
begin

text \<open>
  Inodes, \<^verbatim>\<open>kernel/fs.c\<close>: the inode table, the inodes on disk, the extents that
  map a file to its blocks, file contents and their checksum.

  A pointer to an in-memory inode is its slot in the table, so it is never null; a routine
  that may return a null pointer returns an option. An inode on disk is \<open>DINODE_SIZE\<close>
  bytes of block \<open>IBLOCK i\<close> (four 16-bit fields, size, checksum, extents).
\<close>

section \<open>Inodes on disk\<close>

definition T_DIR :: int where "T_DIR = 1"
definition T_FILE :: int where "T_FILE = 2"
definition T_DEVICE :: int where "T_DEVICE = 3"

text \<open>A 16-bit field read as a \<^verbatim>\<open>short\<close>, and the bits of a \<^verbatim>\<open>short\<close>.\<close>

definition s16 :: "nat \<Rightarrow> int" where
  "s16 n = (if n < 2 ^ 15 then int n else int n - 2 ^ 16)"

definition u16 :: "int \<Rightarrow> nat" where
  "u16 v = nat (v mod 2 ^ 16)"

definition din_off :: "nat \<Rightarrow> nat" where
  "din_off inum = inum mod IPB * DINODE_SIZE"

definition din_type :: "bytes \<Rightarrow> nat \<Rightarrow> int" where
  "din_type m o1 = s16 (get_le 2 m o1)"

definition din_nlink :: "bytes \<Rightarrow> nat \<Rightarrow> int" where
  "din_nlink m o1 = s16 (get_le 2 m (o1 + 6))"

text \<open>The extents of an inode at an offset of a block, read and written.\<close>

definition din_extents :: "bytes \<Rightarrow> nat \<Rightarrow> (nat \<Rightarrow> extent) \<Rightarrow> nat \<Rightarrow> extent" where
  "din_extents m o1 es k =
     (if k < NEXTENT
      then \<lparr>ext_start = get_le 4 m (o1 + 16 + 8 * k), ext_len = get_le 4 m (o1 + 20 + 8 * k)\<rparr>
      else es k)"

definition put_extent :: "nat \<Rightarrow> (nat \<Rightarrow> extent) \<Rightarrow> nat \<Rightarrow> bytes \<Rightarrow> bytes" where
  "put_extent o1 es k m =
     put_le 4 (put_le 4 m (o1 + 16 + 8 * k) (ext_start (es k))) (o1 + 20 + 8 * k) (ext_len (es k))"

text \<open>The assignments of \<^verbatim>\<open>ilock\<close> and \<^verbatim>\<open>iupdate\<close> between an inode and its disk copy.\<close>

definition din_load :: "bytes \<Rightarrow> nat \<Rightarrow> inode \<Rightarrow> inode" where
  "din_load m o1 ip = ip\<lparr>i_type := s16 (get_le 2 m o1), i_major := s16 (get_le 2 m (o1 + 2)),
     i_minor := s16 (get_le 2 m (o1 + 4)), i_nlink := s16 (get_le 2 m (o1 + 6)),
     i_size := get_le 4 m (o1 + 8), i_checksum := get_le 4 m (o1 + 12),
     i_extents := din_extents m o1 (i_extents ip),
     i_cache := (i_cache ip)\<lparr>dc_valid := False, dc_truncated := False, dc_nentries := 0\<rparr>\<rparr>"

definition din_store :: "nat \<Rightarrow> inode \<Rightarrow> bytes \<Rightarrow> bytes" where
  "din_store o1 ip m =
     (let m = put_le 2 m o1 (u16 (i_type ip));
          m = put_le 2 m (o1 + 2) (u16 (i_major ip));
          m = put_le 2 m (o1 + 4) (u16 (i_minor ip));
          m = put_le 2 m (o1 + 6) (u16 (i_nlink ip));
          m = put_le 4 m (o1 + 8) (i_size ip);
          m = put_le 4 m (o1 + 12) (i_checksum ip)
      in fold (put_extent o1 (i_extents ip)) [0..<NEXTENT] m)"

section \<open>The inode table\<close>

definition upd_inode :: "nat \<Rightarrow> (inode \<Rightarrow> inode) \<Rightarrow> 'a fs_state_scheme \<Rightarrow> 'a fs_state_scheme" where
  "upd_inode ip f s = s\<lparr>itable := (itable s)(ip := f (itable s ip))\<rparr>"

definition iinit :: "'a fs_state_scheme \<Rightarrow> 'a fs_state_scheme" where
  "iinit s = fold (\<lambda>i. upd_inode i (\<lambda>ip. ip\<lparr>i_lock := initsleeplock\<rparr>)) [0..<NINODE] s"

definition iget :: "nat \<Rightarrow> nat \<Rightarrow> 'a fs_state_scheme \<Rightarrow> (nat \<times> 'a fs_state_scheme) kres" where
  "iget dev inum s =
     (case find (\<lambda>i. 0 < i_ref (itable s i) \<and> i_dev (itable s i) = dev \<and> i_inum (itable s i) = inum) [0..<NINODE] of
        Some i \<Rightarrow> Ok (i, upd_inode i (\<lambda>ip. ip\<lparr>i_ref := i_ref ip + 1\<rparr>) s)
      | None \<Rightarrow>
          (case find (\<lambda>i. i_ref (itable s i) = 0) [0..<NINODE] of
             None \<Rightarrow> Panic ''iget: no inodes''
           | Some i \<Rightarrow> Ok (i, upd_inode i (\<lambda>ip. ip\<lparr>i_dev := dev, i_inum := inum, i_ref := 1, i_valid := False\<rparr>) s)))"

definition idup :: "nat \<Rightarrow> 'a fs_state_scheme \<Rightarrow> nat \<times> 'a fs_state_scheme" where
  "idup ip s = (ip, upd_inode ip (\<lambda>ip. ip\<lparr>i_ref := i_ref ip + 1\<rparr>) s)"

text \<open>The loop of \<^verbatim>\<open>ialloc\<close> over the inode numbers.\<close>

fun ialloc_loop :: "nat list \<Rightarrow> nat \<Rightarrow> int \<Rightarrow> 'a fs_state_scheme \<Rightarrow> (nat option \<times> 'a fs_state_scheme) kres" where
  "ialloc_loop [] dev type s = Ok (None, s)"
| "ialloc_loop (inum # is) dev type s =
     kbind (bread dev (IBLOCK inum (sb s)) s) (\<lambda>(i, s).
       let o1 = din_off inum in
       if din_type (bdata s i) o1 = 0 then
         kbind (log_write i (upd_data i (\<lambda>m.
                  put_le 4 (put_le 2 (memset m o1 0 DINODE_SIZE) o1 (u16 type)) (o1 + 12) 1) s)) (\<lambda>s.
         kbind (brelse i s) (\<lambda>s.
         kbind (iget dev inum s) (\<lambda>(ip, s). Ok (Some ip, s))))
       else kbind (brelse i s) (ialloc_loop is dev type))"

definition ialloc :: "nat \<Rightarrow> int \<Rightarrow> 'a fs_state_scheme \<Rightarrow> (nat option \<times> 'a fs_state_scheme) kres" where
  "ialloc dev type s = ialloc_loop [1..<sb_ninodes (sb s)] dev type s"

definition iupdate :: "nat \<Rightarrow> 'a fs_state_scheme \<Rightarrow> 'a fs_state_scheme kres" where
  "iupdate ip s =
     (let n = itable s ip in
      kbind (bread (i_dev n) (IBLOCK (i_inum n) (sb s)) s) (\<lambda>(i, s).
      kbind (log_write i (upd_data i (din_store (din_off (i_inum n)) n) s)) (\<lambda>s.
      brelse i s)))"

definition ilock :: "nat \<Rightarrow> 'a fs_state_scheme \<Rightarrow> 'a fs_state_scheme kres" where
  "ilock ip s =
     (if i_ref (itable s ip) < 1 then Panic ''ilock''
      else kbind (acquiresleep (ChanInodeLock ip) (i_lock (itable s ip)) s) (\<lambda>lk.
        let s = upd_inode ip (\<lambda>ip. ip\<lparr>i_lock := lk\<rparr>) s; n = itable s ip in
        if i_valid n then Ok s
        else kbind (bread (i_dev n) (IBLOCK (i_inum n) (sb s)) s) (\<lambda>(i, s).
          let s = upd_inode ip (din_load (bdata s i) (din_off (i_inum n))) s in
          kbind (brelse i s) (\<lambda>s.
          let s = upd_inode ip (\<lambda>ip. ip\<lparr>i_valid := True\<rparr>) s in
          if i_type (itable s ip) = 0 then Panic ''ilock: no type'' else Ok s))))"

definition iunlock :: "nat \<Rightarrow> 'a fs_state_scheme \<Rightarrow> 'a fs_state_scheme kres" where
  "iunlock ip s =
     kbind (holdingsleep (i_lock (itable s ip)) s) (\<lambda>h.
       if \<not> h \<or> i_ref (itable s ip) < 1 then Panic ''iunlock''
       else case releasesleep (ChanInodeLock ip) (i_lock (itable s ip)) s of (lk, s) \<Rightarrow>
         Ok (upd_inode ip (\<lambda>ip. ip\<lparr>i_lock := lk\<rparr>) s))"

section \<open>Extents\<close>

definition extent_append :: "inode \<Rightarrow> nat \<Rightarrow> inode option" where
  "extent_append ip newb =
     (case find (\<lambda>k. ext_len (i_extents ip k) = 0) [0..<NEXTENT] of
        Some k \<Rightarrow> Some (ip\<lparr>i_extents := (i_extents ip)(k := \<lparr>ext_start = newb, ext_len = 1\<rparr>)\<rparr>)
      | None \<Rightarrow>
          (case find (\<lambda>k. ext_len (i_extents ip k) \<noteq> 0) (rev [0..<NEXTENT]) of
             None \<Rightarrow> None
           | Some k \<Rightarrow>
               let e = i_extents ip k in
               if ext_start e + ext_len e = newb
               then Some (ip\<lparr>i_extents := (i_extents ip)(k := e\<lparr>ext_len := ext_len e + 1\<rparr>)\<rparr>)
               else None))"

text \<open>
  The first loop of \<^verbatim>\<open>bmap\<close>, from extent \<open>k\<close> on: the block of \<open>bn\<close>, or
  the number of blocks passed with the last extent seen.
\<close>

fun bmap_find ::
    "nat list \<Rightarrow> (nat \<Rightarrow> extent) \<Rightarrow> nat \<Rightarrow> nat \<Rightarrow> nat \<Rightarrow> nat \<Rightarrow> nat + (nat \<times> nat \<times> nat)" where
  "bmap_find [] es bn base last_start last_len = Inr (base, last_start, last_len)"
| "bmap_find (k # ks) es bn base last_start last_len =
     (let len = ext_len (es k) in
      if len = 0 then bmap_find ks es bn base last_start last_len
      else if bn < base + len then Inl (ext_start (es k) + (bn - base))
      else bmap_find ks es bn (base + len) (ext_start (es k)) len)"

text \<open>The loop that finds the tail again after a block was appended.\<close>

definition last_extent :: "(nat \<Rightarrow> extent) \<Rightarrow> nat \<Rightarrow> nat \<Rightarrow> nat \<times> nat" where
  "last_extent es nb last_len =
     fold (\<lambda>k l. if ext_len (es k) \<noteq> 0 then (ext_start (es k), ext_len (es k)) else l) [0..<NEXTENT]
       (nb, if ext_len (es 0) \<noteq> 0 then ext_len (es 0) else last_len)"

text \<open>The second loop, which allocates; \<open>n\<close> is the number of blocks up to \<open>bn\<close> still missing.\<close>

fun bmap_alloc ::
    "nat \<Rightarrow> nat \<Rightarrow> nat \<Rightarrow> nat \<Rightarrow> nat \<Rightarrow> nat \<Rightarrow> 'a fs_state_scheme \<Rightarrow> (nat \<times> 'a fs_state_scheme) kres" where
  "bmap_alloc 0 ip bn base last_start last_len s = Panic ''bmap: unreachable''"
| "bmap_alloc (Suc n) ip bn base last_start last_len s =
     (let dev = i_dev (itable s ip) in
      kbind (if 0 < last_len then balloc_prefer dev (last_start + last_len) s else Ok (0, s)) (\<lambda>(nb, s).
      kbind (if nb = 0 then balloc dev s else Ok (nb, s)) (\<lambda>(nb, s).
      if nb = 0 then Ok (0, s)
      else case extent_append (itable s ip) nb of
        None \<Rightarrow> Panic ''bmap: extent overflow''
      | Some n1 \<Rightarrow>
          let s = upd_inode ip (\<lambda>_. n1) s;
              (last_start, last_len) = last_extent (i_extents n1) nb last_len
          in if base = bn then Ok (nb, s)
             else bmap_alloc n ip bn (base + 1) last_start last_len s)))"

definition bmap :: "nat \<Rightarrow> nat \<Rightarrow> 'a fs_state_scheme \<Rightarrow> (nat \<times> 'a fs_state_scheme) kres" where
  "bmap ip bn s =
     (case bmap_find [0..<NEXTENT] (i_extents (itable s ip)) bn 0 0 0 of
        Inl b \<Rightarrow> Ok (b, s)
      | Inr (base, last_start, last_len) \<Rightarrow> bmap_alloc (bn + 1 - base) ip bn base last_start last_len s)"

definition itrunc :: "nat \<Rightarrow> 'a fs_state_scheme \<Rightarrow> 'a fs_state_scheme kres" where
  "itrunc ip s =
     kbind (kfold (\<lambda>k s.
         let e = i_extents (itable s ip) k in
         if ext_len e = 0 then Ok s
         else kbind (kfold (\<lambda>b s. bfree (i_dev (itable s ip)) (ext_start e + b) s) [0..<ext_len e] s) (\<lambda>s.
           Ok (upd_inode ip (\<lambda>n. n\<lparr>i_extents := (i_extents n)(k := \<lparr>ext_start = 0, ext_len = 0\<rparr>)\<rparr>) s)))
       [0..<NEXTENT] s) (\<lambda>s.
     iupdate ip (upd_inode ip (\<lambda>n. n\<lparr>i_size := 0, i_checksum := 1,
       i_cache := (i_cache n)\<lparr>dc_valid := False, dc_truncated := False, dc_nentries := 0\<rparr>\<rparr>) s))"

definition iput :: "nat \<Rightarrow> 'a fs_state_scheme \<Rightarrow> 'a fs_state_scheme kres" where
  "iput ip s =
     kbind (let n = itable s ip in
       if i_ref n = 1 \<and> i_valid n \<and> i_nlink n = 0 then
         kbind (acquiresleep (ChanInodeLock ip) (i_lock n) s) (\<lambda>lk.
         kbind (itrunc ip (upd_inode ip (\<lambda>n. n\<lparr>i_lock := lk\<rparr>) s)) (\<lambda>s.
         kbind (iupdate ip (upd_inode ip (\<lambda>n. n\<lparr>i_type := 0\<rparr>) s)) (\<lambda>s.
         let s = upd_inode ip (\<lambda>n. n\<lparr>i_valid := False\<rparr>) s in
         case releasesleep (ChanInodeLock ip) (i_lock (itable s ip)) s of (lk, s) \<Rightarrow>
           Ok (upd_inode ip (\<lambda>n. n\<lparr>i_lock := lk\<rparr>) s))))
       else Ok s)
     (\<lambda>s. Ok (upd_inode ip (\<lambda>n. n\<lparr>i_ref := i_ref n - 1\<rparr>) s))"

definition iunlockput :: "nat \<Rightarrow> 'a fs_state_scheme \<Rightarrow> 'a fs_state_scheme kres" where
  "iunlockput ip s = kbind (iunlock ip s) (iput ip)"

definition ireclaim :: "nat \<Rightarrow> 'a fs_state_scheme \<Rightarrow> 'a fs_state_scheme kres" where
  "ireclaim dev s =
     kfold (\<lambda>inum s.
       kbind (bread dev (IBLOCK inum (sb s)) s) (\<lambda>(i, s).
       let m = bdata s i; o1 = din_off inum in
       kbind (if din_type m o1 \<noteq> 0 \<and> din_nlink m o1 = 0
              then kbind (iget dev inum s) (\<lambda>(ip, s). Ok (Some ip, s)) else Ok (None, s)) (\<lambda>(r, s).
       kbind (brelse i s) (\<lambda>s.
       case r of
         None \<Rightarrow> Ok s
       | Some ip \<Rightarrow>
           kbind (begin_op s) (\<lambda>s. kbind (ilock ip s) (\<lambda>s. kbind (iunlock ip s) (\<lambda>s.
           kbind (iput ip s) end_op))))))) [1..<sb_ninodes (sb s)] s"

definition fsinit :: "nat \<Rightarrow> 'a fs_state_scheme \<Rightarrow> 'a fs_state_scheme kres" where
  "fsinit dev s =
     kbind (readsb dev s) (\<lambda>s.
     if sb_magic (sb s) \<noteq> FSMAGIC then Panic ''invalid file system''
     else kbind (initlog dev (sb_logstart (sb s)) s) (ireclaim dev))"

section \<open>Contents\<close>

definition adler32_update :: "nat \<Rightarrow> byte list \<Rightarrow> nat" where
  "adler32_update adler data =
     (let (a, b) = fold (\<lambda>d (a, b). let a = (a + unat d) mod 65521 in (a, (b + a) mod 65521)) data
                     (adler mod 2 ^ 16, adler div 2 ^ 16 mod 2 ^ 16)
      in b * 2 ^ 16 + a)"

text \<open>The loop of \<^verbatim>\<open>inode_checksum\<close> over the blocks of the file.\<close>

fun checksum_loop :: "nat list \<Rightarrow> nat \<Rightarrow> nat \<Rightarrow> nat \<Rightarrow> 'a fs_state_scheme \<Rightarrow> (nat \<times> 'a fs_state_scheme) kres" where
  "checksum_loop [] ip blocks adler s = Ok (adler, s)"
| "checksum_loop (bn # bns) ip blocks adler s =
     kbind (bmap ip bn s) (\<lambda>(addr, s).
     if addr = 0 then Ok (adler, s)
     else kbind (bread (i_dev (itable s ip)) addr s) (\<lambda>(i, s).
       let chunk = (if bn = blocks - 1 then i_size (itable s ip) - bn * BSIZE else BSIZE);
           adler = adler32_update adler (slice_bytes (bdata s i) 0 chunk)
       in kbind (brelse i s) (checksum_loop bns ip blocks adler)))"

definition inode_checksum :: "nat \<Rightarrow> 'a fs_state_scheme \<Rightarrow> (nat \<times> 'a fs_state_scheme) kres" where
  "inode_checksum ip s =
     (let n = itable s ip in
      if i_type n \<noteq> T_FILE \<and> i_type n \<noteq> T_DIR then Ok (1, s)
      else let blocks = (i_size n + BSIZE - 1) div BSIZE in checksum_loop [0..<blocks] ip blocks 1 s)"

definition verify_inode_checksum :: "nat \<Rightarrow> 'a fs_state_scheme \<Rightarrow> 'a fs_state_scheme kres" where
  "verify_inode_checksum ip s =
     (let n = itable s ip in
      if i_type n \<noteq> T_FILE \<and> i_type n \<noteq> T_DIR then Ok s
      else kbind (inode_checksum ip s) (\<lambda>(calc, s).
        Ok (if calc \<noteq> i_checksum (itable s ip) then s\<lparr>bio_checksum_errors := bio_checksum_errors s + 1\<rparr> else s)))"

definition stati :: "nat \<Rightarrow> 'a fs_state_scheme \<Rightarrow> nat \<times> nat \<times> int \<times> int \<times> nat" where
  "stati ip s = (let n = itable s ip in (i_dev n, i_inum n, i_type n, i_nlink n, i_size n))"

text \<open>
  The loops of \<^verbatim>\<open>readi\<close> and \<^verbatim>\<open>writei\<close>. The count \<open>tot\<close> is -1 once a
  copy to the reader failed.
\<close>

function readi_loop ::
    "nat \<Rightarrow> cbuf \<Rightarrow> nat \<Rightarrow> nat \<Rightarrow> nat \<Rightarrow> 'a fs_state_scheme \<Rightarrow> (int \<times> cbuf \<times> 'a fs_state_scheme) kres" where
  "readi_loop ip dst off n tot s =
     (if n \<le> tot then Ok (int tot, dst, s)
      else kbind (bmap ip (off div BSIZE) s) (\<lambda>(addr, s).
        if addr = 0 then Ok (int tot, dst, s)
        else kbind (bread (i_dev (itable s ip)) addr s) (\<lambda>(i, s).
          let m = min (n - tot) (BSIZE - off mod BSIZE) in
          kbind (either_copyout dst (bdata s i) (off mod BSIZE) m s) (\<lambda>(r, dst, s).
          kbind (brelse i s) (\<lambda>s.
          if r = -1 then Ok (-1, dst, s)
          else readi_loop ip (cbuf_add dst m) (off + m) n (tot + m) s)))))"
  by pat_completeness auto
termination readi_loop
  by (relation "measure (\<lambda>(ip, dst, off, n, tot, s). n - tot)")
    (auto simp: min_def BSIZE_def intro!: diff_less_mono2)

definition readi ::
    "nat \<Rightarrow> cbuf \<Rightarrow> nat \<Rightarrow> nat \<Rightarrow> 'a fs_state_scheme \<Rightarrow> (int \<times> cbuf \<times> 'a fs_state_scheme) kres" where
  "readi ip dst off n s =
     (let size = i_size (itable s ip) in
      if size < off \<or> (off + n) mod 2 ^ 32 < off then Ok (0, dst, s)
      else let n = (if size < off + n then size - off else n) in
        kbind (readi_loop ip dst off n 0 s) (\<lambda>(tot, dst, s).
        kbind (if off = 0 \<and> nat (tot mod 2 ^ 32) = i_size (itable s ip) then verify_inode_checksum ip s else Ok s) (\<lambda>s.
        Ok (tot, dst, s))))"

function writei_loop ::
    "nat \<Rightarrow> cbuf \<Rightarrow> nat \<Rightarrow> nat \<Rightarrow> nat \<Rightarrow> 'a fs_state_scheme \<Rightarrow> (nat \<times> nat \<times> 'a fs_state_scheme) kres" where
  "writei_loop ip src off n tot s =
     (if n \<le> tot then Ok (tot, off, s)
      else kbind (bmap ip (off div BSIZE) s) (\<lambda>(addr, s).
        if addr = 0 then Ok (tot, off, s)
        else kbind (bread (i_dev (itable s ip)) addr s) (\<lambda>(i, s).
          let m = min (n - tot) (BSIZE - off mod BSIZE) in
          kbind (either_copyin (bdata s i) (off mod BSIZE) src m s) (\<lambda>(r, b, s).
          let s = upd_data i (\<lambda>_. b) s in
          if r = -1 then kbind (brelse i s) (\<lambda>s. Ok (tot, off, s))
          else kbind (log_write i s) (\<lambda>s.
               kbind (brelse i s) (\<lambda>s.
               writei_loop ip (cbuf_add src m) (off + m) n (tot + m) s))))))"
  by pat_completeness auto
termination writei_loop
  by (relation "measure (\<lambda>(ip, dst, off, n, tot, s). n - tot)")
    (auto simp: min_def BSIZE_def intro!: diff_less_mono2)

declare readi_loop.simps [simp del] writei_loop.simps [simp del]

definition writei ::
    "nat \<Rightarrow> cbuf \<Rightarrow> nat \<Rightarrow> nat \<Rightarrow> 'a fs_state_scheme \<Rightarrow> (int \<times> 'a fs_state_scheme) kres" where
  "writei ip src off n s =
     (if i_size (itable s ip) < off \<or> (off + n) mod 2 ^ 32 < off then Ok (-1, s)
      else if MAXFILE * BSIZE < off + n then Ok (-1, s)
      else kbind (writei_loop ip src off n 0 s) (\<lambda>(tot, off, s).
        let s = (if i_size (itable s ip) < off then upd_inode ip (\<lambda>n. n\<lparr>i_size := off\<rparr>) s else s);
            s = (if i_type (itable s ip) = T_DIR
                 then upd_inode ip (\<lambda>n. n\<lparr>i_cache := (i_cache n)\<lparr>dc_valid := False, dc_truncated := False,
                                                               dc_nentries := 0\<rparr>\<rparr>) s
                 else s)
        in kbind (if i_type (itable s ip) = T_FILE \<or> i_type (itable s ip) = T_DIR
                  then kbind (inode_checksum ip s) (\<lambda>(c, s). Ok (upd_inode ip (\<lambda>n. n\<lparr>i_checksum := c\<rparr>) s))
                  else Ok s) (\<lambda>s.
           kbind (iupdate ip s) (\<lambda>s. Ok (int tot, s)))))"

section \<open>File-system statistics\<close>

record hai_statfs =
  st_magic :: nat
  st_version :: nat
  st_block_size :: nat
  st_checksum_alg :: nat
  st_data_csum :: nat
  st_size_blocks :: nat
  st_data_blocks :: nat
  st_inode_count :: nat
  st_free_blocks :: nat
  st_used_blocks :: nat
  st_free_inodes :: nat
  st_used_inodes :: nat
  st_io_reads :: nat
  st_io_writes :: nat
  st_checksum_errors :: nat
  st_has_journaling :: nat
  st_has_checksum :: nat
  st_has_quota :: nat
  st_log_start :: nat
  st_log_nblocks :: nat
  st_log_segments :: nat
  st_quota_start :: nat
  st_quota_blocks :: nat

text \<open>The two scans: free blocks of the bitmap, and free and used inodes.\<close>

definition scan_free_blocks :: "'a fs_state_scheme \<Rightarrow> (nat \<times> 'a fs_state_scheme) kres" where
  "scan_free_blocks s =
     kfold (\<lambda>b (freeb, s).
       kbind (bread ROOTDEV (BBLOCK b (sb s)) s) (\<lambda>(i, s).
       let freeb = freeb + length (filter (\<lambda>bi. \<not> bm_bit (bdata s i) bi) [0..<min BPB (sb_size (sb s) - b)])
       in kbind (brelse i s) (\<lambda>s. Ok (freeb, s))))
       (map (\<lambda>k. k * BPB) [0..<(sb_size (sb s) + BPB - 1) div BPB]) (0, s)"

definition scan_inodes :: "'a fs_state_scheme \<Rightarrow> ((nat \<times> nat) \<times> 'a fs_state_scheme) kres" where
  "scan_inodes s =
     kfold (\<lambda>inum ((freei, usedi), s).
       kbind (bread ROOTDEV (IBLOCK inum (sb s)) s) (\<lambda>(i, s).
       let n = min IPB (sb_ninodes (sb s) - inum);
           f = length (filter (\<lambda>ii. din_type (bdata s i) (ii * DINODE_SIZE) = 0) [0..<n])
       in kbind (brelse i s) (\<lambda>s. Ok ((freei + f, usedi + (n - f)), s))))
       (map (\<lambda>k. k * IPB) [0..<(sb_ninodes (sb s) + IPB - 1) div IPB]) ((0, 0), s)"

definition fs_statfs :: "'a fs_state_scheme \<Rightarrow> (hai_statfs \<times> 'a fs_state_scheme) kres" where
  "fs_statfs s =
     kbind (scan_free_blocks s) (\<lambda>(freeb, s).
     kbind (scan_inodes s) (\<lambda>((freei, usedi), s).
     let b = sb s in
     Ok (\<lparr>st_magic = sb_magic b, st_version = sb_version b, st_block_size = BSIZE,
          st_checksum_alg = sb_checksum_alg b, st_data_csum = sb_data_csum b,
          st_size_blocks = sb_size b, st_data_blocks = sb_nblocks b, st_inode_count = sb_ninodes b,
          st_free_blocks = freeb, st_used_blocks = sb_size b - freeb,
          st_free_inodes = freei, st_used_inodes = usedi,
          st_io_reads = bio_io_reads s, st_io_writes = bio_io_writes s,
          st_checksum_errors = bio_checksum_errors s,
          st_has_journaling = 1, st_has_checksum = 1, st_has_quota = 0,
          st_log_start = sb_logstart b, st_log_nblocks = sb_nlog b, st_log_segments = sb_log_segments b,
          st_quota_start = sb_quota_start b, st_quota_blocks = sb_quota_blocks b\<rparr>, s)))"

end
