(* ===== verification/Fs_Dir.thy ===== *)
theory Fs_Dir
  imports Fs_Inode
begin

text \<open>
  Directories and path names, \<^verbatim>\<open>kernel/fs.c\<close>: the directory cache, lookup and
  insertion of entries, and the walk along a path.

  A directory is a file of 16-byte entries: a 16-bit inode number, 0 for an unused entry, and
  a name of \<open>DIRSIZ\<close> bytes, padded with null bytes. A path is the list of its bytes
  before the terminating null byte.
\<close>

section \<open>Entries\<close>

definition DIRENT_SIZE :: nat where "DIRENT_SIZE = 2 + DIRSIZ"

definition namecmp :: "bytes \<Rightarrow> bytes \<Rightarrow> int" where
  "namecmp s t = strncmp s t DIRSIZ"

definition de_inum :: "bytes \<Rightarrow> nat" where "de_inum de = get_le 2 de 0"
definition de_name :: "bytes \<Rightarrow> bytes" where "de_name de i = de (2 + i)"

text \<open>\<^verbatim>\<open>readi(dp, 0, (uint64)&de, off, sizeof(de)) != sizeof(de)\<close> is a panic at every use.\<close>

definition read_de ::
    "string \<Rightarrow> nat \<Rightarrow> nat \<Rightarrow> 'a fs_state_scheme \<Rightarrow> (bytes \<times> 'a fs_state_scheme) kres" where
  "read_de msg dp off s =
     kbind (readi dp (Kern (\<lambda>_. 0) 0) off DIRENT_SIZE s) (\<lambda>(r, d, s).
       if r \<noteq> int DIRENT_SIZE then Panic msg
       else case d of Kern de _ \<Rightarrow> Ok (de, s) | User _ \<Rightarrow> Panic msg)"

definition dir_offs :: "nat \<Rightarrow> nat list" where
  "dir_offs sz = map (\<lambda>k. k * DIRENT_SIZE) [0..<(sz + DIRENT_SIZE - 1) div DIRENT_SIZE]"

section \<open>The directory cache\<close>

text \<open>The loop of \<^verbatim>\<open>dircache_rebuild\<close> over the offsets of the entries.\<close>

fun rebuild_loop :: "nat list \<Rightarrow> nat \<Rightarrow> 'a fs_state_scheme \<Rightarrow> 'a fs_state_scheme kres" where
  "rebuild_loop [] dp s = Ok s"
| "rebuild_loop (off # offs) dp s =
     (if DIRCACHE_MAX \<le> dc_nentries (i_cache (itable s dp))
      then Ok (upd_inode dp (\<lambda>n. n\<lparr>i_cache := (i_cache n)\<lparr>dc_truncated := True\<rparr>\<rparr>) s)
      else kbind (read_de ''dircache rebuild read'' dp off s) (\<lambda>(de, s).
        if de_inum de = 0 then rebuild_loop offs dp s
        else rebuild_loop offs dp (upd_inode dp (\<lambda>n. let c = i_cache n; k = dc_nentries c in
               n\<lparr>i_cache := c\<lparr>dc_nentries := k + 1,
                 dc_entries := (dc_entries c)(k :=
                   \<lparr>dce_name = blit (dce_name (dc_entries c k)) 0 (de_name de) 0 DIRSIZ,
                    dce_inum = de_inum de, dce_off = off\<rparr>)\<rparr>\<rparr>) s)))"

definition dircache_rebuild :: "nat \<Rightarrow> 'a fs_state_scheme \<Rightarrow> 'a fs_state_scheme kres" where
  "dircache_rebuild dp s =
     (let s = upd_inode dp (\<lambda>n. n\<lparr>i_cache := (i_cache n)\<lparr>dc_valid := False, dc_truncated := False,
                dc_size_snapshot := i_size n, dc_nentries := 0\<rparr>\<rparr>) s
      in kbind (rebuild_loop (dir_offs (i_size (itable s dp))) dp s) (\<lambda>s.
         Ok (upd_inode dp (\<lambda>n. n\<lparr>i_cache := (i_cache n)\<lparr>dc_valid := True\<rparr>\<rparr>) s)))"

text \<open>The loop over the cached entries; the result is the inode number and the offset.\<close>

definition cache_find :: "dircache \<Rightarrow> bytes \<Rightarrow> (nat \<times> nat) option" where
  "cache_find c name =
     map_option (\<lambda>k. (dce_inum (dc_entries c k), dce_off (dc_entries c k)))
       (find (\<lambda>k. namecmp name (dce_name (dc_entries c k)) = 0) [0..<dc_nentries c])"

definition dircache_lookup ::
    "nat \<Rightarrow> bytes \<Rightarrow> 'a fs_state_scheme \<Rightarrow> ((nat \<times> nat) option \<times> 'a fs_state_scheme) kres" where
  "dircache_lookup dp name s =
     (let n = itable s dp; c = i_cache n;
          again = kbind (dircache_rebuild dp s) (\<lambda>s. Ok (cache_find (i_cache (itable s dp)) name, s))
      in if dc_valid c \<and> dc_size_snapshot c = i_size n then
           (case cache_find c name of
              Some r \<Rightarrow> Ok (Some r, s)
            | None \<Rightarrow> if \<not> dc_truncated c then Ok (None, s) else again)
         else again)"

section \<open>Lookup and insertion\<close>

text \<open>The loop of \<^verbatim>\<open>dirlookup\<close> over the directory itself.\<close>

fun lookup_loop ::
    "nat list \<Rightarrow> nat \<Rightarrow> bytes \<Rightarrow> 'a fs_state_scheme \<Rightarrow> ((nat \<times> nat) option \<times> 'a fs_state_scheme) kres" where
  "lookup_loop [] dp name s = Ok (None, s)"
| "lookup_loop (off # offs) dp name s =
     kbind (read_de ''dirlookup read'' dp off s) (\<lambda>(de, s).
       if de_inum de = 0 then lookup_loop offs dp name s
       else if namecmp name (de_name de) = 0 then Ok (Some (de_inum de, off), s)
       else lookup_loop offs dp name s)"

definition dirlookup ::
    "nat \<Rightarrow> bytes \<Rightarrow> 'a fs_state_scheme \<Rightarrow> ((nat \<times> nat) option \<times> 'a fs_state_scheme) kres" where
  "dirlookup dp name s =
     (if i_type (itable s dp) \<noteq> T_DIR then Panic ''dirlookup not DIR''
      else kbind (dircache_lookup dp name s) (\<lambda>(r, s).
        kbind (case r of
                 Some _ \<Rightarrow> Ok (r, s)
               | None \<Rightarrow> lookup_loop (dir_offs (i_size (itable s dp))) dp name s) (\<lambda>(r, s).
        case r of
          None \<Rightarrow> Ok (None, s)
        | Some (inum, off) \<Rightarrow> kbind (iget (i_dev (itable s dp)) inum s) (\<lambda>(ip, s). Ok (Some (ip, off), s)))))"

text \<open>The loop of \<^verbatim>\<open>dirlink\<close>: the first unused entry, or the end.\<close>

fun free_slot_loop ::
    "nat list \<Rightarrow> nat \<Rightarrow> nat \<Rightarrow> 'a fs_state_scheme \<Rightarrow> (nat \<times> 'a fs_state_scheme) kres" where
  "free_slot_loop [] off dp s = Ok (off, s)"
| "free_slot_loop (o1 # offs) off dp s =
     kbind (read_de ''dirlink read'' dp o1 s) (\<lambda>(de, s).
       if de_inum de = 0 then Ok (o1, s) else free_slot_loop offs (o1 + DIRENT_SIZE) dp s)"

definition dirlink :: "nat \<Rightarrow> bytes \<Rightarrow> nat \<Rightarrow> 'a fs_state_scheme \<Rightarrow> (int \<times> 'a fs_state_scheme) kres" where
  "dirlink dp name inum s =
     kbind (dirlookup dp name s) (\<lambda>(r, s).
     case r of
       Some (ip, _) \<Rightarrow> kbind (iput ip s) (\<lambda>s. Ok (-1, s))
     | None \<Rightarrow>
         kbind (free_slot_loop (dir_offs (i_size (itable s dp))) 0 dp s) (\<lambda>(off, s).
         let nm = strncpy (\<lambda>_. 0) name DIRSIZ; de = put_le 2 (blit (\<lambda>_. 0) 2 nm 0 DIRSIZ) 0 inum in
         kbind (writei dp (Kern de 0) off DIRENT_SIZE s) (\<lambda>(r, s).
         Ok (if r \<noteq> int DIRENT_SIZE then -1 else 0, s))))"

section \<open>Paths\<close>

definition slash :: byte where "slash = 47"

definition skipelem :: "byte list \<Rightarrow> bytes \<Rightarrow> (byte list \<times> bytes) option" where
  "skipelem path name =
     (let path = dropWhile (\<lambda>c. c = slash) path in
      if path = [] then None
      else let el = takeWhile (\<lambda>c. c \<noteq> slash) path;
               path = dropWhile (\<lambda>c. c \<noteq> slash) path;
               len = length el;
               src = (\<lambda>i. if i < len then el ! i else 0);
               name = (if DIRSIZ \<le> len then blit name 0 src 0 DIRSIZ
                       else (blit name 0 src 0 len)(len := 0))
           in Some (dropWhile (\<lambda>c. c = slash) path, name))"

lemma skipelem_shorter:
  assumes "skipelem path name = Some (rest, name')"
  shows "length rest < length path"
proof -
  define p where "p = dropWhile (\<lambda>c. c = slash) path"
  have "p \<noteq> []" using assms by (auto simp: skipelem_def p_def Let_def split: if_splits)
  then have "hd p \<noteq> slash" unfolding p_def by (rule hd_dropWhile)
  then have "length (dropWhile (\<lambda>c. c \<noteq> slash) p) < length p"
    using \<open>p \<noteq> []\<close> by (cases p) (auto simp: le_imp_less_Suc length_dropWhile_le)
  moreover have "rest = dropWhile (\<lambda>c. c = slash) (dropWhile (\<lambda>c. c \<noteq> slash) p)"
    using assms \<open>p \<noteq> []\<close> by (auto simp: skipelem_def p_def Let_def split: if_splits)
  moreover have "length p \<le> length path" by (simp add: p_def length_dropWhile_le)
  ultimately show ?thesis
    using length_dropWhile_le[of "\<lambda>c. c = slash" "dropWhile (\<lambda>c. c \<noteq> slash) p"] by simp
qed

text \<open>
  The loop of \<^verbatim>\<open>namex\<close> at inode \<open>ip\<close>. The result also carries
  \<^verbatim>\<open>name\<close>, which the caller reads after a lookup of the parent.
\<close>

function namex_loop ::
    "byte list \<Rightarrow> bool \<Rightarrow> bytes \<Rightarrow> nat \<Rightarrow> 'a fs_state_scheme \<Rightarrow> (nat option \<times> bytes \<times> 'a fs_state_scheme) kres" where
  "namex_loop path parent name ip s =
     (case skipelem path name of
        None \<Rightarrow>
          if parent then kbind (iput ip s) (\<lambda>s. Ok (None, name, s)) else Ok (Some ip, name, s)
      | Some (path, name) \<Rightarrow>
          kbind (ilock ip s) (\<lambda>s.
          if i_type (itable s ip) \<noteq> T_DIR then kbind (iunlockput ip s) (\<lambda>s. Ok (None, name, s))
          else if parent \<and> path = [] then kbind (iunlock ip s) (\<lambda>s. Ok (Some ip, name, s))
          else kbind (dirlookup ip name s) (\<lambda>(r, s).
            case r of
              None \<Rightarrow> kbind (iunlockput ip s) (\<lambda>s. Ok (None, name, s))
            | Some (next, _) \<Rightarrow> kbind (iunlockput ip s) (namex_loop path parent name next))))"
  by pat_completeness auto
termination namex_loop
  by (relation "measure (\<lambda>(path, parent, name, ip, s). length path)") (auto simp: skipelem_shorter)

declare namex_loop.simps [simp del]

definition namex ::
    "byte list \<Rightarrow> bool \<Rightarrow> bytes \<Rightarrow> 'a fs_state_scheme \<Rightarrow> (nat option \<times> bytes \<times> 'a fs_state_scheme) kres" where
  "namex path parent name s =
     kbind (if path \<noteq> [] \<and> hd path = slash then iget ROOTDEV ROOTINO s
            else case myproc s of
              None \<Rightarrow> Panic ''kerneltrap''
            | Some i \<Rightarrow> (case p_cwd (procs s i) of None \<Rightarrow> Panic ''kerneltrap'' | Some d \<Rightarrow> Ok (idup d s)))
       (\<lambda>(ip, s). namex_loop path parent name ip s)"

definition namei :: "byte list \<Rightarrow> 'a fs_state_scheme \<Rightarrow> (nat option \<times> 'a fs_state_scheme) kres" where
  "namei path s = kbind (namex path False (\<lambda>_. 0) s) (\<lambda>(r, _, s). Ok (r, s))"

definition nameiparent ::
    "byte list \<Rightarrow> bytes \<Rightarrow> 'a fs_state_scheme \<Rightarrow> (nat option \<times> bytes \<times> 'a fs_state_scheme) kres" where
  "nameiparent path name s = namex path True name s"

end
