(* ===== verification/Console.thy ===== *)
theory Console
  imports Printf Fs_Dir
begin

text \<open>
  The serial port and the console: \<^verbatim>\<open>kernel/uart.c\<close>, \<^verbatim>\<open>kernel/console.c\<close>, and
  \<^verbatim>\<open>procdump\<close> of \<^verbatim>\<open>kernel/proc.c\<close>.

  The device shows as the characters written to its transmit register (\<open>uart_out\<close>), the
  writes to its control registers (\<open>uart_regs\<close>), and, in an interrupt, whether it is ready to
  send and the characters it received, which are arguments of \<open>uartintr\<close>. The indices of the
  input buffer are 32-bit and wrap around. A routine that has to wait returns \<open>Wait\<close> with
  its loop variables, and can be continued from there.
\<close>

section \<open>State\<close>

definition INPUT_BUF_SIZE :: nat where "INPUT_BUF_SIZE = 128"
definition BACKSPACE :: nat where "BACKSPACE = 0x100"

record cons_state = fs_state +
  cons_buf :: bytes
  cons_r :: "32 word"
  cons_w :: "32 word"
  cons_e :: "32 word"
  tx_busy :: bool
  uart_tx_bytes :: nat
  uart_rx_bytes :: nat
  uart_regs :: "(nat \<times> nat) list"
  uart_out :: "byte list"
  log_level :: nat

text \<open>The slot of an index in the circular buffer.\<close>

definition cslot :: "32 word \<Rightarrow> nat" where
  "cslot i = unat i mod INPUT_BUF_SIZE"

section \<open>Serial port\<close>

definition uartinit :: "'a cons_state_scheme \<Rightarrow> 'a cons_state_scheme" where
  "uartinit s = s\<lparr>uart_regs := uart_regs s @
     [(1, 0x00), (3, 0x80), (0, 0x03), (1, 0x00), (3, 0x03), (2, 0x07), (1, 0x03)]\<rparr>"

definition uartputc_sync :: "byte \<Rightarrow> 'a cons_state_scheme \<Rightarrow> 'a cons_state_scheme" where
  "uartputc_sync c s = s\<lparr>uart_out := uart_out s @ [c]\<rparr>"

text \<open>\<^verbatim>\<open>uartwrite\<close> from index \<open>i\<close> on.\<close>

function uartwrite :: "bytes \<Rightarrow> nat \<Rightarrow> nat \<Rightarrow> 'a cons_state_scheme \<Rightarrow> (unit, nat, 'a cons_state_scheme) run" where
  "uartwrite buf n i s =
     (if n \<le> i then Done () s
      else if tx_busy s then Wait ChanTx i s
      else uartwrite buf n (i + 1)
             (s\<lparr>uart_out := uart_out s @ [buf i], tx_busy := True, uart_tx_bytes := uart_tx_bytes s + 1\<rparr>))"
  by pat_completeness auto
termination uartwrite
  by (relation "measure (\<lambda>(buf, n, i, s). n - i)") auto

declare uartwrite.simps [simp del]

section \<open>Console\<close>

definition consputc :: "nat \<Rightarrow> 'a cons_state_scheme \<Rightarrow> 'a cons_state_scheme" where
  "consputc c s =
     (if c = BACKSPACE then uartputc_sync 8 (uartputc_sync 32 (uartputc_sync 8 s))
      else uartputc_sync (of_nat c) s)"

text \<open>A finished \<^verbatim>\<open>printf\<close> sends its characters one after the other.\<close>

definition emit :: "byte list \<Rightarrow> 'a cons_state_scheme \<Rightarrow> 'a cons_state_scheme" where
  "emit cs s = fold uartputc_sync cs s"

text \<open>
  \<^verbatim>\<open>consolewrite\<close> from position \<open>i\<close> on: batches of 32 bytes. A wait in the middle of
  a batch remembers the batch and the position in it.
\<close>

function consolewrite_loop ::
    "cbuf \<Rightarrow> nat \<Rightarrow> nat \<Rightarrow> 'a cons_state_scheme \<Rightarrow> (int, nat \<times> bytes \<times> nat \<times> nat, 'a cons_state_scheme) run kres" where
  "consolewrite_loop src n i s =
     (if n \<le> i then Ok (Done (int i) s)
      else let nn = min 32 (n - i) in
        kbind (either_copyin (\<lambda>_. 0) 0 (cbuf_add src i) nn s) (\<lambda>(r, buf, s).
        if r = -1 then Ok (Done (int i) s)
        else case uartwrite buf nn 0 s of
          Done _ s \<Rightarrow> consolewrite_loop src n (i + nn) s
        | Wait c j s \<Rightarrow> Ok (Wait c (i, buf, nn, j) s)))"
  by pat_completeness auto
termination consolewrite_loop
  by (relation "measure (\<lambda>(src, n, i, s). n - i)") auto

declare consolewrite_loop.simps [simp del]

definition consolewrite ::
    "cbuf \<Rightarrow> int \<Rightarrow> 'a cons_state_scheme \<Rightarrow> (int, nat \<times> bytes \<times> nat \<times> nat, 'a cons_state_scheme) run kres" where
  "consolewrite src n s = consolewrite_loop src (nat n) 0 s"

text \<open>The rest of \<^verbatim>\<open>consolewrite\<close> when it wakes up.\<close>

definition consolewrite_resume ::
    "cbuf \<Rightarrow> int \<Rightarrow> nat \<times> bytes \<times> nat \<times> nat \<Rightarrow> 'a cons_state_scheme \<Rightarrow>
     (int, nat \<times> bytes \<times> nat \<times> nat, 'a cons_state_scheme) run kres" where
  "consolewrite_resume src n k s =
     (case k of (i, buf, nn, j) \<Rightarrow>
        (case uartwrite buf nn j s of
           Done _ s \<Rightarrow> consolewrite_loop src (nat n) (i + nn) s
         | Wait c j s \<Rightarrow> Ok (Wait c (i, buf, nn, j) s)))"

text \<open>\<^verbatim>\<open>consoleread\<close> with \<open>n\<close> bytes still to read; a wait remembers the destination and \<open>n\<close>.\<close>

function consoleread_loop ::
    "nat \<Rightarrow> cbuf \<Rightarrow> nat \<Rightarrow> 'a cons_state_scheme \<Rightarrow> (int \<times> cbuf, cbuf \<times> nat, 'a cons_state_scheme) run kres" where
  "consoleread_loop target dst n s =
     (if n = 0 then Ok (Done (int target - int n, dst) s)
      else if cons_r s = cons_w s then
        (case myproc s of
           None \<Rightarrow> Panic ''kerneltrap''
         | Some i \<Rightarrow> if killed i s then Ok (Done (-1, dst) s) else Ok (Wait ChanConsR (dst, n) s))
      else
        let c = cons_buf s (cslot (cons_r s)); s1 = s\<lparr>cons_r := cons_r s + 1\<rparr> in
        if c = 4 then
          Ok (Done (int target - int n, dst) (if n < target then s1\<lparr>cons_r := cons_r s1 - 1\<rparr> else s1))
        else kbind (either_copyout dst (\<lambda>_. c) 0 1 s1) (\<lambda>(r, dst, s2).
          if r = -1 then Ok (Done (int target - int n, dst) s2)
          else if c = 10 then Ok (Done (int target - int (n - 1), cbuf_add dst 1) s2)
          else consoleread_loop target (cbuf_add dst 1) (n - 1) s2))"
  by pat_completeness auto
termination consoleread_loop
  by (relation "measure (\<lambda>(target, dst, n, s). n)") auto

declare consoleread_loop.simps [simp del]

definition consoleread ::
    "cbuf \<Rightarrow> int \<Rightarrow> 'a cons_state_scheme \<Rightarrow> (int \<times> cbuf, cbuf \<times> nat, 'a cons_state_scheme) run kres" where
  "consoleread dst n s = consoleread_loop (nat n) dst (nat n) s"

section \<open>Input\<close>

text \<open>\<^verbatim>\<open>procdump\<close>: a line for every slot in use.\<close>

fun state_tag :: "procstate \<Rightarrow> byte list" where
  "state_tag UNUSED = str ''unused''"
| "state_tag USED = str ''used''"
| "state_tag SLEEPING = str ''sleep ''"
| "state_tag RUNNABLE = str ''runble''"
| "state_tag RUNNING = str ''run   ''"
| "state_tag ZOMBIE = str ''zombie''"

definition proc_name :: "proc \<Rightarrow> byte list" where
  "proc_name p = takeWhile (\<lambda>c. c \<noteq> 0) (slice_bytes (p_name p) 0 16)"

definition dump_line :: "proc \<Rightarrow> byte list" where
  "dump_line p =
     (if p_state p = UNUSED then []
      else printint kdigits (of_int (p_pid p)) 10 True @ str '' '' @ state_tag (p_state p) @ str '' '' @
           proc_name p @ [10])"

definition procdump :: "'a cons_state_scheme \<Rightarrow> 'a cons_state_scheme" where
  "procdump s = emit ([10] @ concat (map (\<lambda>i. dump_line (procs s i)) [0..<NPROC])) s"

text \<open>The loop of control-U: erase back to the last newline or to the start of the line.\<close>

function kill_line :: "'a cons_state_scheme \<Rightarrow> 'a cons_state_scheme" where
  "kill_line s =
     (if cons_e s \<noteq> cons_w s \<and> cons_buf s (cslot (cons_e s - 1)) \<noteq> 10
      then kill_line (consputc BACKSPACE (s\<lparr>cons_e := cons_e s - 1\<rparr>))
      else s)"
  by pat_completeness auto

lemma consputc_simps [simp]:
  "cons_e (consputc c s) = cons_e s" "cons_w (consputc c s) = cons_w s"
  "cons_r (consputc c s) = cons_r s" "cons_buf (consputc c s) = cons_buf s"
  by (simp_all add: consputc_def uartputc_sync_def)

lemma pred_distance:
  assumes "a \<noteq> (b :: 'a::len word)"
  shows "unat (a - 1 - b) < unat (a - b)"
proof -
  have "a - b \<noteq> 0" using assms by simp
  moreover have "a - 1 - b = (a - b) - 1" by simp
  ultimately show ?thesis by (metis unat_minus_one unat_gt_0 diff_less zero_less_one)
qed

termination kill_line
  by (relation "measure (\<lambda>s. unat (cons_e s - cons_w s))") (simp_all add: pred_distance)

declare kill_line.simps [simp del]

definition consoleintr :: "byte \<Rightarrow> 'a cons_state_scheme \<Rightarrow> 'a cons_state_scheme" where
  "consoleintr c s =
     (if c = 16 then procdump s
      else if c = 21 then kill_line s
      else if c = 8 \<or> c = 0x7f then
        (if cons_e s \<noteq> cons_w s then consputc BACKSPACE (s\<lparr>cons_e := cons_e s - 1\<rparr>) else s)
      else if c \<noteq> 0 \<and> cons_e s - cons_r s < of_nat INPUT_BUF_SIZE then
        let c = (if c = 13 then 10 else c);
            s = consputc (unat c) s;
            s = s\<lparr>cons_buf := (cons_buf s)(cslot (cons_e s) := c), cons_e := cons_e s + 1\<rparr>
        in if c = 10 \<or> c = 4 \<or> cons_e s - cons_r s = of_nat INPUT_BUF_SIZE
           then wakeup ChanConsR (s\<lparr>cons_w := cons_e s\<rparr>) else s
      else s)"

text \<open>
  \<^verbatim>\<open>uartintr\<close>: \<open>idle\<close> is the line status it reads, \<open>inp\<close> the characters that
  \<^verbatim>\<open>uartgetc\<close> returns until none is waiting.
\<close>

definition uartintr :: "bool \<Rightarrow> byte list \<Rightarrow> 'a cons_state_scheme \<Rightarrow> 'a cons_state_scheme" where
  "uartintr idle inp s =
     fold (\<lambda>c s. let s = consoleintr c s in s\<lparr>uart_rx_bytes := uart_rx_bytes s + 1\<rparr>) inp
       (if idle then wakeup ChanTx (s\<lparr>tx_busy := False\<rparr>) else s)"

end
