(* ===== verification/Pipe.thy ===== *)
theory Pipe
  imports Console
begin

text \<open>
  Pipes, \<^verbatim>\<open>kernel/pipe.c\<close>, with the file table of \<^verbatim>\<open>kernel/file.c\<close> they
  live beside.

  A pipe is identified by the page it is allocated in; its fields are kept in \<open>pipes\<close>
  rather than as bytes of that page. The counters \<open>nread\<close> and \<open>nwrite\<close> are 32-bit and
  wrap around.
\<close>

section \<open>State\<close>

definition PIPESIZE :: nat where "PIPESIZE = 512"
definition NFILE :: nat where "NFILE = 200"
definition NDEV :: nat where "NDEV = 10"
definition CONSOLE :: nat where "CONSOLE = 1"

record pipe =
  pi_data :: bytes
  pi_nread :: "32 word"
  pi_nwrite :: "32 word"
  pi_readopen :: bool
  pi_writeopen :: bool

datatype fdtype = FD_NONE | FD_PIPE | FD_INODE | FD_DEVICE

record kfile =
  f_type :: fdtype
  f_ref :: int
  f_readable :: bool
  f_writable :: bool
  f_pipe :: nat
  f_ip :: nat
  f_off :: nat
  f_major :: int

text \<open>The device functions that can be in the device switch.\<close>

datatype devfn = NoFn | ConsoleFn

record file_state = cons_state +
  ftable :: "nat \<Rightarrow> kfile"
  pipes :: "nat \<Rightarrow> pipe"
  devsw_read :: "nat \<Rightarrow> devfn"
  devsw_write :: "nat \<Rightarrow> devfn"

definition upd_pipe :: "nat \<Rightarrow> (pipe \<Rightarrow> pipe) \<Rightarrow> 'a file_state_scheme \<Rightarrow> 'a file_state_scheme" where
  "upd_pipe p f s = s\<lparr>pipes := (pipes s)(p := f (pipes s p))\<rparr>"

definition pslot :: "32 word \<Rightarrow> nat" where
  "pslot i = unat i mod PIPESIZE"

section \<open>Operations\<close>

definition pipeclose :: "nat \<Rightarrow> bool \<Rightarrow> 'a file_state_scheme \<Rightarrow> 'a file_state_scheme kres" where
  "pipeclose pi writable s =
     (let s = (if writable then wakeup (ChanPipeRead pi) (upd_pipe pi (\<lambda>p. p\<lparr>pi_writeopen := False\<rparr>) s)
               else wakeup (ChanPipeWrite pi) (upd_pipe pi (\<lambda>p. p\<lparr>pi_readopen := False\<rparr>) s))
      in if \<not> pi_readopen (pipes s pi) \<and> \<not> pi_writeopen (pipes s pi) then kfree pi s else Ok s)"

text \<open>
  \<^verbatim>\<open>pipewrite\<close> from byte \<open>i\<close> on, for process \<open>pr\<close>; \<open>pipe_put\<close> is the assignment
  to the buffer.
\<close>

definition pipe_put :: "byte \<Rightarrow> pipe \<Rightarrow> pipe" where
  "pipe_put c p = p\<lparr>pi_data := (pi_data p)(pslot (pi_nwrite p) := c), pi_nwrite := pi_nwrite p + 1\<rparr>"

function pipewrite_loop ::
    "nat \<Rightarrow> nat \<Rightarrow> nat \<Rightarrow> nat \<Rightarrow> nat \<Rightarrow> 'a file_state_scheme \<Rightarrow> (int, nat, 'a file_state_scheme) run kres" where
  "pipewrite_loop pr pi addr n i s =
     (if n \<le> i then Ok (Done (int i) (wakeup (ChanPipeRead pi) s))
      else if \<not> pi_readopen (pipes s pi) \<or> killed pr s then Ok (Done (-1) s)
      else if pi_nwrite (pipes s pi) = pi_nread (pipes s pi) + of_nat PIPESIZE
        then Ok (Wait (ChanPipeWrite pi) i (wakeup (ChanPipeRead pi) s))
      else kbind (copyin (p_pagetable (procs s pr)) (\<lambda>_. 0) 0 (addr + i) 1 s) (\<lambda>(r, b, s).
        if r = -1 then Ok (Done (int i) (wakeup (ChanPipeRead pi) s))
        else pipewrite_loop pr pi addr n (i + 1) (upd_pipe pi (pipe_put (b 0)) s)))"
  by pat_completeness auto
termination pipewrite_loop
  by (relation "measure (\<lambda>(pr, pi, addr, n, i, s). n - i)") auto

declare pipewrite_loop.simps [simp del]

definition pipewrite ::
    "nat \<Rightarrow> nat \<Rightarrow> int \<Rightarrow> 'a file_state_scheme \<Rightarrow> (int, nat, 'a file_state_scheme) run kres" where
  "pipewrite pi addr n s =
     (case myproc s of None \<Rightarrow> Panic ''kerneltrap'' | Some pr \<Rightarrow> pipewrite_loop pr pi addr (nat n) 0 s)"

text \<open>The copy loop of \<^verbatim>\<open>piperead\<close>.\<close>

function piperead_loop ::
    "nat \<Rightarrow> nat \<Rightarrow> nat \<Rightarrow> nat \<Rightarrow> nat \<Rightarrow> 'a file_state_scheme \<Rightarrow> (int \<times> 'a file_state_scheme) kres" where
  "piperead_loop pr pi addr n i s =
     (if n \<le> i then Ok (int i, s)
      else if pi_nread (pipes s pi) = pi_nwrite (pipes s pi) then Ok (int i, s)
      else let c = pi_data (pipes s pi) (pslot (pi_nread (pipes s pi))) in
        kbind (copyout (p_pagetable (procs s pr)) (addr + i) (\<lambda>_. c) 0 1 s) (\<lambda>(r, s).
        if r = -1 then Ok (if i = 0 then -1 else int i, s)
        else piperead_loop pr pi addr n (i + 1) (upd_pipe pi (\<lambda>p. p\<lparr>pi_nread := pi_nread p + 1\<rparr>) s)))"
  by pat_completeness auto
termination piperead_loop
  by (relation "measure (\<lambda>(pr, pi, addr, n, i, s). n - i)") auto

declare piperead_loop.simps [simp del]

definition piperead ::
    "nat \<Rightarrow> nat \<Rightarrow> int \<Rightarrow> 'a file_state_scheme \<Rightarrow> (int, unit, 'a file_state_scheme) run kres" where
  "piperead pi addr n s =
     (case myproc s of
        None \<Rightarrow> Panic ''kerneltrap''
      | Some pr \<Rightarrow>
          if pi_nread (pipes s pi) = pi_nwrite (pipes s pi) \<and> pi_writeopen (pipes s pi) then
            if killed pr s then Ok (Done (-1) s) else Ok (Wait (ChanPipeRead pi) () s)
          else kbind (piperead_loop pr pi addr (nat n) 0 s) (\<lambda>(i, s).
            Ok (Done i (wakeup (ChanPipeWrite pi) s))))"

end
