(* ===== verification/File.thy ===== *)
theory File
  imports Pipe
begin

text \<open>
  Open files, \<^verbatim>\<open>kernel/file.c\<close>, and the creation of pipes of
  \<^verbatim>\<open>kernel/pipe.c\<close>. An open file is a slot of the file table. When a device or a
  pipe makes the caller wait, the outcome is \<open>Sleep\<close>.
\<close>

definition upd_file :: "nat \<Rightarrow> (kfile \<Rightarrow> kfile) \<Rightarrow> 'a file_state_scheme \<Rightarrow> 'a file_state_scheme" where
  "upd_file f g s = s\<lparr>ftable := (ftable s)(f := g (ftable s f))\<rparr>"

definition consoleinit :: "'a file_state_scheme \<Rightarrow> 'a file_state_scheme" where
  "consoleinit s =
     (let s = uartinit s
      in s\<lparr>devsw_read := (devsw_read s)(CONSOLE := ConsoleFn),
           devsw_write := (devsw_write s)(CONSOLE := ConsoleFn)\<rparr>)"

definition filealloc :: "'a file_state_scheme \<Rightarrow> nat option \<times> 'a file_state_scheme" where
  "filealloc s =
     (case find (\<lambda>f. f_ref (ftable s f) = 0) [0..<NFILE] of
        None \<Rightarrow> (None, s)
      | Some f \<Rightarrow> (Some f, upd_file f (\<lambda>f. f\<lparr>f_ref := 1\<rparr>) s))"

definition filedup :: "nat \<Rightarrow> 'a file_state_scheme \<Rightarrow> (nat \<times> 'a file_state_scheme) kres" where
  "filedup f s =
     (if f_ref (ftable s f) < 1 then Panic ''filedup''
      else Ok (f, upd_file f (\<lambda>f. f\<lparr>f_ref := f_ref f + 1\<rparr>) s))"

definition fileclose :: "nat \<Rightarrow> 'a file_state_scheme \<Rightarrow> 'a file_state_scheme kres" where
  "fileclose f s =
     (if f_ref (ftable s f) < 1 then Panic ''fileclose''
      else let s = upd_file f (\<lambda>f. f\<lparr>f_ref := f_ref f - 1\<rparr>) s in
      if 0 < f_ref (ftable s f) then Ok s
      else
        let ff = ftable s f; s = upd_file f (\<lambda>f. f\<lparr>f_ref := 0, f_type := FD_NONE\<rparr>) s in
        if f_type ff = FD_PIPE then pipeclose (f_pipe ff) (f_writable ff) s
        else if f_type ff = FD_INODE \<or> f_type ff = FD_DEVICE then
          kbind (begin_op s) (\<lambda>s. kbind (iput (f_ip ff) s) end_op)
        else Ok s)"

text \<open>The bytes of a \<^verbatim>\<open>struct stat\<close>: fields at offsets 0, 4, 8, 10 and 16.\<close>

definition stat_bytes :: "nat \<times> nat \<times> int \<times> int \<times> nat \<Rightarrow> bytes" where
  "stat_bytes st = (case st of (dev, ino, type, nlink, sz) \<Rightarrow>
     put_le 8 (put_le 2 (put_le 2 (put_le 4 (put_le 4 (\<lambda>_. 0) 0 dev) 4 ino) 8 (u16 type)) 10 (u16 nlink)) 16 sz)"

definition filestat :: "nat \<Rightarrow> nat \<Rightarrow> 'a file_state_scheme \<Rightarrow> (int \<times> 'a file_state_scheme) kres" where
  "filestat f addr s =
     (if f_type (ftable s f) = FD_INODE \<or> f_type (ftable s f) = FD_DEVICE then
        let ip = f_ip (ftable s f) in
        kbind (ilock ip s) (\<lambda>s.
        let st = stati ip s in
        kbind (iunlock ip s) (\<lambda>s.
        case myproc s of
          None \<Rightarrow> Panic ''kerneltrap''
        | Some p \<Rightarrow> kbind (copyout (p_pagetable (procs s p)) addr (stat_bytes st) 0 24 s) (\<lambda>(r, s).
            Ok (if r < 0 then -1 else 0, s))))
      else Ok (-1, s))"

definition fileread :: "nat \<Rightarrow> nat \<Rightarrow> int \<Rightarrow> 'a file_state_scheme \<Rightarrow> (int \<times> 'a file_state_scheme) kres" where
  "fileread f addr n s =
     (let ff = ftable s f in
      if \<not> f_readable ff then Ok (-1, s)
      else case f_type ff of
        FD_PIPE \<Rightarrow> kbind (piperead (f_pipe ff) addr n s) finish
      | FD_DEVICE \<Rightarrow>
          if f_major ff < 0 \<or> int NDEV \<le> f_major ff then Ok (-1, s)
          else (case devsw_read s (nat (f_major ff)) of
             NoFn \<Rightarrow> Ok (-1, s)
           | ConsoleFn \<Rightarrow>
               kbind (consoleread (User addr) n s) (\<lambda>r. kbind (finish r) (\<lambda>((r, _), s). Ok (r, s))))
      | FD_INODE \<Rightarrow>
          kbind (ilock (f_ip ff) s) (\<lambda>s.
          kbind (readi (f_ip ff) (User addr) (f_off ff) (nat (n mod 2 ^ 32)) s) (\<lambda>(r, _, s).
          let s = (if 0 < r then upd_file f (\<lambda>f. f\<lparr>f_off := f_off f + nat r\<rparr>) s else s) in
          kbind (iunlock (f_ip ff) s) (\<lambda>s. Ok (r, s))))
      | FD_NONE \<Rightarrow> Panic ''fileread'')"

text \<open>
  The loop of \<^verbatim>\<open>filewrite\<close> for files; \<open>wmax\<close> is the number of bytes a transaction
  writes at most.
\<close>

definition wmax :: nat where
  "wmax = (MAXOPBLOCKS - 1 - 1 - 2) div 2 * BSIZE"

function filewrite_loop ::
    "nat \<Rightarrow> nat \<Rightarrow> nat \<Rightarrow> nat \<Rightarrow> 'a file_state_scheme \<Rightarrow> (nat \<times> 'a file_state_scheme) kres" where
  "filewrite_loop f addr n i s =
     (if n \<le> i then Ok (i, s)
      else let n1 = min (n - i) wmax; ip = f_ip (ftable s f) in
        kbind (begin_op s) (\<lambda>s.
        kbind (ilock ip s) (\<lambda>s.
        kbind (writei ip (User (addr + i)) (f_off (ftable s f)) n1 s) (\<lambda>(r, s).
        let s = (if 0 < r then upd_file f (\<lambda>f. f\<lparr>f_off := f_off f + nat r\<rparr>) s else s) in
        kbind (iunlock ip s) (\<lambda>s.
        kbind (end_op s) (\<lambda>s.
        if r \<noteq> int n1 then Ok (i, s) else filewrite_loop f addr n (i + nat r) s))))))"
  by pat_completeness auto
termination filewrite_loop
  by (relation "measure (\<lambda>(f, addr, n, i, s). n - i)")
    (auto simp: wmax_def MAXOPBLOCKS_def BSIZE_def min_def intro!: diff_less_mono2)

declare filewrite_loop.simps [simp del]

definition filewrite :: "nat \<Rightarrow> nat \<Rightarrow> int \<Rightarrow> 'a file_state_scheme \<Rightarrow> (int \<times> 'a file_state_scheme) kres" where
  "filewrite f addr n s =
     (let ff = ftable s f in
      if \<not> f_writable ff then Ok (-1, s)
      else case f_type ff of
        FD_PIPE \<Rightarrow> kbind (pipewrite (f_pipe ff) addr n s) finish
      | FD_DEVICE \<Rightarrow>
          if f_major ff < 0 \<or> int NDEV \<le> f_major ff then Ok (-1, s)
          else (case devsw_write s (nat (f_major ff)) of
             NoFn \<Rightarrow> Ok (-1, s)
           | ConsoleFn \<Rightarrow> kbind (consolewrite (User addr) n s) finish)
      | FD_INODE \<Rightarrow> kbind (filewrite_loop f addr (nat n) 0 s) (\<lambda>(i, s). Ok (if int i = n then n else -1, s))
      | FD_NONE \<Rightarrow> Panic ''filewrite'')"

section \<open>Creating pipes\<close>

definition pipealloc :: "'a file_state_scheme \<Rightarrow> ((nat \<times> nat) option \<times> 'a file_state_scheme) kres" where
  "pipealloc s =
     (case filealloc s of
        (None, s) \<Rightarrow> Ok (None, s)
      | (Some f0, s) \<Rightarrow>
          (case filealloc s of
             (None, s) \<Rightarrow> kbind (fileclose f0 s) (\<lambda>s. Ok (None, s))
           | (Some f1, s) \<Rightarrow>
               (case kalloc s of (pi, s) \<Rightarrow>
                  if pi = 0 then
                    kbind (fileclose f0 s) (\<lambda>s. kbind (fileclose f1 s) (\<lambda>s. Ok (None, s)))
                  else
                    let s = upd_pipe pi (\<lambda>p. p\<lparr>pi_readopen := True, pi_writeopen := True,
                                                pi_nwrite := 0, pi_nread := 0\<rparr>) s;
                        s = upd_file f0 (\<lambda>f. f\<lparr>f_type := FD_PIPE, f_readable := True, f_writable := False, f_pipe := pi\<rparr>) s;
                        s = upd_file f1 (\<lambda>f. f\<lparr>f_type := FD_PIPE, f_readable := False, f_writable := True, f_pipe := pi\<rparr>) s
                    in Ok (Some (f0, f1), s))))"

end
