(* ===== verification/Proc_Life.thy ===== *)
theory Proc_Life
  imports File
begin

text \<open>
  The life of a process, \<^verbatim>\<open>kernel/proc.c\<close>: creation, growth, \<^verbatim>\<open>fork\<close>,
  \<^verbatim>\<open>exit\<close> and \<^verbatim>\<open>wait\<close>.

  The trapframe of a process is a page of physical memory; its registers are eight-byte
  fields at the offsets of \<^verbatim>\<open>struct trapframe\<close>. The addresses the linker assigns are
  the record \<open>linker\<close>. \<^verbatim>\<open>kexit\<close> does not return; its result is the state in which
  the scheduler goes on.
\<close>

section \<open>Trapframes\<close>

record linker =
  ld_etext :: nat
  ld_trampoline :: nat
  ld_uservec :: nat
  ld_usertrap :: nat
  ld_forkret :: nat
  ld_kernelvec :: nat

definition TF_SIZE :: nat where "TF_SIZE = 288"
definition tf_kernel_satp :: nat where "tf_kernel_satp = 0"
definition tf_kernel_sp :: nat where "tf_kernel_sp = 8"
definition tf_kernel_trap :: nat where "tf_kernel_trap = 16"
definition tf_epc :: nat where "tf_epc = 24"
definition tf_kernel_hartid :: nat where "tf_kernel_hartid = 32"
definition tf_sp :: nat where "tf_sp = 48"

text \<open>Argument register \<^verbatim>\<open>a<k>\<close>.\<close>

definition tf_a :: "nat \<Rightarrow> nat" where "tf_a k = 112 + 8 * k"

definition get_tf :: "nat \<Rightarrow> nat \<Rightarrow> 'a sched_state_scheme \<Rightarrow> nat" where
  "get_tf i reg s = get_le 8 (pmem s) (p_trapframe (procs s i) + reg)"

definition set_tf :: "nat \<Rightarrow> nat \<Rightarrow> nat \<Rightarrow> 'a sched_state_scheme \<Rightarrow> 'a sched_state_scheme" where
  "set_tf i reg v s = s\<lparr>pmem := put_le 8 (pmem s) (p_trapframe (procs s i) + reg) v\<rparr>"

section \<open>Creation and destruction\<close>

definition proc_pagetable ::
    "linker \<Rightarrow> nat \<Rightarrow> 'a sched_state_scheme \<Rightarrow> (nat \<times> 'a sched_state_scheme) kres" where
  "proc_pagetable ld i s =
     (case uvmcreate s of (pt, s) \<Rightarrow>
        if pt = 0 then Ok (0, s)
        else kbind (mappages pt TRAMPOLINE PGSIZE (ld_trampoline ld) (flags [PTE_R, PTE_X]) s) (\<lambda>(r, s).
          if r < 0 then kbind (uvmfree pt 0 s) (\<lambda>s. Ok (0, s))
          else kbind (mappages pt TRAPFRAME PGSIZE (p_trapframe (procs s i)) (flags [PTE_R, PTE_W]) s) (\<lambda>(r, s).
            if r < 0 then
              kbind (uvmunmap pt TRAMPOLINE 1 False s) (\<lambda>s. kbind (uvmfree pt 0 s) (\<lambda>s. Ok (0, s)))
            else Ok (pt, s))))"

definition proc_freepagetable :: "nat \<Rightarrow> nat \<Rightarrow> 'a kmem_state_scheme \<Rightarrow> 'a kmem_state_scheme kres" where
  "proc_freepagetable pt sz s =
     kbind (uvmunmap pt TRAMPOLINE 1 False s) (\<lambda>s.
     kbind (uvmunmap pt TRAPFRAME 1 False s) (\<lambda>s.
     uvmfree pt sz s))"

definition freeproc :: "nat \<Rightarrow> 'a sched_state_scheme \<Rightarrow> 'a sched_state_scheme kres" where
  "freeproc i s =
     kbind (if p_trapframe (procs s i) \<noteq> 0 then kfree (p_trapframe (procs s i)) s else Ok s) (\<lambda>s.
     let s = upd_proc i (\<lambda>p. p\<lparr>p_trapframe := 0\<rparr>) s in
     kbind (if p_pagetable (procs s i) \<noteq> 0
            then proc_freepagetable (p_pagetable (procs s i)) (p_sz (procs s i)) s else Ok s) (\<lambda>s.
     Ok (upd_proc i (\<lambda>p. unclaim_proc (p\<lparr>p_pagetable := 0\<rparr>)) s)))"

definition allocproc :: "linker \<Rightarrow> 'a sched_state_scheme \<Rightarrow> (nat option \<times> 'a sched_state_scheme) kres" where
  "allocproc ld s =
     (case find (\<lambda>i. p_state (procs s i) = UNUSED) [0..<NPROC] of
        None \<Rightarrow> Ok (None, s)
      | Some i \<Rightarrow>
          (case allocpid s of (pid, s) \<Rightarrow>
           let s = upd_proc i (claim_proc pid (ticks s)) s in
           case kalloc s of (tf, s) \<Rightarrow>
           let s = upd_proc i (\<lambda>p. p\<lparr>p_trapframe := tf\<rparr>) s in
           if tf = 0 then kbind (freeproc i s) (\<lambda>s. Ok (None, s))
           else kbind (proc_pagetable ld i s) (\<lambda>(pt, s).
             let s = upd_proc i (\<lambda>p. p\<lparr>p_pagetable := pt\<rparr>) s in
             if pt = 0 then kbind (freeproc i s) (\<lambda>s. Ok (None, s))
             else Ok (Some i, upd_proc i (\<lambda>p. p\<lparr>p_ctx_ra := ld_forkret ld,
                                               p_ctx_sp := p_kstack p + PGSIZE\<rparr>) s))))"

definition userinit :: "linker \<Rightarrow> 'a file_state_scheme \<Rightarrow> 'a file_state_scheme kres" where
  "userinit ld s =
     kbind (allocproc ld s) (\<lambda>(r, s).
     case r of
       None \<Rightarrow> Panic ''kerneltrap''
     | Some i \<Rightarrow>
         kbind (namei [slash] (s\<lparr>initproc := Some i\<rparr>)) (\<lambda>(cwd, s).
         Ok (upd_proc i (\<lambda>p. start_proc (ticks s) (p\<lparr>p_cwd := cwd\<rparr>)) s)))"

definition growproc :: "int \<Rightarrow> 'a sched_state_scheme \<Rightarrow> (int \<times> 'a sched_state_scheme) kres" where
  "growproc n s =
     (case myproc s of
        None \<Rightarrow> Panic ''kerneltrap''
      | Some i \<Rightarrow>
          let sz = p_sz (procs s i); pt = p_pagetable (procs s i) in
          if 0 < n then
            if TRAPFRAME < sz + nat n then Ok (-1, s)
            else kbind (uvmalloc pt sz (sz + nat n) (flags [PTE_W]) s) (\<lambda>(sz, s).
              if sz = 0 then Ok (-1, s) else Ok (0, upd_proc i (\<lambda>p. p\<lparr>p_sz := sz\<rparr>) s))
          else if n < 0 then
            kbind (uvmdealloc pt sz (nat ((int sz + n) mod 2 ^ 64)) s) (\<lambda>(sz, s).
              Ok (0, upd_proc i (\<lambda>p. p\<lparr>p_sz := sz\<rparr>) s))
          else Ok (0, upd_proc i (\<lambda>p. p\<lparr>p_sz := sz\<rparr>) s))"

section \<open>Fork, exit, wait\<close>

text \<open>The loop of \<^verbatim>\<open>kfork\<close> over the open files of parent \<open>i\<close> and child \<open>j\<close>.\<close>

definition fork_files :: "nat \<Rightarrow> nat \<Rightarrow> 'a file_state_scheme \<Rightarrow> 'a file_state_scheme kres" where
  "fork_files i j s =
     kfold (\<lambda>fd s.
       case p_ofile (procs s i) fd of
         None \<Rightarrow> Ok s
       | Some f \<Rightarrow> kbind (filedup f s) (\<lambda>(f, s).
           Ok (upd_proc j (\<lambda>p. p\<lparr>p_ofile := (p_ofile p)(fd := Some f)\<rparr>) s))) [0..<NOFILE] s"

definition kfork :: "linker \<Rightarrow> 'a file_state_scheme \<Rightarrow> (int \<times> 'a file_state_scheme) kres" where
  "kfork ld s =
     (case myproc s of
        None \<Rightarrow> Panic ''kerneltrap''
      | Some i \<Rightarrow>
          kbind (allocproc ld s) (\<lambda>(r, s).
          case r of
            None \<Rightarrow> Ok (-1, s)
          | Some j \<Rightarrow>
              kbind (uvmcopy (p_pagetable (procs s i)) (p_pagetable (procs s j)) (p_sz (procs s i)) s) (\<lambda>(r, s).
              if r < 0 then kbind (freeproc j s) (\<lambda>s. Ok (-1, s))
              else
                let s = upd_proc j (\<lambda>p. p\<lparr>p_sz := p_sz (procs s i)\<rparr>) s;
                    s = s\<lparr>pmem := blit (pmem s) (p_trapframe (procs s j)) (pmem s) (p_trapframe (procs s i)) TF_SIZE\<rparr>;
                    s = set_tf j (tf_a 0) 0 s
                in kbind (fork_files i j s) (\<lambda>s.
                case p_cwd (procs s i) of
                  None \<Rightarrow> Panic ''kerneltrap''
                | Some d \<Rightarrow>
                    (case idup d s of (d, s) \<Rightarrow>
                     let s = upd_proc j (\<lambda>p. p\<lparr>p_cwd := Some d, p_name := safestrcpy (p_name p) (p_name (procs s i)) 16\<rparr>) s;
                         pid = p_pid (procs s j);
                         s = upd_proc j (\<lambda>p. p\<lparr>p_parent := Some i\<rparr>) s
                     in Ok (pid, upd_proc j (start_proc (ticks s)) s))))))"

definition init_chan :: "'a sched_state_scheme \<Rightarrow> chan" where
  "init_chan s = (case initproc s of None \<Rightarrow> NoChan | Some k \<Rightarrow> ChanProc k)"

definition reparent :: "nat \<Rightarrow> 'a sched_state_scheme \<Rightarrow> 'a sched_state_scheme" where
  "reparent i s =
     fold (\<lambda>k s. if p_parent (procs s k) = Some i
                 then wakeup (init_chan s) (upd_proc k (\<lambda>p. p\<lparr>p_parent := initproc s\<rparr>) s)
                 else s) [0..<NPROC] s"

text \<open>The loop of \<^verbatim>\<open>kexit\<close> that closes the open files.\<close>

definition close_files :: "nat \<Rightarrow> 'a file_state_scheme \<Rightarrow> 'a file_state_scheme kres" where
  "close_files i s =
     kfold (\<lambda>fd s.
       case p_ofile (procs s i) fd of
         None \<Rightarrow> Ok s
       | Some f \<Rightarrow> kbind (fileclose f s) (\<lambda>s.
           Ok (upd_proc i (\<lambda>p. p\<lparr>p_ofile := (p_ofile p)(fd := None)\<rparr>) s))) [0..<NOFILE] s"

definition kexit :: "int \<Rightarrow> 'a file_state_scheme \<Rightarrow> 'a file_state_scheme kres" where
  "kexit status s =
     (case myproc s of
        None \<Rightarrow> Panic ''kerneltrap''
      | Some i \<Rightarrow>
          if initproc s = Some i then Panic ''init exiting''
          else kbind (close_files i s) (\<lambda>s.
            kbind (begin_op s) (\<lambda>s.
            case p_cwd (procs s i) of
              None \<Rightarrow> Panic ''kerneltrap''
            | Some d \<Rightarrow>
                kbind (iput d s) (\<lambda>s.
                kbind (end_op s) (\<lambda>s.
                let s = upd_proc i (\<lambda>p. p\<lparr>p_cwd := None\<rparr>) s;
                    s = reparent i s;
                    s = wakeup (case p_parent (procs s i) of None \<Rightarrow> NoChan | Some k \<Rightarrow> ChanProc k) s
                in sched True 1 False (upd_proc i (\<lambda>p. p\<lparr>p_xstate := status, p_state := ZOMBIE\<rparr>) s))))))"

text \<open>\<^verbatim>\<open>kwait\<close>: one pass of its loop; after a wait it starts over.\<close>

definition kwait :: "nat \<Rightarrow> 'a sched_state_scheme \<Rightarrow> (int, unit, 'a sched_state_scheme) run kres" where
  "kwait addr s =
     (case myproc s of
        None \<Rightarrow> Panic ''kerneltrap''
      | Some i \<Rightarrow>
          (case find (\<lambda>k. p_parent (procs s k) = Some i \<and> p_state (procs s k) = ZOMBIE) [0..<NPROC] of
             Some k \<Rightarrow>
               let pid = p_pid (procs s k) in
               kbind (if addr \<noteq> 0
                      then copyout (p_pagetable (procs s i)) addr
                             (put_le 4 (\<lambda>_. 0) 0 (nat (p_xstate (procs s k) mod 2 ^ 32))) 0 4 s
                      else Ok (0, s)) (\<lambda>(r, s).
               if r < 0 then Ok (Done (-1) s)
               else kbind (freeproc k s) (\<lambda>s. Ok (Done pid s)))
           | None \<Rightarrow>
               if \<not> list_ex (\<lambda>k. p_parent (procs s k) = Some i) [0..<NPROC] \<or> killed i s then Ok (Done (-1) s)
               else Ok (Wait (ChanProc i) () s)))"

end
