(* ===== verification/Exec.thy ===== *)
theory Exec
  imports Proc_Life
begin

text \<open>
  Loading a program, \<^verbatim>\<open>kernel/exec.c\<close>, with the file format of
  \<^verbatim>\<open>kernel/elf.h\<close>. The arguments are the strings the vector points to. A failure at
  any point goes to \<open>exec_bad\<close>, the label \<^verbatim>\<open>bad\<close> of the code.
\<close>

definition ELF_MAGIC :: nat where "ELF_MAGIC = 0x464C457F"
definition ELF_PROG_LOAD :: nat where "ELF_PROG_LOAD = 1"
definition MAXARG :: nat where "MAXARG = 32"
definition MAXPATH :: nat where "MAXPATH = 128"
definition USERSTACK :: nat where "USERSTACK = 1"

record elfhdr =
  elf_magic :: nat
  elf_entry :: nat
  elf_phoff :: nat
  elf_phnum :: nat

record proghdr =
  ph_type :: nat
  ph_flags :: nat
  ph_off :: nat
  ph_vaddr :: nat
  ph_filesz :: nat
  ph_memsz :: nat

text \<open>The fields of the two headers the loader uses, at their offsets.\<close>

definition elf_of :: "bytes \<Rightarrow> elfhdr" where
  "elf_of m = \<lparr>elf_magic = get_le 4 m 0, elf_entry = get_le 8 m 24, elf_phoff = get_le 8 m 32,
     elf_phnum = get_le 2 m 56\<rparr>"

definition ph_of :: "bytes \<Rightarrow> proghdr" where
  "ph_of m = \<lparr>ph_type = get_le 4 m 0, ph_flags = get_le 4 m 4, ph_off = get_le 8 m 8,
     ph_vaddr = get_le 8 m 16, ph_filesz = get_le 8 m 32, ph_memsz = get_le 8 m 40\<rparr>"

definition flags2perm :: "nat \<Rightarrow> nat" where
  "flags2perm fl =
     flags ([PTE_R] @ (if bit fl 0 then [PTE_X] else []) @ (if bit fl 1 then [PTE_W] else []))"

text \<open>The loop of \<^verbatim>\<open>loadseg\<close> over the page offsets; physical memory is the destination.\<close>

primrec loadseg_loop ::
    "nat list \<Rightarrow> nat \<Rightarrow> nat \<Rightarrow> nat \<Rightarrow> nat \<Rightarrow> nat \<Rightarrow> 'a fs_state_scheme \<Rightarrow> (int \<times> 'a fs_state_scheme) kres" where
  "loadseg_loop [] pt va ip offset sz s = Ok (0, s)"
| "loadseg_loop (i # is) pt va ip offset sz s =
     (let pa = walkaddr pt (va + i) s in
      if pa = 0 then Panic ''loadseg: address should exist''
      else let n = (if sz - i < PGSIZE then sz - i else PGSIZE) in
        kbind (readi ip (Kern (pmem s) pa) ((offset + i) mod 2 ^ 32) n s) (\<lambda>(r, d, s).
        let s = (case d of Kern m _ \<Rightarrow> s\<lparr>pmem := m\<rparr> | User _ \<Rightarrow> s) in
        if r \<noteq> int n then Ok (-1, s) else loadseg_loop is pt va ip offset sz s))"

definition loadseg ::
    "nat \<Rightarrow> nat \<Rightarrow> nat \<Rightarrow> nat \<Rightarrow> nat \<Rightarrow> 'a fs_state_scheme \<Rightarrow> (int \<times> 'a fs_state_scheme) kres" where
  "loadseg pt va ip offset sz s =
     loadseg_loop (map (\<lambda>k. k * PGSIZE) [0..<(sz + PGSIZE - 1) div PGSIZE]) pt va ip offset sz s"

text \<open>Reading a header of \<open>n\<close> bytes; \<open>None\<close> when the file is too short.\<close>

definition read_hdr ::
    "nat \<Rightarrow> nat \<Rightarrow> nat \<Rightarrow> 'a fs_state_scheme \<Rightarrow> (bytes option \<times> 'a fs_state_scheme) kres" where
  "read_hdr ip off n s =
     kbind (readi ip (Kern (\<lambda>_. 0) 0) off n s) (\<lambda>(r, d, s).
     Ok (if r \<noteq> int n then None else (case d of Kern m _ \<Rightarrow> Some m | User _ \<Rightarrow> None), s))"

text \<open>
  The loop over the program headers, \<open>n\<close> of them from offset \<open>off\<close>. The result is whether
  all went well, and the size reached.
\<close>

primrec exec_load ::
    "nat \<Rightarrow> nat \<Rightarrow> nat \<Rightarrow> nat \<Rightarrow> nat \<Rightarrow> 'a fs_state_scheme \<Rightarrow> (bool \<times> nat \<times> 'a fs_state_scheme) kres" where
  "exec_load 0 ip off pt sz s = Ok (True, sz, s)"
| "exec_load (Suc n) ip off pt sz s =
     kbind (read_hdr ip (off mod 2 ^ 32) 56 s) (\<lambda>(r, s).
     case r of
       None \<Rightarrow> Ok (False, sz, s)
     | Some m \<Rightarrow>
         let ph = ph_of m in
         if ph_type ph \<noteq> ELF_PROG_LOAD then exec_load n ip (off + 56) pt sz s
         else if ph_memsz ph < ph_filesz ph then Ok (False, sz, s)
         else if (ph_vaddr ph + ph_memsz ph) mod 2 ^ 64 < ph_vaddr ph then Ok (False, sz, s)
         else if ph_vaddr ph mod PGSIZE \<noteq> 0 then Ok (False, sz, s)
         else kbind (uvmalloc pt sz (ph_vaddr ph + ph_memsz ph) (flags2perm (ph_flags ph)) s) (\<lambda>(sz1, s).
           if sz1 = 0 then Ok (False, sz, s)
           else kbind (loadseg pt (ph_vaddr ph) ip (ph_off ph mod 2 ^ 32) (ph_filesz ph mod 2 ^ 32) s) (\<lambda>(r, s).
             if r < 0 then Ok (False, sz1, s) else exec_load n ip (off + 56) pt sz1 s)))"

text \<open>
  The loop that pushes the argument strings, from the stack pointer \<open>sp\<close>; \<open>ustack\<close> holds the
  addresses so far.
\<close>

primrec exec_args ::
    "byte list list \<Rightarrow> nat list \<Rightarrow> nat \<Rightarrow> nat \<Rightarrow> nat \<Rightarrow> 'a sched_state_scheme \<Rightarrow>
     ((nat \<times> nat list) option \<times> 'a sched_state_scheme) kres" where
  "exec_args [] ustack pt sp stackbase s = Ok (Some (sp, ustack), s)"
| "exec_args (a # argv) ustack pt sp stackbase s =
     (if MAXARG \<le> length ustack then Ok (None, s)
      else let sp = sp - (length a + 1); sp = sp - sp mod 16 in
      if sp < stackbase then Ok (None, s)
      else kbind (copyout pt sp (arr a) 0 (length a + 1) s) (\<lambda>(r, s).
        if r < 0 then Ok (None, s) else exec_args argv (ustack @ [sp]) pt sp stackbase s))"

definition ustack_bytes :: "nat list \<Rightarrow> bytes" where
  "ustack_bytes us = fold (\<lambda>k m. put_le 8 m (8 * k) (us ! k)) [0..<length us] (\<lambda>_. 0)"

text \<open>The label \<^verbatim>\<open>bad\<close>: the new page table (0 for none) and the inode if still locked.\<close>

definition exec_bad ::
    "nat \<Rightarrow> nat \<Rightarrow> nat option \<Rightarrow> 'a file_state_scheme \<Rightarrow> (int \<times> 'a file_state_scheme) kres" where
  "exec_bad pt sz ip s =
     kbind (if pt \<noteq> 0 then proc_freepagetable pt sz s else Ok s) (\<lambda>s.
     kbind (case ip of None \<Rightarrow> Ok s | Some ip \<Rightarrow> kbind (iunlockput ip s) end_op) (\<lambda>s.
     Ok (-1, s)))"

text \<open>The part after the program is loaded: stack, arguments, and the switch of images.\<close>

definition path_last :: "byte list \<Rightarrow> byte list" where
  "path_last path = rev (takeWhile (\<lambda>c. c \<noteq> slash) (rev path))"

definition exec_stack ::
    "nat \<Rightarrow> byte list \<Rightarrow> byte list list \<Rightarrow> nat \<Rightarrow> nat \<Rightarrow> nat \<Rightarrow> 'a file_state_scheme \<Rightarrow> (int \<times> 'a file_state_scheme) kres" where
  "exec_stack i path argv entry pt sz s =
     (let oldsz = p_sz (procs s i); sz = PGROUNDUP sz in
      kbind (uvmalloc pt sz (sz + (USERSTACK + 1) * PGSIZE) (flags [PTE_W]) s) (\<lambda>(sz1, s).
      if sz1 = 0 then exec_bad pt sz None s
      else kbind (uvmclear pt (sz1 - (USERSTACK + 1) * PGSIZE) s) (\<lambda>s.
        let stackbase = sz1 - USERSTACK * PGSIZE in
        kbind (exec_args argv [] pt sz1 stackbase s) (\<lambda>(r, s).
        case r of
          None \<Rightarrow> exec_bad pt sz1 None s
        | Some (sp, us) \<Rightarrow>
            let argc = length us; ustack = us @ [0];
                sp = sp - (argc + 1) * 8; sp = sp - sp mod 16 in
            if sp < stackbase then exec_bad pt sz1 None s
            else kbind (copyout pt sp (ustack_bytes ustack) 0 ((argc + 1) * 8) s) (\<lambda>(r, s).
              if r < 0 then exec_bad pt sz1 None s
              else
                let s = set_tf i (tf_a 1) sp s;
                    s = upd_proc i (\<lambda>p. p\<lparr>p_name := safestrcpy (p_name p) (arr (path_last path)) 16\<rparr>) s;
                    oldpt = p_pagetable (procs s i);
                    s = upd_proc i (\<lambda>p. p\<lparr>p_pagetable := pt, p_sz := sz1\<rparr>) s;
                    s = set_tf i tf_epc entry s;
                    s = set_tf i tf_sp sp s
                in kbind (proc_freepagetable oldpt oldsz s) (\<lambda>s. Ok (int argc, s)))))))"

definition kexec ::
    "linker \<Rightarrow> byte list \<Rightarrow> byte list list \<Rightarrow> 'a file_state_scheme \<Rightarrow> (int \<times> 'a file_state_scheme) kres" where
  "kexec ld path argv s =
     (case myproc s of
        None \<Rightarrow> Panic ''kerneltrap''
      | Some i \<Rightarrow>
          kbind (begin_op s) (\<lambda>s.
          kbind (namei path s) (\<lambda>(r, s).
          case r of
            None \<Rightarrow> kbind (end_op s) (\<lambda>s. Ok (-1, s))
          | Some ip \<Rightarrow>
              kbind (ilock ip s) (\<lambda>s.
              if bit (i_flags (itable s ip)) 1 then exec_bad 0 0 (Some ip) s
              else kbind (read_hdr ip 0 64 s) (\<lambda>(h, s).
              case h of
                None \<Rightarrow> exec_bad 0 0 (Some ip) s
              | Some m \<Rightarrow>
                  let elf = elf_of m in
                  if elf_magic elf \<noteq> ELF_MAGIC then exec_bad 0 0 (Some ip) s
                  else kbind (proc_pagetable ld i s) (\<lambda>(pt, s).
                    if pt = 0 then exec_bad 0 0 (Some ip) s
                    else kbind (exec_load (elf_phnum elf) ip (elf_phoff elf) pt 0 s) (\<lambda>(ok, sz, s).
                      if \<not> ok then exec_bad pt sz (Some ip) s
                      else kbind (iunlockput ip s) (\<lambda>s.
                           kbind (end_op s) (\<lambda>s.
                           exec_stack i path argv (elf_entry elf) pt sz s)))))))))"

end
