(* ===== verification/Sysfile.thy ===== *)
theory Sysfile
  imports Exec
begin

text \<open>
  System-call arguments, \<^verbatim>\<open>kernel/syscall.c\<close>, and the system calls on files,
  \<^verbatim>\<open>kernel/sysfile.c\<close>. The arguments are in the trapframe of the caller; the
  result is the value returned in \<^verbatim>\<open>a0\<close>.
\<close>

section \<open>Arguments\<close>

definition fetchaddr ::
    "nat \<Rightarrow> 'a sched_state_scheme \<Rightarrow> (int \<times> nat \<times> 'a sched_state_scheme) kres" where
  "fetchaddr addr s =
     (case myproc s of
        None \<Rightarrow> Panic ''kerneltrap''
      | Some i \<Rightarrow>
          if p_sz (procs s i) \<le> addr \<or> p_sz (procs s i) < (addr + 8) mod 2 ^ 64 then Ok (-1, 0, s)
          else kbind (copyin (p_pagetable (procs s i)) (\<lambda>_. 0) 0 addr 8 s) (\<lambda>(r, b, s).
            if r \<noteq> 0 then Ok (-1, 0, s) else Ok (0, get_le 8 b 0, s)))"

text \<open>
  \<^verbatim>\<open>fetchstr\<close> into offset \<open>d\<close> of \<open>buf\<close>. After a successful \<^verbatim>\<open>copyinstr\<close> the
  string ends within \<open>mx\<close> bytes, so its \<^verbatim>\<open>strlen\<close> is the length of \<open>cstr\<close>.
\<close>

definition fetchstr ::
    "nat \<Rightarrow> bytes \<Rightarrow> nat \<Rightarrow> nat \<Rightarrow> 'a sched_state_scheme \<Rightarrow> (int \<times> bytes) kres" where
  "fetchstr addr buf d mx s =
     (case myproc s of
        None \<Rightarrow> Panic ''kerneltrap''
      | Some i \<Rightarrow>
          (case copyinstr (p_pagetable (procs s i)) buf d addr mx s of (r, buf) \<Rightarrow>
             Ok (if r < 0 then -1 else int (length (cstr (\<lambda>k. buf (d + k)) mx)), buf)))"

definition argraw :: "nat \<Rightarrow> 'a sched_state_scheme \<Rightarrow> nat kres" where
  "argraw n s =
     (case myproc s of
        None \<Rightarrow> Panic ''kerneltrap''
      | Some i \<Rightarrow> if n < 6 then Ok (get_tf i (tf_a n) s) else Panic ''argraw'')"

definition argint :: "nat \<Rightarrow> 'a sched_state_scheme \<Rightarrow> int kres" where
  "argint n s = kbind (argraw n s) (\<lambda>v. Ok (s32 (v mod 2 ^ 32)))"

definition argaddr :: "nat \<Rightarrow> 'a sched_state_scheme \<Rightarrow> nat kres" where
  "argaddr n s = argraw n s"

text \<open>The string is returned as a list; \<open>None\<close> is the result -1.\<close>

definition argstr :: "nat \<Rightarrow> nat \<Rightarrow> 'a sched_state_scheme \<Rightarrow> byte list option kres" where
  "argstr n mx s =
     kbind (argaddr n s) (\<lambda>addr.
     kbind (fetchstr addr (\<lambda>_. 0) 0 mx s) (\<lambda>(r, buf). Ok (if r < 0 then None else Some (cstr buf mx))))"

section \<open>File descriptors\<close>

definition argfd :: "nat \<Rightarrow> 'a sched_state_scheme \<Rightarrow> (nat \<times> nat) option kres" where
  "argfd n s =
     kbind (argint n s) (\<lambda>fd.
     case myproc s of
       None \<Rightarrow> Panic ''kerneltrap''
     | Some i \<Rightarrow>
         if fd < 0 \<or> int NOFILE \<le> fd then Ok None
         else Ok (map_option (\<lambda>f. (nat fd, f)) (p_ofile (procs s i) (nat fd))))"

definition fdalloc :: "nat \<Rightarrow> 'a sched_state_scheme \<Rightarrow> (int \<times> 'a sched_state_scheme) kres" where
  "fdalloc f s =
     (case myproc s of
        None \<Rightarrow> Panic ''kerneltrap''
      | Some i \<Rightarrow>
          (case find (\<lambda>fd. p_ofile (procs s i) fd = None) [0..<NOFILE] of
             None \<Rightarrow> Ok (-1, s)
           | Some fd \<Rightarrow> Ok (int fd, upd_proc i (\<lambda>p. p\<lparr>p_ofile := (p_ofile p)(fd := Some f)\<rparr>) s)))"

text \<open>\<^verbatim>\<open>p->ofile[fd] = 0\<close> for the current process.\<close>

definition clear_fd :: "nat \<Rightarrow> 'a sched_state_scheme \<Rightarrow> 'a sched_state_scheme kres" where
  "clear_fd fd s =
     (case myproc s of
        None \<Rightarrow> Panic ''kerneltrap''
      | Some i \<Rightarrow> Ok (upd_proc i (\<lambda>p. p\<lparr>p_ofile := (p_ofile p)(fd := None)\<rparr>) s))"

text \<open>A copy to the current process, as the system calls use it: -1 or 0.\<close>

definition user_copyout ::
    "nat \<Rightarrow> bytes \<Rightarrow> nat \<Rightarrow> 'a sched_state_scheme \<Rightarrow> (int \<times> 'a sched_state_scheme) kres" where
  "user_copyout addr b n s =
     (case myproc s of
        None \<Rightarrow> Panic ''kerneltrap''
      | Some i \<Rightarrow> kbind (copyout (p_pagetable (procs s i)) addr b 0 n s) (\<lambda>(r, s). Ok (if r < 0 then -1 else 0, s)))"

definition sys_dup :: "'a file_state_scheme \<Rightarrow> (int \<times> 'a file_state_scheme) kres" where
  "sys_dup s =
     kbind (argfd 0 s) (\<lambda>a.
     case a of
       None \<Rightarrow> Ok (-1, s)
     | Some (_, f) \<Rightarrow>
         kbind (fdalloc f s) (\<lambda>(fd, s).
         if fd < 0 then Ok (-1, s) else kbind (filedup f s) (\<lambda>(_, s). Ok (fd, s))))"

definition sys_read :: "'a file_state_scheme \<Rightarrow> (int \<times> 'a file_state_scheme) kres" where
  "sys_read s =
     kbind (argaddr 1 s) (\<lambda>p. kbind (argint 2 s) (\<lambda>n. kbind (argfd 0 s) (\<lambda>a.
     case a of None \<Rightarrow> Ok (-1, s) | Some (_, f) \<Rightarrow> fileread f p n s)))"

definition sys_write :: "'a file_state_scheme \<Rightarrow> (int \<times> 'a file_state_scheme) kres" where
  "sys_write s =
     kbind (argaddr 1 s) (\<lambda>p. kbind (argint 2 s) (\<lambda>n. kbind (argfd 0 s) (\<lambda>a.
     case a of None \<Rightarrow> Ok (-1, s) | Some (_, f) \<Rightarrow> filewrite f p n s)))"

definition sys_close :: "'a file_state_scheme \<Rightarrow> (int \<times> 'a file_state_scheme) kres" where
  "sys_close s =
     kbind (argfd 0 s) (\<lambda>a.
     case a of
       None \<Rightarrow> Ok (-1, s)
     | Some (fd, f) \<Rightarrow> kbind (clear_fd fd s) (\<lambda>s. kbind (fileclose f s) (\<lambda>s. Ok (0, s))))"

definition sys_fstat :: "'a file_state_scheme \<Rightarrow> (int \<times> 'a file_state_scheme) kres" where
  "sys_fstat s =
     kbind (argaddr 1 s) (\<lambda>st. kbind (argfd 0 s) (\<lambda>a.
     case a of None \<Rightarrow> Ok (-1, s) | Some (_, f) \<Rightarrow> filestat f st s))"

text \<open>The bytes of a \<^verbatim>\<open>struct hai_statfs\<close>: 23 unsigned words in order.\<close>

definition statfs_bytes :: "hai_statfs \<Rightarrow> bytes" where
  "statfs_bytes st =
     (let ws = [st_magic st, st_version st, st_block_size st, st_checksum_alg st, st_data_csum st,
                st_size_blocks st, st_data_blocks st, st_inode_count st, st_free_blocks st, st_used_blocks st,
                st_free_inodes st, st_used_inodes st, st_io_reads st, st_io_writes st, st_checksum_errors st,
                st_has_journaling st, st_has_checksum st, st_has_quota st, st_log_start st, st_log_nblocks st,
                st_log_segments st, st_quota_start st, st_quota_blocks st]
      in fold (\<lambda>k m. put_le 4 m (4 * k) (ws ! k)) [0..<23] (\<lambda>_. 0))"

definition sys_statfs :: "'a file_state_scheme \<Rightarrow> (int \<times> 'a file_state_scheme) kres" where
  "sys_statfs s =
     kbind (argaddr 0 s) (\<lambda>uaddr.
     kbind (fs_statfs s) (\<lambda>(st, s). user_copyout uaddr (statfs_bytes st) 92 s))"

section \<open>Links\<close>

text \<open>A change of the link count of a locked inode, written back.\<close>

definition add_nlink :: "int \<Rightarrow> nat \<Rightarrow> 'a fs_state_scheme \<Rightarrow> 'a fs_state_scheme kres" where
  "add_nlink d ip s = iupdate ip (upd_inode ip (\<lambda>n. n\<lparr>i_nlink := s16 (u16 (i_nlink n + d))\<rparr>) s)"

definition fail_op :: "'a log_state_scheme \<Rightarrow> (int \<times> 'a log_state_scheme) kres" where
  "fail_op s = kbind (end_op s) (\<lambda>s. Ok (-1, s))"

definition link_bad :: "nat \<Rightarrow> 'a fs_state_scheme \<Rightarrow> (int \<times> 'a fs_state_scheme) kres" where
  "link_bad ip s =
     kbind (ilock ip s) (\<lambda>s. kbind (add_nlink (-1) ip s) (\<lambda>s. kbind (iunlockput ip s) fail_op))"

definition sys_link :: "'a fs_state_scheme \<Rightarrow> (int \<times> 'a fs_state_scheme) kres" where
  "sys_link s =
     kbind (argstr 0 MAXPATH s) (\<lambda>old.
     case old of
       None \<Rightarrow> Ok (-1, s)
     | Some old \<Rightarrow>
     kbind (argstr 1 MAXPATH s) (\<lambda>new.
     case new of
       None \<Rightarrow> Ok (-1, s)
     | Some new \<Rightarrow>
     kbind (begin_op s) (\<lambda>s.
     kbind (namei old s) (\<lambda>(r, s).
     case r of
       None \<Rightarrow> fail_op s
     | Some ip \<Rightarrow>
     kbind (ilock ip s) (\<lambda>s.
     if i_type (itable s ip) = T_DIR then kbind (iunlockput ip s) fail_op
     else
     kbind (add_nlink 1 ip s) (\<lambda>s.
     kbind (iunlock ip s) (\<lambda>s.
     kbind (nameiparent new (\<lambda>_. 0) s) (\<lambda>(r, name, s).
     case r of
       None \<Rightarrow> link_bad ip s
     | Some dp \<Rightarrow>
     kbind (ilock dp s) (\<lambda>s.
     kbind (if i_dev (itable s dp) \<noteq> i_dev (itable s ip) then Ok (-1, s)
            else dirlink dp name (i_inum (itable s ip)) s) (\<lambda>(r, s).
     kbind (iunlockput dp s) (\<lambda>s.
     if r < 0 then link_bad ip s
     else kbind (iput ip s) (\<lambda>s. kbind (end_op s) (\<lambda>s. Ok (0, s))))))))))))))"

primrec isdirempty_loop :: "nat list \<Rightarrow> nat \<Rightarrow> 'a fs_state_scheme \<Rightarrow> (bool \<times> 'a fs_state_scheme) kres" where
  "isdirempty_loop [] dp s = Ok (True, s)"
| "isdirempty_loop (off # offs) dp s =
     kbind (read_de ''isdirempty: readi'' dp off s) (\<lambda>(de, s).
     if de_inum de \<noteq> 0 then Ok (False, s) else isdirempty_loop offs dp s)"

definition isdirempty :: "nat \<Rightarrow> 'a fs_state_scheme \<Rightarrow> (bool \<times> 'a fs_state_scheme) kres" where
  "isdirempty dp s = isdirempty_loop (drop 2 (dir_offs (i_size (itable s dp)))) dp s"

definition sys_unlink :: "'a fs_state_scheme \<Rightarrow> (int \<times> 'a fs_state_scheme) kres" where
  "sys_unlink s =
     kbind (argstr 0 MAXPATH s) (\<lambda>path.
     case path of
       None \<Rightarrow> Ok (-1, s)
     | Some path \<Rightarrow>
     kbind (begin_op s) (\<lambda>s.
     kbind (nameiparent path (\<lambda>_. 0) s) (\<lambda>(r, name, s).
     case r of
       None \<Rightarrow> fail_op s
     | Some dp \<Rightarrow>
     kbind (ilock dp s) (\<lambda>s.
     if namecmp name (arr (str ''.'')) = 0 \<or> namecmp name (arr (str ''..'')) = 0
     then kbind (iunlockput dp s) fail_op
     else
     kbind (dirlookup dp name s) (\<lambda>(r, s).
     case r of
       None \<Rightarrow> kbind (iunlockput dp s) fail_op
     | Some (ip, off) \<Rightarrow>
     kbind (ilock ip s) (\<lambda>s.
     if i_nlink (itable s ip) < 1 then Panic ''unlink: nlink < 1''
     else
     kbind (if i_type (itable s ip) = T_DIR then isdirempty ip s else Ok (True, s)) (\<lambda>(empty, s).
     if \<not> empty then kbind (iunlockput ip s) (\<lambda>s. kbind (iunlockput dp s) fail_op)
     else
     kbind (writei dp (Kern (\<lambda>_. 0) 0) off DIRENT_SIZE s) (\<lambda>(r, s).
     if r \<noteq> int DIRENT_SIZE then Panic ''unlink: writei''
     else
     kbind (if i_type (itable s ip) = T_DIR then add_nlink (-1) dp s else Ok s) (\<lambda>s.
     kbind (iunlockput dp s) (\<lambda>s.
     kbind (add_nlink (-1) ip s) (\<lambda>s.
     kbind (iunlockput ip s) (\<lambda>s.
     kbind (end_op s) (\<lambda>s. Ok (0, s))))))))))))))"

section \<open>Creating and opening\<close>

definition create_fail :: "nat \<Rightarrow> nat \<Rightarrow> 'a fs_state_scheme \<Rightarrow> (nat option \<times> 'a fs_state_scheme) kres" where
  "create_fail ip dp s =
     kbind (iupdate ip (upd_inode ip (\<lambda>n. n\<lparr>i_nlink := 0\<rparr>) s)) (\<lambda>s.
     kbind (iunlockput ip s) (\<lambda>s. kbind (iunlockput dp s) (\<lambda>s. Ok (None, s))))"

definition create ::
    "byte list \<Rightarrow> int \<Rightarrow> int \<Rightarrow> int \<Rightarrow> 'a fs_state_scheme \<Rightarrow> (nat option \<times> 'a fs_state_scheme) kres" where
  "create path type major minor s =
     kbind (nameiparent path (\<lambda>_. 0) s) (\<lambda>(r, name, s).
     case r of
       None \<Rightarrow> Ok (None, s)
     | Some dp \<Rightarrow>
     kbind (ilock dp s) (\<lambda>s.
     kbind (dirlookup dp name s) (\<lambda>(r, s).
     case r of
       Some (ip, _) \<Rightarrow>
         kbind (iunlockput dp s) (\<lambda>s.
         kbind (ilock ip s) (\<lambda>s.
         if type = T_FILE \<and> (i_type (itable s ip) = T_FILE \<or> i_type (itable s ip) = T_DEVICE)
         then Ok (Some ip, s) else kbind (iunlockput ip s) (\<lambda>s. Ok (None, s))))
     | None \<Rightarrow>
     kbind (ialloc (i_dev (itable s dp)) type s) (\<lambda>(r, s).
     case r of
       None \<Rightarrow> kbind (iunlockput dp s) (\<lambda>s. Ok (None, s))
     | Some ip \<Rightarrow>
     kbind (ilock ip s) (\<lambda>s.
     kbind (iupdate ip (upd_inode ip (\<lambda>n. n\<lparr>i_major := major, i_minor := minor, i_nlink := 1\<rparr>) s)) (\<lambda>s.
     kbind (if type = T_DIR then
              kbind (dirlink ip (arr (str ''.'')) (i_inum (itable s ip)) s) (\<lambda>(r, s).
              if r < 0 then Ok (r, s) else dirlink ip (arr (str ''..'')) (i_inum (itable s dp)) s)
            else Ok (0, s)) (\<lambda>(r, s).
     if r < 0 then create_fail ip dp s
     else
     kbind (dirlink dp name (i_inum (itable s ip)) s) (\<lambda>(r, s).
     if r < 0 then create_fail ip dp s
     else
     kbind (if type = T_DIR then add_nlink 1 dp s else Ok s) (\<lambda>s.
     kbind (iunlockput dp s) (\<lambda>s. Ok (Some ip, s)))))))))))"

definition sys_open :: "'a file_state_scheme \<Rightarrow> (int \<times> 'a file_state_scheme) kres" where
  "sys_open s =
     kbind (argint 1 s) (\<lambda>omode.
     kbind (argstr 0 MAXPATH s) (\<lambda>path.
     case path of
       None \<Rightarrow> Ok (-1, s)
     | Some path \<Rightarrow>
     kbind (begin_op s) (\<lambda>s.
     kbind (if bit omode 9 then create path T_FILE 0 0 s
            else kbind (namei path s) (\<lambda>(r, s).
              case r of
                None \<Rightarrow> Ok (None, s)
              | Some ip \<Rightarrow> kbind (ilock ip s) (\<lambda>s.
                  if i_type (itable s ip) = T_DIR \<and> omode \<noteq> 0
                  then kbind (iunlockput ip s) (\<lambda>s. Ok (None, s)) else Ok (Some ip, s)))) (\<lambda>(r, s).
     case r of
       None \<Rightarrow> fail_op s
     | Some ip \<Rightarrow>
     if i_type (itable s ip) = T_DEVICE \<and> (i_major (itable s ip) < 0 \<or> int NDEV \<le> i_major (itable s ip))
     then kbind (iunlockput ip s) fail_op
     else case filealloc s of
       (None, s) \<Rightarrow> kbind (iunlockput ip s) fail_op
     | (Some f, s) \<Rightarrow>
     kbind (fdalloc f s) (\<lambda>(fd, s).
     if fd < 0 then kbind (fileclose f s) (\<lambda>s. kbind (iunlockput ip s) fail_op)
     else
     let s = (if i_type (itable s ip) = T_DEVICE
              then upd_file f (\<lambda>f. f\<lparr>f_type := FD_DEVICE, f_major := i_major (itable s ip)\<rparr>) s
              else upd_file f (\<lambda>f. f\<lparr>f_type := FD_INODE, f_off := 0\<rparr>) s);
         s = upd_file f (\<lambda>f. f\<lparr>f_ip := ip, f_readable := \<not> bit omode 0,
                               f_writable := bit omode 0 \<or> bit omode 1\<rparr>) s in
     kbind (if bit omode 10 \<and> i_type (itable s ip) = T_FILE then itrunc ip s else Ok s) (\<lambda>s.
     kbind (iunlock ip s) (\<lambda>s.
     kbind (end_op s) (\<lambda>s. Ok (fd, s)))))))))"

definition sys_mkdir :: "'a fs_state_scheme \<Rightarrow> (int \<times> 'a fs_state_scheme) kres" where
  "sys_mkdir s =
     kbind (begin_op s) (\<lambda>s.
     kbind (argstr 0 MAXPATH s) (\<lambda>path.
     case path of
       None \<Rightarrow> fail_op s
     | Some path \<Rightarrow>
     kbind (create path T_DIR 0 0 s) (\<lambda>(r, s).
     case r of
       None \<Rightarrow> fail_op s
     | Some ip \<Rightarrow> kbind (iunlockput ip s) (\<lambda>s. kbind (end_op s) (\<lambda>s. Ok (0, s))))))"

definition sys_mknod :: "'a fs_state_scheme \<Rightarrow> (int \<times> 'a fs_state_scheme) kres" where
  "sys_mknod s =
     kbind (begin_op s) (\<lambda>s.
     kbind (argint 1 s) (\<lambda>major.
     kbind (argint 2 s) (\<lambda>minor.
     kbind (argstr 0 MAXPATH s) (\<lambda>path.
     case path of
       None \<Rightarrow> fail_op s
     | Some path \<Rightarrow>
     kbind (create path T_DEVICE (s16 (u16 major)) (s16 (u16 minor)) s) (\<lambda>(r, s).
     case r of
       None \<Rightarrow> fail_op s
     | Some ip \<Rightarrow> kbind (iunlockput ip s) (\<lambda>s. kbind (end_op s) (\<lambda>s. Ok (0, s))))))))"

definition sys_chdir :: "'a fs_state_scheme \<Rightarrow> (int \<times> 'a fs_state_scheme) kres" where
  "sys_chdir s =
     (case myproc s of
        None \<Rightarrow> Panic ''kerneltrap''
      | Some i \<Rightarrow>
     kbind (begin_op s) (\<lambda>s.
     kbind (argstr 0 MAXPATH s) (\<lambda>path.
     case path of
       None \<Rightarrow> fail_op s
     | Some path \<Rightarrow>
     kbind (namei path s) (\<lambda>(r, s).
     case r of
       None \<Rightarrow> fail_op s
     | Some ip \<Rightarrow>
     kbind (ilock ip s) (\<lambda>s.
     if i_type (itable s ip) \<noteq> T_DIR then kbind (iunlockput ip s) fail_op
     else
     kbind (iunlock ip s) (\<lambda>s.
     case p_cwd (procs s i) of
       None \<Rightarrow> Panic ''kerneltrap''
     | Some d \<Rightarrow>
     kbind (iput d s) (\<lambda>s.
     kbind (end_op s) (\<lambda>s.
     Ok (0, upd_proc i (\<lambda>p. p\<lparr>p_cwd := Some ip\<rparr>) s)))))))))"

definition sys_fverify :: "'a fs_state_scheme \<Rightarrow> (int \<times> 'a fs_state_scheme) kres" where
  "sys_fverify s =
     kbind (begin_op s) (\<lambda>s.
     kbind (argstr 0 MAXPATH s) (\<lambda>path.
     case path of
       None \<Rightarrow> fail_op s
     | Some path \<Rightarrow>
     kbind (namei path s) (\<lambda>(r, s).
     case r of
       None \<Rightarrow> fail_op s
     | Some ip \<Rightarrow>
     kbind (ilock ip s) (\<lambda>s.
     kbind (inode_checksum ip s) (\<lambda>(calc, s).
     let ok = (calc = i_checksum (itable s ip)) in
     kbind (iunlockput ip s) (\<lambda>s.
     kbind (end_op s) (\<lambda>s. Ok (if ok then 0 else -1, s))))))))"

section \<open>Programs and pipes\<close>

text \<open>
  The loop that copies the argument strings of \<^verbatim>\<open>exec\<close> and \<^verbatim>\<open>spawn\<close> into pages of
  their own: \<open>k\<close> more entries fit. The result is whether it succeeded, and the pages.
\<close>

primrec fetch_argv ::
    "nat \<Rightarrow> nat \<Rightarrow> nat \<Rightarrow> nat list \<Rightarrow> 'a sched_state_scheme \<Rightarrow> (bool \<times> nat list \<times> 'a sched_state_scheme) kres" where
  "fetch_argv 0 uargv i argv s = Ok (False, argv, s)"
| "fetch_argv (Suc k) uargv i argv s =
     kbind (fetchaddr ((uargv + 8 * i) mod 2 ^ 64) s) (\<lambda>(r, uarg, s).
     if r < 0 then Ok (False, argv, s)
     else if uarg = 0 then Ok (True, argv, s)
     else case kalloc s of (pg, s) \<Rightarrow>
       if pg = 0 then Ok (False, argv, s)
       else kbind (fetchstr uarg (pmem s) pg PGSIZE s) (\<lambda>(r, m).
         let s = s\<lparr>pmem := m\<rparr> in
         if r < 0 then Ok (False, argv @ [pg], s) else fetch_argv k uargv (i + 1) (argv @ [pg]) s))"

definition free_argv :: "nat list \<Rightarrow> 'a kmem_state_scheme \<Rightarrow> 'a kmem_state_scheme kres" where
  "free_argv argv s = kfold kfree argv s"

definition argv_strings :: "nat list \<Rightarrow> 'a kmem_state_scheme \<Rightarrow> byte list list" where
  "argv_strings argv s = map (\<lambda>pg. cstr (\<lambda>k. pmem s (pg + k)) PGSIZE) argv"

definition sys_exec :: "linker \<Rightarrow> 'a file_state_scheme \<Rightarrow> (int \<times> 'a file_state_scheme) kres" where
  "sys_exec ld s =
     kbind (argaddr 1 s) (\<lambda>uargv.
     kbind (argstr 0 MAXPATH s) (\<lambda>path.
     case path of
       None \<Rightarrow> Ok (-1, s)
     | Some path \<Rightarrow>
     kbind (fetch_argv MAXARG uargv 0 [] s) (\<lambda>(ok, argv, s).
     if \<not> ok then kbind (free_argv argv s) (\<lambda>s. Ok (-1, s))
     else
     kbind (kexec ld path (argv_strings argv s) s) (\<lambda>(ret, s).
     kbind (free_argv argv s) (\<lambda>s. Ok (ret, s))))))"

definition sys_pipe :: "'a file_state_scheme \<Rightarrow> (int \<times> 'a file_state_scheme) kres" where
  "sys_pipe s =
     kbind (argaddr 0 s) (\<lambda>fdarray.
     kbind (pipealloc s) (\<lambda>(r, s).
     case r of
       None \<Rightarrow> Ok (-1, s)
     | Some (f0, f1) \<Rightarrow>
     kbind (fdalloc f0 s) (\<lambda>(fd0, s).
     kbind (if fd0 < 0 then Ok (-1, s) else fdalloc f1 s) (\<lambda>(fd1, s).
     if fd1 < 0 then
       kbind (if 0 \<le> fd0 then clear_fd (nat fd0) s else Ok s) (\<lambda>s.
       kbind (fileclose f0 s) (\<lambda>s. kbind (fileclose f1 s) (\<lambda>s. Ok (-1, s))))
     else
     kbind (user_copyout fdarray (put_le 4 (\<lambda>_. 0) 0 (nat fd0)) 4 s) (\<lambda>(r, s).
     kbind (if r < 0 then Ok (-1, s) else user_copyout (fdarray + 4) (put_le 4 (\<lambda>_. 0) 0 (nat fd1)) 4 s) (\<lambda>(r, s).
     if r < 0 then
       kbind (clear_fd (nat fd0) s) (\<lambda>s. kbind (clear_fd (nat fd1) s) (\<lambda>s.
       kbind (fileclose f0 s) (\<lambda>s. kbind (fileclose f1 s) (\<lambda>s. Ok (-1, s)))))
     else Ok (0, s)))))))"

end
