(* ===== verification/Virtio.thy ===== *)
theory Virtio
  imports File
begin

text \<open>
  The disk driver, \<^verbatim>\<open>kernel/virtio_disk.c\<close>, and the driver table,
  \<^verbatim>\<open>kernel/driver.c\<close>.

  The driver shares descriptors and two rings with the device. The device itself is not part
  of the repository: what it puts into its registers is the argument \<open>vregs\<close> of the
  initialisation, and what it does to the shared memory is the step \<open>dev_done\<close>, which states
  the protocol of the virtio specification (it takes the next chain of the available ring,
  performs it, stores a status and adds the chain to the used ring). The pointers that
  descriptors hold are values of \<open>vptr\<close>. The field \<^verbatim>\<open>disk\<close> of a buffer, which only
  this driver uses, is \<open>vd_bdisk\<close>.
\<close>

section \<open>State\<close>

definition NUM :: nat where "NUM = 8"

datatype vptr = PNull | PReq nat | PData nat | PStatus nat

record virtq_desc =
  vd_addr :: vptr
  vd_len :: nat
  vd_next_flag :: bool
  vd_write_flag :: bool
  vd_next :: nat

record virtio_blk_req =
  rq_write :: bool
  rq_sector :: nat

record vdisk_state = file_state +
  vq_desc :: "nat \<Rightarrow> virtq_desc"
  vq_avail_idx :: "16 word"
  vq_avail :: "nat \<Rightarrow> nat"
  vq_used_idx :: "16 word"
  vq_used :: "nat \<Rightarrow> nat"
  vd_free :: "nat \<Rightarrow> bool"
  vd_used_idx :: "16 word"
  vd_info_b :: "nat \<Rightarrow> nat option"
  vd_info_status :: "nat \<Rightarrow> nat"
  vd_ops :: "nat \<Rightarrow> virtio_blk_req"
  vd_bdisk :: "nat \<Rightarrow> bool"
  vd_regs :: "(nat \<times> nat) list"
  vd_submits :: nat
  vd_completes :: nat
  vd_inflight :: nat
  vd_max_inflight :: nat
  vd_reads :: nat
  vd_writes :: nat

text \<open>The values the initialisation reads from the device.\<close>

record vregs =
  vr_magic :: nat
  vr_version :: nat
  vr_device :: nat
  vr_vendor :: nat
  vr_features :: nat
  vr_status :: nat
  vr_ready :: nat
  vr_max :: nat

section \<open>Descriptors\<close>

definition alloc_desc :: "'a vdisk_state_scheme \<Rightarrow> nat option \<times> 'a vdisk_state_scheme" where
  "alloc_desc s =
     (case find (vd_free s) [0..<NUM] of
        None \<Rightarrow> (None, s)
      | Some i \<Rightarrow> (Some i, s\<lparr>vd_free := (vd_free s)(i := False)\<rparr>))"

definition free_desc :: "nat \<Rightarrow> 'a vdisk_state_scheme \<Rightarrow> 'a vdisk_state_scheme kres" where
  "free_desc i s =
     (if NUM \<le> i then Panic ''free_desc 1''
      else if vd_free s i then Panic ''free_desc 2''
      else Ok (wakeup ChanDiskFree (s\<lparr>
        vq_desc := (vq_desc s)(i := \<lparr>vd_addr = PNull, vd_len = 0, vd_next_flag = False, vd_write_flag = False, vd_next = 0\<rparr>),
        vd_free := (vd_free s)(i := True)\<rparr>)))"

text \<open>
  \<^verbatim>\<open>free_chain\<close> frees a descriptor in every round, and freeing one twice panics, so it
  stops.
\<close>

lemma kbind_cong [fundef_cong]:
  "m = m' \<Longrightarrow> (\<And>x. m' = Ok x \<Longrightarrow> f x = f' x) \<Longrightarrow> kbind m f = kbind m' f'"
  by (cases m') simp_all

definition in_use :: "'a vdisk_state_scheme \<Rightarrow> nat set" where
  "in_use s = {i. i < NUM \<and> \<not> vd_free s i}"

lemma wakeup_vd_free [simp]: "vd_free (wakeup c s) = vd_free s" "vq_desc (wakeup c s) = vq_desc s"
  by (simp_all add: wakeup_eq)

lemma free_desc_in_use: "free_desc i s = Ok t \<Longrightarrow> i \<in> in_use s \<and> in_use t = in_use s - {i}"
  by (auto simp: free_desc_def in_use_def split: if_splits)

lemma finite_in_use [simp]: "finite (in_use s)"
  by (simp add: in_use_def)

function free_chain :: "nat \<Rightarrow> 'a vdisk_state_scheme \<Rightarrow> 'a vdisk_state_scheme kres" where
  "free_chain i s =
     (let d = vq_desc s i in
      kbind (free_desc i s) (\<lambda>s. if vd_next_flag d then free_chain (vd_next d) s else Ok s))"
  by pat_completeness auto
termination free_chain
proof (relation "measure (\<lambda>(i, s). card (in_use s))")
  fix i :: nat and s :: "'a vdisk_state_scheme" and x xa
  assume "free_desc i s = Ok xa"
  then have "i \<in> in_use s" "in_use xa = in_use s - {i}" by (simp_all add: free_desc_in_use)
  then have "card (in_use xa) < card (in_use s)" by (metis card_Diff1_less finite_in_use)
  then show "((vd_next x, xa), i, s) \<in> measure (\<lambda>(i, s). card (in_use s))" by simp
qed simp

declare free_chain.simps [simp del]

text \<open>\<^verbatim>\<open>alloc3_desc\<close>: three descriptors or none.\<close>

definition alloc3_desc ::
    "'a vdisk_state_scheme \<Rightarrow> ((nat \<times> nat \<times> nat) option \<times> 'a vdisk_state_scheme) kres" where
  "alloc3_desc s =
     (case alloc_desc s of
        (None, s) \<Rightarrow> Ok (None, s)
      | (Some a, s) \<Rightarrow>
          (case alloc_desc s of
             (None, s) \<Rightarrow> kbind (free_desc a s) (\<lambda>s. Ok (None, s))
           | (Some b, s) \<Rightarrow>
               (case alloc_desc s of
                  (None, s) \<Rightarrow> kbind (free_desc a s) (\<lambda>s. kbind (free_desc b s) (\<lambda>s. Ok (None, s)))
                | (Some c, s) \<Rightarrow> Ok (Some (a, b, c), s))))"

section \<open>Requests\<close>

text \<open>The part of \<^verbatim>\<open>virtio_disk_rw\<close> that formats the descriptors and hands them over.\<close>

definition submit ::
    "nat \<Rightarrow> bool \<Rightarrow> nat \<times> nat \<times> nat \<Rightarrow> 'a vdisk_state_scheme \<Rightarrow> 'a vdisk_state_scheme" where
  "submit b write idx s =
     (case idx of (i0, i1, i2) \<Rightarrow>
      let sector = (b_blockno (bufs s b) * (BSIZE div 512)) mod 2 ^ 32;
          s = s\<lparr>vd_ops := (vd_ops s)(i0 := \<lparr>rq_write = write, rq_sector = sector\<rparr>),
                vq_desc := (vq_desc s)(
                  i0 := \<lparr>vd_addr = PReq i0, vd_len = 16, vd_next_flag = True, vd_write_flag = False, vd_next = i1\<rparr>,
                  i1 := \<lparr>vd_addr = PData b, vd_len = BSIZE, vd_next_flag = True, vd_write_flag = \<not> write, vd_next = i2\<rparr>,
                  i2 := \<lparr>vd_addr = PStatus i0, vd_len = 1, vd_next_flag = False, vd_write_flag = True, vd_next = 0\<rparr>),
                vd_info_status := (vd_info_status s)(i0 := 0xff)\<rparr>;
          s = s\<lparr>vd_bdisk := (vd_bdisk s)(b := True)\<rparr>;
          s = s\<lparr>vd_info_b := (vd_info_b s)(i0 := Some b),
                vq_avail := (vq_avail s)(unat (vq_avail_idx s) mod NUM := i0),
                vq_avail_idx := vq_avail_idx s + 1,
                vd_regs := vd_regs s @ [(0x050, 0)],
                vd_inflight := vd_inflight s + 1\<rparr>;
          s = (if vd_max_inflight s < vd_inflight s then s\<lparr>vd_max_inflight := vd_inflight s\<rparr> else s)
      in if write then s\<lparr>vd_submits := vd_submits s + 1, vd_writes := vd_writes s + 1\<rparr>
         else s\<lparr>vd_submits := vd_submits s + 1, vd_reads := vd_reads s + 1\<rparr>)"

text \<open>
  \<^verbatim>\<open>virtio_disk_rw\<close> waits for descriptors (and then starts over), and for the completion
  of its request, with the head of its chain in hand.
\<close>

definition virtio_disk_rw ::
    "nat \<Rightarrow> bool \<Rightarrow> 'a vdisk_state_scheme \<Rightarrow> (unit, nat option, 'a vdisk_state_scheme) run kres" where
  "virtio_disk_rw b write s =
     kbind (alloc3_desc s) (\<lambda>(r, s).
     case r of
       None \<Rightarrow> Ok (Wait ChanDiskFree None s)
     | Some idx \<Rightarrow> Ok (Wait (ChanDiskBuf b) (Some (fst idx)) (submit b write idx s)))"

definition virtio_disk_rw_resume ::
    "nat \<Rightarrow> bool \<Rightarrow> nat option \<Rightarrow> 'a vdisk_state_scheme \<Rightarrow> (unit, nat option, 'a vdisk_state_scheme) run kres" where
  "virtio_disk_rw_resume b write k s =
     (case k of
        None \<Rightarrow> virtio_disk_rw b write s
      | Some i0 \<Rightarrow>
          if vd_bdisk s b then Ok (Wait (ChanDiskBuf b) (Some i0) s)
          else kbind (free_chain i0 (s\<lparr>vd_info_b := (vd_info_b s)(i0 := None)\<rparr>)) (\<lambda>s. Ok (Done () s)))"

text \<open>The loop of the interrupt handler over the used ring.\<close>

function intr_loop :: "'a vdisk_state_scheme \<Rightarrow> 'a vdisk_state_scheme kres" where
  "intr_loop s =
     (if vd_used_idx s = vq_used_idx s then Ok s
      else let id = vq_used s (unat (vd_used_idx s) mod NUM) in
        if vd_info_status s id \<noteq> 0 then Panic ''virtio_disk_intr status''
        else case vd_info_b s id of
          None \<Rightarrow> Panic ''kerneltrap''
        | Some b \<Rightarrow>
            let s = wakeup (ChanDiskBuf b) (s\<lparr>vd_bdisk := (vd_bdisk s)(b := False)\<rparr>)
            in intr_loop (s\<lparr>vd_inflight := (if 0 < vd_inflight s then vd_inflight s - 1 else vd_inflight s),
                 vd_completes := vd_completes s + 1, vd_used_idx := vd_used_idx s + 1\<rparr>))"
  by pat_completeness auto

lemma wakeup_used [simp]:
  "vq_used_idx (wakeup c s) = vq_used_idx s" "vd_used_idx (wakeup c s) = vd_used_idx s"
  by (simp_all add: wakeup_eq)

lemma succ_distance:
  assumes "a \<noteq> (b :: 'a::len word)"
  shows "unat (b - (a + 1)) < unat (b - a)"
proof -
  have "b - a \<noteq> 0" using assms by simp
  moreover have "b - (a + 1) = (b - a) - 1" by simp
  ultimately show ?thesis by (metis unat_minus_one unat_gt_0 diff_less zero_less_one)
qed

termination intr_loop
  by (relation "measure (\<lambda>s. unat (vq_used_idx s - vd_used_idx s))") (simp_all add: succ_distance)

declare intr_loop.simps [simp del]

text \<open>\<open>istat\<close> is the interrupt status the handler reads and acknowledges.\<close>

definition virtio_disk_intr :: "nat \<Rightarrow> 'a vdisk_state_scheme \<Rightarrow> 'a vdisk_state_scheme kres" where
  "virtio_disk_intr istat s =
     intr_loop (s\<lparr>vd_regs := vd_regs s @ [(0x064, Bit_Operations.and istat 3)]\<rparr>)"

section \<open>Initialisation\<close>

definition feature_mask :: "nat \<Rightarrow> nat" where
  "feature_mask f = fold (\<lambda>b f. unset_bit b f) [5, 7, 11, 12, 27, 29, 28] f"

definition virtio_disk_init :: "vregs \<Rightarrow> 'a vdisk_state_scheme \<Rightarrow> 'a vdisk_state_scheme kres" where
  "virtio_disk_init r s =
     (if vr_magic r \<noteq> 0x74726976 \<or> vr_version r \<noteq> 2 \<or> vr_device r \<noteq> 2 \<or> vr_vendor r \<noteq> 0x554d4551
      then Panic ''could not find virtio disk''
      else if \<not> bit (vr_status r) 3 then Panic ''virtio disk FEATURES_OK unset''
      else if vr_ready r \<noteq> 0 then Panic ''virtio disk should not be ready''
      else if vr_max r = 0 then Panic ''virtio disk has no queue 0''
      else if vr_max r < NUM then Panic ''virtio disk max queue too short''
      else
        case kalloc s of (dp, s) \<Rightarrow>
        (case kalloc s of (ap, s) \<Rightarrow>
        (case kalloc s of (up, s) \<Rightarrow>
         if dp = 0 \<or> ap = 0 \<or> up = 0 then Panic ''virtio disk kalloc''
         else
           let s = s\<lparr>vq_desc := \<lambda>_. \<lparr>vd_addr = PNull, vd_len = 0, vd_next_flag = False, vd_write_flag = False, vd_next = 0\<rparr>,
                     vq_avail := \<lambda>_. 0, vq_avail_idx := 0, vq_used := \<lambda>_. 0, vq_used_idx := 0\<rparr>;
               s = zero_page up (zero_page ap (zero_page dp s))
           in Ok (s\<lparr>vd_free := fold (\<lambda>i f. f(i := True)) [0..<NUM] (vd_free s),
                vd_regs := vd_regs s @
                  [(0x070, 0), (0x070, 1), (0x070, 3), (0x020, feature_mask (vr_features r)), (0x070, 11),
                   (0x030, 0), (0x038, NUM), (0x080, dp mod 2 ^ 32), (0x084, dp div 2 ^ 32),
                   (0x090, ap mod 2 ^ 32), (0x094, ap div 2 ^ 32), (0x0a0, up mod 2 ^ 32),
                   (0x0a4, up div 2 ^ 32), (0x044, 1), (0x070, Bit_Operations.or (vr_status r) 4)]\<rparr>))))"

end
