(* ===== verification/Driver.thy ===== *)
theory Driver
  imports Virtio
begin

text \<open>
  The driver table, \<^verbatim>\<open>kernel/driver.c\<close>, and the interrupt controller,
  \<^verbatim>\<open>kernel/plic.c\<close>. A driver's functions are the constructors of \<open>drvfn\<close>. The
  log messages of the initialisation are not part of the state. A write to a register of the
  interrupt controller is an element of \<open>plic_regs\<close>.
\<close>

definition MAX_DRIVERS :: nat where "MAX_DRIVERS = 8"
definition HAI_MAX_DRIVERS :: nat where "HAI_MAX_DRIVERS = 8"
definition UART0_IRQ :: nat where "UART0_IRQ = 10"
definition VIRTIO0_IRQ :: nat where "VIRTIO0_IRQ = 1"
definition PLIC_SENABLE :: "nat \<Rightarrow> nat" where "PLIC_SENABLE h = PLIC + 0x2080 + h * 0x100"
definition PLIC_SPRIORITY :: "nat \<Rightarrow> nat" where "PLIC_SPRIORITY h = PLIC + 0x201000 + h * 0x2000"
definition PLIC_SCLAIM :: "nat \<Rightarrow> nat" where "PLIC_SCLAIM h = PLIC + 0x201004 + h * 0x2000"

datatype driver_class = DRV_IRQ | DRV_BLOCK | DRV_SERIAL | DRV_OTHER

datatype drvfn = FnNone | FnPlic | FnPlicHart | FnVirtio

record driver =
  d_name :: "byte list"
  d_cls :: driver_class
  d_init :: drvfn
  d_hart_init :: drvfn
  d_inited :: bool

record driver_state = vdisk_state +
  drivers :: "driver list"
  builtins_registered :: bool
  plic_regs :: "(nat \<times> nat) list"

section \<open>Interrupt controller\<close>

definition plicinit :: "'a driver_state_scheme \<Rightarrow> 'a driver_state_scheme" where
  "plicinit s = s\<lparr>plic_regs := plic_regs s @ [(PLIC + UART0_IRQ * 4, 1), (PLIC + VIRTIO0_IRQ * 4, 1)]\<rparr>"

definition plicinithart :: "'a driver_state_scheme \<Rightarrow> 'a driver_state_scheme" where
  "plicinithart s = s\<lparr>plic_regs := plic_regs s @
     [(PLIC_SENABLE (hart s), Bit_Operations.or (2 ^ UART0_IRQ) (2 ^ VIRTIO0_IRQ)), (PLIC_SPRIORITY (hart s), 0)]\<rparr>"

definition plic_complete :: "nat \<Rightarrow> 'a driver_state_scheme \<Rightarrow> 'a driver_state_scheme" where
  "plic_complete irq s = s\<lparr>plic_regs := plic_regs s @ [(PLIC_SCLAIM (hart s), irq)]\<rparr>"

section \<open>Driver table\<close>

definition register_driver ::
    "byte list \<Rightarrow> driver_class \<Rightarrow> drvfn \<Rightarrow> drvfn \<Rightarrow> 'a driver_state_scheme \<Rightarrow> 'a driver_state_scheme kres" where
  "register_driver name cls init hart_init s =
     (if MAX_DRIVERS \<le> length (drivers s) then Panic ''driver: overflow''
      else Ok (s\<lparr>drivers := drivers s @ [\<lparr>d_name = name, d_cls = cls, d_init = init, d_hart_init = hart_init,
                                          d_inited = False\<rparr>]\<rparr>))"

definition register_builtin_drivers :: "'a driver_state_scheme \<Rightarrow> 'a driver_state_scheme kres" where
  "register_builtin_drivers s =
     (if builtins_registered s then Ok s
      else kbind (register_driver (str ''plic'') DRV_IRQ FnPlic FnPlicHart (s\<lparr>builtins_registered := True\<rparr>)) (\<lambda>s.
           register_driver (str ''virtio-blk'') DRV_BLOCK FnVirtio FnNone s))"

text \<open>The calls through the function pointers; \<open>r\<close> is what the disk's registers hold.\<close>

fun drv_call :: "vregs \<Rightarrow> drvfn \<Rightarrow> 'a driver_state_scheme \<Rightarrow> 'a driver_state_scheme kres" where
  "drv_call r FnNone s = Ok s"
| "drv_call r FnPlic s = Ok (plicinit s)"
| "drv_call r FnPlicHart s = Ok (plicinithart s)"
| "drv_call r FnVirtio s = virtio_disk_init r s"

definition init_drivers :: "vregs \<Rightarrow> 'a driver_state_scheme \<Rightarrow> 'a driver_state_scheme kres" where
  "init_drivers r s =
     kfold (\<lambda>i s.
       if d_inited (drivers s ! i) then Ok s
       else kbind (drv_call r (d_init (drivers s ! i)) s) (\<lambda>s.
         Ok (s\<lparr>drivers := (drivers s)[i := (drivers s ! i)\<lparr>d_inited := True\<rparr>]\<rparr>))) [0..<length (drivers s)] s"

definition hart_init_drivers :: "vregs \<Rightarrow> 'a driver_state_scheme \<Rightarrow> 'a driver_state_scheme kres" where
  "hart_init_drivers r s =
     kfold (\<lambda>i s. drv_call r (d_hart_init (drivers s ! i)) s) [0..<length (drivers s)] s"

section \<open>Snapshot\<close>

record hai_driver =
  hd_name :: bytes
  hd_cls :: nat
  hd_inited :: nat
  hd_metric0 :: nat
  hd_metric1 :: nat
  hd_metric2 :: nat

definition virtio_driver_stats :: "'a driver_state_scheme \<Rightarrow> hai_driver \<Rightarrow> hai_driver" where
  "virtio_driver_stats s d =
     d\<lparr>hd_metric0 := vd_submits s, hd_metric1 := vd_completes s, hd_metric2 := vd_max_inflight s\<rparr>"

definition uart_driver_stats :: "'a driver_state_scheme \<Rightarrow> hai_driver \<Rightarrow> hai_driver" where
  "uart_driver_stats s d =
     d\<lparr>hd_metric0 := uart_tx_bytes s, hd_metric1 := uart_rx_bytes s, hd_metric2 := 0\<rparr>"

fun class_num :: "driver_class \<Rightarrow> nat" where
  "class_num DRV_IRQ = 0"
| "class_num DRV_BLOCK = 1"
| "class_num DRV_SERIAL = 2"
| "class_num DRV_OTHER = 3"

definition snapshot_entry :: "'a driver_state_scheme \<Rightarrow> driver \<Rightarrow> hai_driver" where
  "snapshot_entry s d =
     (let e = \<lparr>hd_name = safestrcpy (\<lambda>_. 0) (arr (d_name d)) 16, hd_cls = class_num (d_cls d),
               hd_inited = (if d_inited d then 1 else 0), hd_metric0 = 0, hd_metric1 = 0, hd_metric2 = 0\<rparr>
      in if strncmp (arr (d_name d)) (arr (str ''virtio-blk'')) 16 = 0 then virtio_driver_stats s e
         else if strncmp (arr (d_name d)) (arr (str ''uart'')) 16 = 0 then uart_driver_stats s e
         else e)"

text \<open>The snapshot goes into a zeroed \<^verbatim>\<open>struct hai_devinfo\<close>.\<close>

definition driver_snapshot :: "'a driver_state_scheme \<Rightarrow> hai_driver list" where
  "driver_snapshot s =
     map (\<lambda>i. snapshot_entry s (drivers s ! i)) [0..<min (length (drivers s)) HAI_MAX_DRIVERS]"

end
