(* ===== verification/Sysproc.thy ===== *)
theory Sysproc
  imports Sysfile Driver
begin

text \<open>
  The system calls on processes and the system, \<^verbatim>\<open>kernel/sysproc.c\<close>, and the
  dispatch of system calls, \<^verbatim>\<open>kernel/syscall.c\<close>. A system call returns a value to
  its caller, or never returns because it ended the process. A structure that is copied to
  the user is written out at the offsets of its fields.
\<close>

datatype 's sysret = Ret int 's | Exited 's

definition SBRK_EAGER :: int where "SBRK_EAGER = 1"
definition HAI_MAX_PROCSNAPSHOT :: nat where "HAI_MAX_PROCSNAPSHOT = 32"

definition sys_exit :: "'a file_state_scheme \<Rightarrow> 'a file_state_scheme sysret kres" where
  "sys_exit s = kbind (argint 0 s) (\<lambda>n. kbind (kexit n s) (\<lambda>s. Ok (Exited s)))"

definition sys_getpid :: "'a sched_state_scheme \<Rightarrow> (int \<times> 'a sched_state_scheme) kres" where
  "sys_getpid s = kbind (curpid s) (\<lambda>pid. Ok (pid, s))"

definition sys_fork :: "linker \<Rightarrow> 'a file_state_scheme \<Rightarrow> (int \<times> 'a file_state_scheme) kres" where
  "sys_fork ld s = kfork ld s"

definition sys_wait :: "'a sched_state_scheme \<Rightarrow> (int \<times> 'a sched_state_scheme) kres" where
  "sys_wait s = kbind (argaddr 0 s) (\<lambda>p. kbind (kwait p s) finish)"

definition sys_sbrk :: "'a sched_state_scheme \<Rightarrow> (int \<times> 'a sched_state_scheme) kres" where
  "sys_sbrk s =
     kbind (argint 0 s) (\<lambda>n. kbind (argint 1 s) (\<lambda>t.
     case myproc s of
       None \<Rightarrow> Panic ''kerneltrap''
     | Some i \<Rightarrow>
         let addr = p_sz (procs s i) in
         if t = SBRK_EAGER \<or> n < 0 then
           kbind (growproc n s) (\<lambda>(r, s). Ok (if r < 0 then -1 else int addr, s))
         else if (addr + nat n) mod 2 ^ 64 < addr then Ok (-1, s)
         else if TRAPFRAME < addr + nat n then Ok (-1, s)
         else Ok (int addr, upd_proc i (\<lambda>p. p\<lparr>p_sz := p_sz p + nat n\<rparr>) s)))"

text \<open>The loop of \<^verbatim>\<open>sys_pause\<close>, which began at tick \<open>ticks0\<close>; \<open>ticks\<close> is a 32-bit counter.\<close>

definition pause_from ::
    "nat \<Rightarrow> nat \<Rightarrow> 'a sched_state_scheme \<Rightarrow> (int, nat, 'a sched_state_scheme) run kres" where
  "pause_from n ticks0 s =
     (if (ticks s + 2 ^ 32 - ticks0) mod 2 ^ 32 < n then
        (case myproc s of
           None \<Rightarrow> Panic ''kerneltrap''
         | Some i \<Rightarrow> if killed i s then Ok (Done (-1) s) else Ok (Wait ChanTicks ticks0 s))
      else Ok (Done 0 s))"

definition sys_pause :: "'a sched_state_scheme \<Rightarrow> (int \<times> 'a sched_state_scheme) kres" where
  "sys_pause s = kbind (argint 0 s) (\<lambda>n. kbind (pause_from (nat n) (ticks s) s) finish)"

definition sys_kill :: "'a sched_state_scheme \<Rightarrow> (int \<times> 'a sched_state_scheme) kres" where
  "sys_kill s = kbind (argint 0 s) (\<lambda>pid. Ok (kkill pid s))"

definition sys_setpriority :: "'a sched_state_scheme \<Rightarrow> (int \<times> 'a sched_state_scheme) kres" where
  "sys_setpriority s = kbind (argint 0 s) (\<lambda>pid. kbind (argint 1 s) (\<lambda>prio. Ok (setpriority pid prio s)))"

definition sys_getpriority :: "'a sched_state_scheme \<Rightarrow> (int \<times> 'a sched_state_scheme) kres" where
  "sys_getpriority s = kbind (argint 0 s) (\<lambda>pid. Ok (getpriority pid s, s))"

definition klog_set_level :: "nat \<Rightarrow> 'a cons_state_scheme \<Rightarrow> nat \<times> 'a cons_state_scheme" where
  "klog_set_level level s = (log_level s, s\<lparr>log_level := level\<rparr>)"

definition sys_klogctl :: "'a cons_state_scheme \<Rightarrow> (int \<times> 'a cons_state_scheme) kres" where
  "sys_klogctl s =
     kbind (argint 0 s) (\<lambda>level.
     case klog_set_level (nat (level mod 2 ^ 32)) s of (prev, s) \<Rightarrow> Ok (int prev, s))"

definition sys_uptime :: "'a sched_state_scheme \<Rightarrow> (int \<times> 'a sched_state_scheme) kres" where
  "sys_uptime s = Ok (int (ticks s), s)"

section \<open>Reports\<close>

text \<open>The slots in a given state, and the slots in use.\<close>

definition count_procs :: "(proc \<Rightarrow> bool) \<Rightarrow> 'a sched_state_scheme \<Rightarrow> nat" where
  "count_procs P s = length (filter (\<lambda>i. P (procs s i)) [0..<NPROC])"

definition sys_sysinfo :: "'a cons_state_scheme \<Rightarrow> (int \<times> 'a cons_state_scheme) kres" where
  "sys_sysinfo s =
     kbind (argaddr 0 s) (\<lambda>uaddr.
     case kalloc_stats s of (tot, freep) \<Rightarrow>
     let m = put_le 8 (\<lambda>_. 0) 0 tot;
         m = put_le 8 m 8 freep;
         m = put_le 4 m 16 (kalloc_pressure_percent s);
         m = put_le 8 m 24 (ticks s);
         m = put_le 4 m 32 (count_procs (\<lambda>p. p_state p \<noteq> UNUSED) s);
         m = put_le 4 m 36 (log_level s)
     in user_copyout uaddr m 40 s)"

fun state_num :: "procstate \<Rightarrow> nat" where
  "state_num UNUSED = 0"
| "state_num USED = 1"
| "state_num SLEEPING = 2"
| "state_num RUNNABLE = 3"
| "state_num RUNNING = 4"
| "state_num ZOMBIE = 5"

definition fill_procinfo :: "nat \<Rightarrow> proc \<Rightarrow> bytes \<Rightarrow> bytes" where
  "fill_procinfo o1 p m =
     (let m = put_le 4 m o1 (nat (p_pid p mod 2 ^ 32));
          m = put_le 4 m (o1 + 4) (state_num (p_state p));
          m = put_le 4 m (o1 + 8) (nat (p_priority p mod 2 ^ 32));
          m = put_le 8 m (o1 + 16) (p_rtime p);
          m = put_le 8 m (o1 + 24) (p_sched_cnt p);
          m = put_le 8 m (o1 + 32) (p_page_faults p)
      in blit m (o1 + 40) (safestrcpy (\<lambda>k. m (o1 + 40 + k)) (p_name p) 16) 0 16)"

text \<open>The slots in use that fit into the report, and the report.\<close>

definition snapshot_slots :: "'a sched_state_scheme \<Rightarrow> nat list" where
  "snapshot_slots s =
     take HAI_MAX_PROCSNAPSHOT (filter (\<lambda>i. p_state (procs s i) \<noteq> UNUSED) [0..<NPROC])"

definition sys_schedinfo :: "'a sched_state_scheme \<Rightarrow> (int \<times> 'a sched_state_scheme) kres" where
  "sys_schedinfo s =
     kbind (argaddr 0 s) (\<lambda>uaddr.
     let slots = snapshot_slots s;
         m = put_le 8 (\<lambda>_. 0) 24 (ticks s);
         m = put_le 4 m 0 (count_procs (\<lambda>p. p_state p = RUNNABLE) s);
         m = put_le 4 m 4 (count_procs (\<lambda>p. p_state p = RUNNING) s);
         m = put_le 4 m 8 (count_procs (\<lambda>p. p_state p = SLEEPING) s);
         m = put_le 4 m 12 (count_procs (\<lambda>p. p_state p = ZOMBIE) s);
         m = put_le 4 m 16 (count_procs (\<lambda>p. p_state p = USED) s);
         m = fold (\<lambda>idx m. fill_procinfo (40 + 56 * idx) (procs s (slots ! idx)) m) [0..<length slots] m;
         m = put_le 4 m 32 (length slots)
     in user_copyout uaddr m 1832 s)"

definition sys_vmstat :: "'a sched_state_scheme \<Rightarrow> (int \<times> 'a sched_state_scheme) kres" where
  "sys_vmstat s =
     kbind (argaddr 0 s) (\<lambda>uaddr.
     case kalloc_stats s of (tot, freep) \<Rightarrow>
     let pf = fold (\<lambda>i n. if p_state (procs s i) \<noteq> UNUSED then n + p_page_faults (procs s i) else n) [0..<NPROC] 0;
         m = put_le 4 (\<lambda>_. 0) 0 tot;
         m = put_le 4 m 8 freep;
         m = put_le 4 m 16 (kalloc_pressure_percent s);
         m = put_le 8 m 24 pf
     in user_copyout uaddr m 32 s)"

definition driver_bytes :: "nat \<Rightarrow> hai_driver \<Rightarrow> bytes \<Rightarrow> bytes" where
  "driver_bytes o1 d m =
     (let m = blit m o1 (hd_name d) 0 16;
          m = put_le 4 m (o1 + 16) (hd_cls d);
          m = put_le 4 m (o1 + 20) (hd_inited d);
          m = put_le 8 m (o1 + 24) (hd_metric0 d);
          m = put_le 8 m (o1 + 32) (hd_metric1 d)
      in put_le 8 m (o1 + 40) (hd_metric2 d))"

definition sys_devinfo :: "'a driver_state_scheme \<Rightarrow> (int \<times> 'a driver_state_scheme) kres" where
  "sys_devinfo s =
     kbind (argaddr 0 s) (\<lambda>uaddr.
     let ds = driver_snapshot s;
         m = put_le 4 (\<lambda>_. 0) 0 (length ds);
         m = fold (\<lambda>i m. driver_bytes (8 + 48 * i) (ds ! i) m) [0..<length ds] m
     in user_copyout uaddr m 392 s)"

section \<open>Spawn\<close>

definition sys_spawn :: "linker \<Rightarrow> 'a file_state_scheme \<Rightarrow> 'a file_state_scheme sysret kres" where
  "sys_spawn ld s =
     kbind (argaddr 1 s) (\<lambda>uargv.
     kbind (argstr 0 MAXPATH s) (\<lambda>path.
     case path of
       None \<Rightarrow> Ok (Ret (-1) s)
     | Some path \<Rightarrow>
     kbind (fetch_argv MAXARG uargv 0 [] s) (\<lambda>(ok, argv, s).
     if \<not> ok then kbind (free_argv argv s) (\<lambda>s. Ok (Ret (-1) s))
     else
     kbind (kfork ld s) (\<lambda>(pid, s).
     if pid < 0 then kbind (free_argv argv s) (\<lambda>s. Ok (Ret (-1) s))
     else if pid = 0 then
       kbind (kexec ld path (argv_strings argv s) s) (\<lambda>(_, s).
       kbind (free_argv argv s) (\<lambda>s.
       kbind (kexit (-1) s) (\<lambda>s. Ok (Exited s))))
     else kbind (free_argv argv s) (\<lambda>s. Ok (Ret pid s))))))"

definition sys_eventfd :: "'a sched_state_scheme \<Rightarrow> (int \<times> 'a sched_state_scheme) kres" where
  "sys_eventfd s = Ok (-1, s)"

definition sys_timerfd :: "'a sched_state_scheme \<Rightarrow> (int \<times> 'a sched_state_scheme) kres" where
  "sys_timerfd s = Ok (-1, s)"

definition sys_dmesg :: "'a sched_state_scheme \<Rightarrow> (int \<times> 'a sched_state_scheme) kres" where
  "sys_dmesg s = Ok (-1, s)"

section \<open>Dispatch\<close>

definition ret :: "(int \<times> 's) kres \<Rightarrow> 's sysret kres" where
  "ret m = kbind m (\<lambda>(r, s). Ok (Ret r s))"

text \<open>The table \<^verbatim>\<open>syscalls\<close>, by system-call number; \<open>None\<close> is a hole or past the end.\<close>

definition syscalls :: "linker \<Rightarrow> int \<Rightarrow> ('a driver_state_scheme \<Rightarrow> 'a driver_state_scheme sysret kres) option" where
  "syscalls ld num =
     (let table = [\<lambda>s. ret (sys_fork ld s), \<lambda>s. sys_exit s, \<lambda>s. ret (sys_wait s), \<lambda>s. ret (sys_pipe s),
        \<lambda>s. ret (sys_read s), \<lambda>s. ret (sys_kill s), \<lambda>s. ret (sys_exec ld s), \<lambda>s. ret (sys_fstat s),
        \<lambda>s. ret (sys_chdir s), \<lambda>s. ret (sys_dup s), \<lambda>s. ret (sys_getpid s), \<lambda>s. ret (sys_sbrk s),
        \<lambda>s. ret (sys_pause s), \<lambda>s. ret (sys_uptime s), \<lambda>s. ret (sys_open s), \<lambda>s. ret (sys_write s),
        \<lambda>s. ret (sys_mknod s), \<lambda>s. ret (sys_unlink s), \<lambda>s. ret (sys_link s), \<lambda>s. ret (sys_mkdir s),
        \<lambda>s. ret (sys_close s), \<lambda>s. ret (sys_sysinfo s), \<lambda>s. ret (sys_setpriority s),
        \<lambda>s. ret (sys_getpriority s), \<lambda>s. ret (sys_klogctl s), \<lambda>s. ret (sys_statfs s),
        \<lambda>s. ret (sys_fverify s), \<lambda>s. sys_spawn ld s, \<lambda>s. ret (sys_schedinfo s), \<lambda>s. ret (sys_vmstat s),
        \<lambda>s. ret (sys_eventfd s), \<lambda>s. ret (sys_timerfd s), \<lambda>s. ret (sys_devinfo s), \<lambda>s. ret (sys_dmesg s)]
      in if 0 < num \<and> num \<le> int (length table) then Some (table ! nat (num - 1)) else None)"

definition syscall :: "linker \<Rightarrow> 'a driver_state_scheme \<Rightarrow> 'a driver_state_scheme sysret kres" where
  "syscall ld s =
     (case myproc s of
        None \<Rightarrow> Panic ''kerneltrap''
      | Some i \<Rightarrow>
          let num = s32 (get_tf i (tf_a 7) s mod 2 ^ 32) in
          (case syscalls ld num of
             Some f \<Rightarrow>
               kbind (f s) (\<lambda>r.
               case r of
                 Exited s \<Rightarrow> Ok (Exited s)
               | Ret v s \<Rightarrow> Ok (Ret 0 (set_tf i (tf_a 0) (nat (v mod 2 ^ 64)) s)))
           | None \<Rightarrow>
               let s = emit (printint kdigits (of_int (p_pid (procs s i))) 10 True @ str '' '' @
                             proc_name (procs s i) @ str '': unknown sys call '' @
                             printint kdigits (of_int num) 10 True @ [10]) s
               in Ok (Ret 0 (set_tf i (tf_a 0) (2 ^ 64 - 1) s))))"

end
