(* ===== verification/Trap.thy ===== *)
theory Trap
  imports Sysproc
begin

text \<open>
  Traps, \<^verbatim>\<open>kernel/trap.c\<close>, and the first return to user space,
  \<^verbatim>\<open>forkret\<close> of \<^verbatim>\<open>kernel/proc.c\<close>.

  The supervisor registers of the hart are fields of the state. What the devices report when
  an interrupt is served is the record \<open>irqin\<close>: the interrupt the controller hands out, the
  state of the serial port, and the status register of the disk. A trap from user space ends
  with a return to user space (and the page-table register to load), or with the CPU given
  to the scheduler because the process exited or yielded.
\<close>

record irqin =
  in_irq :: nat
  in_tx_idle :: bool
  in_chars :: "byte list"
  in_istat :: nat

record trap_state = driver_state +
  csr_sstatus :: nat
  csr_scause :: nat
  csr_sepc :: nat
  csr_stval :: nat
  csr_satp :: nat
  csr_stvec :: nat
  forkret_first :: bool

datatype 's trapret = ToUser nat 's | Off 's

definition SSTATUS_SPP :: nat where "SSTATUS_SPP = 8"
definition SSTATUS_SPIE :: nat where "SSTATUS_SPIE = 5"
definition SSTATUS_SIE :: nat where "SSTATUS_SIE = 1"

definition MAKE_SATP :: "nat \<Rightarrow> nat" where
  "MAKE_SATP pt = Bit_Operations.or (8 * 2 ^ 60) (pt div 2 ^ 12)"

definition intr_on :: "'a trap_state_scheme \<Rightarrow> 'a trap_state_scheme" where
  "intr_on s = s\<lparr>csr_sstatus := set_bit SSTATUS_SIE (csr_sstatus s)\<rparr>"

definition intr_off :: "'a trap_state_scheme \<Rightarrow> 'a trap_state_scheme" where
  "intr_off s = s\<lparr>csr_sstatus := unset_bit SSTATUS_SIE (csr_sstatus s)\<rparr>"

definition intr_get :: "'a trap_state_scheme \<Rightarrow> bool" where
  "intr_get s = bit (csr_sstatus s) SSTATUS_SIE"

definition trapinithart :: "linker \<Rightarrow> 'a trap_state_scheme \<Rightarrow> 'a trap_state_scheme" where
  "trapinithart ld s = s\<lparr>csr_stvec := ld_kernelvec ld\<rparr>"

section \<open>Interrupts\<close>

text \<open>The result is 2 for the timer, 1 for another device, 0 if the cause is not an interrupt.\<close>

definition devintr :: "irqin \<Rightarrow> 'a trap_state_scheme \<Rightarrow> (nat \<times> 'a trap_state_scheme) kres" where
  "devintr inp s =
     (if csr_scause s = 0x8000000000000009 then
        let irq = in_irq inp in
        kbind (if irq = UART0_IRQ then Ok (uartintr (in_tx_idle inp) (in_chars inp) s)
               else if irq = VIRTIO0_IRQ then virtio_disk_intr (in_istat inp) s
               else if irq \<noteq> 0 then
                 Ok (emit (str ''unexpected interrupt irq='' @ printint kdigits (of_nat irq) 10 True @ [10]) s)
               else Ok s) (\<lambda>s.
        Ok (1, if irq \<noteq> 0 then plic_complete irq s else s))
      else if csr_scause s = 0x8000000000000005 then Ok (2, clockintr s)
      else Ok (0, s))"

section \<open>Traps from user space\<close>

definition prepare_return :: "linker \<Rightarrow> 'a trap_state_scheme \<Rightarrow> 'a trap_state_scheme kres" where
  "prepare_return ld s =
     (case myproc s of
        None \<Rightarrow> Panic ''kerneltrap''
      | Some i \<Rightarrow>
          let s = intr_off s;
              s = s\<lparr>csr_stvec := TRAMPOLINE + (ld_uservec ld - ld_trampoline ld)\<rparr>;
              s = set_tf i tf_kernel_satp (csr_satp s) s;
              s = set_tf i tf_kernel_sp (p_kstack (procs s i) + PGSIZE) s;
              s = set_tf i tf_kernel_trap (ld_usertrap ld) s;
              s = set_tf i tf_kernel_hartid (hart s) s;
              s = s\<lparr>csr_sstatus := set_bit SSTATUS_SPIE (unset_bit SSTATUS_SPP (csr_sstatus s))\<rparr>
          in Ok (s\<lparr>csr_sepc := get_tf i tf_epc s\<rparr>))"

text \<open>The message of a trap nobody handles; the numbers are printed in hexadecimal.\<close>

definition bad_trap_msg :: "nat \<Rightarrow> 'a trap_state_scheme \<Rightarrow> byte list" where
  "bad_trap_msg i s =
     str ''usertrap(): unexpected scause 0x'' @ printint kdigits (of_nat (csr_scause s)) 16 False @
     str '' pid='' @ printint kdigits (of_int (p_pid (procs s i))) 10 True @ [10] @
     str ''            sepc=0x'' @ printint kdigits (of_nat (csr_sepc s)) 16 False @
     str '' stval=0x'' @ printint kdigits (of_nat (csr_stval s)) 16 False @ [10]"

text \<open>
  The branches on the cause, for process \<open>i\<close>. The result is the kind of device, or
  \<open>None\<close> when the process has exited.
\<close>

definition serve_trap ::
    "linker \<Rightarrow> irqin \<Rightarrow> nat \<Rightarrow> 'a trap_state_scheme \<Rightarrow> (nat option \<times> 'a trap_state_scheme) kres" where
  "serve_trap ld inp i s =
     (if csr_scause s = 8 then
        if killed i s then kbind (kexit (-1) s) (\<lambda>s. Ok (None, s))
        else
          let s = set_tf i tf_epc (get_tf i tf_epc s + 4) s; s = intr_on s in
          kbind (syscall ld s) (\<lambda>r. case r of Exited s \<Rightarrow> Ok (None, s) | Ret _ s \<Rightarrow> Ok (Some 0, s))
      else
        kbind (devintr inp s) (\<lambda>(w, s).
        if w \<noteq> 0 then Ok (Some w, s)
        else if csr_scause s = 15 \<or> csr_scause s = 13 then
          kbind (cowfault (p_pagetable (procs s i)) (csr_stval s) s) (\<lambda>(r, s).
          if r = 0 then Ok (Some 0, s)
          else kbind (vmfault (p_pagetable (procs s i)) (csr_stval s) s) (\<lambda>(mem, s).
            if mem \<noteq> 0 then Ok (Some 0, s)
            else Ok (Some 0, setkilled i (emit (bad_trap_msg i s) s))))
        else Ok (Some 0, setkilled i (emit (bad_trap_msg i s) s))))"

definition usertrap :: "linker \<Rightarrow> irqin \<Rightarrow> 'a trap_state_scheme \<Rightarrow> 'a trap_state_scheme trapret kres" where
  "usertrap ld inp s =
     (if bit (csr_sstatus s) SSTATUS_SPP then Panic ''usertrap: not from user mode''
      else let s = s\<lparr>csr_stvec := ld_kernelvec ld\<rparr> in
      case myproc s of
        None \<Rightarrow> Panic ''kerneltrap''
      | Some i \<Rightarrow>
          kbind (serve_trap ld inp i (set_tf i tf_epc (csr_sepc s) s)) (\<lambda>(w, s).
          case w of
            None \<Rightarrow> Ok (Off s)
          | Some which \<Rightarrow>
              if killed i s then kbind (kexit (-1) s) (\<lambda>s. Ok (Off s))
              else if which = 2 then kbind (yield (proc_tick s)) (\<lambda>s. Ok (Off s))
              else kbind (prepare_return ld s) (\<lambda>s.
                Ok (ToUser (MAKE_SATP (p_pagetable (procs s i))) s))))"

section \<open>Traps from the kernel\<close>

text \<open>The registers are restored for the interrupted code; after a yield they belong to the scheduler.\<close>

definition kerneltrap :: "irqin \<Rightarrow> 'a trap_state_scheme \<Rightarrow> 'a trap_state_scheme kres" where
  "kerneltrap inp s =
     (let sepc = csr_sepc s; sstatus = csr_sstatus s in
      if \<not> bit sstatus SSTATUS_SPP then Panic ''kerneltrap: not from supervisor mode''
      else if intr_get s then Panic ''kerneltrap: interrupts enabled''
      else kbind (devintr inp s) (\<lambda>(w, s).
        if w = 0 then Panic ''kerneltrap''
        else kbind (if w = 2 \<and> myproc s \<noteq> None then yield s else Ok s) (\<lambda>s.
          Ok (s\<lparr>csr_sepc := sepc, csr_sstatus := sstatus\<rparr>))))"

section \<open>The first return to user space\<close>

definition forkret :: "linker \<Rightarrow> 'a trap_state_scheme \<Rightarrow> 'a trap_state_scheme trapret kres" where
  "forkret ld s =
     (case myproc s of
        None \<Rightarrow> Panic ''kerneltrap''
      | Some i \<Rightarrow>
          kbind (if forkret_first s then
                   kbind (fsinit ROOTDEV s) (\<lambda>s.
                   kbind (kexec ld (str ''/init'') [str ''/init''] (s\<lparr>forkret_first := False\<rparr>)) (\<lambda>(r, s).
                   let s = set_tf i (tf_a 0) (nat (r mod 2 ^ 64)) s in
                   if get_tf i (tf_a 0) s = 2 ^ 64 - 1 then Panic ''exec'' else Ok s))
                 else Ok s) (\<lambda>s.
          kbind (prepare_return ld s) (\<lambda>s. Ok (ToUser (MAKE_SATP (p_pagetable (procs s i))) s))))"

end
