(* ===== verification/Files_Frame.thy ===== *)
theory Files_Frame
  imports Sysproc
begin

text \<open>
  What the layers of the kernel leave alone of the open files. \<open>ofs\<close> is the view of the state that the
  counts of the file table are about; every routine below the system calls that open and close files
  keeps it, whatever else it changes. \<open>Open_Files\<close> builds on these rules.
\<close>

section \<open>What the layers below leave alone\<close>

text \<open>
  \<open>ofs\<close> is the part of the state this theory is about: count and type of each open file, the
  descriptors of each process, which slots of the process table are unused or hold a zombie, and the
  process that runs.
\<close>

named_theorems ofs_frame

definition gone :: "proc \<Rightarrow> bool" where "gone p \<longleftrightarrow> p_state p = UNUSED \<or> p_state p = ZOMBIE"

type_synonym files_view = "(nat \<Rightarrow> int \<times> fdtype) \<times> (nat \<Rightarrow> (nat \<Rightarrow> nat option) \<times> bool) \<times> nat option"

definition ofs :: "'a file_state_scheme \<Rightarrow> files_view" where
  "ofs s = (\<lambda>f. (f_ref (ftable s f), f_type (ftable s f)), \<lambda>i. (p_ofile (procs s i), gone (procs s i)), myproc s)"

lemma ofs_upd [simp]:
  "ofs (pmem_update f1 s) = ofs s" "ofs (freelist_update f2 s) = ofs s" "ofs (free_pages_update f3 s) = ofs s"
  "ofs (low_warned_update f4 s) = ofs s" "ofs (crit_warned_update f4 s) = ofs s" "ofs (oom_warned_update f4 s) = ofs s"
  "ofs (refcnt_update f5 s) = ofs s" "ofs (nextpid_update f6 s) = ofs s"
  "ofs (bufs_update f8 s) = ofs s" "ofs (lru_update f9 s) = ofs s" "ofs (disk_update f10 s) = ofs s"
  "ofs (dhist_update f11 s) = ofs s" "ofs (bio_io_reads_update f12 s) = ofs s" "ofs (bio_io_writes_update f12 s) = ofs s"
  "ofs (bio_checksum_errors_update f12 s) = ofs s" "ofs (log_outstanding_update f13 s) = ofs s"
  "ofs (log_committing_update f4 s) = ofs s" "ofs (lh_n_update f14 s) = ofs s" "ofs (lh_block_update f15 s) = ofs s"
  "ofs (itable_update f16 s) = ofs s" "ofs (pipes_update f17 s) = ofs s" "ofs (cons_r_update f18 s) = ofs s"
  "ofs (uart_out_update f19 s) = ofs s" "ofs (tx_busy_update f4 s) = ofs s" "ofs (uart_tx_bytes_update f12 s) = ofs s"
  "ofs (log_level_update f12 s) = ofs s"
  by (simp_all add: ofs_def myproc_def)

lemma ofs_upd_proc: "(\<And>p. p_ofile (g p) = p_ofile p) \<Longrightarrow> (\<And>p. gone (g p) = gone p) \<Longrightarrow> ofs (upd_proc i g s) = ofs s"
  by (auto simp: ofs_def upd_proc_def myproc_def fun_eq_iff)

lemma ofs_proc_fields [simp]:
  "ofs (upd_proc i (\<lambda>p. p\<lparr>p_page_faults := n p\<rparr>) s) = ofs s" "ofs (upd_proc i (\<lambda>p. p\<lparr>p_trapframe := n p\<rparr>) s) = ofs s"
  "ofs (upd_proc i (\<lambda>p. p\<lparr>p_pagetable := n p\<rparr>) s) = ofs s" "ofs (upd_proc i (\<lambda>p. p\<lparr>p_sz := n p\<rparr>) s) = ofs s"
  "ofs (upd_proc i (\<lambda>p. p\<lparr>p_pagetable := n p, p_sz := m p\<rparr>) s) = ofs s" "ofs (upd_proc i (\<lambda>p. p\<lparr>p_name := nm p\<rparr>) s) = ofs s"
  "ofs (upd_proc i (\<lambda>p. p\<lparr>p_cwd := c p, p_name := nm p\<rparr>) s) = ofs s" "ofs (upd_proc i (\<lambda>p. p\<lparr>p_cwd := c p\<rparr>) s) = ofs s"
  "ofs (upd_proc i (\<lambda>p. p\<lparr>p_parent := c p\<rparr>) s) = ofs s" "ofs (upd_proc i (\<lambda>p. p\<lparr>p_ctx_ra := n p, p_ctx_sp := m p\<rparr>) s) = ofs s"
  by (simp_all add: ofs_upd_proc gone_def)

lemma ofs_wakeup [simp]: "ofs (wakeup c s) = ofs s"
  by (auto simp: ofs_def wakeup_eq wake_proc_def gone_def wakes_def myproc_def fun_eq_iff Let_def)

lemma ofs_kfold [ofs_frame]:
  fixes s :: "'a file_state_scheme"
  assumes "\<And>t. ofs t = ofs s \<Longrightarrow> P t" "\<And>x u Q. (\<And>t. ofs t = ofs u \<Longrightarrow> Q t) \<Longrightarrow> okp Q (f x u)"
  shows "okp P (kfold f xs s)"
proof (rule okp_kfold)
  fix x and u :: "'a file_state_scheme" assume "ofs u = ofs s"
  then show "okp (\<lambda>t. ofs t = ofs s) (f x u)" using assms(2)[of u "\<lambda>t. ofs t = ofs s" x] by simp
qed (use assms(1) in auto)

subsection \<open>Memory\<close>

lemma ofs_kalloc [dest]: "kalloc s = (p, t) \<Longrightarrow> ofs t = ofs s"
  by (auto simp: kalloc_def Let_def split: if_splits)

lemma ofs_kfree [ofs_frame]: "(\<And>t. ofs t = ofs s \<Longrightarrow> P t) \<Longrightarrow> okp P (kfree pa s)"
  by (auto simp: kfree_def intro!: okp_intros)

lemma ofs_kaddref [dest]: "kaddref pa s = (r, t) \<Longrightarrow> ofs t = ofs s"
  by (auto simp: kaddref_def Let_def split: if_splits)

lemma ofs_pte [simp]: "ofs (write_pte a v s) = ofs s" "ofs (zero_page p s) = ofs s" "ofs (set_tf i r v s) = ofs s"
  by (simp_all add: write_pte_def zero_page_def set_tf_def)

lemma ofs_walk_from: "walk_from l pt va alloc s = (p, t) \<Longrightarrow> ofs t = ofs s"
  by (induction l pt va alloc s rule: walk_from.induct) (auto simp: Let_def split: if_splits prod.splits)

lemma ofs_walk [dest]: "walk pt va alloc s = (p, t) \<Longrightarrow> ofs t = ofs s"
  by (auto simp: walk_def split: if_splits dest: ofs_walk_from)

lemma ofs_map_loop: "(\<And>r t. ofs t = ofs s \<Longrightarrow> P (r, t)) \<Longrightarrow> okp P (map_loop n pt a pa perm s)"
  by (induction n arbitrary: s a pa) (auto intro!: okp_intros)

lemma ofs_mappages [ofs_frame]: "(\<And>r t. ofs t = ofs s \<Longrightarrow> P (r, t)) \<Longrightarrow> okp P (mappages pt va sz pa perm s)"
  by (auto simp: mappages_def intro!: okp_intros ofs_map_loop)

lemma ofs_uvmcreate [dest]: "uvmcreate s = (p, t) \<Longrightarrow> ofs t = ofs s"
  by (auto simp: uvmcreate_def Let_def split: if_splits prod.splits)

lemma ofs_unmap_page [ofs_frame]: "(\<And>t. ofs t = ofs s \<Longrightarrow> P t) \<Longrightarrow> okp P (unmap_page pt df a s)"
  by (auto simp: unmap_page_def Let_def intro!: okp_intros ofs_frame)

lemma ofs_uvmunmap [ofs_frame]: "(\<And>t. ofs t = ofs s \<Longrightarrow> P t) \<Longrightarrow> okp P (uvmunmap pt va n df s)"
  by (auto simp: uvmunmap_def intro!: okp_intros ofs_frame)

lemma ofs_uvmdealloc [ofs_frame]: "(\<And>r t. ofs t = ofs s \<Longrightarrow> P (r, t)) \<Longrightarrow> okp P (uvmdealloc pt a b s)"
  by (auto simp: uvmdealloc_def intro!: okp_intros ofs_frame)

lemma ofs_uvmalloc_loop: "(\<And>r t. ofs t = ofs s \<Longrightarrow> P (r, t)) \<Longrightarrow> okp P (uvmalloc_loop n pt a b c x s)"
  by (induction n arbitrary: s a) (auto intro!: okp_intros ofs_frame)

lemma ofs_uvmalloc [ofs_frame]: "(\<And>r t. ofs t = ofs s \<Longrightarrow> P (r, t)) \<Longrightarrow> okp P (uvmalloc pt a b x s)"
  by (auto simp: uvmalloc_def Let_def intro!: okp_intros ofs_uvmalloc_loop)

lemma ofs_freewalk [ofs_frame]: "(\<And>t. ofs t = ofs s \<Longrightarrow> P t) \<Longrightarrow> okp P (freewalk d pt s)"
  by (induction d arbitrary: pt s P) (auto simp: Let_def intro!: okp_intros ofs_frame)

lemma ofs_uvmfree [ofs_frame]: "(\<And>t. ofs t = ofs s \<Longrightarrow> P t) \<Longrightarrow> okp P (uvmfree pt sz s)"
  by (auto simp: uvmfree_def intro!: okp_intros ofs_frame)

lemma ofs_uvmcopy_loop: "(\<And>r t. ofs t = ofs s \<Longrightarrow> P (r, t)) \<Longrightarrow> okp P (uvmcopy_loop xs old new s)"
  by (induction xs arbitrary: s) (auto simp: Let_def intro!: okp_intros ofs_frame)

lemma ofs_uvmcopy [ofs_frame]: "(\<And>r t. ofs t = ofs s \<Longrightarrow> P (r, t)) \<Longrightarrow> okp P (uvmcopy old new sz s)"
  by (auto simp: uvmcopy_def intro!: ofs_uvmcopy_loop)

lemma ofs_uvmclear [ofs_frame]: "(\<And>t. ofs t = ofs s \<Longrightarrow> P t) \<Longrightarrow> okp P (uvmclear pt va s)"
  by (auto simp: uvmclear_def intro!: okp_intros)

lemma ofs_vmfault [ofs_frame]: "(\<And>r t. ofs t = ofs s \<Longrightarrow> P (r, t)) \<Longrightarrow> okp P (vmfault pt va s)"
  by (auto simp: vmfault_def intro!: okp_intros ofs_frame)

lemma ofs_cowfault [ofs_frame]: "(\<And>r t. ofs t = ofs s \<Longrightarrow> P (r, t)) \<Longrightarrow> okp P (cowfault pt va s)"
  by (auto simp: cowfault_def Let_def intro!: okp_intros ofs_frame)

lemma copy_shorter: "0 < len \<Longrightarrow> len - min (PGSIZE - (va - PGROUNDDOWN va)) len < len"
  using page_offset[of va] by (auto simp: min_def)

lemma ofs_copyout [ofs_frame]: "(\<And>r t. ofs t = ofs s \<Longrightarrow> P (r, t)) \<Longrightarrow> okp P (copyout pt va src so len s)"
proof (induction len arbitrary: va so s rule: less_induct)
  case (less len)
  show ?case
    by (subst copyout.simps) (auto simp: less.prems copy_shorter intro!: okp_intros ofs_frame less.IH)
qed

lemma ofs_copyin [ofs_frame]: "(\<And>r b t. ofs t = ofs s \<Longrightarrow> P (r, b, t)) \<Longrightarrow> okp P (copyin pt dst d va len s)"
proof (induction len arbitrary: dst d va s rule: less_induct)
  case (less len)
  show ?case
    by (subst copyin.simps) (auto simp: less.prems copy_shorter intro!: okp_intros ofs_frame less.IH)
qed

lemma ofs_either_copyout [ofs_frame]: "(\<And>r d t. ofs t = ofs s \<Longrightarrow> P (r, d, t)) \<Longrightarrow> okp P (either_copyout dst src so len s)"
  by (cases dst) (auto intro!: okp_intros ofs_frame)

lemma ofs_either_copyin [ofs_frame]: "(\<And>r b t. ofs t = ofs s \<Longrightarrow> P (r, b, t)) \<Longrightarrow> okp P (either_copyin dst d src len s)"
  by (cases src) (auto intro!: okp_intros ofs_frame)

subsection \<open>Blocks and the log\<close>

lemma ofs_upd_buf [simp]: "ofs (upd_buf i f s) = ofs s" "ofs (upd_data i g s) = ofs s" "ofs (disk_rw i w s) = ofs s"
  "ofs (bpin i s) = ofs s" "ofs (bunpin i s) = ofs s" "ofs (upd_inode ip h s) = ofs s"
  by (simp_all add: upd_buf_def upd_data_def disk_rw_def bpin_def bunpin_def upd_inode_def Let_def)

lemma ofs_releasesleep [dest]: "releasesleep c lk s = (lk', t) \<Longrightarrow> ofs t = ofs s"
  by (auto simp: releasesleep_def)

text \<open>Routines that return no state.\<close>

lemmas ofs_plain = okp_plain[where m = "acquiresleep c lk s" for c lk s] okp_plain[where m = "holdingsleep lk s" for lk s]
  okp_plain[where m = "argint n s" for n s] okp_plain[where m = "argaddr n s" for n s] okp_plain[where m = "argraw n s" for n s]
  okp_plain[where m = "argstr n k s" for n k s] okp_plain[where m = "fetchstr a b d n s" for a b d n s]
  okp_plain[where m = "curpid s" for s]

declare ofs_plain [ofs_frame]

lemma ofs_bget [ofs_frame]: "(\<And>i t. ofs t = ofs s \<Longrightarrow> P (i, t)) \<Longrightarrow> okp P (bget dev b s)"
  by (auto simp: bget_def bget_ref_def Let_def intro!: okp_intros ofs_frame)

lemma ofs_bread [ofs_frame]: "(\<And>i t. ofs t = ofs s \<Longrightarrow> P (i, t)) \<Longrightarrow> okp P (bread dev b s)"
  by (auto simp: bread_def intro!: okp_intros ofs_frame)

lemma ofs_bwrite [ofs_frame]: "(\<And>t. ofs t = ofs s \<Longrightarrow> P t) \<Longrightarrow> okp P (bwrite i s)"
  by (auto simp: bwrite_def intro!: okp_intros ofs_frame)

lemma ofs_brelse [ofs_frame]: "(\<And>t. ofs t = ofs s \<Longrightarrow> P t) \<Longrightarrow> okp P (brelse i s)"
  by (auto simp: brelse_def Let_def intro!: okp_intros ofs_frame)

lemma ofs_install_trans [ofs_frame]: "(\<And>t. ofs t = ofs s \<Longrightarrow> P t) \<Longrightarrow> okp P (install_trans r s)"
  by (auto simp: install_trans_def install_tail_def intro!: okp_intros ofs_frame)

lemma ofs_write_log [ofs_frame]: "(\<And>t. ofs t = ofs s \<Longrightarrow> P t) \<Longrightarrow> okp P (write_log s)"
  by (auto simp: write_log_def write_log_tail_def intro!: okp_intros ofs_frame)

lemma ofs_write_head [ofs_frame]: "(\<And>t. ofs t = ofs s \<Longrightarrow> P t) \<Longrightarrow> okp P (write_head s)"
  by (auto simp: write_head_def intro!: okp_intros ofs_frame)

lemma ofs_commit [ofs_frame]: "(\<And>t. ofs t = ofs s \<Longrightarrow> P t) \<Longrightarrow> okp P (commit s)"
  by (auto simp: commit_def intro!: okp_intros ofs_frame)

lemma ofs_begin_op [ofs_frame]: "(\<And>t. ofs t = ofs s \<Longrightarrow> P t) \<Longrightarrow> okp P (begin_op s)"
  by (auto simp: begin_op_def intro!: okp_intros ofs_frame)

lemma ofs_end_op [ofs_frame]: "(\<And>t. ofs t = ofs s \<Longrightarrow> P t) \<Longrightarrow> okp P (end_op s)"
  by (auto simp: end_op_def Let_def intro!: okp_intros ofs_frame)

lemma ofs_log_write [ofs_frame]: "(\<And>t. ofs t = ofs s \<Longrightarrow> P t) \<Longrightarrow> okp P (log_write b s)"
  by (auto simp: log_write_def Let_def intro!: okp_intros ofs_frame)

subsection \<open>The file system\<close>

lemma ofs_bzero [ofs_frame]: "(\<And>t. ofs t = ofs s \<Longrightarrow> P t) \<Longrightarrow> okp P (bzero dev b s)"
  by (auto simp: bzero_def intro!: okp_intros ofs_frame)

lemma ofs_balloc_prefer [ofs_frame]: "(\<And>r t. ofs t = ofs s \<Longrightarrow> P (r, t)) \<Longrightarrow> okp P (balloc_prefer dev b s)"
  by (auto simp: balloc_prefer_def Let_def intro!: okp_intros ofs_frame)

lemma ofs_balloc_loop: "(\<And>r t. ofs t = ofs s \<Longrightarrow> P (r, t)) \<Longrightarrow> okp P (balloc_loop bs dev s)"
  by (induction bs arbitrary: s) (auto intro!: okp_intros ofs_frame)

lemma ofs_balloc [ofs_frame]: "(\<And>r t. ofs t = ofs s \<Longrightarrow> P (r, t)) \<Longrightarrow> okp P (balloc dev s)"
  by (auto simp: balloc_def intro!: ofs_balloc_loop)

lemma ofs_bfree [ofs_frame]: "(\<And>t. ofs t = ofs s \<Longrightarrow> P t) \<Longrightarrow> okp P (bfree dev b s)"
  by (auto simp: bfree_def Let_def intro!: okp_intros ofs_frame)

lemma ofs_iget [ofs_frame]: "(\<And>r t. ofs t = ofs s \<Longrightarrow> P (r, t)) \<Longrightarrow> okp P (iget dev inum s)"
  by (auto simp: iget_def intro!: okp_intros)

lemma ofs_idup [dest]: "idup d s = (ip, t) \<Longrightarrow> ofs t = ofs s"
  by (auto simp: idup_def)

lemma ofs_ialloc_loop: "(\<And>r t. ofs t = ofs s \<Longrightarrow> P (r, t)) \<Longrightarrow> okp P (ialloc_loop bs dev ty s)"
  by (induction bs arbitrary: s) (auto intro!: okp_intros ofs_frame)

lemma ofs_ialloc [ofs_frame]: "(\<And>r t. ofs t = ofs s \<Longrightarrow> P (r, t)) \<Longrightarrow> okp P (ialloc dev ty s)"
  by (auto simp: ialloc_def intro!: ofs_ialloc_loop)

lemma ofs_iupdate [ofs_frame]: "(\<And>t. ofs t = ofs s \<Longrightarrow> P t) \<Longrightarrow> okp P (iupdate ip s)"
  by (auto simp: iupdate_def intro!: okp_intros ofs_frame)

lemma ofs_ilock [ofs_frame]: "(\<And>t. ofs t = ofs s \<Longrightarrow> P t) \<Longrightarrow> okp P (ilock ip s)"
  by (auto simp: ilock_def intro!: okp_intros ofs_frame)

lemma ofs_iunlock [ofs_frame]: "(\<And>t. ofs t = ofs s \<Longrightarrow> P t) \<Longrightarrow> okp P (iunlock ip s)"
  by (auto simp: iunlock_def intro!: okp_intros ofs_frame)

lemma ofs_bmap_alloc: "(\<And>r t. ofs t = ofs s \<Longrightarrow> P (r, t)) \<Longrightarrow> okp P (bmap_alloc n ip bn b ls ll s)"
  by (induction n arbitrary: b ls ll s) (auto intro!: okp_intros ofs_frame)

lemma ofs_bmap [ofs_frame]: "(\<And>r t. ofs t = ofs s \<Longrightarrow> P (r, t)) \<Longrightarrow> okp P (bmap ip bn s)"
  by (auto simp: bmap_def intro!: ofs_bmap_alloc split: sum.splits)

lemma ofs_itrunc [ofs_frame]: "(\<And>t. ofs t = ofs s \<Longrightarrow> P t) \<Longrightarrow> okp P (itrunc ip s)"
  by (auto simp: itrunc_def intro!: okp_intros ofs_frame)

lemma ofs_iput [ofs_frame]: "(\<And>t. ofs t = ofs s \<Longrightarrow> P t) \<Longrightarrow> okp P (iput ip s)"
  by (auto simp: iput_def intro!: okp_intros ofs_frame)

lemma ofs_iunlockput [ofs_frame]: "(\<And>t. ofs t = ofs s \<Longrightarrow> P t) \<Longrightarrow> okp P (iunlockput ip s)"
  by (auto simp: iunlockput_def intro!: okp_intros ofs_frame)

lemma ofs_checksum_loop: "(\<And>r t. ofs t = ofs s \<Longrightarrow> P (r, t)) \<Longrightarrow> okp P (checksum_loop bs ip n a s)"
  by (induction bs arbitrary: a s) (auto intro!: okp_intros ofs_frame)

lemma ofs_inode_checksum [ofs_frame]: "(\<And>r t. ofs t = ofs s \<Longrightarrow> P (r, t)) \<Longrightarrow> okp P (inode_checksum ip s)"
  by (auto simp: inode_checksum_def intro!: okp_intros ofs_checksum_loop)

lemma ofs_verify_inode_checksum [ofs_frame]: "(\<And>t. ofs t = ofs s \<Longrightarrow> P t) \<Longrightarrow> okp P (verify_inode_checksum ip s)"
  by (auto simp: verify_inode_checksum_def intro!: okp_intros ofs_frame)

lemma ofs_readi_loop: "(\<And>r d t. ofs t = ofs s \<Longrightarrow> P (r, d, t)) \<Longrightarrow> okp P (readi_loop ip dst off n tot s)"
proof (induction "n - tot" arbitrary: dst off tot s rule: less_induct)
  case less
  have "n - (tot + min (n - tot) (BSIZE - off mod BSIZE)) < n - tot" if "tot < n"
    using that by (auto simp: min_def BSIZE_def)
  then show ?case
    by (subst readi_loop.simps) (auto simp: less.prems intro!: okp_intros ofs_frame less.hyps)
qed

lemma ofs_readi [ofs_frame]: "(\<And>r d t. ofs t = ofs s \<Longrightarrow> P (r, d, t)) \<Longrightarrow> okp P (readi ip dst off n s)"
  by (auto simp: readi_def intro!: okp_intros ofs_frame ofs_readi_loop)

lemma ofs_writei_loop: "(\<And>r d t. ofs t = ofs s \<Longrightarrow> P (r, d, t)) \<Longrightarrow> okp P (writei_loop ip src off n tot s)"
proof (induction "n - tot" arbitrary: src off tot s rule: less_induct)
  case less
  have "n - (tot + min (n - tot) (BSIZE - off mod BSIZE)) < n - tot" if "tot < n"
    using that by (auto simp: min_def BSIZE_def)
  then show ?case
    by (subst writei_loop.simps) (auto simp: less.prems intro!: okp_intros ofs_frame less.hyps)
qed

lemma ofs_writei [ofs_frame]: "(\<And>r t. ofs t = ofs s \<Longrightarrow> P (r, t)) \<Longrightarrow> okp P (writei ip src off n s)"
  by (auto simp: writei_def Let_def intro!: okp_intros ofs_frame ofs_writei_loop)

lemma ofs_read_de [ofs_frame]: "(\<And>r t. ofs t = ofs s \<Longrightarrow> P (r, t)) \<Longrightarrow> okp P (read_de msg dp off s)"
  by (auto simp: read_de_def intro!: okp_intros ofs_frame split: cbuf.splits)

lemma ofs_rebuild_loop [ofs_frame]: "(\<And>t. ofs t = ofs s \<Longrightarrow> P t) \<Longrightarrow> okp P (rebuild_loop offs dp s)"
  by (induction offs arbitrary: s) (auto intro!: okp_intros ofs_frame)

lemma ofs_dircache_rebuild [ofs_frame]: "(\<And>t. ofs t = ofs s \<Longrightarrow> P t) \<Longrightarrow> okp P (dircache_rebuild dp s)"
  by (auto simp: dircache_rebuild_def intro!: okp_intros ofs_frame)

lemma ofs_dircache_lookup [ofs_frame]: "(\<And>r t. ofs t = ofs s \<Longrightarrow> P (r, t)) \<Longrightarrow> okp P (dircache_lookup dp name s)"
  by (auto simp: dircache_lookup_def Let_def intro!: okp_intros ofs_frame)

lemma ofs_lookup_loop [ofs_frame]: "(\<And>r t. ofs t = ofs s \<Longrightarrow> P (r, t)) \<Longrightarrow> okp P (lookup_loop offs dp name s)"
  by (induction offs arbitrary: s) (auto intro!: okp_intros ofs_frame)

lemma ofs_dirlookup [ofs_frame]: "(\<And>r t. ofs t = ofs s \<Longrightarrow> P (r, t)) \<Longrightarrow> okp P (dirlookup dp name s)"
  by (auto simp: dirlookup_def intro!: okp_intros ofs_frame)

lemma ofs_free_slot_loop [ofs_frame]: "(\<And>r t. ofs t = ofs s \<Longrightarrow> P (r, t)) \<Longrightarrow> okp P (free_slot_loop offs off dp s)"
  by (induction offs arbitrary: off s) (auto intro!: okp_intros ofs_frame)

lemma ofs_dirlink [ofs_frame]: "(\<And>r t. ofs t = ofs s \<Longrightarrow> P (r, t)) \<Longrightarrow> okp P (dirlink dp name inum s)"
  by (auto simp: dirlink_def intro!: okp_intros ofs_frame)

lemma ofs_namex_loop [ofs_frame]: "(\<And>r n t. ofs t = ofs s \<Longrightarrow> P (r, n, t)) \<Longrightarrow> okp P (namex_loop path par name ip s)"
proof (induction "length path" arbitrary: path name ip s rule: less_induct)
  case less
  show ?case
    by (subst namex_loop.simps) (auto simp: less.prems skipelem_shorter intro!: okp_intros ofs_frame less.hyps)
qed

lemma ofs_namex [ofs_frame]: "(\<And>r n t. ofs t = ofs s \<Longrightarrow> P (r, n, t)) \<Longrightarrow> okp P (namex path par name s)"
  by (auto simp: namex_def intro!: okp_intros ofs_frame dest!: ofs_idup)

lemma ofs_namei [ofs_frame]: "(\<And>r t. ofs t = ofs s \<Longrightarrow> P (r, t)) \<Longrightarrow> okp P (namei path s)"
  by (auto simp: namei_def intro!: okp_intros ofs_frame)

lemma ofs_nameiparent [ofs_frame]: "(\<And>r n t. ofs t = ofs s \<Longrightarrow> P (r, n, t)) \<Longrightarrow> okp P (nameiparent path name s)"
  by (auto simp: nameiparent_def intro!: ofs_frame)

lemma ofs_scan_free_blocks [ofs_frame]: "(\<And>r t. ofs t = ofs s \<Longrightarrow> P (r, t)) \<Longrightarrow> okp P (scan_free_blocks s)"
  unfolding scan_free_blocks_def
  by (rule okp_kfold[where I = "\<lambda>(r, t). ofs t = ofs s"]) (auto intro!: okp_intros ofs_frame)

lemma ofs_scan_inodes [ofs_frame]: "(\<And>r t. ofs t = ofs s \<Longrightarrow> P (r, t)) \<Longrightarrow> okp P (scan_inodes s)"
  unfolding scan_inodes_def
  by (rule okp_kfold[where I = "\<lambda>(r, t). ofs t = ofs s"]) (auto intro!: okp_intros ofs_frame)

lemma ofs_fs_statfs [ofs_frame]: "(\<And>r t. ofs t = ofs s \<Longrightarrow> P (r, t)) \<Longrightarrow> okp P (fs_statfs s)"
  by (auto simp: fs_statfs_def intro!: okp_intros ofs_frame)

subsection \<open>Console and pipes\<close>

declare okp_finish [ofs_frame]

lemma ofs_uartwrite: "uartwrite buf n i s = Done r t \<Longrightarrow> ofs t = ofs s" "uartwrite buf n i s = Wait c k t \<Longrightarrow> ofs t = ofs s"
  by (induction buf n i s rule: uartwrite.induct; (subst (asm) uartwrite.simps, force split: if_splits))+

lemma ofs_consolewrite_loop:
  "(\<And>r t. ofs t = ofs s \<Longrightarrow> P (Done r t)) \<Longrightarrow> (\<And>c k t. ofs t = ofs s \<Longrightarrow> P (Wait c k t)) \<Longrightarrow> okp P (consolewrite_loop src n i s)"
proof (induction "n - i" arbitrary: i s rule: less_induct)
  case less
  show ?case
    by (subst consolewrite_loop.simps)
      (auto simp: less.prems intro!: okp_intros ofs_frame less.hyps split: run.splits dest!: ofs_uartwrite)
qed

lemma ofs_consolewrite [ofs_frame]:
  "(\<And>r t. ofs t = ofs s \<Longrightarrow> P (Done r t)) \<Longrightarrow> (\<And>c k t. ofs t = ofs s \<Longrightarrow> P (Wait c k t)) \<Longrightarrow> okp P (consolewrite src n s)"
  by (auto simp: consolewrite_def intro!: ofs_consolewrite_loop)

lemma ofs_consoleread_loop:
  "(\<And>r t. ofs t = ofs s \<Longrightarrow> P (Done r t)) \<Longrightarrow> (\<And>c k t. ofs t = ofs s \<Longrightarrow> P (Wait c k t)) \<Longrightarrow> okp P (consoleread_loop g dst n s)"
proof (induction n arbitrary: dst s)
  case (Suc n)
  show ?case by (subst consoleread_loop.simps) (auto simp: Suc.prems intro!: okp_intros ofs_frame Suc.IH)
qed (subst consoleread_loop.simps, simp)

lemma ofs_consoleread [ofs_frame]:
  "(\<And>r t. ofs t = ofs s \<Longrightarrow> P (Done r t)) \<Longrightarrow> (\<And>c k t. ofs t = ofs s \<Longrightarrow> P (Wait c k t)) \<Longrightarrow> okp P (consoleread dst n s)"
  by (auto simp: consoleread_def intro!: ofs_consoleread_loop)

lemma ofs_upd_pipe [simp]: "ofs (upd_pipe p g s) = ofs s"
  by (simp add: upd_pipe_def)

lemma ofs_pipeclose [ofs_frame]: "(\<And>t. ofs t = ofs s \<Longrightarrow> P t) \<Longrightarrow> okp P (pipeclose p w s)"
  by (auto simp: pipeclose_def Let_def intro!: okp_intros ofs_frame)

lemma ofs_pipewrite_loop:
  "(\<And>r t. ofs t = ofs s \<Longrightarrow> P (Done r t)) \<Longrightarrow> (\<And>c k t. ofs t = ofs s \<Longrightarrow> P (Wait c k t)) \<Longrightarrow> okp P (pipewrite_loop pr p a n i s)"
proof (induction "n - i" arbitrary: i s rule: less_induct)
  case less
  show ?case by (subst pipewrite_loop.simps) (auto simp: less.prems intro!: okp_intros ofs_frame less.hyps)
qed

lemma ofs_pipewrite [ofs_frame]:
  "(\<And>r t. ofs t = ofs s \<Longrightarrow> P (Done r t)) \<Longrightarrow> (\<And>c k t. ofs t = ofs s \<Longrightarrow> P (Wait c k t)) \<Longrightarrow> okp P (pipewrite p a n s)"
  by (auto simp: pipewrite_def intro!: okp_intros ofs_pipewrite_loop)

lemma ofs_piperead_loop: "(\<And>r t. ofs t = ofs s \<Longrightarrow> P (r, t)) \<Longrightarrow> okp P (piperead_loop pr p a n i s)"
proof (induction "n - i" arbitrary: i s rule: less_induct)
  case less
  show ?case by (subst piperead_loop.simps) (auto simp: less.prems intro!: okp_intros ofs_frame less.hyps)
qed

lemma ofs_piperead [ofs_frame]:
  "(\<And>r t. ofs t = ofs s \<Longrightarrow> P (Done r t)) \<Longrightarrow> (\<And>c k t. ofs t = ofs s \<Longrightarrow> P (Wait c k t)) \<Longrightarrow> okp P (piperead p a n s)"
  by (auto simp: piperead_def intro!: okp_intros ofs_frame ofs_piperead_loop)

subsection \<open>Files and system calls that keep the descriptors\<close>

lemma ofs_f_off [simp]: "ofs (upd_file f (\<lambda>f. f\<lparr>f_off := n f\<rparr>) s) = ofs s"
  by (auto simp: ofs_def upd_file_def myproc_def fun_eq_iff)

lemma okp_fdtype [ofs_frame]:
  "(x = FD_NONE \<Longrightarrow> okp P a) \<Longrightarrow> (x = FD_PIPE \<Longrightarrow> okp P b) \<Longrightarrow> (x = FD_INODE \<Longrightarrow> okp P c) \<Longrightarrow> (x = FD_DEVICE \<Longrightarrow> okp P d) \<Longrightarrow>
   okp P (case x of FD_NONE \<Rightarrow> a | FD_PIPE \<Rightarrow> b | FD_INODE \<Rightarrow> c | FD_DEVICE \<Rightarrow> d)"
  by (cases x) simp_all

lemma okp_devfn [ofs_frame]: "(x = NoFn \<Longrightarrow> okp P a) \<Longrightarrow> (x = ConsoleFn \<Longrightarrow> okp P b) \<Longrightarrow> okp P (case x of NoFn \<Rightarrow> a | ConsoleFn \<Rightarrow> b)"
  by (cases x) simp_all

lemma ofs_filestat [ofs_frame]: "(\<And>r t. ofs t = ofs s \<Longrightarrow> P (r, t)) \<Longrightarrow> okp P (filestat f a s)"
  by (auto simp: filestat_def intro!: okp_intros ofs_frame)

lemma ofs_fileread [ofs_frame]: "(\<And>r t. ofs t = ofs s \<Longrightarrow> P (r, t)) \<Longrightarrow> okp P (fileread f a n s)"
  by (auto simp: fileread_def intro!: okp_intros ofs_frame)

lemma ofs_filewrite_loop: "(\<And>r t. ofs t = ofs s \<Longrightarrow> P (r, t)) \<Longrightarrow> okp P (filewrite_loop f a n i s)"
proof (induction "n - i" arbitrary: i s rule: less_induct)
  case less
  have "n - (i + min (n - i) wmax) < n - i" if "i < n"
    using that by (auto simp: min_def wmax_def MAXOPBLOCKS_def BSIZE_def)
  then show ?case by (subst filewrite_loop.simps) (auto simp: less.prems intro!: okp_intros ofs_frame less.hyps)
qed

lemma ofs_filewrite [ofs_frame]: "(\<And>r t. ofs t = ofs s \<Longrightarrow> P (r, t)) \<Longrightarrow> okp P (filewrite f a n s)"
  by (auto simp: filewrite_def intro!: okp_intros ofs_frame ofs_filewrite_loop)

lemma ofs_user_copyout [ofs_frame]: "(\<And>r t. ofs t = ofs s \<Longrightarrow> P (r, t)) \<Longrightarrow> okp P (user_copyout a b n s)"
  by (auto simp: user_copyout_def intro!: okp_intros ofs_frame)

lemma ofs_argfd [ofs_frame]:
  "P None \<Longrightarrow> (\<And>i fd f. myproc s = Some i \<Longrightarrow> fd < NOFILE \<Longrightarrow> p_ofile (procs s i) fd = Some f \<Longrightarrow> P (Some (fd, f))) \<Longrightarrow>
   okp P (argfd n s)"
  unfolding argfd_def by (intro okp_intros ofs_plain) (auto simp: NOFILE_def map_option_case split: option.splits)

lemma ofs_fail_op [ofs_frame]: "(\<And>r t. ofs t = ofs s \<Longrightarrow> P (r, t)) \<Longrightarrow> okp P (fail_op s)"
  by (auto simp: fail_op_def intro!: okp_intros ofs_frame)

lemma ofs_add_nlink [ofs_frame]: "(\<And>t. ofs t = ofs s \<Longrightarrow> P t) \<Longrightarrow> okp P (add_nlink d ip s)"
  by (auto simp: add_nlink_def intro!: ofs_frame)

lemma ofs_link_bad [ofs_frame]: "(\<And>r t. ofs t = ofs s \<Longrightarrow> P (r, t)) \<Longrightarrow> okp P (link_bad ip s)"
  by (auto simp: link_bad_def intro!: okp_intros ofs_frame)

lemma ofs_sys_link [ofs_frame]: "(\<And>r t. ofs t = ofs s \<Longrightarrow> P (r, t)) \<Longrightarrow> okp P (sys_link s)"
  by (auto simp: sys_link_def intro!: okp_intros ofs_frame)

lemma ofs_isdirempty [ofs_frame]: "(\<And>r t. ofs t = ofs s \<Longrightarrow> P (r, t)) \<Longrightarrow> okp P (isdirempty dp s)"
proof -
  have "(\<And>r t. ofs t = ofs s \<Longrightarrow> P (r, t)) \<Longrightarrow> okp P (isdirempty_loop offs dp s)" for offs
    by (induction offs arbitrary: s) (auto intro!: okp_intros ofs_frame)
  then show "(\<And>r t. ofs t = ofs s \<Longrightarrow> P (r, t)) \<Longrightarrow> okp P (isdirempty dp s)" by (simp add: isdirempty_def)
qed

lemma ofs_sys_unlink [ofs_frame]: "(\<And>r t. ofs t = ofs s \<Longrightarrow> P (r, t)) \<Longrightarrow> okp P (sys_unlink s)"
  by (auto simp: sys_unlink_def intro!: okp_intros ofs_frame)

lemma ofs_create_fail [ofs_frame]: "(\<And>r t. ofs t = ofs s \<Longrightarrow> P (r, t)) \<Longrightarrow> okp P (create_fail ip dp s)"
  by (auto simp: create_fail_def intro!: okp_intros ofs_frame)

lemma ofs_create [ofs_frame]: "(\<And>r t. ofs t = ofs s \<Longrightarrow> P (r, t)) \<Longrightarrow> okp P (create path ty mj mn s)"
  by (auto simp: create_def intro!: okp_intros ofs_frame)

lemma ofs_sys_mkdir [ofs_frame]: "(\<And>r t. ofs t = ofs s \<Longrightarrow> P (r, t)) \<Longrightarrow> okp P (sys_mkdir s)"
  by (auto simp: sys_mkdir_def intro!: okp_intros ofs_frame)

lemma ofs_sys_mknod [ofs_frame]: "(\<And>r t. ofs t = ofs s \<Longrightarrow> P (r, t)) \<Longrightarrow> okp P (sys_mknod s)"
  by (auto simp: sys_mknod_def intro!: okp_intros ofs_frame)

lemma ofs_sys_chdir [ofs_frame]: "(\<And>r t. ofs t = ofs s \<Longrightarrow> P (r, t)) \<Longrightarrow> okp P (sys_chdir s)"
  by (auto simp: sys_chdir_def intro!: okp_intros ofs_frame)

lemma ofs_sys_fverify [ofs_frame]: "(\<And>r t. ofs t = ofs s \<Longrightarrow> P (r, t)) \<Longrightarrow> okp P (sys_fverify s)"
  by (auto simp: sys_fverify_def intro!: okp_intros ofs_frame)

lemma ofs_sys_statfs [ofs_frame]: "(\<And>r t. ofs t = ofs s \<Longrightarrow> P (r, t)) \<Longrightarrow> okp P (sys_statfs s)"
  by (auto simp: sys_statfs_def intro!: okp_intros ofs_frame)

lemma ofs_sys_rw [ofs_frame]:
  "(\<And>r t. ofs t = ofs s \<Longrightarrow> P (r, t)) \<Longrightarrow> okp P (sys_read s)" "(\<And>r t. ofs t = ofs s \<Longrightarrow> P (r, t)) \<Longrightarrow> okp P (sys_write s)"
  "(\<And>r t. ofs t = ofs s \<Longrightarrow> P (r, t)) \<Longrightarrow> okp P (sys_fstat s)"
  by (auto simp: sys_read_def sys_write_def sys_fstat_def intro!: okp_intros ofs_frame)

lemma ofs_growproc [ofs_frame]: "(\<And>r t. ofs t = ofs s \<Longrightarrow> P (r, t)) \<Longrightarrow> okp P (growproc n s)"
  by (auto simp: growproc_def intro!: okp_intros ofs_frame)

lemma ofs_sys_sbrk [ofs_frame]: "(\<And>r t. ofs t = ofs s \<Longrightarrow> P (r, t)) \<Longrightarrow> okp P (sys_sbrk s)"
  by (auto simp: sys_sbrk_def intro!: okp_intros ofs_frame)

lemma ofs_sys_pause [ofs_frame]: "(\<And>r t. ofs t = ofs s \<Longrightarrow> P (r, t)) \<Longrightarrow> okp P (sys_pause s)"
  by (auto simp: sys_pause_def pause_from_def intro!: okp_intros ofs_frame)

lemma ofs_kkill [dest]: "kkill pid s = (r, t) \<Longrightarrow> ofs t = ofs s"
  by (auto simp: kkill_def gone_def Let_def split: option.splits if_splits intro!: ofs_upd_proc)

lemma ofs_setpriority [dest]: "setpriority pid prio s = (r, t) \<Longrightarrow> ofs t = ofs s"
  by (auto simp: setpriority_def gone_def Let_def split: option.splits if_splits intro!: ofs_upd_proc)

lemma ofs_sys_sched [ofs_frame]:
  "(\<And>r t. ofs t = ofs s \<Longrightarrow> P (r, t)) \<Longrightarrow> okp P (sys_kill s)"
  "(\<And>r t. ofs t = ofs s \<Longrightarrow> P (r, t)) \<Longrightarrow> okp P (sys_setpriority s)"
  "(\<And>r t. ofs t = ofs s \<Longrightarrow> P (r, t)) \<Longrightarrow> okp P (sys_getpriority s)"
  by (auto simp: sys_kill_def sys_setpriority_def sys_getpriority_def intro!: okp_intros ofs_frame)
    (metis ofs_kkill ofs_setpriority surj_pair)+

lemma ofs_sys_report [ofs_frame]:
  "(\<And>r t. ofs t = ofs s \<Longrightarrow> P (r, t)) \<Longrightarrow> okp P (sys_sysinfo s)"
  "(\<And>r t. ofs t = ofs s \<Longrightarrow> P (r, t)) \<Longrightarrow> okp P (sys_schedinfo s)"
  "(\<And>r t. ofs t = ofs s \<Longrightarrow> P (r, t)) \<Longrightarrow> okp P (sys_vmstat s)"
  "(\<And>r t. ofs t = ofs s \<Longrightarrow> P (r, t)) \<Longrightarrow> okp P (sys_klogctl s)"
  "(\<And>r t. ofs t = ofs s \<Longrightarrow> P (r, t)) \<Longrightarrow> okp P (sys_getpid s)"
  "(\<And>r t. ofs t = ofs s \<Longrightarrow> P (r, t)) \<Longrightarrow> okp P (sys_uptime s)"
  by (auto simp: sys_sysinfo_def sys_schedinfo_def sys_vmstat_def sys_klogctl_def klog_set_level_def sys_getpid_def
      sys_uptime_def intro!: okp_intros ofs_frame)

lemma ofs_sys_devinfo [ofs_frame]: "(\<And>r t. ofs t = ofs s \<Longrightarrow> P (r, t)) \<Longrightarrow> okp P (sys_devinfo s)"
  by (auto simp: sys_devinfo_def intro!: okp_intros ofs_frame)

lemma ofs_sys_stub [ofs_frame]:
  "(\<And>r t. ofs t = ofs s \<Longrightarrow> P (r, t)) \<Longrightarrow> okp P (sys_eventfd s)"
  "(\<And>r t. ofs t = ofs s \<Longrightarrow> P (r, t)) \<Longrightarrow> okp P (sys_timerfd s)"
  "(\<And>r t. ofs t = ofs s \<Longrightarrow> P (r, t)) \<Longrightarrow> okp P (sys_dmesg s)"
  by (auto simp: sys_eventfd_def sys_timerfd_def sys_dmesg_def)

subsection \<open>Programs\<close>

lemma ofs_proc_pagetable [ofs_frame]: "(\<And>r t. ofs t = ofs s \<Longrightarrow> P (r, t)) \<Longrightarrow> okp P (proc_pagetable ld i s)"
  by (auto simp: proc_pagetable_def intro!: okp_intros ofs_frame)

lemma ofs_proc_freepagetable [ofs_frame]: "(\<And>t. ofs t = ofs s \<Longrightarrow> P t) \<Longrightarrow> okp P (proc_freepagetable pt sz s)"
  by (auto simp: proc_freepagetable_def intro!: okp_intros ofs_frame)

lemma ofs_loadseg_loop: "(\<And>r t. ofs t = ofs s \<Longrightarrow> P (r, t)) \<Longrightarrow> okp P (loadseg_loop xs pt va ip off sz s)"
  by (induction xs arbitrary: s) (auto intro!: okp_intros ofs_frame split: cbuf.split)

lemma ofs_loadseg [ofs_frame]: "(\<And>r t. ofs t = ofs s \<Longrightarrow> P (r, t)) \<Longrightarrow> okp P (loadseg pt va ip off sz s)"
  by (auto simp: loadseg_def intro!: ofs_loadseg_loop)

lemma ofs_read_hdr [ofs_frame]: "(\<And>r t. ofs t = ofs s \<Longrightarrow> P (r, t)) \<Longrightarrow> okp P (read_hdr ip off n s)"
  by (auto simp: read_hdr_def intro!: okp_intros ofs_frame)

lemma ofs_exec_load [ofs_frame]: "(\<And>r z t. ofs t = ofs s \<Longrightarrow> P (r, z, t)) \<Longrightarrow> okp P (exec_load n ip off pt sz s)"
  by (induction n arbitrary: off sz s) (auto intro!: okp_intros ofs_frame)

lemma ofs_exec_args [ofs_frame]: "(\<And>r t. ofs t = ofs s \<Longrightarrow> P (r, t)) \<Longrightarrow> okp P (exec_args argv us pt sp base s)"
  by (induction argv arbitrary: us sp s) (auto intro!: okp_intros ofs_frame)

lemma ofs_exec_bad [ofs_frame]: "(\<And>r t. ofs t = ofs s \<Longrightarrow> P (r, t)) \<Longrightarrow> okp P (exec_bad pt sz ip s)"
  by (auto simp: exec_bad_def intro!: okp_intros ofs_frame)

lemma ofs_exec_stack [ofs_frame]: "(\<And>r t. ofs t = ofs s \<Longrightarrow> P (r, t)) \<Longrightarrow> okp P (exec_stack i path argv e pt sz s)"
  by (auto simp: exec_stack_def intro!: okp_intros ofs_frame)

lemma ofs_kexec [ofs_frame]: "(\<And>r t. ofs t = ofs s \<Longrightarrow> P (r, t)) \<Longrightarrow> okp P (kexec ld path argv s)"
  by (auto simp: kexec_def intro!: okp_intros ofs_frame)

lemma ofs_fetchaddr [ofs_frame]: "(\<And>r a t. ofs t = ofs s \<Longrightarrow> P (r, a, t)) \<Longrightarrow> okp P (fetchaddr addr s)"
  by (auto simp: fetchaddr_def intro!: okp_intros ofs_frame)

lemma ofs_fetch_argv [ofs_frame]: "(\<And>r a t. ofs t = ofs s \<Longrightarrow> P (r, a, t)) \<Longrightarrow> okp P (fetch_argv n u i argv s)"
  by (induction n arbitrary: i argv s) (auto intro!: okp_intros ofs_frame dest!: ofs_kalloc)

lemma ofs_free_argv [ofs_frame]: "(\<And>t. ofs t = ofs s \<Longrightarrow> P t) \<Longrightarrow> okp P (free_argv argv s)"
  by (auto simp: free_argv_def intro!: ofs_frame)

lemma ofs_sys_exec [ofs_frame]: "(\<And>r t. ofs t = ofs s \<Longrightarrow> P (r, t)) \<Longrightarrow> okp P (sys_exec ld s)"
  by (auto simp: sys_exec_def intro!: okp_intros ofs_frame)

end
