(* ===== verification/Open_Files.thy ===== *)
theory Open_Files
  imports Files_Frame
begin

text \<open>
  The reference counts of the file table. A file is named by descriptors of processes, and during a
  system call also by the call itself. The operations on files and descriptors act on the view \<open>ofs\<close> of
  the state; \<open>counted\<close> says that the counts are right up to the references the call holds. Every system
  call ends with none, so that each count is the number of descriptors that name the file.
\<close>

section \<open>Counts of references\<close>

fun names :: "files_view \<Rightarrow> nat \<Rightarrow> (nat \<times> nat) set" where
  "names (F, D, c) f = {(i, fd). fst (D i) fd = Some f}"

fun counted :: "(nat \<Rightarrow> int) \<Rightarrow> nat set \<Rightarrow> files_view \<Rightarrow> bool" where
  "counted H T (F, D, c) \<longleftrightarrow>
     (\<forall>f. fst (F f) = int (card (names (F, D, c) f)) + H f) \<and>
     (\<forall>i fd f. fst (D i) fd = Some f \<longrightarrow>
        i < NPROC \<and> fd < NOFILE \<and> f < NFILE \<and> \<not> snd (D i) \<and> (snd (F f) \<noteq> FD_NONE \<or> f \<in> T)) \<and>
     (\<forall>i. c = Some i \<longrightarrow> i < NPROC \<and> \<not> snd (D i))"

text \<open>The operations on the view: a new count and type, a new descriptor, a slot given up or taken.\<close>

fun set_file :: "nat \<Rightarrow> int \<times> fdtype \<Rightarrow> files_view \<Rightarrow> files_view" where
  "set_file f x (F, D, c) = (F(f := x), D, c)"

fun set_fd :: "nat \<Rightarrow> nat \<Rightarrow> nat option \<Rightarrow> files_view \<Rightarrow> files_view" where
  "set_fd i fd x (F, D, c) = (F, D(i := ((fst (D i))(fd := x), snd (D i))), c)"

fun set_gone :: "nat \<Rightarrow> bool \<Rightarrow> files_view \<Rightarrow> files_view" where
  "set_gone i b (F, D, c) = (F, D(i := (fst (D i), b)), c)"

definition count :: "files_view \<Rightarrow> nat \<Rightarrow> int" where "count v f = fst (fst v f)"
definition kind :: "files_view \<Rightarrow> nat \<Rightarrow> fdtype" where "kind v f = snd (fst v f)"
definition desc :: "files_view \<Rightarrow> nat \<Rightarrow> nat \<Rightarrow> nat option" where "desc v i = fst (fst (snd v) i)"
definition is_gone :: "files_view \<Rightarrow> nat \<Rightarrow> bool" where "is_gone v i = snd (fst (snd v) i)"
definition running :: "files_view \<Rightarrow> nat option" where "running v = snd (snd v)"

lemmas view_defs = count_def kind_def desc_def is_gone_def running_def

lemma view_ofs:
  "count (ofs s) f = f_ref (ftable s f)" "kind (ofs s) f = f_type (ftable s f)" "desc (ofs s) i fd = p_ofile (procs s i) fd"
  "is_gone (ofs s) i = gone (procs s i)" "running (ofs s) = myproc s"
  by (simp_all add: view_defs ofs_def)

lemma view_set [simp]:
  "count (set_file f x v) g = (if g = f then fst x else count v g)" "kind (set_file f x v) g = (if g = f then snd x else kind v g)"
  "desc (set_file f x v) = desc v" "is_gone (set_file f x v) = is_gone v" "running (set_file f x v) = running v"
  "count (set_fd i fd y v) = count v" "kind (set_fd i fd y v) = kind v"
  "desc (set_fd i fd y v) j = (if j = i then (desc v i)(fd := y) else desc v j)"
  "is_gone (set_fd i fd y v) = is_gone v" "running (set_fd i fd y v) = running v"
  "count (set_gone i b v) = count v" "kind (set_gone i b v) = kind v" "desc (set_gone i b v) = desc v"
  "is_gone (set_gone i b v) = (is_gone v)(i := b)" "running (set_gone i b v) = running v"
  by (cases v; auto simp: view_defs fun_eq_iff)+

text \<open>One reference more and one less; the last one clears the type.\<close>

definition dup_file :: "nat \<Rightarrow> files_view \<Rightarrow> files_view" where
  "dup_file f v = set_file f (count v f + 1, kind v f) v"

definition drop_file :: "nat \<Rightarrow> files_view \<Rightarrow> files_view" where
  "drop_file f v = set_file f (count v f - 1, if count v f = 1 then FD_NONE else kind v f) v"

lemma view_drop [simp]:
  "desc (dup_file f v) = desc v" "is_gone (dup_file f v) = is_gone v" "running (dup_file f v) = running v"
  "count (dup_file f v) = (count v)(f := count v f + 1)" "kind (dup_file f v) = kind v"
  "desc (drop_file f v) = desc v" "is_gone (drop_file f v) = is_gone v" "running (drop_file f v) = running v"
  "count (drop_file f v) = (count v)(f := count v f - 1)"
  "kind (drop_file f v) = (kind v)(f := if count v f = 1 then FD_NONE else kind v f)"
  by (auto simp: dup_file_def drop_file_def)

lemma view_eqI:
  assumes "count v = count w" "kind v = kind w" "desc v = desc w" "is_gone v = is_gone w" "running v = running w"
  shows "v = w"
  using assms by (cases v; cases w) (auto simp: view_defs fun_eq_iff prod_eq_iff)

lemma counted_iff:
  "counted H T v \<longleftrightarrow>
     (\<forall>f. count v f = int (card {(i, fd). desc v i fd = Some f}) + H f) \<and>
     (\<forall>i fd f. desc v i fd = Some f \<longrightarrow>
        i < NPROC \<and> fd < NOFILE \<and> f < NFILE \<and> \<not> is_gone v i \<and> (kind v f \<noteq> FD_NONE \<or> f \<in> T)) \<and>
     (\<forall>i. running v = Some i \<longrightarrow> i < NPROC \<and> \<not> is_gone v i)"
  by (cases v) (simp add: view_defs)

lemma countedD:
  assumes "counted H T v"
  shows "count v f = int (card {(i, fd). desc v i fd = Some f}) + H f"
    "desc v i fd = Some f \<Longrightarrow> i < NPROC \<and> fd < NOFILE \<and> f < NFILE \<and> \<not> is_gone v i \<and> (kind v f \<noteq> FD_NONE \<or> f \<in> T)"
    "running v = Some i \<Longrightarrow> i < NPROC \<and> \<not> is_gone v i"
  using assms unfolding counted_iff by blast+

lemma countedI:
  assumes "\<And>f. count v f = int (card {(i, fd). desc v i fd = Some f}) + H f"
    "\<And>i fd f. desc v i fd = Some f \<Longrightarrow> i < NPROC \<and> fd < NOFILE \<and> f < NFILE \<and> \<not> is_gone v i \<and> (kind v f \<noteq> FD_NONE \<or> f \<in> T)"
    "\<And>i. running v = Some i \<Longrightarrow> i < NPROC \<and> \<not> is_gone v i"
  shows "counted H T v"
  unfolding counted_iff by (intro conjI allI; (rule impI)?; (erule assms(2) | erule assms(3) | rule assms(1)))

lemma names_finite: "counted H T v \<Longrightarrow> finite {(i, fd). desc v i fd = Some f}"
  by (rule finite_subset[of _ "{..<NPROC} \<times> {..<NOFILE}"]) (auto simp: counted_iff)

lemma names_pos: "counted H T v \<Longrightarrow> desc v i fd = Some f \<Longrightarrow> 0 < card {(j, d). desc v j d = Some f}"
  using names_finite[of H T v f] by (auto simp: card_gt_0_iff)

lemma counted_link:
  assumes c: "counted H T v" and "desc v i fd = None" "i < NPROC" "fd < NOFILE" "\<not> is_gone v i"
    and "f < NFILE" "kind v f \<noteq> FD_NONE \<or> f \<in> T"
  shows "counted (H(f := H f - 1)) T (set_fd i fd (Some f) v)"
proof -
  have "{(j, d). desc (set_fd i fd (Some f) v) j d = Some g} =
      (if g = f then insert (i, fd) {(j, d). desc v j d = Some f} else {(j, d). desc v j d = Some g})" for g
    using assms(2) by (auto split: if_splits)
  then have "card {(j, d). desc (set_fd i fd (Some f) v) j d = Some g} =
      card {(j, d). desc v j d = Some g} + (if g = f then 1 else 0)" for g
    using names_finite[OF c] assms(2) by simp
  then show ?thesis using c assms(3-7) unfolding counted_iff by (auto simp del: view_set(8)) (auto split: if_splits)
qed

lemma counted_unlink:
  assumes c: "counted H T v" and d: "desc v i fd = Some f"
  shows "counted (H(f := H f + 1)) T (set_fd i fd None v)"
proof -
  have "{(j, d). desc (set_fd i fd None v) j d = Some g} =
      (if g = f then {(j, d). desc v j d = Some f} - {(i, fd)} else {(j, d). desc v j d = Some g})" for g
    using d by (auto split: if_splits)
  then have "int (card {(j, d). desc (set_fd i fd None v) j d = Some g}) =
      int (card {(j, d). desc v j d = Some g}) - (if g = f then 1 else 0)" for g
    using d names_pos[OF c d] by (auto simp: card_Diff_singleton of_nat_diff)
  then show ?thesis using c unfolding counted_iff by (auto simp del: view_set(8)) (auto split: if_splits)
qed

lemma counted_pos: "counted H T v \<Longrightarrow> desc v i fd = Some f \<Longrightarrow> 1 + H f \<le> count v f"
  using names_pos[of H T v i fd f] by (simp add: counted_iff)

lemma counted_dup: "counted H T v \<Longrightarrow> counted (H(f := H f + 1)) T (dup_file f v)"
  by (auto simp: counted_iff)

lemma counted_kind: "counted H (insert f T) v \<Longrightarrow> k \<noteq> FD_NONE \<Longrightarrow> counted H T (set_file f (count v f, k) v)"
  by (auto simp: counted_iff)

lemma counted_none: "counted H T v \<Longrightarrow> count v f = H f \<Longrightarrow> desc v i fd \<noteq> Some f"
  using counted_pos[of H T v i fd f] by auto

lemma counted_drop:
  assumes c: "counted H T v" and "1 \<le> H f"
  shows "counted (H(f := H f - 1)) (T - (if count v f = 1 then {f} else {}))
    (drop_file f v)"
    (is "counted ?H ?T ?v")
proof (rule countedI)
  have n: "count v f = 1 \<Longrightarrow> desc v i fd \<noteq> Some f" for i fd using counted_pos[OF c, of i fd f] assms(2) by auto
  show "count ?v g = int (card {(i, fd). desc ?v i fd = Some g}) + ?H g" for g using countedD(1)[OF c, of g] by (cases "g = f") simp_all
  show "i < NPROC \<and> fd < NOFILE \<and> g < NFILE \<and> \<not> is_gone ?v i \<and> (kind ?v g \<noteq> FD_NONE \<or> g \<in> ?T)"
    if "desc ?v i fd = Some g" for i fd g
    using countedD(2)[OF c, of i fd g] n[of i fd] that by (cases "g = f"; cases "count v f = 1") auto
  show "i < NPROC \<and> \<not> is_gone ?v i" if "running ?v = Some i" for i using countedD(3)[OF c, of i] that by simp
qed

lemma counted_alloc:
  assumes c: "counted H T v" and "count v f = 0" "H f = 0"
  shows "counted (H(f := 1)) T (set_file f (1, k) v)" (is "counted ?H T ?v")
proof (rule countedI)
  have n: "desc v i fd \<noteq> Some f" for i fd using counted_none[OF c] assms(2,3) by simp
  then show "count ?v g = int (card {(i, fd). desc ?v i fd = Some g}) + ?H g" for g using countedD(1)[OF c, of g] by (cases "g = f") simp_all
  show "i < NPROC \<and> fd < NOFILE \<and> g < NFILE \<and> \<not> is_gone ?v i \<and> (kind ?v g \<noteq> FD_NONE \<or> g \<in> T)"
    if "desc ?v i fd = Some g" for i fd g
    using countedD(2)[OF c, of i fd g] n[of i fd] that by (cases "g = f") auto
  show "i < NPROC \<and> \<not> is_gone ?v i" if "running ?v = Some i" for i using countedD(3)[OF c, of i] that by simp
qed

lemma counted_gone: "counted H T v \<Longrightarrow> (\<And>fd. desc v i fd = None) \<Longrightarrow> running v \<noteq> Some i \<Longrightarrow> counted H T (set_gone i b v)"
  by (auto simp: counted_iff)

text \<open>Closing a file and forgetting its descriptor, in either order.\<close>

lemma set_fd_comm: "set_fd i fd y (dup_file f v) = dup_file f (set_fd i fd y v)" "set_fd i fd y (drop_file f v) = drop_file f (set_fd i fd y v)"
  by (rule view_eqI; auto simp: fun_eq_iff)+

lemma counted_close:
  assumes c: "counted H T v" and d: "desc v i fd = Some f" and "H f = 0"
  shows "counted H T (drop_file f (set_fd i fd None v))"
proof -
  have "counted (H(f := H f + 1, f := (H(f := H f + 1)) f - 1)) (T - (if count v f = 1 then {f} else {})) (drop_file f (set_fd i fd None v))"
    by (rule counted_drop[OF counted_unlink[OF c d], of f, unfolded view_set]) (simp add: assms(3))
  moreover have "H(f := H f + 1, f := (H(f := H f + 1)) f - 1) = H" by auto
  ultimately have "counted H (T - (if count v f = 1 then {f} else {})) (drop_file f (set_fd i fd None v))" by simp
  then show ?thesis unfolding counted_iff by (auto split: if_splits)
qed

section \<open>The operations\<close>

lemma ftable_upd_file [simp]: "ftable (upd_file f g s) = (ftable s)(f := g (ftable s f))"
  by (simp add: upd_file_def)

lemma ofs_upd_file: "ofs (upd_file f g s) = set_file f (f_ref (g (ftable s f)), f_type (g (ftable s f))) (ofs s)"
  by (rule view_eqI) (auto simp: fun_eq_iff view_ofs upd_file_def myproc_def)

lemma ofs_upd_fd: "ofs (upd_proc i (\<lambda>p. p\<lparr>p_ofile := (p_ofile p)(fd := x)\<rparr>) s) = set_fd i fd x (ofs s)"
  by (rule view_eqI) (auto simp: fun_eq_iff view_ofs upd_proc_def myproc_def gone_def)

lemma set_file_twice [simp]: "set_file f x (set_file f y v) = set_file f x v"
  by (rule view_eqI) (auto simp: fun_eq_iff)

lemma argfd_view:
  "P None \<Longrightarrow> (\<And>i fd f. running (ofs s) = Some i \<Longrightarrow> fd < NOFILE \<Longrightarrow> desc (ofs s) i fd = Some f \<Longrightarrow> P (Some (fd, f))) \<Longrightarrow>
   okp P (argfd n s)"
  by (rule ofs_argfd) (simp_all add: view_ofs)

lemma filealloc_view:
  assumes "filealloc s = (r, t)"
  obtains "r = None" "ofs t = ofs s"
  | f where "r = Some f" "f < NFILE" "count (ofs s) f = 0" "ofs t = set_file f (1, kind (ofs s) f) (ofs s)"
  using assms by (cases r) (auto simp: filealloc_def find_upt_Some ofs_upd_file view_ofs split: option.splits)

lemma filedup_view:
  "(\<And>t. ofs t = dup_file f (ofs s) \<Longrightarrow> P (f, t)) \<Longrightarrow> okp P (filedup f s)"
  by (auto simp: filedup_def dup_file_def ofs_upd_file view_ofs intro!: okp_intros)

lemma fileclose_view:
  "(\<And>t. ofs t = drop_file f (ofs s) \<Longrightarrow> P t) \<Longrightarrow>
   okp P (fileclose f s)"
  unfolding fileclose_def Let_def
  by (intro okp_intros ofs_frame) (auto simp: ofs_upd_file drop_file_def view_ofs)

lemma fdalloc_view:
  "P (-1, s) \<Longrightarrow>
   (\<And>i fd t. running (ofs s) = Some i \<Longrightarrow> fd < NOFILE \<Longrightarrow> desc (ofs s) i fd = None \<Longrightarrow> ofs t = set_fd i fd (Some f) (ofs s) \<Longrightarrow> P (int fd, t)) \<Longrightarrow>
   okp P (fdalloc f s)"
  by (auto simp: fdalloc_def find_upt_Some ofs_upd_fd view_ofs intro!: okp_intros)

lemma clear_fd_view:
  "(\<And>i t. running (ofs s) = Some i \<Longrightarrow> ofs t = set_fd i fd None (ofs s) \<Longrightarrow> P t) \<Longrightarrow> okp P (clear_fd fd s)"
  by (auto simp: clear_fd_def ofs_upd_fd view_ofs intro!: okp_intros)

section \<open>System calls on descriptors\<close>

abbreviation exact :: "files_view \<Rightarrow> bool" where "exact v \<equiv> counted (\<lambda>_. 0) {} v"

lemma counted_share:
  assumes "counted H T v" "desc v i fd = None" "i < NPROC" "fd < NOFILE" "\<not> is_gone v i" "desc v j d = Some f"
  shows "counted H T (dup_file f (set_fd i fd (Some f) v))"
proof -
  have "f < NFILE" "kind v f \<noteq> FD_NONE \<or> f \<in> T" using countedD(2)[OF assms(1,6)] by auto
  then have "counted (H(f := H f - 1, f := (H(f := H f - 1)) f + 1)) T (dup_file f (set_fd i fd (Some f) v))"
    by (rule counted_dup[OF counted_link[OF assms(1-5)], of f, unfolded view_set])
  moreover have "H(f := H f - 1, f := (H(f := H f - 1)) f + 1) = H" by auto
  ultimately show ?thesis by simp
qed

lemma exact_dup:
  assumes "exact v" "running v = Some i" "desc v i d = Some f" "desc v i fd = None" "fd < NOFILE"
  shows "exact (dup_file f (set_fd i fd (Some f) v))"
  using countedD(3)[OF assms(1,2)] by (intro counted_share[OF assms(1,4) _ assms(5) _ assms(3)]) auto

lemma sys_dup_exact: "exact (ofs s) \<Longrightarrow> okp (\<lambda>(r, t). exact (ofs t)) (sys_dup s)"
  by (auto simp: sys_dup_def intro!: okp_intros argfd_view fdalloc_view filedup_view intro: exact_dup)

lemma sys_close_exact: "exact (ofs s) \<Longrightarrow> okp (\<lambda>(r, t). exact (ofs t)) (sys_close s)"
  by (auto simp: sys_close_def intro!: okp_intros argfd_view clear_fd_view fileclose_view intro: counted_close)

lemma counted_weaken: "counted H T v \<Longrightarrow> T \<subseteq> U \<Longrightarrow> counted H U v"
  unfolding counted_iff by blast

lemma exact_alloc: "exact v \<Longrightarrow> count v f = 0 \<Longrightarrow> counted ((\<lambda>_. 0)(f := 1)) {} (set_file f (1, k) v)"
  using counted_alloc[of "\<lambda>_. 0" "{}" v f k] by simp

lemma upd_zero: "((\<lambda>_. 0 :: int)(f := 1))(f := ((\<lambda>_. 0)(f := 1)) f - 1) = (\<lambda>_. 0)"
  by auto

lemma exact_open:
  assumes "exact v" "count v f = 0" "f < NFILE" "running v = Some i" "desc v i fd = None" "fd < NOFILE" "k \<noteq> FD_NONE"
  shows "exact (set_file f (1, k) (set_fd i fd (Some f) (set_file f (1, k0) v)))"
proof -
  let ?w = "set_fd i fd (Some f) (set_file f (1, k0) v)"
  have "counted ((\<lambda>_. 0)(f := 1)) {f} (set_file f (1, k0) v)"
    using counted_weaken[OF exact_alloc[OF assms(1,2)]] by simp
  then have "counted (((\<lambda>_. 0)(f := 1))(f := ((\<lambda>_. 0)(f := 1)) f - 1)) {f} ?w"
    using countedD(3)[OF assms(1,4)] assms(3,5,6) by (intro counted_link) auto
  then have "counted (\<lambda>_. 0) {f} ?w" by (simp only: upd_zero)
  from counted_kind[OF this assms(7)] show ?thesis by simp
qed

lemma exact_drop: "exact v \<Longrightarrow> count v f = 0 \<Longrightarrow> exact (drop_file f (set_file f (1, k) v))"
  using counted_drop[OF exact_alloc, of v f f k] by (simp only: upd_zero) simp

lemma ofs_open [simp]:
  "ofs (upd_file f (\<lambda>f. f\<lparr>f_type := k, f_major := m\<rparr>) s) = set_file f (count (ofs s) f, k) (ofs s)"
  "ofs (upd_file f (\<lambda>f. f\<lparr>f_type := k, f_off := n\<rparr>) s) = set_file f (count (ofs s) f, k) (ofs s)"
  "ofs (upd_file f (\<lambda>f. f\<lparr>f_type := k, f_readable := r, f_writable := w, f_pipe := p\<rparr>) s) = set_file f (count (ofs s) f, k) (ofs s)"
  "ofs (upd_file f (\<lambda>f. f\<lparr>f_ip := ip, f_readable := r, f_writable := w\<rparr>) s) = ofs s"
  by (auto simp: ofs_upd_file view_ofs intro!: view_eqI)

lemma sys_open_exact: "exact (ofs s) \<Longrightarrow> okp (\<lambda>(r, t). exact (ofs t)) (sys_open s)"
  by (auto simp: sys_open_def Let_def if_distrib[of ofs] split: if_splits intro!: okp_intros ofs_frame fdalloc_view fileclose_view exact_open exact_drop elim!: filealloc_view)

section \<open>Pipes\<close>

text \<open>Two new files that only the call refers to.\<close>

definition held2 :: "nat \<Rightarrow> nat \<Rightarrow> files_view \<Rightarrow> bool" where
  "held2 f g v \<longleftrightarrow> f \<noteq> g \<and> f < NFILE \<and> g < NFILE \<and> kind v f \<noteq> FD_NONE \<and> kind v g \<noteq> FD_NONE \<and>
     counted ((\<lambda>_. 0)(f := 1, g := 1)) {} v"

lemma held2_drop:
  assumes "held2 f g v" shows "exact (drop_file g (drop_file f v))"
proof -
  let ?H = "(\<lambda>_. 0 :: int)(f := 1, g := 1)"
  have h: "f \<noteq> g" "counted ?H {} v" using assms by (auto simp: held2_def)
  have "counted (?H(f := ?H f - 1)) {} (drop_file f v)" using counted_drop[OF h(2), of f] h(1) by simp
  from counted_drop[OF this, of g] have "counted (?H(f := ?H f - 1, g := (?H(f := ?H f - 1)) g - 1)) {} (drop_file g (drop_file f v))"
    using h(1) by simp
  moreover have "?H(f := ?H f - 1, g := (?H(f := ?H f - 1)) g - 1) = (\<lambda>_. 0)" using h(1) by auto
  ultimately show ?thesis by simp
qed

lemma held2_link:
  assumes "held2 f g v" "running v = Some i" "desc v i a = None" "a < NOFILE" "b < NOFILE"
    and b: "desc (set_fd i a (Some f) v) i b = None"
  shows "exact (set_fd i b (Some g) (set_fd i a (Some f) v))"
proof -
  let ?H = "(\<lambda>_. 0 :: int)(f := 1, g := 1)"
  have h: "f \<noteq> g" "counted ?H {} v" "f < NFILE" "g < NFILE" "kind v f \<noteq> FD_NONE" "kind v g \<noteq> FD_NONE"
    using assms by (auto simp: held2_def)
  have i: "i < NPROC" "\<not> is_gone v i" using countedD(3)[OF h(2) assms(2)] by auto
  have "counted (?H(f := ?H f - 1)) {} (set_fd i a (Some f) v)" using h i assms(3,4) by (intro counted_link) auto
  then have "counted (?H(f := ?H f - 1, g := (?H(f := ?H f - 1)) g - 1)) {} (set_fd i b (Some g) (set_fd i a (Some f) v))"
    by (rule counted_link) (use h i b assms(5) in auto)
  moreover have "?H(f := ?H f - 1, g := (?H(f := ?H f - 1)) g - 1) = (\<lambda>_. 0)" using h(1) by auto
  ultimately show ?thesis by simp
qed

lemma held2_new:
  assumes "exact v" "count v f = 0" "f < NFILE" and n: "f \<noteq> g" "count v g = 0" and "g < NFILE"
  shows "held2 f g (set_file g (1, FD_PIPE) (set_file f (1, FD_PIPE) (set_file g (1, l) (set_file f (1, k) v))))"
proof -
  have "counted ((\<lambda>_. 0)(f := 1)) {} (set_file f (1, FD_PIPE) v)" by (rule exact_alloc[OF assms(1,2)])
  then have "counted ((\<lambda>_. 0)(f := 1, g := 1)) {} (set_file g (1, FD_PIPE) (set_file f (1, FD_PIPE) v))"
    by (rule counted_alloc) (use n in auto)
  moreover have "set_file g (1, FD_PIPE) (set_file f (1, FD_PIPE) (set_file g (1, l) (set_file f (1, k) v))) =
      set_file g (1, FD_PIPE) (set_file f (1, FD_PIPE) v)" by (rule view_eqI) (auto simp: fun_eq_iff)
  ultimately show ?thesis using n assms(3,6) by (simp add: held2_def)
qed

lemma exact_drop2:
  assumes "exact v" "count v f = 0" and n: "f \<noteq> g" "count v g = 0"
  shows "exact (drop_file g (drop_file f (set_file g (1, l) (set_file f (1, k) v))))"
proof -
  have "drop_file g (drop_file f (set_file g (1, l) (set_file f (1, k) v))) =
      drop_file g (set_file g (1, l) (drop_file f (set_file f (1, k) v)))" using n(1) by (intro view_eqI) (auto simp: fun_eq_iff)
  moreover have "count (drop_file f (set_file f (1, k) v)) g = 0" using n by simp
  ultimately show ?thesis using exact_drop[OF exact_drop[OF assms(1,2)]] by simp
qed

lemma pipealloc_exact:
  assumes "exact (ofs s)" "\<And>t. exact (ofs t) \<Longrightarrow> P (None, t)" "\<And>f g t. held2 f g (ofs t) \<Longrightarrow> P (Some (f, g), t)"
  shows "okp P (pipealloc s)"
  unfolding pipealloc_def Let_def using assms(1)
  by (auto intro!: okp_intros assms(2,3) fileclose_view exact_drop exact_drop2 held2_new elim!: filealloc_view dest!: ofs_kalloc split: if_splits)

lemma undo_fd [simp]: "desc v i a = None \<Longrightarrow> set_fd i a None (set_fd i a (Some f) v) = v"
  by (rule view_eqI) (auto simp: fun_eq_iff)

lemma undo_fds [simp]:
  "desc v i a = None \<Longrightarrow> desc (set_fd i a (Some f) v) i b = None \<Longrightarrow>
   set_fd i b None (set_fd i a None (set_fd i b (Some g) (set_fd i a (Some f) v))) = v"
  by (rule view_eqI) (auto simp: fun_eq_iff split: if_splits)

lemma sys_pipe_exact: "exact (ofs s) \<Longrightarrow> okp (\<lambda>(r, t). exact (ofs t)) (sys_pipe s)"
  by (auto simp: sys_pipe_def simp del: view_set(8) intro!: okp_intros ofs_frame pipealloc_exact fdalloc_view clear_fd_view fileclose_view
      held2_drop held2_link)

section \<open>Processes\<close>

lemma set_gone_same: "is_gone v i = b \<Longrightarrow> set_gone i b v = v"
  by (rule view_eqI) (auto simp: fun_eq_iff)

lemma set_gone_twice [simp]: "set_gone i b (set_gone i c v) = set_gone i b v"
  by (rule view_eqI) (auto simp: fun_eq_iff)

lemma ofs_state [simp]:
  "ofs (upd_proc i (\<lambda>p. unclaim_proc (p\<lparr>p_pagetable := n\<rparr>)) s) = set_gone i True (ofs s)"
  "ofs (upd_proc i (claim_proc pid now) s) = set_gone i False (ofs s)"
  "ofs (upd_proc i (start_proc now) s) = set_gone i False (ofs s)"
  "ofs (upd_proc i (\<lambda>p. p\<lparr>p_xstate := x, p_state := ZOMBIE\<rparr>) s) = set_gone i True (ofs s)"
  by (rule view_eqI; auto simp: fun_eq_iff view_ofs upd_proc_def myproc_def gone_def unclaim_proc_def claim_proc_def start_proc_def)+

lemma freeproc_view: "(\<And>t. ofs t = set_gone i True (ofs s) \<Longrightarrow> P t) \<Longrightarrow> okp P (freeproc i s)"
  by (auto simp: freeproc_def intro!: okp_intros ofs_frame)

lemma allocproc_view:
  "(\<And>t. ofs t = ofs s \<Longrightarrow> P (None, t)) \<Longrightarrow>
   (\<And>i t. i < NPROC \<Longrightarrow> is_gone (ofs s) i \<Longrightarrow> ofs t = set_gone i False (ofs s) \<Longrightarrow> P (Some i, t)) \<Longrightarrow>
   okp P (allocproc ld s)"
  by (auto simp: allocproc_def find_upt_Some allocpid_def set_gone_same view_ofs gone_def
      intro!: okp_intros freeproc_view ofs_frame dest!: ofs_kalloc)

lemma fork_files_exact:
  assumes "exact (ofs s)" "j < NPROC" "\<not> is_gone (ofs s) j" "\<And>fd. desc (ofs s) j fd = None"
    and "\<And>t. exact (ofs t) \<Longrightarrow> \<not> is_gone (ofs t) j \<Longrightarrow> P t"
  shows "okp P (fork_files i j s)"
  unfolding fork_files_def
proof (rule okp_kfold_upt[where I = "\<lambda>k t. exact (ofs t) \<and> \<not> is_gone (ofs t) j \<and> (\<forall>fd\<ge>k. desc (ofs t) j fd = None)"])
  fix k and t :: "'a file_state_scheme"
  assume k: "k < NOFILE" and t: "exact (ofs t) \<and> \<not> is_gone (ofs t) j \<and> (\<forall>fd\<ge>k. desc (ofs t) j fd = None)"
  then have *: "exact (dup_file f (set_fd j k (Some f) (ofs t)))" if "desc (ofs t) i k = Some f" for f
    using that assms(2) by (intro counted_share[where j = i and d = k]) auto
  show "okp (\<lambda>t. exact (ofs t) \<and> \<not> is_gone (ofs t) j \<and> (\<forall>fd\<ge>Suc k. desc (ofs t) j fd = None))
     (case p_ofile (procs t i) k of None \<Rightarrow> Ok t
      | Some f \<Rightarrow> kbind (filedup f t) (\<lambda>(f, s). Ok (upd_proc j (\<lambda>p. p\<lparr>p_ofile := (p_ofile p)(k := Some f)\<rparr>) s)))"
    using t by (auto simp: ofs_upd_fd set_fd_comm view_ofs(3)[symmetric] intro!: okp_intros filedup_view *)
qed (use assms in auto)

lemma exact_gone: "exact v \<Longrightarrow> is_gone v i \<Longrightarrow> desc v i fd = None"
  using countedD(2)[of "\<lambda>_. 0" "{}" v i fd] by (cases "desc v i fd") auto

lemma exact_claim: "exact v \<Longrightarrow> is_gone v i \<Longrightarrow> exact (set_gone i False v)"
  using exact_gone[of v i] countedD(3)[of "\<lambda>_. 0" "{}" v i] by (intro counted_gone) auto

lemma kfork_exact: "exact (ofs s) \<Longrightarrow> okp (\<lambda>(r, t). exact (ofs t)) (kfork ld s)"
  unfolding kfork_def Let_def
  by (auto simp: set_gone_same exact_gone exact_claim
      intro!: okp_intros allocproc_view freeproc_view fork_files_exact ofs_frame dest!: ofs_idup)

lemma close_files_exact:
  assumes "exact (ofs s)"
    and P: "\<And>t. exact (ofs t) \<Longrightarrow> running (ofs t) = running (ofs s) \<Longrightarrow> (\<And>fd. desc (ofs t) i fd = None) \<Longrightarrow> P t"
  shows "okp P (close_files i s)"
  unfolding close_files_def
proof (rule okp_kfold_upt[where I = "\<lambda>k t. exact (ofs t) \<and> running (ofs t) = running (ofs s) \<and> (\<forall>fd<k. desc (ofs t) i fd = None)"])
  fix k and t :: "'a file_state_scheme"
  assume t: "exact (ofs t) \<and> running (ofs t) = running (ofs s) \<and> (\<forall>fd<k. desc (ofs t) i fd = None)"
  then have *: "exact (drop_file f (set_fd i k None (ofs t)))" if "desc (ofs t) i k = Some f" for f
    using that by (intro counted_close) auto
  show "okp (\<lambda>t. exact (ofs t) \<and> running (ofs t) = running (ofs s) \<and> (\<forall>fd<Suc k. desc (ofs t) i fd = None))
     (case p_ofile (procs t i) k of None \<Rightarrow> Ok t
      | Some f \<Rightarrow> kbind (fileclose f t) (\<lambda>s. Ok (upd_proc i (\<lambda>p. p\<lparr>p_ofile := (p_ofile p)(k := None)\<rparr>) s)))"
    using t by (auto simp: ofs_upd_fd set_fd_comm view_ofs(3)[symmetric] less_Suc_eq intro!: okp_intros fileclose_view *)
next
  fix t :: "'a file_state_scheme"
  assume t: "exact (ofs t) \<and> running (ofs t) = running (ofs s) \<and> (\<forall>fd<NOFILE. desc (ofs t) i fd = None)"
  then have "desc (ofs t) i fd = None" for fd
    using countedD(2)[of "\<lambda>_. 0" "{}" "ofs t" i fd] by (cases "desc (ofs t) i fd") auto
  then show "P t" using t P by blast
qed (use assms(1) in simp)

lemma ofs_reparent [simp]: "ofs (reparent i s) = ofs s"
proof -
  have "ofs (fold (\<lambda>k s. if p_parent (procs s k) = Some i
      then wakeup (init_chan s) (upd_proc k (\<lambda>p. p\<lparr>p_parent := initproc s\<rparr>) s) else s) ks s) = ofs s" for ks
    by (induction ks arbitrary: s) auto
  then show ?thesis by (simp add: reparent_def)
qed

text \<open>The end of a process: it has no open files, becomes a zombie, and no longer runs.\<close>

lemma exact_exit:
  assumes "exact v" "\<And>fd. desc v i fd = None" "ofs u = set_gone i True v"
  shows "okp (\<lambda>t. exact (ofs t)) (sched True 1 False u)"
proof -
  have "exact (ofs (u\<lparr>cpu_proc := (cpu_proc u)(hart u := None)\<rparr>))" (is "exact ?w")
  proof (rule countedI)
    have w: "count ?w = count v" "kind ?w = kind v" "desc ?w = desc v" "is_gone ?w = (is_gone v)(i := True)" "running ?w = None"
      using arg_cong[OF assms(3), of count] arg_cong[OF assms(3), of kind] arg_cong[OF assms(3), of desc] arg_cong[OF assms(3), of is_gone]
      by (auto simp: view_ofs fun_eq_iff myproc_def)
    show "count ?w f = int (card {(i, fd). desc ?w i fd = Some f}) + 0" for f using countedD(1)[OF assms(1), of f] by (simp add: w)
    show "j < NPROC \<and> fd < NOFILE \<and> f < NFILE \<and> \<not> is_gone ?w j \<and> (kind ?w f \<noteq> FD_NONE \<or> f \<in> {})" if "desc ?w j fd = Some f" for j fd f
      using countedD(2)[OF assms(1), of j fd f] assms(2)[of fd] that by (auto simp: w)
    show "j < NPROC \<and> \<not> is_gone ?w j" if "running ?w = Some j" for j using that by (simp add: w)
  qed
  then show ?thesis by (auto simp: sched_def intro!: okp_intros)
qed

lemma kexit_exact: "exact (ofs s) \<Longrightarrow> okp (\<lambda>t. exact (ofs t)) (kexit x s)"
  unfolding kexit_def Let_def
  by (auto intro!: okp_intros close_files_exact ofs_frame intro: exact_exit)

lemma ofs_kwait [ofs_frame]:
  "(\<And>r t. ofs t = ofs s \<Longrightarrow> P (Done r t)) \<Longrightarrow> (\<And>c k t. ofs t = ofs s \<Longrightarrow> P (Wait c k t)) \<Longrightarrow> okp P (kwait a s)"
  by (auto simp: kwait_def find_upt_Some set_gone_same view_ofs gone_def intro!: okp_intros freeproc_view ofs_frame)

lemma ofs_sys_wait [ofs_frame]: "(\<And>r t. ofs t = ofs s \<Longrightarrow> P (r, t)) \<Longrightarrow> okp P (sys_wait s)"
  by (auto simp: sys_wait_def intro!: okp_intros ofs_frame)

section \<open>Every system call\<close>

lemma sys_spawn_exact:
  "exact (ofs s) \<Longrightarrow> okp (\<lambda>r. case r of Ret _ t \<Rightarrow> exact (ofs t) | Exited t \<Rightarrow> exact (ofs t)) (sys_spawn ld s)"
  unfolding sys_spawn_def
  by (auto intro!: okp_intros ofs_frame okp_weaken[OF kfork_exact] okp_weaken[OF kexit_exact])

text \<open>The state a system call leaves.\<close>

fun after :: "'s sysret \<Rightarrow> 's" where
  "after (Ret v s) = s"
| "after (Exited s) = s"

lemma okp_ret: "okp (\<lambda>(r, t). exact (ofs t)) m \<Longrightarrow> okp (\<lambda>r. exact (ofs (after r))) (ret m)"
  unfolding ret_def by (auto intro!: okp_kbind elim: okp_weaken)

lemma syscalls_exact:
  assumes "syscalls ld num = Some f" "exact (ofs s)"
  shows "okp (\<lambda>r. exact (ofs (after r))) (f s)"
proof -
  have "okp (\<lambda>r. exact (ofs (after r))) (sys_exit s)" "okp (\<lambda>r. exact (ofs (after r))) (sys_spawn ld s)"
    using assms(2) okp_weaken[OF sys_spawn_exact[OF assms(2)]]
    by (auto simp: sys_exit_def intro!: okp_intros ofs_frame okp_weaken[OF kexit_exact] split: sysret.splits)
  then show ?thesis using assms
    by (auto simp: syscalls_def Let_def less_Suc_eq nth_Cons' sys_fork_def split: if_splits
        intro!: okp_ret ofs_frame kfork_exact sys_pipe_exact sys_dup_exact sys_open_exact sys_close_exact)
qed

lemma ofs_emit [simp]: "ofs (emit cs s) = ofs s"
  unfolding emit_def by (induction cs arbitrary: s) (simp_all add: uartputc_sync_def)

lemma syscall_exact: "exact (ofs s) \<Longrightarrow> okp (\<lambda>r. exact (ofs (after r))) (syscall ld s)"
  unfolding syscall_def Let_def
  by (intro okp_option okp_kbind) (auto split: sysret.split elim: okp_weaken dest!: syscalls_exact)

text \<open>
  The file table is sound: a count is the number of descriptors that name the file, and a
  descriptor is one of a live process and names an open file.
\<close>

definition files_ok :: "'a file_state_scheme \<Rightarrow> bool" where
  "files_ok s \<longleftrightarrow>
     (\<forall>f. f_ref (ftable s f) = int (card {(i, fd). p_ofile (procs s i) fd = Some f})) \<and>
     (\<forall>i fd f. p_ofile (procs s i) fd = Some f \<longrightarrow>
        i < NPROC \<and> fd < NOFILE \<and> p_state (procs s i) \<noteq> UNUSED \<and> p_state (procs s i) \<noteq> ZOMBIE \<and>
        f < NFILE \<and> f_type (ftable s f) \<noteq> FD_NONE)"

lemma files_ok_exact:
  "exact (ofs s) \<longleftrightarrow> files_ok s \<and> (\<forall>i. myproc s = Some i \<longrightarrow> i < NPROC \<and> \<not> gone (procs s i))"
  unfolding counted_iff files_ok_def view_ofs gone_def by auto

section \<open>Property\<close>

text \<open>
  C6. Every system call keeps the file table sound, whatever it does and however it ends: afterwards
  the count of each file is the number of descriptors that name it, no file that is named is free or
  without a type, so that the guards of \<^verbatim>\<open>filedup\<close>, \<^verbatim>\<open>fileclose\<close>, \<^verbatim>\<open>fileread\<close> and \<^verbatim>\<open>filewrite\<close> hold for it,
  and no unused or ended process holds a descriptor. This includes \<^verbatim>\<open>fork\<close>, which copies the descriptors,
  \<^verbatim>\<open>exit\<close>, which closes them, and the error paths of \<^verbatim>\<open>open\<close> and \<^verbatim>\<open>pipe\<close>.
\<close>

theorem syscall_keeps_files:
  assumes "files_ok s" "sched_inv s" "syscall ld s = Ok r"
  shows "files_ok (after r) \<and> (\<forall>i fd f. p_ofile (procs (after r) i) fd = Some f \<longrightarrow> 1 \<le> f_ref (ftable (after r) f))"
proof -
  have "exact (ofs s)" using assms(1,2) unfolding files_ok_exact gone_def sched_inv_def myproc_def by auto
  then have e: "exact (ofs (after r))" using syscall_exact[of s ld] assms(3) by (simp add: okp_def)
  then have "1 \<le> f_ref (ftable (after r) f)" if "p_ofile (procs (after r) i) fd = Some f" for i fd f
    using counted_pos[OF e, of i fd f] that by (simp add: view_ofs)
  then show ?thesis using e unfolding files_ok_exact by blast
qed

text \<open>A machine whose process 0 calls \<^verbatim>\<open>dup(0)\<close>; its descriptor 0 names file 5, a device.\<close>

definition dup_machine :: driver_state where
  "dup_machine = vdisk_state.extend (file_state.extend (cons_state.extend
     (fs_state.extend mini_fs (cons_state.fields (\<lambda>_. 0) 0 0 0 False 0 0 [] [] 0))
     (file_state.fields
       (\<lambda>f. \<lparr>f_type = (if f = 5 then FD_DEVICE else FD_NONE), f_ref = (if f = 5 then 1 else 0), f_readable = True,
             f_writable = True, f_pipe = 0, f_ip = 0, f_off = 0, f_major = 1\<rparr>)
       (\<lambda>_. \<lparr>pi_data = (\<lambda>_. 0), pi_nread = 0, pi_nwrite = 0, pi_readopen = False, pi_writeopen = False\<rparr>)
       (\<lambda>_. NoFn) (\<lambda>_. NoFn)))
     (vdisk_state.fields (\<lambda>_. \<lparr>vd_addr = PNull, vd_len = 0, vd_next_flag = False, vd_write_flag = False, vd_next = 0\<rparr>)
       0 (\<lambda>_. 0) 0 (\<lambda>_. 0) (\<lambda>_. True) 0 (\<lambda>_. None) (\<lambda>_. 0) (\<lambda>_. \<lparr>rq_write = False, rq_sector = 0\<rparr>) (\<lambda>_. False) [] 0 0 0 0 0 0))
     (driver_state.fields [] False [])
   \<lparr>pmem := put_le 8 (\<lambda>_. 0) (0x1000 + tf_a 7) 10,
    procs := (\<lambda>_. zero_proc)(0 := zero_proc\<lparr>p_state := RUNNING, p_budget := slice_for_priority 0, p_trapframe := 0x1000,
      p_ofile := (\<lambda>_. None)(0 := Some 5)\<rparr>)\<rparr>"

lemma dup_machine_simps:
  "myproc dup_machine = Some 0" "cpu_proc dup_machine = (\<lambda>_. None)(0 := Some 0)"
  "procs dup_machine = (\<lambda>_. zero_proc)(0 := zero_proc\<lparr>p_state := RUNNING, p_budget := slice_for_priority 0, p_trapframe := 0x1000,
      p_ofile := (\<lambda>_. None)(0 := Some 5)\<rparr>)"
  "f_ref (ftable dup_machine f) = (if f = 5 then 1 else 0)" "f_type (ftable dup_machine f) = (if f = 5 then FD_DEVICE else FD_NONE)"
  "pmem dup_machine = put_le 8 (\<lambda>_. 0) (0x1000 + tf_a 7) 10"
  by (simp_all add: dup_machine_def mini_fs_def log_boot_def binit_eq myproc_def
      fs_state.defs cons_state.defs file_state.defs vdisk_state.defs driver_state.defs)

lemma dup_machine_ok: "files_ok dup_machine" "sched_inv dup_machine"
proof -
  have "{(i, fd). p_ofile (procs dup_machine i) fd = Some f} = (if f = 5 then {(0, 0)} else {})" for f
    by (auto simp: dup_machine_simps zero_proc_def split: if_splits)
  then show "files_ok dup_machine"
    unfolding files_ok_def by (auto simp: dup_machine_simps zero_proc_def NPROC_def NOFILE_def NFILE_def split: if_splits)
  show "sched_inv dup_machine"
    by (auto simp: sched_inv_def dup_machine_simps zero_proc_def PRI_MIN_def PRI_MAX_def NPROC_def split: if_splits)
qed

lemma dup_machine_regs: "get_tf 0 (tf_a 7) dup_machine = 10" "get_tf 0 (tf_a 0) dup_machine = 0"
  by (simp_all add: get_tf_def dup_machine_simps get_put_le get_put_le_other tf_a_def)

theorem syscall_keeps_files_witness:
  "\<forall>ld. \<exists>t. syscall ld dup_machine = Ok (Ret 0 t) \<and> p_ofile (procs t 0) 1 = Some 5 \<and> f_ref (ftable t 5) = 2 \<and> files_ok t"
proof
  fix ld
  have a: "argfd 0 dup_machine = Ok (Some (0, 5))"
    by (simp add: argfd_def argint_def argraw_def dup_machine_simps dup_machine_regs s32_def NOFILE_def)
  have "find (\<lambda>fd. p_ofile (procs dup_machine 0) fd = None) [0..<NOFILE] = Some 1"
    by (auto simp: find_upt_Some dup_machine_simps NOFILE_def)
  then have d: "fdalloc 5 dup_machine = Ok (1, upd_proc 0 (\<lambda>p. p\<lparr>p_ofile := (p_ofile p)(1 := Some 5)\<rparr>) dup_machine)"
    by (simp add: fdalloc_def dup_machine_simps(1))
  obtain u where u: "sys_dup dup_machine = Ok (1, u)" "p_ofile (procs u 0) 1 = Some 5" "f_ref (ftable u 5) = 2"
    by (simp add: sys_dup_def a d filedup_def dup_machine_simps upd_proc_def upd_file_def)
  have "syscalls ld 10 = Some (\<lambda>s :: driver_state. ret (sys_dup s))" by (simp add: syscalls_def Let_def)
  then obtain t where "syscall ld dup_machine = Ok (Ret 0 t)" "p_ofile (procs t 0) 1 = Some 5" "f_ref (ftable t 5) = 2"
    using u by (simp add: syscall_def Let_def dup_machine_simps dup_machine_regs s32_def ret_def set_tf_def)
  then show "\<exists>t. syscall ld dup_machine = Ok (Ret 0 t) \<and> p_ofile (procs t 0) 1 = Some 5 \<and> f_ref (ftable t 5) = 2 \<and> files_ok t"
    using syscall_keeps_files[OF dup_machine_ok] by force
qed

end
