(* ===== verification/Trap_Timer.thy ===== *)
theory Trap_Timer
  imports Trap Open_Files
begin

text \<open>
  The timer trap of user mode, \<^verbatim>\<open>usertrap\<close> of \<^verbatim>\<open>kernel/trap.c\<close>, and what it does to the
  priority of the process it interrupts. The invariants of the process table that it starts from are those
  of \<open>Proc_Table\<close>.
\<close>

lemma set_tf_simps [simp]:
  "procs (set_tf i reg v s) = procs s" "myproc (set_tf i reg v s) = myproc s" "hart (set_tf i reg v s) = hart s"
  "cpu_proc (set_tf i reg v s) = cpu_proc s" "ticks (set_tf i reg v s) = ticks s"
  "csr_scause (set_tf i reg v u) = csr_scause u"
  for u :: "'a trap_state_scheme"
  by (simp_all add: set_tf_def myproc_def)

text \<open>A process whose slice is full or lacks one tick goes up one level when it yields.\<close>

lemma yield_promotes:
  assumes "slice_ok late p" "PRI_MIN \<le> p_priority p" "p_priority p \<le> PRI_MAX"
  shows "p_priority (yield_proc now p) = min PRI_MAX (p_priority p + 1)"
  using assms(2,3) by (rule pri_cases) (use assms(1) in \<open>auto simp: slice_ok_def yield_proc_def Let_def PRI_MAX_def\<close>)

lemma yield_running:
  assumes "sched_inv s" "slice_inv K s" "myproc s = Some i"
  shows "\<exists>t. yield s = Ok t \<and> p_state (procs t i) = RUNNABLE \<and>
    p_priority (procs t i) = min PRI_MAX (p_priority (procs s i) + 1)"
proof -
  have "slice_ok (hart s \<in> K) (procs s i)" using assms(2,3) by (simp add: slice_inv_def myproc_def)
  note p = yield_promotes[OF this sched_inv_running(3,4)[OF assms(1,3)]]
  show ?thesis using p[of "ticks s"] assms(3) by (simp add: yield_def sched_def)
qed

text \<open>The trap up to \<^verbatim>\<open>proc_tick\<close>: the clock interrupt leaves the running process alone.\<close>

lemma usertrap_timer:
  fixes s :: "'a trap_state_scheme"
  assumes "myproc s = Some i" "\<not> killed i s" "csr_scause s = 0x8000000000000005" "\<not> bit (csr_sstatus s) SSTATUS_SPP"
  shows "usertrap ld inp s =
    kbind (yield (proc_tick (clockintr (set_tf i tf_epc (csr_sepc s) (s\<lparr>csr_stvec := ld_kernelvec ld\<rparr>))))) (\<lambda>s. Ok (Off s))"
proof -
  let ?u = "set_tf i tf_epc (csr_sepc s) (s\<lparr>csr_stvec := ld_kernelvec ld\<rparr>)"
  have me: "myproc (s\<lparr>csr_stvec := ld_kernelvec ld\<rparr>) = Some i" using assms(1) by (simp add: myproc_def)
  have "serve_trap ld inp i ?u = Ok (Some 2, clockintr ?u)"
    using assms(3) by (simp add: serve_trap_def devintr_def)
  moreover have "\<not> killed i (clockintr ?u)"
    using assms(2) clockintr_myproc[of ?u i] me by (simp add: killed_def)
  ultimately show ?thesis using assms(4) me by (simp add: usertrap_def)
qed

text \<open>
  C26. A timer tick in user mode never costs the running process its priority. In every state with the
  invariants of the process table, with the CPU not already in a timer trap, a timer interrupt of a process that is
  not killed goes through \<^verbatim>\<open>usertrap\<close> to the scheduler, and the process is runnable one level higher,
  or at the highest level: its slice was full, so \<^verbatim>\<open>yield\<close> finds most of it left. The demotion in
  \<^verbatim>\<open>proc_tick\<close> is not reached. The same holds if the other CPUs change the table between
  \<^verbatim>\<open>proc_tick\<close> and \<^verbatim>\<open>yield\<close>: \<^verbatim>\<open>proc_tick\<close> keeps the level, and \<^verbatim>\<open>yield\<close>
  raises it in every state with the invariants.
\<close>

theorem timer_tick_promotes:
  fixes s :: "'a trap_state_scheme"
  assumes inv: "sched_inv s" "slice_inv K s" "hart s \<notin> K" and me: "myproc s = Some i" and alive: "\<not> killed i s"
    and timer: "csr_scause s = 0x8000000000000005" "\<not> bit (csr_sstatus s) SSTATUS_SPP"
  shows "(\<exists>t. usertrap ld inp s = Ok (Off t) \<and> p_state (procs t i) = RUNNABLE \<and>
      p_priority (procs t i) = min PRI_MAX (p_priority (procs s i) + 1)) \<and>
    p_priority (procs (proc_tick s) i) = p_priority (procs s i) \<and>
    (\<forall>u :: 'a trap_state_scheme. \<forall>K. sched_inv u \<and> slice_inv K u \<and> myproc u = Some i \<longrightarrow>
      (\<exists>t. yield u = Ok t \<and> p_priority (procs t i) = min PRI_MAX (p_priority (procs u i) + 1)))"
proof -
  have keep: "sched_inv (proc_tick v) \<and> slice_inv (insert (hart v) K) (proc_tick v) \<and> myproc (proc_tick v) = Some i \<and>
      p_priority (procs (proc_tick v) i) = p_priority (procs v i)"
    if v: "sched_inv v" "slice_inv K v" "hart v \<notin> K" "myproc v = Some i" for v :: "'a trap_state_scheme"
  proof -
    have full: "p_budget (procs v i) = slice_for_priority (p_priority (procs v i))"
      using v(2-4) by (auto simp: slice_inv_def slice_ok_def myproc_def)
    show ?thesis
      using sched_inv_tick[OF v(1)] slice_inv_tick[OF v(2,1,3,4)] v(4) tick_full_slice[OF full sched_inv_running(3,4)[OF v(1,4)]]
      by (simp add: proc_tick_def)
  qed
  let ?v = "clockintr (set_tf i tf_epc (csr_sepc s) (s\<lparr>csr_stvec := ld_kernelvec ld\<rparr>))"
  have u: "sched_inv (set_tf i tf_epc x (s\<lparr>csr_stvec := y\<rparr>))" "slice_inv K (set_tf i tf_epc x (s\<lparr>csr_stvec := y\<rparr>))"
    "myproc (set_tf i tf_epc x (s\<lparr>csr_stvec := y\<rparr>)) = Some i" for x y
    using inv(1,2) me by (simp_all add: sched_inv_def slice_inv_def myproc_def)
  have v: "sched_inv ?v" "hart ?v \<notin> K" "myproc ?v = Some i" "procs ?v i = procs s i"
    using sched_inv_clockintr[OF u(1)] inv(3) u(3) clockintr_myproc[OF u(3)] by simp_all
  have sl: "slice_inv K ?v" using u(2) u(1) by (rule slice_inv_clockintr)
  from keep[OF v(1) sl v(2,3)] yield_running[of "proc_tick ?v" "insert (hart ?v) K" i] v(4)
  have "\<exists>t. yield (proc_tick ?v) = Ok t \<and> p_state (procs t i) = RUNNABLE \<and>
      p_priority (procs t i) = min PRI_MAX (p_priority (procs s i) + 1)" by simp
  then have "\<exists>t. usertrap ld inp s = Ok (Off t) \<and> p_state (procs t i) = RUNNABLE \<and>
      p_priority (procs t i) = min PRI_MAX (p_priority (procs s i) + 1)"
    using usertrap_timer[OF me alive timer, of ld inp] by auto
  moreover have "\<exists>t. yield u = Ok t \<and> p_priority (procs t i) = min PRI_MAX (p_priority (procs u i) + 1)"
    if "sched_inv u \<and> slice_inv K u \<and> myproc u = Some i" for u :: "'a trap_state_scheme" and K
    using yield_running[of u K i] that by blast
  ultimately show ?thesis using keep[OF inv me] by blast
qed

text \<open>The machine of \<open>Open_Files\<close>, interrupted by the timer while process 0 runs in user mode.\<close>

definition tick_machine :: trap_state where
  "tick_machine = driver_state.extend dup_machine (trap_state.fields 0 0x8000000000000005 0 0 0 0 False)"

lemma tick_machine_simps:
  "procs tick_machine = procs dup_machine" "cpu_proc tick_machine = cpu_proc dup_machine" "hart tick_machine = hart dup_machine"
  "csr_scause tick_machine = 0x8000000000000005" "csr_sstatus tick_machine = 0"
  by (simp_all add: tick_machine_def driver_state.defs trap_state.defs)

theorem timer_tick_promotes_witness:
  "p_priority (procs tick_machine 0) = 0 \<and>
   (\<forall>ld inp. \<exists>t. usertrap ld inp tick_machine = Ok (Off t) \<and> p_state (procs t 0) = RUNNABLE \<and> p_priority (procs t 0) = 1)"
proof -
  have me: "myproc tick_machine = Some 0" using dup_machine_simps(1) by (simp add: myproc_def tick_machine_simps)
  have inv: "sched_inv tick_machine" using dup_machine_ok(2) by (simp add: sched_inv_def tick_machine_simps)
  have slice: "slice_inv {} tick_machine"
    by (auto simp: slice_inv_def slice_ok_def tick_machine_simps dup_machine_simps zero_proc_def split: if_splits)
  have p: "p_priority (procs tick_machine 0) = 0" "\<not> killed 0 tick_machine"
    by (simp_all add: killed_def tick_machine_simps dup_machine_simps zero_proc_def)
  have "\<exists>t. usertrap ld inp tick_machine = Ok (Off t) \<and> p_state (procs t 0) = RUNNABLE \<and> p_priority (procs t 0) = 1" for ld inp
    using timer_tick_promotes[OF inv slice _ me p(2), of ld inp, THEN conjunct1, unfolded p(1)]
    by (simp add: tick_machine_simps PRI_MAX_def)
  then show ?thesis using p(1) by simp
qed

end
