(* ===== verification/Fs_Content.thy ===== *)
theory Fs_Content
  imports Fs_Inode
begin

text \<open>
  What the inode layer of \<^verbatim>\<open>kernel/fs.c\<close> does to files: the list of blocks that
  the extents stand for, \<^verbatim>\<open>bmap\<close> as access to that list, and the contents that
  \<^verbatim>\<open>readi\<close> and \<^verbatim>\<open>writei\<close> read and write.
\<close>

section \<open>States between block operations\<close>

text \<open>
  \<open>rd_idle\<close>: no buffer is locked and one more can be had; this is enough to read, inside or
  outside a transaction.
\<close>

definition rd_idle :: "'a log_state_scheme \<Rightarrow> bool" where
  "rd_idle s \<longleftrightarrow> log_inv s \<and> held s = {} \<and> lh_n s < int NBUF"

lemma tx_rd_idle: "tx_idle s \<Longrightarrow> rd_idle s"
  by (simp add: tx_idle_def rd_idle_def in_tx_def)

lemma rd_tx_idle: "rd_idle t \<Longrightarrow> tx_idle s \<Longrightarrow> tx_same s t \<Longrightarrow> tx_idle t"
  using log_frameD(2,3)[of s t] by (simp add: tx_idle_def rd_idle_def in_tx_def tx_same_def)

lemma rd_open:
  assumes idle: "rd_idle s"
  obtains i s1 t where "bread ROOTDEV c s = Ok (i, s1)" "bdata s1 i = cur s c" "tx_same s s1"
    "brelse i s1 = Ok t" "rd_idle t" "cur t = cur s" "lh_n t = lh_n s" "tx_same s t"
proof -
  have li: "log_inv s" and h: "held s = {}" and n: "lh_n s < int NBUF" using idle by (simp_all add: rd_idle_def)
  note bi = log_invD(1)[OF li]
  have "card (held s) + card (logged s) < NBUF"
    using h n card_logged[OF log_invD(2)[OF li]] log_invD(3)[OF li] by (simp add: nat_less_iff)
  then obtain i s1 where s1: "bread ROOTDEV c s = Ok (i, s1)" "bio_inv (logged s) s1" "b_blockno (bufs s1 i) = c"
    "held s1 = insert i (held s)" "bdata s1 i = cur s c" "cur s1 = cur s" "disk s1 = disk s" "dhist s1 = dhist s"
    "bio_frame s s1"
    using bread_obtain[OF bi, of c] h by (metis empty_iff)
  have i: "i \<in> held s1" using s1(4) by simp
  have clean: "bdata s1 i = disk s1 (b_blockno (bufs s1 i))" if "b_blockno (bufs s1 i) \<notin> logged s"
    using that bio_clean[OF bi h] s1(3,5,7) by simp
  from brelse_obtain[OF s1(2) i clean] obtain t where t: "brelse i s1 = Ok t" "bio_inv (logged s) t"
    "held t = held s1 - {i}" "cur t = cur s1" "disk t = disk s1" "dhist t = dhist s1" "bio_frame s1 t" by metis
  have f: "bio_frame s t" by (rule bio_frame_trans[OF s1(9) t(7)])
  have "log_inv t" by (rule log_inv_frame[OF li f t(2)]) (simp add: t s1)
  then have "rd_idle t" using t(3) s1(4) h n frame_log[OF f] by (simp add: rd_idle_def)
  then show thesis
    using that[OF s1(1,5) _ t(1)] s1 t frame_log[OF f] f by (simp add: tx_same_def bio_frame_log)
qed

text \<open>The inode table is no part of what the block layer looks at.\<close>

lemma itable_cong [simp]:
  "held (s\<lparr>itable := x\<rparr>) = held s" "cur (s\<lparr>itable := x\<rparr>) = cur s"
  "log_inv (s\<lparr>itable := x\<rparr>) = log_inv s"
proof -
  show "held (s\<lparr>itable := x\<rparr>) = held s" "cur (s\<lparr>itable := x\<rparr>) = cur s"
    by (rule bio_cong; simp add: curpid_def myproc_def split: option.split)+
  have "bio_inv P (s\<lparr>itable := x\<rparr>) = bio_inv P s" for P
    by (rule bio_cong) (simp_all add: curpid_def myproc_def split: option.split)
  then show "log_inv (s\<lparr>itable := x\<rparr>) = log_inv s" by (simp add: log_inv_def logged_def)
qed

lemma upd_inode_simps [simp]:
  "held (upd_inode ip f s) = held s" "cur (upd_inode ip f s) = cur s" "disk (upd_inode ip f s) = disk s"
  "rd_idle (upd_inode ip f s) = rd_idle s" "tx_idle (upd_inode ip f s) = tx_idle s"
  "tx_room (upd_inode ip f s) = tx_room s" "tx_writable (upd_inode ip f s) = tx_writable s"
  "sb (upd_inode ip f s) = sb s" "layout_ok (upd_inode ip f s) = layout_ok s"
  "itable (upd_inode ip f s) = (itable s)(ip := f (itable s ip))"
  by (simp_all add: upd_inode_def rd_idle_def tx_idle_def in_tx_def tx_room_def tx_writable_def layout_ok_def fun_eq_iff)

section \<open>Extents as a list of blocks\<close>

definition ext_range :: "extent \<Rightarrow> nat list" where
  "ext_range e = [ext_start e..<ext_start e + ext_len e]"

definition blocks_from :: "nat list \<Rightarrow> (nat \<Rightarrow> extent) \<Rightarrow> nat list" where
  "blocks_from ks es = concat (map (\<lambda>k. ext_range (es k)) ks)"

definition file_blocks :: "inode \<Rightarrow> nat list" where
  "file_blocks n = blocks_from [0..<NEXTENT] (i_extents n)"

text \<open>The extents in use come first.\<close>

definition ext_dense :: "inode \<Rightarrow> bool" where
  "ext_dense n \<longleftrightarrow> (\<forall>j<NEXTENT. \<forall>k<j. ext_len (i_extents n k) = 0 \<longrightarrow> ext_len (i_extents n j) = 0)"

lemma ext_range_simps [simp]: "length (ext_range e) = ext_len e" "ext_range e = [] \<longleftrightarrow> ext_len e = 0"
  by (auto simp: ext_range_def)

lemma bmap_find_correct:
  "case bmap_find ks es (base + d) base ls ll of
     Inl b \<Rightarrow> d < length (blocks_from ks es) \<and> b = blocks_from ks es ! d
   | Inr (base', ls', ll') \<Rightarrow> length (blocks_from ks es) \<le> d \<and> base' = base + length (blocks_from ks es)"
proof (induction ks arbitrary: base d ls ll)
  case (Cons k ks)
  let ?e = "es k"
  have step: "blocks_from (k # ks) es = ext_range ?e @ blocks_from ks es" by (simp add: blocks_from_def)
  consider "ext_len ?e = 0" | "0 < ext_len ?e" "d < ext_len ?e" | "0 < ext_len ?e" "ext_len ?e \<le> d" by linarith
  then show ?case
  proof cases
    case 1
    then have e: "blocks_from (k # ks) es = blocks_from ks es" by (simp add: step)
    show ?thesis unfolding e using Cons.IH[where base = base and d = d and ls = ls and ll = ll] 1 by simp
  next
    case 2
    then show ?thesis unfolding step by (simp add: Let_def nth_append) (simp add: ext_range_def)
  next
    case 3
    have "base + ext_len ?e + (d - ext_len ?e) = base + d" using 3 by simp
    then show ?thesis unfolding step
      using Cons.IH[where base = "base + ext_len ?e" and d = "d - ext_len ?e" and ls = "ext_start ?e" and ll = "ext_len ?e"] 3
      by (auto simp: Let_def nth_append split: sum.splits)
  qed
qed (simp add: blocks_from_def)

lemma bmap_hit:
  assumes "bn < length (file_blocks (itable s ip))"
  shows "bmap ip bn s = Ok (file_blocks (itable s ip) ! bn, s)"
  using bmap_find_correct[where ks = "[0..<NEXTENT]" and es = "i_extents (itable s ip)" and base = 0 and d = bn and ls = 0 and ll = 0] assms
  by (auto simp: bmap_def file_blocks_def split: sum.splits)

text \<open>What \<^verbatim>\<open>bmap\<close> knows of the end of the file when it starts to allocate.\<close>

definition tail_of :: "(nat \<Rightarrow> extent) \<Rightarrow> nat list \<Rightarrow> nat \<times> nat \<Rightarrow> nat \<times> nat" where
  "tail_of es ks l = fold (\<lambda>k l. if ext_len (es k) \<noteq> 0 then (ext_start (es k), ext_len (es k)) else l) ks l"

lemma bmap_find_tail:
  "bmap_find ks es bn base ls ll = Inr (base', ls', ll') \<Longrightarrow> (ls', ll') = tail_of es ks (ls, ll)"
  by (induction ks arbitrary: base ls ll) (auto simp: tail_of_def Let_def split: if_splits)

lemma blocks_from_simps [simp]: "blocks_from [] es = []" "blocks_from (k # ks) es = ext_range (es k) @ blocks_from ks es"
  by (simp_all add: blocks_from_def)

lemma blocks_from_append: "blocks_from (xs @ ys) es = blocks_from xs es @ blocks_from ys es"
  by (simp add: blocks_from_def)

lemma blocks_from_cong: "(\<And>k. k \<in> set ks \<Longrightarrow> es k = es' k) \<Longrightarrow> blocks_from ks es = blocks_from ks es'"
  unfolding blocks_from_def by (rule arg_cong[where f = concat]) simp

lemma blocks_from_empty: "(\<And>k. k \<in> set ks \<Longrightarrow> ext_len (es k) = 0) \<Longrightarrow> blocks_from ks es = []"
  by (auto simp: blocks_from_def ext_range_def)

lemma upt_split3: "k < n \<Longrightarrow> [0..<n] = [0..<k] @ [k] @ [Suc k..<n]"
  by (metis append_Cons append_Nil le_add1 le_add_same_cancel1 less_or_eq_imp_le upt_add_eq_append upt_conv_Cons zero_le
      le_eq_less_or_eq add_diff_inverse_nat not_less)

text \<open>
  The effect of \<^verbatim>\<open>extent_append\<close> on the list of blocks: the new block becomes the last
  one. It fails only when every extent is in use and the block does not continue the last.
\<close>

lemma extent_append_spec:
  assumes d: "ext_dense n"
  shows "case extent_append n b of
      Some n1 \<Rightarrow> file_blocks n1 = file_blocks n @ [b] \<and> ext_dense n1 \<and> n1 = n\<lparr>i_extents := i_extents n1\<rparr>
    | None \<Rightarrow> (\<forall>k<NEXTENT. ext_len (i_extents n k) \<noteq> 0) \<and>
        b \<noteq> ext_start (i_extents n (NEXTENT - 1)) + ext_len (i_extents n (NEXTENT - 1))"
proof (cases "find (\<lambda>k. ext_len (i_extents n k) = 0) [0..<NEXTENT]")
  case (Some k)
  then have k: "k < NEXTENT" "ext_len (i_extents n k) = 0" "\<forall>j<k. ext_len (i_extents n j) \<noteq> 0"
    by (auto simp: find_upt_Some)
  let ?es = "(i_extents n)(k := \<lparr>ext_start = b, ext_len = 1\<rparr>)"
  have later: "ext_len (i_extents n j) = 0" if "Suc k \<le> j" "j < NEXTENT" for j
    using d k(2) that unfolding ext_dense_def by (metis Suc_le_lessD)
  have "blocks_from [0..<k] ?es = blocks_from [0..<k] (i_extents n)" by (rule blocks_from_cong) auto
  moreover have "blocks_from [Suc k..<NEXTENT] ?es = []" "blocks_from [Suc k..<NEXTENT] (i_extents n) = []"
    by (rule blocks_from_empty, use later in auto)+
  ultimately have "file_blocks (n\<lparr>i_extents := ?es\<rparr>) = file_blocks n @ [b]"
    using k(2) by (simp add: file_blocks_def upt_split3[OF k(1)] blocks_from_append) (simp add: ext_range_def)
  moreover have "ext_dense (n\<lparr>i_extents := ?es\<rparr>)"
    using k later d unfolding ext_dense_def by auto
  ultimately show ?thesis using Some by (simp add: extent_append_def)
next
  case None
  then have full: "\<forall>k<NEXTENT. ext_len (i_extents n k) \<noteq> 0" by (simp add: find_upt_None)
  let ?l = "NEXTENT - 1"
  have l: "?l < NEXTENT" "NEXTENT = Suc ?l" by (simp_all add: NEXTENT_def)
  have r: "rev [0..<NEXTENT] = ?l # rev [0..<?l]" by (subst l(2)) simp
  have f: "find (\<lambda>k. ext_len (i_extents n k) \<noteq> 0) (rev [0..<NEXTENT]) = Some ?l"
    unfolding r using full l(1) by simp
  let ?e = "i_extents n ?l" let ?es = "(i_extents n)(?l := ?e\<lparr>ext_len := ext_len ?e + 1\<rparr>)"
  have "blocks_from [0..<?l] ?es = blocks_from [0..<?l] (i_extents n)" by (rule blocks_from_cong) auto
  then have "file_blocks (n\<lparr>i_extents := ?es\<rparr>) = file_blocks n @ [ext_start ?e + ext_len ?e]"
    unfolding file_blocks_def by (subst (1 2) l(2)) (simp add: blocks_from_append ext_range_def)
  moreover have "ext_dense (n\<lparr>i_extents := ?es\<rparr>)" using full d unfolding ext_dense_def by auto
  ultimately show ?thesis using None f full by (simp add: extent_append_def Let_def)
qed

section \<open>Allocation of a block for a file\<close>

text \<open>
  \<open>fs_same\<close>: the steps of the file system that change the block cache, the log and the inode
  table only.
\<close>

definition fs_same :: "'a fs_state_scheme \<Rightarrow> 'a fs_state_scheme \<Rightarrow> bool" where
  "fs_same s t \<longleftrightarrow> tx_same (s\<lparr>itable := itable t\<rparr>) t"

lemma log_frame_itable: "log_frame s t \<Longrightarrow> log_frame (s\<lparr>itable := x\<rparr>) (t\<lparr>itable := x\<rparr>)"
  by (elim log_frameE) (simp add: log_frame_def)

lemma tx_fs_same: "tx_same s t \<Longrightarrow> fs_same s t"
  using tx_same_fs(2)[of s t] by (simp add: fs_same_def)

lemma fs_same_trans [trans]: "fs_same s t \<Longrightarrow> fs_same t u \<Longrightarrow> fs_same s u"
  using log_frame_itable[of "s\<lparr>itable := itable t\<rparr>" t "itable u"] log_frame_trans
  by (fastforce simp: fs_same_def tx_same_def)

lemma fs_same_upd: "fs_same s t \<Longrightarrow> fs_same s (upd_inode ip f t)"
  using log_frame_itable[of "s\<lparr>itable := itable t\<rparr>" t "(itable t)(ip := f (itable t ip))"]
  by (simp add: fs_same_def tx_same_def upd_inode_def)

lemma fs_same_refl [simp]: "fs_same s s"
  by (simp add: fs_same_def)

lemma fs_sameD: "fs_same s t \<Longrightarrow> sb t = sb s" "fs_same s t \<Longrightarrow> disk t = disk s" "fs_same s t \<Longrightarrow> dhist t = dhist s"
  "fs_same s t \<Longrightarrow> tx_writable t = tx_writable s"
  using tx_same_fs(1)[of "s\<lparr>itable := itable t\<rparr>" t] tx_same_writable[of "s\<lparr>itable := itable t\<rparr>" t]
  by (auto simp: fs_same_def tx_same_def tx_writable_def fun_eq_iff)

text \<open>
  The outcome of \<^verbatim>\<open>bmap\<close> for the block after the last: block \<open>b\<close> was free, is now taken,
  zeroed, and the last block of the file.
\<close>

definition grown :: "'a fs_state_scheme \<Rightarrow> nat \<Rightarrow> nat \<Rightarrow> nat \<Rightarrow> 'a fs_state_scheme \<Rightarrow> bool" where
  "grown s ip n b t \<longleftrightarrow>
     tx_idle t \<and> layout_ok t \<and> tx_room t n \<and> fs_same s t \<and> b < sb_size (sb s) \<and> \<not> used (sb s) (cur s) b \<and>
     cur t = take_block (sb s) b (cur s) \<and> (\<forall>j. j \<noteq> ip \<longrightarrow> itable t j = itable s j) \<and>
     itable t ip = (itable s ip)\<lparr>i_extents := i_extents (itable t ip)\<rparr> \<and> ext_dense (itable t ip) \<and>
     file_blocks (itable t ip) = file_blocks (itable s ip) @ [b]"

definition bmap_post :: "'a fs_state_scheme \<Rightarrow> nat \<Rightarrow> nat \<Rightarrow> bool \<Rightarrow> nat \<times> 'a fs_state_scheme \<Rightarrow> bool" where
  "bmap_post s ip n full r \<longleftrightarrow> (case r of (b, t) \<Rightarrow>
     if full then b = 0 \<and> tx_idle t \<and> layout_ok t \<and> tx_room t n \<and> tx_same s t \<and> cur t = cur s
     else grown s ip n b t)"

lemma alloc_post_mono:
  assumes "alloc_post t n good ok r" "cur t = cur s" "lh_n t = lh_n s" "tx_same s t"
  shows "alloc_post s n (\<lambda>_. True) ok r"
proof -
  obtain b u where r: "r = (b, u)" by (cases r)
  have "tx_same s u" using assms(1) by (intro tx_same_trans[OF assms(4)]) (simp add: alloc_post_def r)
  then show ?thesis using assms(1-3) tx_same_fs(1)[OF assms(4)] by (cases ok) (simp_all add: alloc_post_def r)
qed

lemma alloc_any:
  assumes idle: "tx_idle s" and l: "layout_ok s" and room: "tx_room s (Suc (Suc n))"
  shows "returns (kbind (if 0 < ll then balloc_prefer ROOTDEV (ls + ll) s else Ok (0, s)) (\<lambda>(nb, s).
      if nb = 0 then balloc ROOTDEV s else Ok (nb, s)))
    (alloc_post s n (\<lambda>_. True) (\<exists>b < sb_size (sb s). \<not> used (sb s) (cur s) b))"
proof -
  let ?free = "\<exists>b < sb_size (sb s). \<not> used (sb s) (cur s) b"
  have direct: "returns (balloc ROOTDEV t) (alloc_post s n (\<lambda>_. True) ?free)"
    if t: "tx_idle t" "layout_ok t" "cur t = cur s" "lh_n t = lh_n s" "tx_same s t" for t
  proof -
    have sb: "sb t = sb s" by (rule tx_same_fs[OF t(5)])
    have "returns (balloc ROOTDEV t)
      (alloc_post t n (\<lambda>r. \<forall>b<r. used (sb t) (cur t) b) (\<exists>b < sb_size (sb t). \<not> used (sb t) (cur t) b))"
      by (rule balloc_spec[OF t(1,2)]) (use room tx_room_same[OF t(4)] in simp)
    then have "returns (balloc ROOTDEV t) (alloc_post s n (\<lambda>_. True) (\<exists>b < sb_size (sb t). \<not> used (sb t) (cur t) b))"
      by (rule returns_mono) (rule alloc_post_mono[OF _ t(3,4,5)])
    then show ?thesis by (simp only: sb t(3))
  qed
  show ?thesis
  proof (cases "0 < ll")
    case True
    let ?b = "ls + ll" let ?ok = "?b < sb_size (sb s) \<and> \<not> used (sb s) (cur s) ?b"
    obtain b t where bt: "balloc_prefer ROOTDEV ?b s = Ok (b, t)"
      and post: "alloc_post s n (\<lambda>r. r = ?b) ?ok (b, t)"
      using balloc_prefer_spec[OF idle l room, of ?b] by (auto simp: returns_def)
    show ?thesis
    proof (cases ?ok)
      case ok: True
      then show ?thesis using True bt post by (auto simp: alloc_post_def)
    next
      case False
      then have "b = 0" "tx_idle t" "layout_ok t" "cur t = cur s" "lh_n t = lh_n s" "tx_same s t"
        using post by (auto simp: alloc_post_def)
      then show ?thesis using True bt direct by simp
    qed
  next
    case False
    then show ?thesis using direct[of s] idle l by simp
  qed
qed

lemma bmap_tail:
  assumes "i_dev (itable s ip) = ROOTDEV" "bn = length (file_blocks (itable s ip))"
  obtains ls ll where "bmap ip bn s =
    kbind (kbind (if 0 < ll then balloc_prefer ROOTDEV (ls + ll) s else Ok (0, s)) (\<lambda>(nb, s).
             if nb = 0 then balloc ROOTDEV s else Ok (nb, s))) (\<lambda>(nb, s).
      if nb = 0 then Ok (0, s)
      else case extent_append (itable s ip) nb of
        None \<Rightarrow> Panic ''bmap: extent overflow''
      | Some n1 \<Rightarrow> Ok (nb, upd_inode ip (\<lambda>_. n1) s))"
proof -
  have "\<exists>ls ll. bmap_find [0..<NEXTENT] (i_extents (itable s ip)) bn 0 0 0 = Inr (bn, ls, ll)"
    using bmap_find_correct[where ks = "[0..<NEXTENT]" and es = "i_extents (itable s ip)" and base = 0
        and d = bn and ls = 0 and ll = 0] assms(2)
    by (auto simp: file_blocks_def split: sum.splits prod.splits)
  then obtain ls ll where f: "bmap_find [0..<NEXTENT] (i_extents (itable s ip)) bn 0 0 0 = Inr (bn, ls, ll)" by blast
  show thesis
  proof (rule that[of ll ls])
    have eq: "(\<lambda>(nb, s). kbind (if nb = 0 then balloc ROOTDEV s else Ok (nb, s)) f) =
        (\<lambda>p. kbind ((\<lambda>(nb, s). if nb = 0 then balloc ROOTDEV s else Ok (nb, s)) p) f)" for f :: "nat \<times> 'a fs_state_scheme \<Rightarrow> 'b kres"
      by (auto simp: fun_eq_iff)
    show "bmap ip bn s =
      kbind (kbind (if 0 < ll then balloc_prefer ROOTDEV (ls + ll) s else Ok (0, s)) (\<lambda>(nb, s).
               if nb = 0 then balloc ROOTDEV s else Ok (nb, s))) (\<lambda>(nb, s).
        if nb = 0 then Ok (0, s)
        else case extent_append (itable s ip) nb of
          None \<Rightarrow> Panic ''bmap: extent overflow''
        | Some n1 \<Rightarrow> Ok (nb, upd_inode ip (\<lambda>_. n1) s))"
      by (simp add: bmap_def f Let_def assms(1) kbind_assoc eq split_def cong: if_cong option.case_cong)
  qed
qed

lemma extent_append_None: "extent_append n b = None \<Longrightarrow> k < NEXTENT \<Longrightarrow> ext_len (i_extents n k) \<noteq> 0"
  by (auto simp: extent_append_def find_None_iff split: option.splits)

lemma bmap_grow:
  assumes idle: "tx_idle s" and l: "layout_ok s" and room: "tx_room s (Suc (Suc n))"
    and ip: "i_dev (itable s ip) = ROOTDEV" "ext_dense (itable s ip)" "bn = length (file_blocks (itable s ip))"
  shows "bmap ip bn s = Panic ''bmap: extent overflow'' \<and> (\<forall>k < NEXTENT. ext_len (i_extents (itable s ip) k) \<noteq> 0) \<or>
    returns (bmap ip bn s) (bmap_post s ip n (\<forall>b < sb_size (sb s). used (sb s) (cur s) b))"
proof -
  obtain ls ll where e: "bmap ip bn s =
    kbind (kbind (if 0 < ll then balloc_prefer ROOTDEV (ls + ll) s else Ok (0, s)) (\<lambda>(nb, s).
             if nb = 0 then balloc ROOTDEV s else Ok (nb, s))) (\<lambda>(nb, s).
      if nb = 0 then Ok (0, s)
      else case extent_append (itable s ip) nb of
        None \<Rightarrow> Panic ''bmap: extent overflow''
      | Some n1 \<Rightarrow> Ok (nb, upd_inode ip (\<lambda>_. n1) s))" by (rule bmap_tail[OF ip(1,3)])
  obtain nb t where a: "kbind (if 0 < ll then balloc_prefer ROOTDEV (ls + ll) s else Ok (0, s)) (\<lambda>(nb, s).
      if nb = 0 then balloc ROOTDEV s else Ok (nb, s)) = Ok (nb, t)"
    and post: "alloc_post s n (\<lambda>_. True) (\<exists>b < sb_size (sb s). \<not> used (sb s) (cur s) b) (nb, t)"
    using alloc_any[OF idle l room, of ll ls] by (auto simp only: returns_def)
  have t: "tx_idle t" "layout_ok t" "tx_room t n" "tx_same s t" using post by (simp_all add: alloc_post_def)
  have it: "itable t = itable s" "sb t = sb s" using tx_same_fs[OF t(4)] by simp_all
  show ?thesis
  proof (cases "\<forall>b < sb_size (sb s). used (sb s) (cur s) b")
    case True
    then have "nb = 0" "cur t = cur s" using post by (auto simp: alloc_post_def)
    then show ?thesis using True t by (simp add: e a bmap_post_def)
  next
    case False
    then have nb: "nb < sb_size (sb s)" "\<not> used (sb s) (cur s) nb" "cur t = take_block (sb s) nb (cur s)"
      using post by (auto simp: alloc_post_def)
    have "nb \<noteq> 0" using layout_free[OF l nb(2)] by (auto simp: data_start_def)
    show ?thesis
    proof (cases "extent_append (itable s ip) nb")
      case None
      then show ?thesis using \<open>nb \<noteq> 0\<close> extent_append_None[OF None] by (simp add: e a it)
    next
      case (Some n1)
      have n1: "file_blocks n1 = file_blocks (itable s ip) @ [nb]" "ext_dense n1"
        "n1 = (itable s ip)\<lparr>i_extents := i_extents n1\<rparr>"
        using extent_append_spec[OF ip(2), of nb] Some by simp_all
      have "grown s ip n nb (upd_inode ip (\<lambda>_. n1) t)"
        using t nb n1 fs_same_upd[OF tx_fs_same[OF t(4)]] by (simp add: grown_def it)
      then show ?thesis using Some False \<open>nb \<noteq> 0\<close> by (simp add: e a it bmap_post_def)
    qed
  qed
qed

section \<open>Contents\<close>

text \<open>The byte at a position of the file.\<close>

definition content :: "'a fs_state_scheme \<Rightarrow> nat \<Rightarrow> nat \<Rightarrow> byte" where
  "content s ip pos = cur s (file_blocks (itable s ip) ! (pos div BSIZE)) (pos mod BSIZE)"

text \<open>
  A file whose blocks are sound: they are distinct data blocks marked as used, and there are
  enough of them for its size.
\<close>

definition blocks_ok :: "'a fs_state_scheme \<Rightarrow> nat \<Rightarrow> bool" where
  "blocks_ok s ip \<longleftrightarrow> i_dev (itable s ip) = ROOTDEV \<and> ext_dense (itable s ip) \<and>
     distinct (file_blocks (itable s ip)) \<and>
     (\<forall>b \<in> set (file_blocks (itable s ip)). data_start (sb s) \<le> b \<and> b < sb_size (sb s) \<and> used (sb s) (cur s) b)"

definition file_ok :: "'a fs_state_scheme \<Rightarrow> nat \<Rightarrow> bool" where
  "file_ok s ip \<longleftrightarrow> blocks_ok s ip \<and> i_size (itable s ip) \<le> length (file_blocks (itable s ip)) * BSIZE \<and>
     i_size (itable s ip) \<le> MAXFILE * BSIZE"

lemma BSIZE_pos [simp]: "0 < BSIZE"
  by (simp add: BSIZE_def)

lemma data_start_pos: "data_start sp \<noteq> 0"
  by (simp add: data_start_def)

lemma blocks_nonzero: "blocks_ok s ip \<Longrightarrow> bn < length (file_blocks (itable s ip)) \<Longrightarrow> file_blocks (itable s ip) ! bn \<noteq> 0"
  using data_start_pos[of "sb s"] by (auto simp: blocks_ok_def dest!: bspec[OF _ nth_mem])

lemma blit_append: "blit (blit b k f o1 m) (k + m) f (o1 + m) n = blit b k f o1 (m + n)"
  by (auto simp: blit_def fun_eq_iff)

lemma blit_zero [simp]: "blit b k f o1 0 = b"
  by (auto simp: blit_def fun_eq_iff)

lemma within_block:
  assumes "j < BSIZE - off mod BSIZE"
  shows "(off + j) div BSIZE = off div BSIZE" "(off + j) mod BSIZE = off mod BSIZE + j"
proof -
  have e: "off + j = off div BSIZE * BSIZE + (off mod BSIZE + j)" by (metis div_mult_mod_eq add.assoc)
  have r: "off mod BSIZE + j < BSIZE" using assms by simp
  have "(q * BSIZE + r) div BSIZE = q \<and> (q * BSIZE + r) mod BSIZE = r" if "r < BSIZE" for q r
    using that by simp
  from this[OF r, of "off div BSIZE", folded e]
  show "(off + j) div BSIZE = off div BSIZE" "(off + j) mod BSIZE = off mod BSIZE + j" by (rule conjunct1, rule conjunct2)
qed

lemma block_chunk:
  assumes "m \<le> BSIZE - off mod BSIZE"
  shows "blit b k (cur s (file_blocks (itable s ip) ! (off div BSIZE))) (off mod BSIZE) m = blit b k (content s ip) off m"
proof
  fix a
  show "blit b k (cur s (file_blocks (itable s ip) ! (off div BSIZE))) (off mod BSIZE) m a = blit b k (content s ip) off m a"
    using within_block[of "a - k" off] assms by (auto simp: blit_def content_def)
qed

lemma div_in_range: "off < L * BSIZE \<Longrightarrow> off div BSIZE < L"
  by (simp add: div_less_iff_less_mult)

lemma readi_loop_spec:
  assumes "rd_idle s" "blocks_ok s ip" "off + d \<le> length (file_blocks (itable s ip)) * BSIZE"
  shows "returns (readi_loop ip (Kern b k) off (tot + d) tot s) (\<lambda>(r, dst, t). r = int (tot + d) \<and>
    dst = Kern (blit b k (content s ip) off d) (k + d) \<and> rd_idle t \<and> cur t = cur s \<and> lh_n t = lh_n s \<and> tx_same s t)"
  using assms
proof (induction d arbitrary: b k off tot s rule: less_induct)
  case (less d)
  show ?case
  proof (cases "d = 0")
    case True
    then show ?thesis using less.prems by (subst readi_loop.simps) simp
  next
    case False
    define m where "m = min d (BSIZE - off mod BSIZE)"
    have m: "0 < m" "m \<le> d" "m \<le> BSIZE - off mod BSIZE" using False by (auto simp: m_def)
    let ?bs = "file_blocks (itable s ip)" let ?a = "?bs ! (off div BSIZE)"
    have bn: "off div BSIZE < length ?bs" using less.prems(3) False by (intro div_in_range) simp
    note nz = blocks_nonzero[OF less.prems(2) bn]
    obtain i s1 t where o: "bread ROOTDEV ?a s = Ok (i, s1)" "bdata s1 i = cur s ?a" "tx_same s s1"
      "brelse i s1 = Ok t" "rd_idle t" "cur t = cur s" "lh_n t = lh_n s" "tx_same s t"
      using rd_open[OF less.prems(1)] .
    have it: "itable t = itable s" "sb t = sb s" using tx_same_fs[OF o(8)] by simp_all
    have bt: "blocks_ok t ip" using less.prems(2) by (simp add: blocks_ok_def it o(6))
    have ct: "content t = content s" by (intro ext) (simp add: content_def it o(6))
    have step: "readi_loop ip (Kern b k) off (tot + d) tot s =
      readi_loop ip (Kern (blit b k (content s ip) off m) (k + m)) (off + m) (tot + d) (tot + m) t"
      using less.prems(2) False nz o m block_chunk[OF m(3), of b k s ip]
      by (subst readi_loop.simps) (simp add: bmap_hit[OF bn] m_def[symmetric] blocks_ok_def)
    have "tot + d = (tot + m) + (d - m)" using m by simp
    then have "returns (readi_loop ip (Kern (blit b k (content s ip) off m) (k + m)) (off + m) (tot + d) (tot + m) t)
      (\<lambda>(r, dst, u). r = int (tot + d) \<and>
        dst = Kern (blit (blit b k (content s ip) off m) (k + m) (content t ip) (off + m) (d - m)) (k + m + (d - m)) \<and>
        rd_idle u \<and> cur u = cur t \<and> lh_n u = lh_n t \<and> tx_same t u)"
      using less.IH[of "d - m" t "off + m" "blit b k (content s ip) off m" "k + m" "tot + m"] m False o(5) bt less.prems(3)
      by (simp add: it)
    then show ?thesis
      unfolding step using m o(6,7) tx_same_trans[OF o(8)] by (auto elim!: returns_mono simp: ct blit_append)
  qed
qed

section \<open>Checksums\<close>

text \<open>The checksum of a file is the Adler-32 sum of its bytes.\<close>

definition file_sum :: "'a fs_state_scheme \<Rightarrow> nat \<Rightarrow> nat" where
  "file_sum s ip = adler32_update 1 (map (content s ip) [0..<i_size (itable s ip)])"

lemma adler32_fold:
  obtains u v where "u < 2 ^ 16" "v < 2 ^ 16" "adler32_update a xs = v * 2 ^ 16 + u"
    "fold (\<lambda>d (a, b). let a = (a + unat d) mod 65521 in (a, (b + a) mod 65521)) xs
       (a mod 2 ^ 16, a div 2 ^ 16 mod 2 ^ 16) = (u, v)"
proof -
  let ?f = "\<lambda>d (a, b). let a = (a + unat (d :: byte)) mod 65521 in (a, (b + a) mod 65521)"
  have bound: "fst (fold ?f xs p) < 2 ^ 16 \<and> snd (fold ?f xs p) < 2 ^ 16"
    if "fst p < 2 ^ 16 \<and> snd p < (2 ^ 16 :: nat)" for p
    using that
  proof (induction xs arbitrary: p)
    case (Cons x xs)
    have "n mod 65521 < (65536 :: nat)" for n using mod_less_divisor[of 65521 n] by linarith
    then show ?case using Cons.IH by (simp add: Let_def split_def)
  qed simp
  let ?p = "(a mod 2 ^ 16, a div 2 ^ 16 mod 2 ^ 16)"
  obtain u v where uv: "fold ?f xs ?p = (u, v)" by (cases "fold ?f xs ?p")
  then have "adler32_update a xs = v * 2 ^ 16 + u" by (simp only: adler32_update_def Let_def prod.case)
  then show thesis using that uv bound[of ?p] by simp
qed

lemma adler32_append: "adler32_update (adler32_update a xs) ys = adler32_update a (xs @ ys)"
proof -
  obtain u v where uv: "u < 2 ^ 16" "v < 2 ^ 16" "adler32_update a xs = v * 2 ^ 16 + u"
    "fold (\<lambda>d (a, b). let a = (a + unat d) mod 65521 in (a, (b + a) mod 65521)) xs
       (a mod 2 ^ 16, a div 2 ^ 16 mod 2 ^ 16) = (u, v)" by (rule adler32_fold)
  have m: "(v * 2 ^ 16 + u) mod 2 ^ 16 = u" "(v * 2 ^ 16 + u) div 2 ^ 16 mod 2 ^ 16 = v" using uv(1,2) by simp_all
  show ?thesis unfolding uv(3) by (simp only: adler32_update_def m uv(4) fold_append comp_apply)
qed

lemma block_slice:
  assumes "chunk \<le> BSIZE"
  shows "slice_bytes (cur s (file_blocks (itable s ip) ! k)) 0 chunk = map (content s ip) [k * BSIZE..<k * BSIZE + chunk]"
proof (rule nth_equalityI)
  fix j assume "j < length (slice_bytes (cur s (file_blocks (itable s ip) ! k)) 0 chunk)"
  then have j: "j < chunk" "j < BSIZE" using assms by simp_all
  then show "slice_bytes (cur s (file_blocks (itable s ip) ! k)) 0 chunk ! j = map (content s ip) [k * BSIZE..<k * BSIZE + chunk] ! j"
    by (simp add: content_def)
qed simp

lemma blocks_cover: "sz \<le> (sz + BSIZE - 1) div BSIZE * BSIZE"
  using div_mult_mod_eq[of "sz + BSIZE - 1" BSIZE] mod_less_divisor[OF BSIZE_pos, of "sz + BSIZE - 1"] BSIZE_pos
  by linarith

lemma last_block:
  assumes "k < (sz + BSIZE - 1) div BSIZE"
  defines "c \<equiv> if k = (sz + BSIZE - 1) div BSIZE - 1 then sz - k * BSIZE else BSIZE"
  shows "k * BSIZE < sz" "c \<le> BSIZE" "0 < c" "k * BSIZE + c = min sz (Suc k * BSIZE)"
proof -
  let ?n = "(sz + BSIZE - 1) div BSIZE"
  have a: "?n * BSIZE \<le> sz + BSIZE - 1" "sz + BSIZE - 1 < ?n * BSIZE + BSIZE"
    using div_mult_mod_eq[of "sz + BSIZE - 1" BSIZE] mod_less_divisor[OF BSIZE_pos, of "sz + BSIZE - 1"] by linarith+
  have b: "Suc k * BSIZE \<le> ?n * BSIZE" using assms(1) by (intro mult_le_mono1) simp
  have k: "k * BSIZE < sz" using a(1) b BSIZE_pos unfolding mult_Suc by linarith
  have l: "Suc k * BSIZE < sz" if "k \<noteq> ?n - 1"
  proof -
    have "Suc (Suc k) * BSIZE \<le> ?n * BSIZE" using assms(1) that by (intro mult_le_mono1) simp
    then show ?thesis using a(1) BSIZE_pos unfolding mult_Suc by linarith
  qed
  have r: "sz \<le> Suc k * BSIZE" if "k = ?n - 1"
  proof -
    have "Suc k = ?n" using assms(1) that by simp
    then have "Suc k * BSIZE = ?n * BSIZE" by (rule arg_cong)
    then show ?thesis using a(2) BSIZE_pos by linarith
  qed
  show "k * BSIZE < sz" "c \<le> BSIZE" "0 < c" "k * BSIZE + c = min sz (Suc k * BSIZE)"
    using k l r unfolding c_def by (auto simp: min_def)
qed

lemma checksum_loop_spec:
  assumes "rd_idle s" "blocks_ok s ip" "i_size (itable s ip) \<le> length (file_blocks (itable s ip)) * BSIZE"
    and "n = (i_size (itable s ip) + BSIZE - 1) div BSIZE" "k + m = n"
    and "a = adler32_update 1 (map (content s ip) [0..<min (i_size (itable s ip)) (k * BSIZE)])"
  shows "returns (checksum_loop [k..<k + m] ip n a s) (\<lambda>(r, t). r = file_sum s ip \<and>
    rd_idle t \<and> cur t = cur s \<and> lh_n t = lh_n s \<and> tx_same s t)"
  using assms
proof (induction m arbitrary: k a s)
  case 0
  have "i_size (itable s ip) \<le> n * BSIZE"
    unfolding 0(4) by (rule blocks_cover)
  then have "min (i_size (itable s ip)) (k * BSIZE) = i_size (itable s ip)" using 0(5) by (simp add: min_def)
  then show ?case using 0 by (simp add: file_sum_def)
next
  case (Suc m)
  let ?sz = "i_size (itable s ip)" let ?bs = "file_blocks (itable s ip)" let ?a = "?bs ! k"
  define c where "c = (if k = n - 1 then ?sz - k * BSIZE else BSIZE)"
  have kn: "k < (?sz + BSIZE - 1) div BSIZE" using Suc.prems(4,5) by simp
  have c: "k * BSIZE < ?sz" "c \<le> BSIZE" "k * BSIZE + c = min ?sz (Suc k * BSIZE)"
    using last_block[OF kn] unfolding c_def Suc.prems(4) by simp_all
  have bn: "k < length ?bs" using Suc.prems(3) c(1) by (metis mult_less_cancel2 order_less_le_trans)
  note nz = blocks_nonzero[OF Suc.prems(2) bn]
  obtain i s1 t where o: "bread ROOTDEV ?a s = Ok (i, s1)" "bdata s1 i = cur s ?a" "tx_same s s1"
    "brelse i s1 = Ok t" "rd_idle t" "cur t = cur s" "lh_n t = lh_n s" "tx_same s t"
    using rd_open[OF Suc.prems(1)] .
  have it: "itable t = itable s" "sb t = sb s" "itable s1 = itable s" using tx_same_fs[OF o(8)] tx_same_fs[OF o(3)] by simp_all
  have bt: "blocks_ok t ip" using Suc.prems(2) by (simp add: blocks_ok_def it o(6))
  have ct: "content t = content s" by (intro ext) (simp add: content_def it o(6))
  have fs: "file_sum t ip = file_sum s ip" by (simp add: file_sum_def ct it)
  have acc: "adler32_update a (slice_bytes (bdata s1 i) 0 c) =
      adler32_update 1 (map (content s ip) [0..<min ?sz (Suc k * BSIZE)])"
  proof -
    have "min ?sz (k * BSIZE) = k * BSIZE" using c(1) by simp
    then show ?thesis
      unfolding Suc.prems(6) o(2) block_slice[OF c(2)] adler32_append c(3)[symmetric]
      by (simp add: upt_add_eq_append[of 0 "k * BSIZE" c, simplified])
  qed
  have "returns (checksum_loop [Suc k..<Suc k + m] ip n (adler32_update a (slice_bytes (bdata s1 i) 0 c)) t)
    (\<lambda>(r, u). r = file_sum t ip \<and> rd_idle u \<and> cur u = cur t \<and> lh_n u = lh_n t \<and> tx_same t u)"
    by (rule Suc.IH) (use o(5) bt Suc.prems(3-5) acc in \<open>simp_all add: it ct\<close>)
  moreover have "checksum_loop [k..<k + Suc m] ip n a s =
      checksum_loop [Suc k..<Suc k + m] ip n (adler32_update a (slice_bytes (bdata s1 i) 0 c)) t"
    unfolding upt_add_Suc using Suc.prems(2) nz o(1,4)
    by (simp add: bmap_hit[OF bn] blocks_ok_def it c_def Let_def del: upt_Suc)
  ultimately show ?case using o(6,7) tx_same_trans[OF o(8)] by (auto elim!: returns_mono simp: fs)
qed

definition regular :: "inode \<Rightarrow> bool" where
  "regular n \<longleftrightarrow> i_type n = T_FILE \<or> i_type n = T_DIR"

lemma inode_checksum_spec:
  assumes "rd_idle s" "blocks_ok s ip" "i_size (itable s ip) \<le> length (file_blocks (itable s ip)) * BSIZE"
  shows "returns (inode_checksum ip s) (\<lambda>(r, t). r = (if regular (itable s ip) then file_sum s ip else 1) \<and>
    rd_idle t \<and> cur t = cur s \<and> lh_n t = lh_n s \<and> tx_same s t)"
proof -
  have "returns (checksum_loop [0..<0 + (i_size (itable s ip) + BSIZE - 1) div BSIZE] ip
      ((i_size (itable s ip) + BSIZE - 1) div BSIZE) 1 s) (\<lambda>(r, t). r = file_sum s ip \<and>
      rd_idle t \<and> cur t = cur s \<and> lh_n t = lh_n s \<and> tx_same s t)"
    by (rule checksum_loop_spec[OF assms]) (simp_all add: adler32_update_def)
  then show ?thesis using assms(1) by (auto simp: inode_checksum_def regular_def Let_def)
qed

lemma errors_cong [simp]:
  "cur (s\<lparr>bio_checksum_errors := x\<rparr>) = cur s" "rd_idle (s\<lparr>bio_checksum_errors := x\<rparr>) = rd_idle s"
proof -
  show "cur (s\<lparr>bio_checksum_errors := x\<rparr>) = cur s"
    by (rule bio_cong) (simp_all add: curpid_def myproc_def split: option.split)
  have "bio_inv P (s\<lparr>bio_checksum_errors := x\<rparr>) = bio_inv P s" "held (s\<lparr>bio_checksum_errors := x\<rparr>) = held s" for P
    by (rule bio_cong; simp add: curpid_def myproc_def split: option.split)+
  then show "rd_idle (s\<lparr>bio_checksum_errors := x\<rparr>) = rd_idle s" by (simp add: rd_idle_def log_inv_def logged_def)
qed

lemma tx_same_errors: "tx_same s t \<Longrightarrow> bio_checksum_errors t = bio_checksum_errors s"
  by (auto simp: tx_same_def elim!: log_frameE)

lemma tx_same_errors_upd:
  assumes "tx_same s t"
  shows "tx_same s (t\<lparr>bio_checksum_errors := bio_checksum_errors s\<rparr>)"
proof -
  have "t\<lparr>bio_checksum_errors := bio_checksum_errors t\<rparr> = t" by simp
  then show ?thesis using assms by (simp add: tx_same_errors[OF assms, symmetric])
qed

lemma readi_spec:
  assumes idle: "rd_idle s" and f: "file_ok s ip" and off: "off \<le> i_size (itable s ip)" "off + n < 2 ^ 32"
  defines "m \<equiv> min n (i_size (itable s ip) - off)"
  shows "\<exists>t. readi ip (Kern b k) off n s = Ok (int m, Kern (blit b k (content s ip) off m) (k + m), t) \<and>
    cur t = cur s \<and> itable t = itable s \<and> rd_idle t \<and> lh_n t = lh_n s \<and>
    tx_same s (t\<lparr>bio_checksum_errors := bio_checksum_errors s\<rparr>) \<and>
    bio_checksum_errors t = bio_checksum_errors s +
      (if off = 0 \<and> m = i_size (itable s ip) \<and> regular (itable s ip) \<and> i_checksum (itable s ip) \<noteq> file_sum s ip
       then 1 else 0)"
proof -
  let ?n = "itable s ip"
  have bs: "blocks_ok s ip" and sz: "i_size ?n \<le> length (file_blocks ?n) * BSIZE" "i_size ?n < 2 ^ 32"
    using f by (auto simp: file_ok_def MAXFILE_def BSIZE_def)
  have m: "m = (if i_size ?n < off + n then i_size ?n - off else n)" "m < 2 ^ 32" using off sz by (auto simp: m_def)
  have "off + m \<le> length (file_blocks ?n) * BSIZE" using sz off by (auto simp: m_def)
  from readi_loop_spec[OF idle bs this, of b k 0] obtain t where
    t: "readi_loop ip (Kern b k) off m 0 s = Ok (int m, Kern (blit b k (content s ip) off m) (k + m), t)"
      "rd_idle t" "cur t = cur s" "tx_same s t" "lh_n t = lh_n s"
    by (auto simp: returns_def)
  have it: "itable t = itable s" "sb t = sb s" using tx_same_fs[OF t(4)] by simp_all
  have r: "readi ip (Kern b k) off n s =
      kbind (if off = 0 \<and> m = i_size ?n then verify_inode_checksum ip t else Ok t) (\<lambda>t.
        Ok (int m, Kern (blit b k (content s ip) off m) (k + m), t))"
    using off t(1) m by (simp add: readi_def Let_def it mod_less)
  have bt: "blocks_ok t ip" using bs by (simp add: blocks_ok_def it t(3))
  have fs: "file_sum t ip = file_sum s ip" by (simp add: file_sum_def content_def[abs_def] it t(3))
  have "returns (inode_checksum ip t) (\<lambda>(r, u). r = (if regular (itable t ip) then file_sum t ip else 1) \<and>
      rd_idle u \<and> cur u = cur t \<and> lh_n u = lh_n t \<and> tx_same t u)"
    by (rule inode_checksum_spec[OF t(2) bt]) (simp add: it sz)
  then obtain u where u: "inode_checksum ip t = Ok (if regular ?n then file_sum s ip else 1, u)" "rd_idle u" "cur u = cur s" "tx_same t u" "lh_n u = lh_n s"
    by (auto simp: returns_def it fs t(3,5))
  have iu: "itable u = itable s" using tx_same_fs[OF u(4)] it by simp
  note e = tx_same_errors[OF t(4)] tx_same_errors[OF u(4)]
  have fr: "tx_same s (u\<lparr>bio_checksum_errors := bio_checksum_errors s\<rparr>)" "tx_same s (t\<lparr>bio_checksum_errors := bio_checksum_errors s\<rparr>)"
    by (rule tx_same_errors_upd[OF tx_same_trans[OF t(4) u(4)]], rule tx_same_errors_upd[OF t(4)])
  show ?thesis
  proof (cases "off = 0 \<and> m = i_size ?n \<and> regular ?n")
    case True
    then show ?thesis
      unfolding r using u t e fr by (auto simp: verify_inode_checksum_def regular_def Let_def it iu)
  next
    case False
    then show ?thesis
      unfolding r using t e fr by (auto simp: verify_inode_checksum_def regular_def Let_def it)
  qed
qed

text \<open>
  C16. \<^verbatim>\<open>readi\<close> into a kernel buffer returns the bytes of the file from the given
  offset, as many as asked for or up to the end of the file, and changes neither the file
  system nor any other byte of the buffer. When the whole file was read, a stored checksum that is
  not the Adler-32 sum of the contents is counted as an error; nothing else is.
\<close>

theorem readi_correct:
  assumes idle: "rd_idle s" and f: "file_ok s ip" and off: "off \<le> i_size (itable s ip)" "off + n < 2 ^ 32"
  defines "m \<equiv> min n (i_size (itable s ip) - off)"
  shows "\<exists>t. readi ip (Kern b k) off n s = Ok (int m, Kern (blit b k (content s ip) off m) (k + m), t) \<and>
    cur t = cur s \<and> itable t = itable s \<and> rd_idle t \<and>
    bio_checksum_errors t = bio_checksum_errors s +
      (if off = 0 \<and> m = i_size (itable s ip) \<and> regular (itable s ip) \<and> i_checksum (itable s ip) \<noteq> file_sum s ip
       then 1 else 0)"
  using readi_spec[OF assms(1-4)] unfolding assms(5) by blast

section \<open>Writing\<close>

text \<open>
  \<open>wrote s ip src k off d t\<close>: from \<open>s\<close> to \<open>t\<close>, the \<open>d\<close> bytes of the file from
  \<open>off\<close> on became those of \<open>src\<close> from \<open>k\<close> on; the file may have got more blocks,
  which were free; no other byte of it, no other inode and no block of another file changed.
\<close>

definition new_content :: "'a fs_state_scheme \<Rightarrow> nat \<Rightarrow> bytes \<Rightarrow> nat \<Rightarrow> nat \<Rightarrow> nat \<Rightarrow> nat \<Rightarrow> byte" where
  "new_content s ip src k off d pos =
     (if off \<le> pos \<and> pos < off + d then src (k + (pos - off))
      else if pos < length (file_blocks (itable s ip)) * BSIZE then content s ip pos else 0)"

definition wrote ::
    "'a fs_state_scheme \<Rightarrow> nat \<Rightarrow> bytes \<Rightarrow> nat \<Rightarrow> nat \<Rightarrow> nat \<Rightarrow> 'a fs_state_scheme \<Rightarrow> bool" where
  "wrote s ip src k off d t \<longleftrightarrow>
     tx_idle t \<and> layout_ok t \<and> fs_same s t \<and> blocks_ok t ip \<and>
     (\<forall>j. j \<noteq> ip \<longrightarrow> itable t j = itable s j) \<and> itable t ip = (itable s ip)\<lparr>i_extents := i_extents (itable t ip)\<rparr> \<and>
     (\<exists>new. file_blocks (itable t ip) = file_blocks (itable s ip) @ new \<and>
        (\<forall>b < sb_size (sb s). used (sb s) (cur t) b \<longleftrightarrow> used (sb s) (cur s) b \<or> b \<in> set new) \<and>
        (\<forall>b \<in> set new. \<not> used (sb s) (cur s) b)) \<and>
     off + d \<le> length (file_blocks (itable t ip)) * BSIZE \<and>
     (\<forall>pos < length (file_blocks (itable t ip)) * BSIZE. content t ip pos = new_content s ip src k off d pos) \<and>
     (\<forall>b. data_start (sb s) \<le> b \<and> b \<notin> set (file_blocks (itable t ip)) \<longrightarrow> cur t b = cur s b) \<and>
     (\<forall>b < sb_bmapstart (sb s). cur t b = cur s b)"

lemma wrote_same:
  assumes "tx_idle t" "layout_ok t" "tx_same s t" "cur t = cur s" "blocks_ok s ip"
    "off \<le> length (file_blocks (itable s ip)) * BSIZE"
  shows "wrote s ip src k off 0 t"
proof -
  have it: "itable t = itable s" "sb t = sb s" using tx_same_fs[OF assms(3)] by simp_all
  have c: "content t = content s" by (intro ext) (simp add: content_def it assms(4))
  have "new_content s ip src k off 0 pos = content s ip pos" if "pos < length (file_blocks (itable s ip)) * BSIZE" for pos
    using that by (auto simp: new_content_def)
  then show ?thesis
    using assms tx_fs_same[OF assms(3)] by (simp add: wrote_def it c blocks_ok_def)
qed

lemma new_content_trans:
  assumes "pos < length (file_blocks (itable t ip)) * BSIZE \<Longrightarrow> content t ip pos = new_content s ip src k off d pos"
    and "length (file_blocks (itable s ip)) \<le> length (file_blocks (itable t ip))"
    and "off + d \<le> length (file_blocks (itable t ip)) * BSIZE"
  shows "new_content t ip src (k + d) (off + d) e pos = new_content s ip src k off (d + e) pos"
proof -
  have l: "length (file_blocks (itable s ip)) * BSIZE \<le> length (file_blocks (itable t ip)) * BSIZE"
    using assms(2) by (rule mult_le_mono1)
  show ?thesis
  proof (cases "off \<le> pos \<and> pos < off + d + e")
    case True
    show ?thesis
    proof (cases "pos < off + d")
      case in1: True
      then show ?thesis using True assms(1,3) by (simp add: new_content_def)
    next
      case False
      then have "k + d + (pos - (off + d)) = k + (pos - off)" using True by simp
      then show ?thesis using True False by (simp add: new_content_def)
    qed
  next
    case False
    have "pos < length (file_blocks (itable s ip)) * BSIZE \<Longrightarrow> pos < length (file_blocks (itable t ip)) * BSIZE"
      using l by linarith
    then show ?thesis using False assms(1) by (auto simp: new_content_def)
  qed
qed

lemma wrote_trans:
  assumes a: "wrote s ip src k off d t" and b: "wrote t ip src (k + d) (off + d) e u"
  shows "wrote s ip src k off (d + e) u"
proof -
  have sb: "sb t = sb s" using a fs_sameD(1)[of s t] by (simp add: wrote_def)
  obtain n1 where n1: "file_blocks (itable t ip) = file_blocks (itable s ip) @ n1"
    "\<forall>b < sb_size (sb s). used (sb s) (cur t) b \<longleftrightarrow> used (sb s) (cur s) b \<or> b \<in> set n1" "\<forall>b \<in> set n1. \<not> used (sb s) (cur s) b"
    using a by (auto simp: wrote_def)
  obtain n2 where n2: "file_blocks (itable u ip) = file_blocks (itable t ip) @ n2"
    "\<forall>b < sb_size (sb s). used (sb s) (cur u) b \<longleftrightarrow> used (sb s) (cur t) b \<or> b \<in> set n2" "\<forall>b \<in> set n2. \<not> used (sb s) (cur t) b"
    using b by (auto simp: wrote_def sb)
  have small: "b < sb_size (sb s)" if "b \<in> set n2" for b
    using that b n2(1) fs_sameD(1)[of t u] by (auto simp: wrote_def blocks_ok_def sb)
  have same: "fs_same s u" using a b fs_same_trans by (auto simp: wrote_def)
  have new: "\<exists>new. file_blocks (itable u ip) = file_blocks (itable s ip) @ new \<and>
        (\<forall>b < sb_size (sb s). used (sb s) (cur u) b \<longleftrightarrow> used (sb s) (cur s) b \<or> b \<in> set new) \<and>
        (\<forall>b \<in> set new. \<not> used (sb s) (cur s) b)"
    by (rule exI[of _ "n1 @ n2"]) (use n1 n2 small in auto)
  have cont: "content u ip pos = new_content s ip src k off (d + e) pos" if "pos < length (file_blocks (itable u ip)) * BSIZE" for pos
  proof -
    have "content u ip pos = new_content t ip src (k + d) (off + d) e pos" using b that by (simp add: wrote_def)
    also have "\<dots> = new_content s ip src k off (d + e) pos"
      by (rule new_content_trans) (use a n1(1) in \<open>auto simp: wrote_def\<close>)
    finally show ?thesis .
  qed
  have others: "\<forall>j. j \<noteq> ip \<longrightarrow> itable u j = itable s j" "itable u ip = (itable s ip)\<lparr>i_extents := i_extents (itable u ip)\<rparr>"
    using a b by (simp_all add: wrote_def) (metis inode.update_convs(13) inode.surjective)
  have keep: "cur u b = cur s b" if "data_start (sb s) \<le> b" "b \<notin> set (file_blocks (itable u ip))" for b
    using a b that n2(1) by (simp add: wrote_def sb)
  show ?thesis
    using a b new cont others same keep n2(1) by (simp add: wrote_def sb add.assoc)
qed

lemma data_block_not_bitmap:
  assumes "layout_ok s" "data_start (sb s) \<le> c" "b < sb_size (sb s)"
  shows "used (sb s) ((cur s)(c := m)) b = used (sb s) (cur s) b"
  using BBLOCK_range(1)[OF assms(1,3)] assms(2) by (auto simp: used_def data_start_def)

lemma block_pos:
  assumes "m \<le> BSIZE - off mod BSIZE"
  shows "off \<le> pos \<and> pos < off + m \<longleftrightarrow>
    pos div BSIZE = off div BSIZE \<and> off mod BSIZE \<le> pos mod BSIZE \<and> pos mod BSIZE < off mod BSIZE + m"
proof -
  have e: "pos = pos div BSIZE * BSIZE + pos mod BSIZE" "off = off div BSIZE * BSIZE + off mod BSIZE"
    "pos mod BSIZE < BSIZE" "off mod BSIZE < BSIZE" by simp_all
  have "pos div BSIZE = off div BSIZE" if "off \<le> pos" "pos < off + m"
    using assms e that unfolding BSIZE_def by linarith
  moreover have "(off \<le> pos \<longleftrightarrow> off mod BSIZE \<le> pos mod BSIZE) \<and> (pos < off + m \<longleftrightarrow> pos mod BSIZE < off mod BSIZE + m)"
    if "pos div BSIZE = off div BSIZE"
    using e(1,2) that by (metis add.assoc nat_add_left_cancel_le nat_add_left_cancel_less)
  ultimately show ?thesis by auto
qed

lemma hit_content:
  assumes d: "distinct bs" and off: "off < length bs * BSIZE" and m: "m \<le> BSIZE - off mod BSIZE"
    and pos: "pos < length bs * BSIZE"
  shows "(v(bs ! (off div BSIZE) := blit (v (bs ! (off div BSIZE))) (off mod BSIZE) src k m)) (bs ! (pos div BSIZE)) (pos mod BSIZE) =
    (if off \<le> pos \<and> pos < off + m then src (k + (pos - off)) else v (bs ! (pos div BSIZE)) (pos mod BSIZE))"
proof (cases "pos div BSIZE = off div BSIZE")
  case True
  have "pos - off = pos mod BSIZE - off mod BSIZE"
    using True div_mult_mod_eq[of pos BSIZE] div_mult_mod_eq[of off BSIZE] by (metis diff_add_inverse diff_diff_left)
  then show ?thesis using True by (simp add: block_pos[OF m] blit_def)
next
  case False
  have "pos div BSIZE < length bs" "off div BSIZE < length bs" using off pos by (simp_all add: div_less_iff_less_mult)
  then show ?thesis using False nth_eq_iff_index_eq[OF d, of "pos div BSIZE" "off div BSIZE"] by (auto simp: block_pos[OF m])
qed

lemma wrote_hit:
  assumes idle: "tx_idle s" and l: "layout_ok s" and room: "tx_room s (Suc n)" and ok: "blocks_ok s ip"
    and off: "off < length (file_blocks (itable s ip)) * BSIZE" and m: "m \<le> BSIZE - off mod BSIZE"
  obtains t where "log_update (file_blocks (itable s ip) ! (off div BSIZE)) (\<lambda>b. blit b (off mod BSIZE) src k m) s = Ok t"
    "tx_room t n" "wrote s ip src k off m t"
proof -
  let ?bs = "file_blocks (itable s ip)"
  define c where "c = ?bs ! (off div BSIZE)"
  have "off div BSIZE < length ?bs" using off by (simp add: div_less_iff_less_mult)
  then have c: "c \<in> set ?bs" by (simp add: c_def)
  then have r: "data_start (sb s) \<le> c" "c < sb_size (sb s)" using ok by (auto simp: blocks_ok_def)
  have "off mod BSIZE + m \<le> BSIZE" using m mod_less_divisor[OF BSIZE_pos, of off] by linarith
  then have norm: "bnorm (blit (cur s c) (off mod BSIZE) src k m)"
    using tx_idle_norm[OF idle, of c] by (auto simp: bnorm_def blit_def)
  obtain t where t: "log_update c (\<lambda>b. blit b (off mod BSIZE) src k m) s = Ok t" "tx_idle t" "tx_room t n" "tx_same s t"
    "cur t = (cur s)(c := blit (cur s c) (off mod BSIZE) src k m)"
    by (rule tx_update[where f = "\<lambda>b. blit b (off mod BSIZE) src k m", OF idle room data_writable[OF l r] norm])
  have it: "itable t = itable s" "sb t = sb s" using tx_same_fs[OF t(4)] by simp_all
  have u: "used (sb s) (cur t) b = used (sb s) (cur s) b" if "b < sb_size (sb s)" for b
    unfolding t(5) using l r(1) that by (rule data_block_not_bitmap)
  have lt: "layout_ok t" by (rule layout_same[OF l t(4)]) (use u l in \<open>auto simp: layout_ok_def\<close>)
  have "content t ip pos = new_content s ip src k off m pos" if "pos < length ?bs * BSIZE" for pos
    using hit_content[OF _ off m that, of "cur s" src k] ok that
    by (simp add: content_def new_content_def it t(5) c_def blocks_ok_def)
  moreover have "off + m \<le> length ?bs * BSIZE"
  proof -
    have "off div BSIZE * BSIZE + BSIZE \<le> length ?bs * BSIZE"
      using mult_le_mono1[of "Suc (off div BSIZE)" "length ?bs" BSIZE] \<open>off div BSIZE < _\<close> by simp
    then show ?thesis using m div_mult_mod_eq[of off BSIZE] mod_less_divisor[OF BSIZE_pos, of off] by linarith
  qed
  moreover have "blocks_ok t ip" using ok u by (auto simp: blocks_ok_def it)
  moreover have "c \<noteq> b" if "b < sb_bmapstart (sb s)" for b using that r(1) by (auto simp: data_start_def)
  ultimately have "wrote s ip src k off m t"
    using c t lt u tx_fs_same[OF t(4)] by (auto simp: wrote_def it)
  then show thesis using that t(1,3) by (simp add: c_def)
qed

lemma grown_wrote:
  assumes g: "grown s ip n b t" and ok: "blocks_ok s ip" and l: "layout_ok s" "tx_idle s"
  shows "wrote s ip src k (length (file_blocks (itable s ip)) * BSIZE) 0 t"
proof -
  let ?bs = "file_blocks (itable s ip)"
  note g = g[unfolded grown_def]
  have b: "data_start (sb s) \<le> b" using layout_free[OF l(1)] g by simp
  have sb: "sb t = sb s" using g fs_sameD(1)[of s t] by simp
  have bs: "file_blocks (itable t ip) = ?bs @ [b]" using g by simp
  have u: "used (sb s) (cur t) d \<longleftrightarrow> used (sb s) (cur s) d \<or> d = b" if "d < sb_size (sb s)" for d
    using g used_take[of d "sb s" b "cur s"] BBLOCK_range(1)[OF l(1) that] b by auto
  have nb: "b \<notin> set ?bs" using ok g by (auto simp: blocks_ok_def)
  have ct: "cur t = take_block (sb s) b (cur s)" using g by simp
  have keep: "cur t d = cur s d" if "d \<noteq> b" "d \<noteq> BBLOCK b (sb s)" for d
    using that by (simp add: ct take_block_def)
  have bb: "BBLOCK b (sb s) < data_start (sb s)" "sb_bmapstart (sb s) \<le> BBLOCK b (sb s)"
    using BBLOCK_range(1)[OF l(1), of b] g by (simp_all add: BBLOCK_def)
  have old: "cur t (?bs ! j) = cur s (?bs ! j)" if "j < length ?bs" for j
    using nth_mem[OF that] nb ok bb(1) by (intro keep) (auto simp: blocks_ok_def)
  have new: "cur t b = (\<lambda>_. 0)" by (simp add: ct take_block_def)
  have "content t ip pos = new_content s ip src k (length ?bs * BSIZE) 0 pos" if "pos < length (?bs @ [b]) * BSIZE" for pos
  proof (cases "pos div BSIZE < length ?bs")
    case True
    then have "pos < length ?bs * BSIZE" by (simp add: div_less_iff_less_mult)
    then show ?thesis using True old by (simp add: content_def new_content_def bs nth_append)
  next
    case False
    then have "pos div BSIZE = length ?bs" using that less_mult_imp_div_less[of pos "length (?bs @ [b])" BSIZE] by simp
    moreover have "\<not> pos < length ?bs * BSIZE" using False by (simp add: div_less_iff_less_mult)
    ultimately show ?thesis using new by (simp add: content_def new_content_def bs nth_append)
  qed
  moreover have ie: "itable t ip = (itable s ip)\<lparr>i_extents := i_extents (itable t ip)\<rparr>" using g by (elim conjE) assumption
  have "i_dev (itable t ip) = i_dev (itable s ip)" by (subst ie) simp
  then have "blocks_ok t ip" using ok g u b nb by (auto simp: blocks_ok_def sb bs)
  ultimately show ?thesis using g u keep bb b by (auto simp: wrote_def bs sb data_start_def)
qed

text \<open>The number of blocks that \<open>d\<close> bytes from \<open>off\<close> on touch.\<close>

definition nblk :: "nat \<Rightarrow> nat \<Rightarrow> nat" where
  "nblk off d = (if d = 0 then 0 else Suc ((off mod BSIZE + d - 1) div BSIZE))"

lemma nblk_step:
  assumes "0 < d" "m = min d (BSIZE - off mod BSIZE)"
  shows "nblk off d = Suc (nblk (off + m) (d - m))"
proof (cases "d \<le> BSIZE - off mod BSIZE")
  case True
  then have "off mod BSIZE + d - 1 < BSIZE" using assms(1) mod_less_divisor[OF BSIZE_pos, of off] by linarith
  then show ?thesis using True assms by (simp add: nblk_def)
next
  case False
  have lt: "off mod BSIZE < BSIZE" by simp
  have m: "m = BSIZE - off mod BSIZE" "m < d" using False assms(2) by simp_all
  have "off + m = Suc (off div BSIZE) * BSIZE" using m(1) lt div_mult_mod_eq[of off BSIZE] unfolding mult_Suc by linarith
  then have "(off + m) mod BSIZE = 0" by simp
  moreover have "off mod BSIZE + d - 1 = (d - m - 1) + BSIZE" using m lt by linarith
  then have "(off mod BSIZE + d - 1) div BSIZE = Suc ((d - m - 1) div BSIZE)" using div_add_self2[of BSIZE "d - m - 1"] BSIZE_pos by simp
  ultimately show ?thesis using m(2) assms(1) by (simp add: nblk_def)
qed

lemma writei_step:
  assumes b: "bmap ip (off div BSIZE) s = Ok (addr, u)" "addr \<noteq> 0" and u: "tx_idle u" "i_dev (itable u ip) = ROOTDEV"
    and d: "0 < d" "m = min d (BSIZE - off mod BSIZE)"
  shows "writei_loop ip (Kern src k) off (tot + d) tot s =
    kbind (log_update addr (\<lambda>b. blit b (off mod BSIZE) src k m) u)
      (writei_loop ip (Kern src (k + m)) (off + m) (tot + m + (d - m)) (tot + m))"
proof -
  obtain i s1 t where o: "bread ROOTDEV addr u = Ok (i, s1)" "bdata s1 i = cur u addr" "bio_frame u s1"
    "brelse i s1 = Ok t" "tx_idle t" "cur t = cur u" "lh_n t = lh_n u" "tx_same u t"
    "\<forall>f. log_update addr f u = kbind (log_write i (upd_data i f s1)) (brelse i)"
    by (rule tx_open[OF u(1)])
  have e: "upd_data i (\<lambda>_. blit (bdata s1 i) (off mod BSIZE) src k m) s1 = upd_data i (\<lambda>b. blit b (off mod BSIZE) src k m) s1"
    by (simp add: upd_data_def upd_buf_def)
  have "tot + m + (d - m) = tot + d" using d by simp
  then show ?thesis
    using d(1) by (subst writei_loop.simps) (simp add: b u(2) o(1) o(9) d(2)[symmetric] Let_def e kbind_assoc split del: if_split)
qed

definition wloop_post where
  "wloop_post s ip src k off d tot r res \<longleftrightarrow> (case res of (tot', off', t) \<Rightarrow>
     \<exists>e \<le> d. tot' = tot + e \<and> off' = off + e \<and> wrote s ip src k off e t \<and> tx_room t r \<and>
       (e < d \<longrightarrow> (\<forall>b < sb_size (sb s). used (sb s) (cur t) b) \<and> off + e = length (file_blocks (itable t ip)) * BSIZE))"

lemma wloop_cons:
  assumes "wrote s ip src k off m u" "m \<le> d" "wloop_post u ip src (k + m) (off + m) (d - m) (tot + m) r res"
  shows "wloop_post s ip src k off d tot r res"
proof -
  have sb: "sb u = sb s" using assms(1) fs_sameD(1)[of s u] by (simp add: wrote_def)
  obtain tot' off' t where res: "res = (tot', off', t)" by (cases res)
  from assms(3) obtain e where e: "e \<le> d - m" "tot' = tot + m + e" "off' = off + m + e" "wrote u ip src (k + m) (off + m) e t"
    "tx_room t r" "e < d - m \<longrightarrow> (\<forall>b < sb_size (sb s). used (sb s) (cur t) b) \<and>
      off + m + e = length (file_blocks (itable t ip)) * BSIZE"
    unfolding wloop_post_def res prod.case sb by (elim exE conjE)
  show ?thesis
    unfolding wloop_post_def res prod.case
    by (rule exI[of _ "m + e"]) (use e assms(2) wrote_trans[OF assms(1) e(4)] in auto)
qed

text \<open>One round of the loop: \<^verbatim>\<open>bmap\<close> finds the block or adds one, or the disk is full.\<close>

lemma bmap_round:
  assumes idle: "tx_idle s" and l: "layout_ok s" and room: "tx_room s (Suc (Suc n))" and ok: "blocks_ok s ip"
    and off: "off \<le> length (file_blocks (itable s ip)) * BSIZE"
  obtains (overflow) "bmap ip (off div BSIZE) s = Panic ''bmap: extent overflow''" "off = length (file_blocks (itable s ip)) * BSIZE"
  | (full) t where "bmap ip (off div BSIZE) s = Ok (0, t)" "wrote s ip src k off 0 t" "tx_room t n"
      "\<forall>b < sb_size (sb s). used (sb s) (cur t) b" "off = length (file_blocks (itable t ip)) * BSIZE"
  | (block) t where "bmap ip (off div BSIZE) s = Ok (file_blocks (itable t ip) ! (off div BSIZE), t)"
      "file_blocks (itable t ip) ! (off div BSIZE) \<noteq> 0" "wrote s ip src k off 0 t" "tx_room t n"
      "off < length (file_blocks (itable t ip)) * BSIZE"
proof -
  let ?bs = "file_blocks (itable s ip)"
  have nz: "x \<noteq> 0" if "x \<in> set ?bs" for x using ok that data_start_pos[of "sb s"] by (auto simp: blocks_ok_def)
  show thesis
  proof (cases "off < length ?bs * BSIZE")
    case True
    then have j: "off div BSIZE < length ?bs" by (simp add: div_less_iff_less_mult)
    show thesis
      by (rule block[of s])
        (use j True nz nth_mem[OF j] bmap_hit[OF j] wrote_same[OF idle l _ _ ok off] tx_room_mono[OF room] in simp_all)
  next
    case False
    then have off': "off = length ?bs * BSIZE" using off by simp
    then have n: "off div BSIZE = length ?bs" by simp
    have d: "i_dev (itable s ip) = ROOTDEV" "ext_dense (itable s ip)" using ok by (simp_all add: blocks_ok_def)
    from bmap_grow[OF idle l room d n] show thesis
    proof (elim disjE conjE)
      assume "bmap ip (off div BSIZE) s = Panic ''bmap: extent overflow''" then show thesis using off' by (rule overflow)
    next
      assume "returns (bmap ip (off div BSIZE) s) (bmap_post s ip n (\<forall>b < sb_size (sb s). used (sb s) (cur s) b))"
      then obtain b t where bt: "bmap ip (off div BSIZE) s = Ok (b, t)"
        "bmap_post s ip n (\<forall>b < sb_size (sb s). used (sb s) (cur s) b) (b, t)" by (auto simp: returns_def)
      show thesis
      proof (cases "\<forall>b < sb_size (sb s). used (sb s) (cur s) b")
        case True
        show thesis
          by (rule full[of t]) (use True bt off' wrote_same[OF _ _ _ _ ok off] tx_same_fs[of s t] in \<open>simp_all add: bmap_post_def\<close>)
      next
        case F: False
        then have g: "grown s ip n b t" using bt(2) by (simp add: bmap_post_def)
        have "b \<noteq> 0" using g layout_free[OF l, of b] data_start_pos[of "sb s"] by (auto simp: grown_def)
        with g show thesis
          by (intro block[of t]) (use bt(1) n grown_wrote[OF g ok l idle] off' in \<open>simp_all add: grown_def\<close>)
      qed
    qed
  qed
qed

lemma writei_loop_spec:
  "tx_idle s \<Longrightarrow> layout_ok s \<Longrightarrow> tx_room s (3 * nblk off d + r) \<Longrightarrow> blocks_ok s ip \<Longrightarrow>
   off \<le> length (file_blocks (itable s ip)) * BSIZE \<Longrightarrow>
   writei_loop ip (Kern src k) off (tot + d) tot s = Panic ''bmap: extent overflow'' \<and>
     length (file_blocks (itable s ip)) * BSIZE < off + d \<or>
   returns (writei_loop ip (Kern src k) off (tot + d) tot s) (wloop_post s ip src k off d tot r)"
proof (induction d arbitrary: s k off tot rule: less_induct)
  case (less d)
  note prem = less.prems
  show ?case
  proof (cases "d = 0")
    case True
    then show ?thesis
      using prem wrote_same[OF prem(1,2) _ _ prem(4,5)]
      by (subst (2) writei_loop.simps) (simp add: returns_def wloop_post_def nblk_def)
  next
    case False
    define m where "m = min d (BSIZE - off mod BSIZE)"
    have m: "0 < m" "m \<le> d" "m \<le> BSIZE - off mod BSIZE" using False by (simp_all add: m_def)
    have nb: "nblk off d = Suc (nblk (off + m) (d - m))" by (rule nblk_step) (use False in \<open>simp_all add: m_def\<close>)
    define n where "n = 3 * nblk (off + m) (d - m) + r"
    have room: "tx_room s (Suc (Suc (Suc n)))" using prem(3) by (rule tx_room_mono) (simp add: nb n_def)
    show ?thesis
      using prem(1,2) room prem(4,5)
    proof (cases rule: bmap_round[where src = src and k = k])
      case overflow
      then show ?thesis using False by (subst writei_loop.simps) simp
    next
      case (full t)
      then show ?thesis
        using False tx_room_mono[OF full(3), of r]
        by (subst (2) writei_loop.simps) (simp add: returns_def wloop_post_def n_def exI[of _ 0])
    next
      case (block t)
      note w = block(3)[unfolded wrote_def]
      have t: "tx_idle t" "layout_ok t" "blocks_ok t ip" "i_dev (itable t ip) = ROOTDEV" using w by (auto simp: blocks_ok_def)
      obtain u where u: "log_update (file_blocks (itable t ip) ! (off div BSIZE)) (\<lambda>b. blit b (off mod BSIZE) src k m) t = Ok u"
        "tx_room u n" "wrote t ip src k off m u"
        by (rule wrote_hit[OF t(1,2) block(4) t(3) block(5) m(3)])
      have su: "wrote s ip src k off m u" using wrote_trans[where d = 0] block(3) u(3) by fastforce
      have step: "writei_loop ip (Kern src k) off (tot + d) tot s =
          writei_loop ip (Kern src (k + m)) (off + m) (tot + m + (d - m)) (tot + m) u"
        using writei_step[OF block(1,2) t(1,4), of d m src k tot] False u(1) by (simp add: m_def)
      have le: "length (file_blocks (itable s ip)) * BSIZE \<le> length (file_blocks (itable u ip)) * BSIZE"
        using su by (auto simp: wrote_def)
      have "tx_idle u" "layout_ok u" "blocks_ok u ip" "off + m \<le> length (file_blocks (itable u ip)) * BSIZE" "d - m < d"
        using su m(1) False by (simp_all add: wrote_def)
      from less.IH[OF this(5,1,2) _ this(3,4), of "k + m" "tot + m"] u(2)
      consider "writei_loop ip (Kern src k) off (tot + d) tot s = Panic ''bmap: extent overflow''"
          "length (file_blocks (itable u ip)) * BSIZE < off + d"
        | "returns (writei_loop ip (Kern src k) off (tot + d) tot s) (wloop_post u ip src (k + m) (off + m) (d - m) (tot + m) r)"
        unfolding step n_def using m(2) by auto
      then show ?thesis
      proof cases
        case 1
        then show ?thesis using order_le_less_trans[OF le] by simp
      next
        case 2
        then show ?thesis by (intro disjI2 returns_mono[OF _ wloop_cons[OF su m(2)]])
      qed
    qed
  qed
qed

section \<open>Inodes on disk\<close>

lemma put_extent_outside: "a < o1 + 16 + 8 * k \<or> o1 + 24 + 8 * k \<le> a \<Longrightarrow> put_extent o1 es k m a = m a"
  by (auto simp: put_extent_def put_le_outside)

lemma put_extents_outside:
  "a < o1 + 16 \<or> o1 + 16 + 8 * n \<le> a \<Longrightarrow> fold (put_extent o1 es) [0..<n] m a = m a"
  by (induction n) (auto simp: put_extent_outside)

lemma put_extents_get:
  "k < n \<Longrightarrow> get_le 4 (fold (put_extent o1 es) [0..<n] m) (o1 + 16 + 8 * k) = ext_start (es k) mod 2 ^ 32 \<and>
   get_le 4 (fold (put_extent o1 es) [0..<n] m) (o1 + 20 + 8 * k) = ext_len (es k) mod 2 ^ 32"
  by (induction n) (auto simp: put_extent_def get_put_le get_put_le_other less_Suc_eq)

lemma din_store_outside:
  "a < o1 \<or> o1 + DINODE_SIZE \<le> a \<Longrightarrow> din_store o1 n m a = m a"
  by (auto simp: din_store_def Let_def put_extents_outside put_le_outside DINODE_SIZE_def NEXTENT_def)

lemma get_put_extents: "a + k \<le> o1 + 16 \<Longrightarrow> get_le k (fold (put_extent o1 es) [0..<n] m) a = get_le k m a"
  by (rule get_le_cong) (auto simp: put_extents_outside)

lemma s16_u16: "- 32768 \<le> v \<Longrightarrow> v < 32768 \<Longrightarrow> s16 (u16 v mod 65536) = v"
proof (cases "0 \<le> v")
  case True
  then show "v < 32768 \<Longrightarrow> ?thesis" by (simp add: s16_def u16_def nat_mod_distrib nat_less_iff)
next
  case False
  assume "- 32768 \<le> v"
  with False have "(v + 65536) mod 65536 = v + 65536" by (intro mod_pos_pos_trivial) simp_all
  then have "u16 v = nat (v + 65536)" by (simp add: u16_def)
  with False \<open>- 32768 \<le> v\<close> show ?thesis by (simp add: s16_def nat_less_iff)
qed

text \<open>The fields of an inode fit their places on disk.\<close>

definition din_range :: "inode \<Rightarrow> bool" where
  "din_range n \<longleftrightarrow> i_type n \<in> {- (2 ^ 15)..<2 ^ 15} \<and> i_major n \<in> {- (2 ^ 15)..<2 ^ 15} \<and>
     i_minor n \<in> {- (2 ^ 15)..<2 ^ 15} \<and> i_nlink n \<in> {- (2 ^ 15)..<2 ^ 15} \<and> i_checksum n < 2 ^ 32"

definition same_dinode :: "inode \<Rightarrow> inode \<Rightarrow> bool" where
  "same_dinode n m \<longleftrightarrow> i_type m = i_type n \<and> i_major m = i_major n \<and> i_minor m = i_minor n \<and> i_nlink m = i_nlink n \<and>
     i_size m = i_size n \<and> i_checksum m = i_checksum n \<and> file_blocks m = file_blocks n"

lemma din_round_trip:
  assumes r: "din_range n" "i_size n < 2 ^ 32"
    and e: "\<And>k. k < NEXTENT \<Longrightarrow> ext_len (i_extents n k) = 0 \<or>
      ext_start (i_extents n k) < 2 ^ 32 \<and> ext_len (i_extents n k) < 2 ^ 32"
  shows "same_dinode n (din_load (din_store o1 n m) o1 n')"
proof -
  have "file_blocks (din_load (din_store o1 n m) o1 n') = file_blocks n"
    unfolding file_blocks_def blocks_from_def
  proof (intro arg_cong[where f = concat] map_cong refl)
    fix k assume "k \<in> set [0..<NEXTENT]"
    then have k: "k < NEXTENT" by simp
    show "ext_range (i_extents (din_load (din_store o1 n m) o1 n') k) = ext_range (i_extents n k)"
      using e[OF k] k by (auto simp: din_load_def din_extents_def din_store_def Let_def put_extents_get ext_range_def)
  qed
  then show ?thesis
    using r by (simp add: same_dinode_def din_range_def din_load_def din_store_def Let_def get_put_extents
        get_put_le get_put_le_other s16_u16)
qed

text \<open>\<open>on_disk v sp n\<close>: image \<open>v\<close> holds inode \<open>n\<close> in its place.\<close>

definition on_disk :: "(nat \<Rightarrow> bytes) \<Rightarrow> superblock \<Rightarrow> inode \<Rightarrow> bool" where
  "on_disk v sp n = same_dinode n (din_load (v (IBLOCK (i_inum n) sp)) (din_off (i_inum n)) n)"

definition put_inode :: "superblock \<Rightarrow> inode \<Rightarrow> (nat \<Rightarrow> bytes) \<Rightarrow> nat \<Rightarrow> bytes" where
  "put_inode sp n v = v(IBLOCK (i_inum n) sp := din_store (din_off (i_inum n)) n (v (IBLOCK (i_inum n) sp)))"

lemma din_off_bound: "din_off i + DINODE_SIZE \<le> BSIZE"
proof -
  have "i mod 8 \<le> (7 :: nat)" using mod_less_divisor[of 8 i] by linarith
  then show ?thesis by (simp add: din_off_def IPB_def DINODE_SIZE_def NEXTENT_def BSIZE_def)
qed

lemma put_inode_other:
  assumes "i \<noteq> i_inum n" "a < DINODE_SIZE"
  shows "put_inode sp n v (IBLOCK i sp) (din_off i + a) = v (IBLOCK i sp) (din_off i + a)"
proof (cases "i div IPB = i_inum n div IPB")
  case True
  then have "i mod IPB \<noteq> i_inum n mod IPB" using assms(1) by (metis div_mult_mod_eq)
  then have "din_off i + DINODE_SIZE \<le> din_off (i_inum n) \<or> din_off (i_inum n) + DINODE_SIZE \<le> din_off i"
    using mult_le_mono1[of "Suc (i mod IPB)" "i_inum n mod IPB" DINODE_SIZE]
      mult_le_mono1[of "Suc (i_inum n mod IPB)" "i mod IPB" DINODE_SIZE]
    by (cases "i mod IPB < i_inum n mod IPB") (simp_all add: din_off_def)
  then show ?thesis using assms(2) by (auto simp: put_inode_def IBLOCK_def True intro!: din_store_outside)
next
  case False
  then show ?thesis by (simp add: put_inode_def IBLOCK_def)
qed

lemma iupdate_spec:
  assumes "tx_idle s" "layout_ok s" "tx_room s (Suc r)" "i_dev (itable s ip) = ROOTDEV"
    "i_inum (itable s ip) < sb_ninodes (sb s)"
  obtains t where "iupdate ip s = Ok t" "tx_idle t" "tx_room t r" "tx_same s t"
    "cur t = put_inode (sb s) (itable s ip) (cur s)"
proof -
  let ?n = "itable s ip" let ?b = "IBLOCK (i_inum ?n) (sb s)"
  have "i_inum ?n div IPB \<le> sb_ninodes (sb s) div IPB" using assms(5) by (intro div_le_mono) simp
  then have w: "tx_writable s ?b"
    using assms(2) by (auto simp: layout_ok_def tx_writable_def log_area_def IBLOCK_def data_start_def)
  have "bnorm (din_store (din_off (i_inum ?n)) ?n (cur s ?b))"
    using tx_idle_norm[OF assms(1), of ?b] din_off_bound[of "i_inum ?n"] by (auto simp: bnorm_def din_store_outside)
  then obtain t where "log_update ?b (din_store (din_off (i_inum ?n)) ?n) s = Ok t" "tx_idle t" "tx_room t r" "tx_same s t"
    "cur t = (cur s)(?b := din_store (din_off (i_inum ?n)) ?n (cur s ?b))"
    by (rule tx_update[where f = "din_store (din_off (i_inum ?n)) ?n", OF assms(1,3) w])
  then show thesis using that by (simp add: log_update_def iupdate_def Let_def put_inode_def assms(4))
qed

lemma fold_upd: "(\<And>k s. f k (g s) = g (f k s)) \<Longrightarrow> fold f ks (g s) = g (fold f ks s)"
  by (induction ks arbitrary: s) simp_all

lemma wakeup_itable: "wakeup c (s\<lparr>itable := x\<rparr>) = (wakeup c s)\<lparr>itable := x\<rparr>"
  unfolding wakeup_def
  by (rule fold_upd[where g = "\<lambda>s. s\<lparr>itable := x\<rparr>"]) (simp add: myproc_def upd_proc_def)

lemma curpid_itable [simp]: "curpid (s\<lparr>itable := x\<rparr>) = curpid s"
  by (simp add: curpid_def myproc_def split: option.split)

lemma brelse_itable: "brelse i (s\<lparr>itable := x\<rparr>) = kbind (brelse i s) (\<lambda>t. Ok (t\<lparr>itable := x\<rparr>))"
proof -
  have h: "holdingsleep lk (s\<lparr>itable := x\<rparr>) = holdingsleep lk s" for lk by (simp add: holdingsleep_def)
  show ?thesis
    unfolding brelse_def
    by (cases "holdingsleep (b_lock (bufs s i)) s")
      (simp_all add: h releasesleep_def wakeup_itable upd_buf_def Let_def)
qed

lemma brelse_upd_inode:
  "brelse i s = Ok t \<Longrightarrow> brelse i (upd_inode j f s) = Ok (t\<lparr>itable := (itable s)(j := f (itable s j))\<rparr>)"
  by (simp add: upd_inode_def brelse_itable)

lemma blocks_ok_extents:
  assumes "blocks_ok s ip" "layout_ok s" "k < NEXTENT"
  shows "ext_len (i_extents (itable s ip) k) = 0 \<or>
    ext_start (i_extents (itable s ip) k) < 2 ^ 32 \<and> ext_len (i_extents (itable s ip) k) < 2 ^ 32"
proof (cases "ext_len (i_extents (itable s ip) k) = 0")
  case False
  let ?e = "i_extents (itable s ip) k"
  have "set (ext_range ?e) \<subseteq> set (file_blocks (itable s ip))"
    using assms(3) by (auto simp: file_blocks_def blocks_from_def)
  moreover have "ext_start ?e + ext_len ?e - 1 \<in> set (ext_range ?e)" "ext_start ?e \<in> set (ext_range ?e)"
    using False by (auto simp: ext_range_def)
  ultimately have "ext_start ?e + ext_len ?e - 1 < sb_size (sb s)" "data_start (sb s) \<le> ext_start ?e"
    using assms(1) by (auto simp: blocks_ok_def)
  moreover have "sb_size (sb s) \<le> 2 ^ 32" "0 < data_start (sb s)"
    using assms(2) data_start_pos[of "sb s"] by (simp_all add: layout_ok_def)
  ultimately show ?thesis using False by (intro disjI2 conjI) linarith+
qed simp

text \<open>
  C20. Inode round trip: after \<^verbatim>\<open>iupdate\<close>, the first \<^verbatim>\<open>ilock\<close> of the same inode
  number in another slot of the table loads the type, device numbers, link count, size, checksum and
  list of blocks that were written; the records of all other inodes on disk keep their bytes.
\<close>

theorem iupdate_ilock:
  assumes s: "tx_idle s" "layout_ok s" "tx_room s 1" "blocks_ok s ip" "i_inum (itable s ip) < sb_ninodes (sb s)"
    and n: "din_range (itable s ip)" "i_size (itable s ip) < 2 ^ 32" "i_type (itable s ip) \<noteq> 0"
    and j: "i_dev (itable s j) = ROOTDEV" "i_inum (itable s j) = i_inum (itable s ip)" "\<not> i_valid (itable s j)"
      "1 \<le> i_ref (itable s j)" "\<not> sl_locked (i_lock (itable s j))"
  shows "\<exists>t u. iupdate ip s = Ok t \<and> ilock j t = Ok u \<and> same_dinode (itable s ip) (itable u j) \<and> i_valid (itable u j) \<and>
    (\<forall>i a. i \<noteq> i_inum (itable s ip) \<and> a < DINODE_SIZE \<longrightarrow>
       cur t (IBLOCK i (sb s)) (din_off i + a) = cur s (IBLOCK i (sb s)) (din_off i + a))"
proof -
  let ?n = "itable s ip"
  have d: "i_dev ?n = ROOTDEV" using s(4) by (simp add: blocks_ok_def)
  obtain t where t: "iupdate ip s = Ok t" "tx_idle t" "tx_room t 0" "tx_same s t" "cur t = put_inode (sb s) ?n (cur s)"
    by (rule iupdate_spec[of s 0 ip]) (use s d in simp_all)
  have it: "itable t = itable s" "sb t = sb s" using tx_same_fs[OF t(4)] by simp_all
  obtain pid where pid: "curpid t = Ok pid"
    using t(2) by (auto simp: tx_idle_def in_tx_def log_inv_def bio_inv_def)
  define v where "v = upd_inode j (\<lambda>ip. ip\<lparr>i_lock := \<lparr>sl_locked = True, sl_pid = pid\<rparr>\<rparr>) t"
  have v: "rd_idle v" "cur v = cur t" "sb v = sb s" "i_inum (itable v j) = i_inum ?n" "i_dev (itable v j) = ROOTDEV" "\<not> i_valid (itable v j)"
    using tx_rd_idle[OF t(2)] j it by (simp_all add: v_def)
  let ?b = "IBLOCK (i_inum ?n) (sb s)"
  obtain i v1 w where o: "bread ROOTDEV ?b v = Ok (i, v1)" "bdata v1 i = cur v ?b" "tx_same v v1" "brelse i v1 = Ok w"
    "tx_same v w" by (rule rd_open[OF v(1), of ?b])
  let ?m = "din_load (cur t ?b) (din_off (i_inum ?n)) (itable v j)"
  have sd: "same_dinode ?n ?m"
    unfolding t(5) put_inode_def using din_round_trip[OF n(1,2) blocks_ok_extents[OF s(4,2)]] by simp
  have iv: "itable v1 = itable v" using tx_same_fs(2)[OF o(3)] .
  have "ilock j t = Ok (upd_inode j (\<lambda>ip. ip\<lparr>i_valid := True\<rparr>) (w\<lparr>itable := (itable v)(j := ?m)\<rparr>))"
    using j n(3) sd pid brelse_upd_inode[OF o(4), of j "din_load (cur t ?b) (din_off (i_inum ?n))"]
    using j(4,5) n(3) sd brelse_upd_inode[OF o(4), of j "din_load (cur t ?b) (din_off (i_inum ?n))"]
    by (simp add: ilock_def acquiresleep_def pid it v_def[symmetric])
      (simp add: Let_def v o(1,2) iv same_dinode_def)
  then show ?thesis
    using t(1) sd put_inode_other[of _ ?n _ "sb s" "cur s"] by (auto simp: t(5) same_dinode_def file_blocks_def)
qed

lemma file_sum_cong:
  assumes "i_size (itable t ip) = i_size (itable s ip)" "\<And>pos. pos < i_size (itable s ip) \<Longrightarrow> content t ip pos = content s ip pos"
  shows "file_sum t ip = file_sum s ip"
proof -
  have "map (content t ip) [0..<i_size (itable t ip)] = map (content s ip) [0..<i_size (itable s ip)]"
    using assms by (intro map_cong) simp_all
  then show ?thesis by (simp only: file_sum_def)
qed

lemma file_sum_bound: "file_sum s ip < 2 ^ 32"
proof -
  obtain u v :: nat where "u < 2 ^ 16" "v < 2 ^ 16" "file_sum s ip = v * 2 ^ 16 + u"
    unfolding file_sum_def by (rule adler32_fold)
  then show ?thesis by simp
qed

text \<open>The end of \<^verbatim>\<open>writei\<close>: the checksum of the new contents, and the inode to disk.\<close>

lemma writei_tail:
  assumes v: "tx_idle v" "layout_ok v" "blocks_ok v ip" "tx_room v (Suc r)"
    "i_size (itable v ip) \<le> length (file_blocks (itable v ip)) * BSIZE" "i_inum (itable v ip) < sb_ninodes (sb v)"
  defines "n \<equiv> (itable v ip)\<lparr>i_checksum := if regular (itable v ip) then file_sum v ip else i_checksum (itable v ip)\<rparr>"
  shows "returns (kbind (if i_type (itable v ip) = T_FILE \<or> i_type (itable v ip) = T_DIR
       then kbind (inode_checksum ip v) (\<lambda>(c, s). Ok (upd_inode ip (\<lambda>n. n\<lparr>i_checksum := c\<rparr>) s)) else Ok v) (\<lambda>s.
     kbind (iupdate ip s) (\<lambda>s. Ok (x, s))))
    (\<lambda>(y, t). y = x \<and> tx_idle t \<and> tx_room t r \<and> itable t = (itable v)(ip := n) \<and> fs_same v t \<and>
       cur t = put_inode (sb v) n (cur v))"
proof -
  obtain w where w: "inode_checksum ip v = Ok (if regular (itable v ip) then file_sum v ip else 1, w)" "rd_idle w" "cur w = cur v"
    "lh_n w = lh_n v" "tx_same v w"
    using inode_checksum_spec[OF tx_rd_idle[OF v(1)] v(3,5)] by (auto simp: returns_def)
  have iw: "itable w = itable v" "sb w = sb v" using tx_same_fs[OF w(5)] by simp_all
  have lw: "layout_ok w" by (rule layout_same[OF v(2) w(5)]) (use v(2) w(3) in \<open>simp add: layout_ok_def\<close>)
  define u where "u = (if regular (itable v ip) then upd_inode ip (\<lambda>_. n) w else v)"
  have u: "tx_idle u" "layout_ok u" "tx_room u (Suc r)" "itable u = (itable v)(ip := n)" "sb u = sb v" "cur u = cur v" "fs_same v u"
    using v rd_tx_idle[OF w(2) v(1) w(5)] lw tx_room_same[OF w(4)] w(3) iw fs_same_upd[OF tx_fs_same[OF w(5)]]
    by (simp_all add: u_def n_def)
  obtain t where t: "iupdate ip u = Ok t" "tx_idle t" "tx_room t r" "tx_same u t" "cur t = put_inode (sb u) (itable u ip) (cur u)"
    by (rule iupdate_spec[OF u(1-3), of ip]) (use v(3,6) in \<open>simp_all add: u n_def blocks_ok_def\<close>)
  have e: "(if i_type (itable v ip) = T_FILE \<or> i_type (itable v ip) = T_DIR
       then kbind (inode_checksum ip v) (\<lambda>(c, s). Ok (upd_inode ip (\<lambda>n. n\<lparr>i_checksum := c\<rparr>) s)) else Ok v) = Ok u"
    using w(1) by (simp add: u_def n_def regular_def upd_inode_def iw)
  show ?thesis
    unfolding e using t u tx_same_fs[OF t(4)] fs_same_trans[OF u(7) tx_fs_same[OF t(4)]] by simp
qed

lemma writei_size:
  "\<exists>X. (let s = (if i_size (itable u ip) < e then upd_inode ip (\<lambda>n. n\<lparr>i_size := e\<rparr>) u else u)
     in if i_type (itable s ip) = T_DIR
        then upd_inode ip (\<lambda>n. n\<lparr>i_cache := (i_cache n)\<lparr>dc_valid := False, dc_truncated := False, dc_nentries := 0\<rparr>\<rparr>) s
        else s) = upd_inode ip (\<lambda>n. n\<lparr>i_size := max (i_size n) e, i_cache := X\<rparr>) u \<and>
    (i_type (itable u ip) = T_DIR \<longrightarrow> \<not> dc_valid X)"
proof (cases "i_type (itable u ip) = T_DIR")
  case True
  then show ?thesis
    by (intro exI[of _ "(i_cache (itable u ip))\<lparr>dc_valid := False, dc_truncated := False, dc_nentries := 0\<rparr>"])
      (simp add: upd_inode_def Let_def max_def)
next
  case False
  then show ?thesis
    by (intro exI[of _ "i_cache (itable u ip)"]) (simp add: upd_inode_def Let_def max_def)
qed

lemma IBLOCK_range: "layout_ok s \<Longrightarrow> i < sb_ninodes (sb s) \<Longrightarrow> IBLOCK i (sb s) < sb_bmapstart (sb s)"
  using div_le_mono[of i "sb_ninodes (sb s)" IPB] by (simp add: layout_ok_def IBLOCK_def)

lemma put_inode_blocks:
  assumes "layout_ok s" "i_inum n < sb_ninodes (sb s)"
  shows "used (sb s) (put_inode (sb s) n v) b = used (sb s) v b" "data_start (sb s) \<le> b \<Longrightarrow> put_inode (sb s) n v b = v b"
  using IBLOCK_range[OF assms] by (auto simp: used_def put_inode_def BBLOCK_def data_start_def)

lemma layout_fs_same:
  assumes "layout_ok s" "fs_same s t" "\<And>b. used (sb s) (cur t) b = used (sb s) (cur s) b"
  shows "layout_ok t"
proof -
  have "layout_ok (s\<lparr>itable := itable t\<rparr>)" using assms(1) by (simp add: layout_ok_def)
  then show ?thesis
    by (rule layout_same) (use assms in \<open>simp_all add: fs_same_def layout_ok_def\<close>)
qed

lemma content_put_inode:
  assumes "blocks_ok u ip" "layout_ok u" "i_inum n < sb_ninodes (sb u)" "cur t = put_inode (sb u) n (cur u)"
    "file_blocks (itable t ip) = file_blocks (itable u ip)" "pos < length (file_blocks (itable u ip)) * BSIZE"
  shows "content t ip pos = content u ip pos"
proof -
  let ?b = "file_blocks (itable u ip) ! (pos div BSIZE)"
  have "?b \<in> set (file_blocks (itable u ip))" using assms(6) by (intro nth_mem) (simp add: div_less_iff_less_mult)
  then have "data_start (sb u) \<le> ?b" using assms(1) by (simp add: blocks_ok_def)
  then show ?thesis by (simp add: content_def assms(4,5) put_inode_blocks(2)[OF assms(2,3)])
qed

text \<open>
  \<open>written s ip src k off e t\<close>: the state \<open>t\<close> after \<open>e\<close> bytes of \<open>src\<close> from \<open>k\<close> on were
  written to the file at \<open>off\<close>: size, contents, checksum, the inode on disk, and what did not change.
\<close>

definition written ::
    "'a fs_state_scheme \<Rightarrow> nat \<Rightarrow> bytes \<Rightarrow> nat \<Rightarrow> nat \<Rightarrow> nat \<Rightarrow> 'a fs_state_scheme \<Rightarrow> bool" where
  "written s ip src k off e t \<longleftrightarrow>
     tx_idle t \<and> layout_ok t \<and> file_ok t ip \<and> i_size (itable t ip) = max (i_size (itable s ip)) (off + e) \<and>
     (\<forall>pos < i_size (itable t ip). content t ip pos =
        (if off \<le> pos \<and> pos < off + e then src (k + (pos - off)) else content s ip pos)) \<and>
     (regular (itable s ip) \<longrightarrow> i_checksum (itable t ip) = file_sum t ip) \<and> on_disk (cur t) (sb s) (itable t ip) \<and>
     (\<exists>es X c. itable t ip = (itable s ip)\<lparr>i_extents := es, i_size := max (i_size (itable s ip)) (off + e), i_cache := X, i_checksum := c\<rparr> \<and>
        (i_type (itable s ip) = T_DIR \<longrightarrow> \<not> dc_valid X)) \<and>
     (\<forall>j. j \<noteq> ip \<longrightarrow> itable t j = itable s j) \<and>
     (\<forall>i a. i < sb_ninodes (sb s) \<and> i \<noteq> i_inum (itable s ip) \<and> a < DINODE_SIZE \<longrightarrow>
        cur t (IBLOCK i (sb s)) (din_off i + a) = cur s (IBLOCK i (sb s)) (din_off i + a)) \<and>
     (\<forall>b. data_start (sb s) \<le> b \<and> b \<notin> set (file_blocks (itable t ip)) \<longrightarrow> cur t b = cur s b)"

lemma written_end:
  assumes s: "file_ok s ip" "layout_ok s" "din_range (itable s ip)" "off \<le> i_size (itable s ip)" "off + e \<le> MAXFILE * BSIZE"
    and i: "i_inum (itable s ip) < sb_ninodes (sb s)" and w: "wrote s ip src k off e u"
    and n: "n = (itable u ip)\<lparr>i_size := max (i_size (itable s ip)) (off + e), i_cache := X, i_checksum := c\<rparr>"
    and c: "c < 2 ^ 32" and t: "tx_idle t" "fs_same u t" "itable t = (itable u)(ip := n)" "cur t = put_inode (sb s) n (cur u)"
    and cs: "regular (itable s ip) \<Longrightarrow> c = file_sum t ip" and X: "i_type (itable s ip) = T_DIR \<longrightarrow> \<not> dc_valid X"
  shows "written s ip src k off e t"
proof -
  note w' = w[unfolded wrote_def]
  let ?n = "itable s ip" let ?bs = "file_blocks (itable u ip)"
  have sz: "i_size ?n \<le> length (file_blocks ?n) * BSIZE" "i_size ?n \<le> MAXFILE * BSIZE" using s(1) by (simp_all add: file_ok_def)
  obtain es where iu: "itable u ip = ?n\<lparr>i_extents := es\<rparr>" using w' by blast
  have sb: "sb u = sb s" "sb t = sb s" using w' fs_sameD(1)[of s u] fs_sameD(1)[OF t(2)] by simp_all
  have it: "itable t ip = n" "file_blocks n = ?bs" "i_inum n = i_inum ?n" "i_size n = max (i_size ?n) (off + e)"
    by (simp_all add: t(3) n iu file_blocks_def)
  have lu: "layout_ok u" and bu: "blocks_ok u ip" using w' by simp_all
  note put = put_inode_blocks[OF lu, of n, unfolded it(3) sb, OF i]
  have lt: "layout_ok t" by (rule layout_fs_same[OF lu t(2)]) (simp add: sb t(4) put(1))
  have bt: "blocks_ok t ip" using bu by (simp add: blocks_ok_def it sb t(4) put(1)) (simp add: n ext_dense_def)
  have len: "max (i_size ?n) (off + e) \<le> length ?bs * BSIZE" using w' sz(1) by (auto simp: add_mult_distrib)
  have ft: "file_ok t ip" using bt len sz(2) s(5) by (simp add: file_ok_def it)
  have ct: "content t ip pos = content u ip pos" if "pos < length ?bs * BSIZE" for pos
    by (rule content_put_inode[OF bu lu _ _ _ that]) (simp_all add: it sb i t(4))
  have cont: "content t ip pos = (if off \<le> pos \<and> pos < off + e then src (k + (pos - off)) else content s ip pos)"
    if p: "pos < max (i_size ?n) (off + e)" for pos
  proof -
    have "pos < length ?bs * BSIZE" using p len by (rule order_less_le_trans)
    then have "content t ip pos = new_content s ip src k off e pos" using w' by (simp add: ct)
    moreover have "pos < length (file_blocks ?n) * BSIZE" if "\<not> (off \<le> pos \<and> pos < off + e)"
      using p that s(4) sz(1) by auto
    ultimately show ?thesis by (simp add: new_content_def)
  qed
  have sizes: "max (i_size ?n) (off + e) < 2 ^ 32" using sz(2) s(5) by (simp add: MAXFILE_def BSIZE_def)
  have "same_dinode n (din_load (din_store (din_off (i_inum n)) n m) (din_off (i_inum n)) n)" for m
    by (rule din_round_trip)
      (use s(3) c sizes blocks_ok_extents[OF bt lt] in \<open>simp_all add: it, simp add: din_range_def n iu\<close>)
  then have od: "on_disk (cur t) (sb s) n" by (simp add: on_disk_def t(4) put_inode_def)
  have oi: "cur t (IBLOCK j (sb s)) (din_off j + a) = cur s (IBLOCK j (sb s)) (din_off j + a)"
    if "j < sb_ninodes (sb s)" "j \<noteq> i_inum ?n" "a < DINODE_SIZE" for j a
    using put_inode_other[of j n a "sb s" "cur u"] that IBLOCK_range[OF s(2) that(1)] w' by (simp add: t(4) it)
  have ob: "cur t b = cur s b" if "data_start (sb s) \<le> b" "b \<notin> set ?bs" for b
    using that w' by (simp add: t(4) put(2))
  have "itable t ip = ?n\<lparr>i_extents := es, i_size := max (i_size ?n) (off + e), i_cache := X, i_checksum := c\<rparr>"
    by (simp add: it n iu)
  then have sh: "\<exists>es X c. itable t ip = ?n\<lparr>i_extents := es, i_size := max (i_size ?n) (off + e), i_cache := X, i_checksum := c\<rparr> \<and>
      (i_type ?n = T_DIR \<longrightarrow> \<not> dc_valid X)" using X by blast
  have "\<forall>j. j \<noteq> ip \<longrightarrow> itable t j = itable s j" using w' by (simp add: t(3))
  moreover have "regular ?n \<longrightarrow> i_checksum (itable t ip) = file_sum t ip" using cs by (simp add: it n)
  ultimately show ?thesis
    unfolding written_def using t(1) lt ft cont od oi ob sh by (simp add: it)
qed

lemma writei_wrote:
  assumes s: "tx_idle s" "layout_ok s" "file_ok s ip" "i_inum (itable s ip) < sb_ninodes (sb s)" "din_range (itable s ip)"
    and off: "off \<le> i_size (itable s ip)" "off + n \<le> MAXFILE * BSIZE"
    and u: "writei_loop ip (Kern src k) off n 0 s = Ok (e, off + e, u)" "e \<le> n" "wrote s ip src k off e u" "tx_room u 1"
  shows "\<exists>t. writei ip (Kern src k) off n s = Ok (int e, t) \<and> written s ip src k off e t \<and>
    (\<forall>b. used (sb s) (cur t) b = used (sb s) (cur u) b) \<and> file_blocks (itable t ip) = file_blocks (itable u ip)"
proof -
  let ?n = "itable s ip"
  have ok: "i_size ?n \<le> length (file_blocks ?n) * BSIZE" using s(3) by (simp add: file_ok_def)
  have small: "off + n < 2 ^ 32" using off(2) by (simp add: MAXFILE_def BSIZE_def)
  let ?e = "off + e"
  note w = u(3)[unfolded wrote_def]
  have sbu: "sb u = sb s" using w fs_sameD(1)[of s u] by simp
  obtain es where iu: "itable u ip = ?n\<lparr>i_extents := es\<rparr>" using w by blast
  define v where "v = (let s = (if i_size (itable u ip) < ?e then upd_inode ip (\<lambda>n. n\<lparr>i_size := ?e\<rparr>) u else u)
    in if i_type (itable s ip) = T_DIR
       then upd_inode ip (\<lambda>n. n\<lparr>i_cache := (i_cache n)\<lparr>dc_valid := False, dc_truncated := False, dc_nentries := 0\<rparr>\<rparr>) s
       else s)"
  obtain X where X: "v = upd_inode ip (\<lambda>n. n\<lparr>i_size := max (i_size n) ?e, i_cache := X\<rparr>) u"
    and dX: "i_type ?n = T_DIR \<longrightarrow> \<not> dc_valid X"
    using writei_size[of u ip ?e] iu unfolding v_def by auto
  have iv: "itable v ip = ?n\<lparr>i_extents := es, i_size := max (i_size ?n) ?e, i_cache := X\<rparr>" by (simp add: X iu)
  have bv: "file_blocks (itable v ip) = file_blocks (itable u ip)" by (simp add: iv iu file_blocks_def)
  have v: "tx_idle v" "layout_ok v" "tx_room v (Suc 0)" "sb v = sb s" "cur v = cur u"
    using w u(4) by (simp_all add: X sbu)
  have okv: "blocks_ok v ip" using w bv v by (simp add: blocks_ok_def sbu iv iu ext_dense_def)
  have szv: "i_size (itable v ip) \<le> length (file_blocks (itable v ip)) * BSIZE" "i_inum (itable v ip) < sb_ninodes (sb v)"
    unfolding bv using w ok s(4) v(4) by (auto simp: add_mult_distrib iv)
  have cal: "writei ip (Kern src k) off n s =
    kbind (if i_type (itable v ip) = T_FILE \<or> i_type (itable v ip) = T_DIR
      then kbind (inode_checksum ip v) (\<lambda>(c, s). Ok (upd_inode ip (\<lambda>n. n\<lparr>i_checksum := c\<rparr>) s)) else Ok v) (\<lambda>s.
    kbind (iupdate ip s) (\<lambda>s. Ok (int e, s)))"
    using off small u(1) by (simp add: writei_def v_def Let_def split del: if_split cong: if_cong)
  define c where "c = (if regular ?n then file_sum v ip else i_checksum ?n)"
  have rv: "regular (itable v ip) = regular ?n" by (simp add: regular_def iv)
  define m where "m = (itable u ip)\<lparr>i_size := max (i_size ?n) ?e, i_cache := X, i_checksum := c\<rparr>"
  have mv: "(itable v ip)\<lparr>i_checksum := if regular (itable v ip) then file_sum v ip else i_checksum (itable v ip)\<rparr> = m"
    unfolding rv by (simp add: m_def c_def iv iu)
  obtain t where t: "writei ip (Kern src k) off n s = Ok (int e, t)" "tx_idle t" "itable t = (itable u)(ip := m)"
    "fs_same v t" "cur t = put_inode (sb s) m (cur u)"
    using writei_tail[OF v(1,2) okv v(3) szv, of "int e"] unfolding cal[symmetric] mv
    by (auto simp: returns_def v) (simp add: X)
  have uv: "fs_same u t" using fs_same_trans[OF fs_same_upd[OF fs_same_refl] t(4)[unfolded X]] .
  have im: "i_inum m = i_inum ?n" "file_blocks m = file_blocks (itable u ip)" "i_size m = i_size (itable v ip)"
    by (simp_all add: m_def iu iv file_blocks_def)
  have cs: "file_sum t ip = file_sum v ip"
  proof (rule file_sum_cong)
    fix pos assume "pos < i_size (itable v ip)"
    then have "pos < length (file_blocks (itable v ip)) * BSIZE" using szv(1) by (rule order_less_le_trans)
    then show "content t ip pos = content v ip pos"
      by (intro content_put_inode[OF okv v(2)]) (use s(4) in \<open>simp_all add: im v t(3,5) bv\<close>)
  qed (simp add: t(3) im)
  have "written s ip src k off e t"
    by (rule written_end[OF s(3,2,5) off(1) _ s(4) u(3) m_def _ t(2) uv t(3,5)])
      (use off(2) u(2) s(5) file_sum_bound[of v ip] dX in \<open>auto simp: c_def cs din_range_def\<close>)
  then show ?thesis using t(1) put_inode_blocks(1)[OF s(2), of m] s(4) by (auto simp: t(3,5) im)
qed

lemma writei_spec:
  assumes s: "tx_idle s" "layout_ok s" "file_ok s ip" "i_inum (itable s ip) < sb_ninodes (sb s)" "din_range (itable s ip)"
    and off: "off \<le> i_size (itable s ip)" "off + n \<le> MAXFILE * BSIZE" and room: "tx_room s (3 * nblk off n + 1)"
  shows "writei ip (Kern src k) off n s = Panic ''bmap: extent overflow'' \<and> length (file_blocks (itable s ip)) * BSIZE < off + n \<or>
    (\<exists>e t. writei ip (Kern src k) off n s = Ok (int e, t) \<and> e \<le> n \<and> written s ip src k off e t \<and>
      (e < n \<longrightarrow> (\<forall>b < sb_size (sb s). used (sb s) (cur t) b) \<and> off + e = length (file_blocks (itable t ip)) * BSIZE))"
proof -
  let ?n = "itable s ip"
  have ok: "blocks_ok s ip" "i_size ?n \<le> length (file_blocks ?n) * BSIZE" using s(3) by (simp_all add: file_ok_def)
  have small: "off + n < 2 ^ 32" using off(2) by (simp add: MAXFILE_def BSIZE_def)
  have "writei_loop ip (Kern src k) off (0 + n) 0 s = Panic ''bmap: extent overflow'' \<and>
      length (file_blocks ?n) * BSIZE < off + n \<or>
    returns (writei_loop ip (Kern src k) off (0 + n) 0 s) (wloop_post s ip src k off n 0 1)"
    by (rule writei_loop_spec[OF s(1,2) room ok(1)]) (use off(1) ok(2) in simp)
  then show ?thesis
  proof (elim disjE)
    assume "returns (writei_loop ip (Kern src k) off (0 + n) 0 s) (wloop_post s ip src k off n 0 1)"
    then obtain e u where u: "writei_loop ip (Kern src k) off n 0 s = Ok (e, off + e, u)" "e \<le> n" "wrote s ip src k off e u" "tx_room u 1"
      "e < n \<longrightarrow> (\<forall>b < sb_size (sb s). used (sb s) (cur u) b) \<and> off + e = length (file_blocks (itable u ip)) * BSIZE"
      by (auto simp: returns_def wloop_post_def)
    from writei_wrote[OF s off u(1-4)] u(2,5) show ?thesis by (elim exE conjE) auto
  qed (use off small in \<open>simp add: writei_def\<close>)
qed

text \<open>
  C15. \<^verbatim>\<open>writei\<close> from a kernel buffer, inside a transaction with room for its blocks: it writes the
  \<open>n\<close> bytes at \<open>off\<close>, growing the file when needed, or fewer when the disk becomes full. Afterwards
  the file holds exactly the new bytes there and its old bytes elsewhere; its size is the old one or the end of
  the write; the stored checksum is that of the new contents; the inode is on disk; no other inode in memory or on
  disk and no data block of another file changed. The one panic is that of \<^verbatim>\<open>bmap\<close> when the file
  grows past its extents.
\<close>

theorem writei_correct:
  assumes s: "tx_idle s" "layout_ok s" "file_ok s ip" "i_inum (itable s ip) < sb_ninodes (sb s)" "din_range (itable s ip)"
    and off: "off \<le> i_size (itable s ip)" "off + n \<le> MAXFILE * BSIZE" and room: "tx_room s (3 * nblk off n + 1)"
  shows "writei ip (Kern src k) off n s = Panic ''bmap: extent overflow'' \<and> length (file_blocks (itable s ip)) * BSIZE < off + n \<or>
    (\<exists>e t. writei ip (Kern src k) off n s = Ok (int e, t) \<and> e \<le> n \<and> written s ip src k off e t \<and>
      (e < n \<longrightarrow> (\<forall>b < sb_size (sb s). used (sb s) (cur t) b) \<and> off + e = length (file_blocks (itable t ip)) * BSIZE))"
  by (rule writei_spec[OF assms])

text \<open>
  C17. \<^verbatim>\<open>bmap\<close> implements a growing list of blocks: below the end it returns the block of the list and
  changes nothing; at the end it appends a block that was free, marks it used and zeroes it, or returns 0 and changes
  nothing when no block is free; it panics only when all extents are in use.
\<close>

theorem bmap_correct:
  assumes s: "tx_idle s" "layout_ok s" "tx_room s 2" "blocks_ok s ip" and bn: "bn \<le> length (file_blocks (itable s ip))"
  shows "if bn < length (file_blocks (itable s ip)) then bmap ip bn s = Ok (file_blocks (itable s ip) ! bn, s)
    else bmap ip bn s = Panic ''bmap: extent overflow'' \<and> (\<forall>k < NEXTENT. ext_len (i_extents (itable s ip) k) \<noteq> 0) \<or> (\<exists>b t. bmap ip bn s = Ok (b, t) \<and>
      (if \<forall>b < sb_size (sb s). used (sb s) (cur s) b then b = 0 \<and> cur t = cur s \<and> itable t = itable s
       else \<not> used (sb s) (cur s) b \<and> used (sb s) (cur t) b \<and> cur t b = (\<lambda>_. 0) \<and> blocks_ok t ip \<and>
         file_blocks (itable t ip) = file_blocks (itable s ip) @ [b]))"
proof (cases "bn < length (file_blocks (itable s ip))")
  case True
  then show ?thesis by (simp add: bmap_hit)
next
  case False
  then have bn: "bn = length (file_blocks (itable s ip))" using bn by simp
  have ip: "i_dev (itable s ip) = ROOTDEV" "ext_dense (itable s ip)" using s(4) by (simp_all add: blocks_ok_def)
  have "tx_room s (Suc (Suc 0))" using s(3) by (simp add: numeral_2_eq_2)
  from bmap_grow[OF s(1,2) this ip bn] show ?thesis
  proof (elim disjE)
    assume "returns (bmap ip bn s) (bmap_post s ip 0 (\<forall>b < sb_size (sb s). used (sb s) (cur s) b))"
    then obtain b t where t: "bmap ip bn s = Ok (b, t)" "bmap_post s ip 0 (\<forall>b < sb_size (sb s). used (sb s) (cur s) b) (b, t)"
      by (auto simp: returns_def)
    have new: "\<not> used (sb s) (cur s) b \<and> used (sb s) (cur t) b \<and> cur t b = (\<lambda>_. 0) \<and> blocks_ok t ip \<and>
        file_blocks (itable t ip) = file_blocks (itable s ip) @ [b]" if "grown s ip 0 b t"
      using grown_wrote[OF that s(4,2,1), of "\<lambda>_. 0" 0] that
      by (auto simp: grown_def wrote_def take_block_def)
    show ?thesis
      using False t new tx_same_fs[of s t]
      by (cases "\<forall>b < sb_size (sb s). used (sb s) (cur s) b") (simp_all add: bmap_post_def, blast)
  qed (use False in simp)
qed

text \<open>
  A new block gets an extent of its own while an extent is free, also when it follows the last one: the second
  loop of \<^verbatim>\<open>extent_append\<close>, which merges, is reached only when all extents are in use.
\<close>

theorem extent_append_no_merge:
  assumes "k < NEXTENT" "ext_len (i_extents n k) = 0" "\<And>j. j < k \<Longrightarrow> ext_len (i_extents n j) \<noteq> 0"
  shows "extent_append n b = Some (n\<lparr>i_extents := (i_extents n)(k := \<lparr>ext_start = b, ext_len = 1\<rparr>)\<rparr>)"
proof -
  have "find (\<lambda>k. ext_len (i_extents n k) = 0) [0..<NEXTENT] = Some k"
    unfolding find_Some_iff using assms by (intro exI[of _ k]) simp
  then show ?thesis by (simp add: extent_append_def)
qed

section \<open>Witnesses\<close>

text \<open>A file of one byte in block 36, open in slot 3 of the table; slot 4 is about to load the same inode.\<close>

definition one_disk :: "nat \<Rightarrow> bytes" where
  "one_disk = mini_disk(35 := (\<lambda>k. if k < 4 then 255 else if k = 4 then 31 else 0), 36 := (\<lambda>k. if k = 0 then 7 else 0))"

definition one_inode :: inode where
  "one_inode = zero_inode\<lparr>i_dev := ROOTDEV, i_inum := 1, i_ref := 1, i_valid := True, i_type := T_FILE, i_nlink := 1,
     i_size := 1, i_checksum := 8 * 2 ^ 16 + 8, i_extents := (i_extents zero_inode)(0 := \<lparr>ext_start = 36, ext_len = 1\<rparr>)\<rparr>"

definition one_fs :: fs_state where
  "one_fs = (log_boot (fs_state.fields mini_sb ((\<lambda>_. zero_inode)(3 := one_inode,
     4 := zero_inode\<lparr>i_dev := ROOTDEV, i_inum := 1, i_ref := 1\<rparr>))) one_disk)\<lparr>log_outstanding := 1\<rparr>"

lemma one_fs_simps [simp]:
  "sb one_fs = mini_sb" "lh_n one_fs = 0" "log_start one_fs = 2"
  "itable one_fs = (\<lambda>_. zero_inode)(3 := one_inode, 4 := zero_inode\<lparr>i_dev := ROOTDEV, i_inum := 1, i_ref := 1\<rparr>)"
  by (simp_all add: one_fs_def log_boot_def binit_eq fs_state.fields_def)

lemma one_fs_idle: "tx_idle one_fs"
proof -
  have "bnorm (one_disk b)" for b by (simp add: one_disk_def mini_disk_def bnorm_def BSIZE_def)
  then have "log_inv (log_boot x one_disk)" for x :: "'a"
    by (rule log_boot_log_inv) (simp add: one_disk_def mini_disk_def)
  then show ?thesis by (simp add: tx_idle_def in_tx_def one_fs_def log_boot_simps NBUF_def)
qed

lemma one_fs_cur: "cur one_fs = one_disk"
proof -
  have "logged one_fs = {}" "disk one_fs = one_disk" by (simp_all add: logged_def one_fs_def log_boot_simps)
  then show ?thesis
    using bio_clean[of "logged one_fs" one_fs] one_fs_idle in_txD(1)[of one_fs] by (auto simp: tx_idle_def)
qed

lemma one_used: "b < 64 \<Longrightarrow> used mini_sb one_disk b \<longleftrightarrow> b < 37"
proof -
  assume b: "b < 64"
  have m: "(255 :: byte) = mask 8" "(31 :: byte) = mask 5" by (simp_all add: mask_eq_exp_minus_1)
  have "BBLOCK b mini_sb = 35" "b mod BPB = b" using b by (simp_all add: BBLOCK_def mini_sb_def BPB_def BSIZE_def)
  then have "used mini_sb one_disk b \<longleftrightarrow> b div 8 < 4 \<or> b div 8 = 4 \<and> b mod 8 < 5"
    by (auto simp: used_def bm_bit_def one_disk_def m bit_mask_iff)
  also have "\<dots> \<longleftrightarrow> b < 37" by presburger
  finally show ?thesis .
qed

lemma one_fs_layout: "layout_ok one_fs"
  by (simp add: layout_ok_def one_fs_cur one_used mini_sb_simps LOGBLOCKS_def IPB_def DINODE_SIZE_def
      NEXTENT_def BSIZE_def)

lemma one_blocks: "file_blocks one_inode = [36]"
  by (simp add: file_blocks_def blocks_from_def ext_range_def one_inode_def zero_inode_def NEXTENT_def upt_rec)

lemma one_file: "file_ok one_fs 3" "blocks_ok one_fs 3"
proof -
  show "blocks_ok one_fs 3"
    by (simp add: blocks_ok_def one_blocks mini_sb_simps one_fs_cur one_used ext_dense_def)
      (simp add: one_inode_def zero_inode_def)
  then show "file_ok one_fs 3" by (simp add: file_ok_def one_blocks) (simp add: one_inode_def BSIZE_def MAXFILE_def)
qed

lemma one_inode_simps [simp]:
  "i_size one_inode = 1" "i_dev one_inode = ROOTDEV" "i_inum one_inode = 1" "i_type one_inode = T_FILE"
  by (simp_all add: one_inode_def)

lemma one_content: "content one_fs 3 0 = 7"
  by (simp add: content_def one_blocks one_fs_cur one_disk_def)

lemma one_sum: "file_sum one_fs 3 = 8 * 2 ^ 16 + 8"
proof -
  have "unat (7 :: byte) = 7" by simp
  then show ?thesis by (simp add: file_sum_def adler32_update_def one_content)
qed

lemma one_range: "din_range one_inode" "tx_room one_fs n \<longleftrightarrow> n < NBUF"
  by (simp_all add: din_range_def one_inode_def zero_inode_def T_FILE_def tx_room_def)

theorem readi_correct_witness:
  "\<exists>t. readi 3 (Kern (\<lambda>_. 0) 10) 0 5 one_fs = Ok (1, Kern (blit (\<lambda>_. 0) 10 (content one_fs 3) 0 1) 11, t) \<and>
     content one_fs 3 0 = 7 \<and> bio_checksum_errors t = bio_checksum_errors one_fs"
  using readi_correct[OF tx_rd_idle[OF one_fs_idle] one_file(1), of 0 5 "\<lambda>_. 0" 10] one_content
  by (auto simp: one_sum) (simp add: one_inode_def)

theorem iupdate_ilock_witness:
  "\<exists>t u. iupdate 3 one_fs = Ok t \<and> ilock 4 t = Ok u \<and> same_dinode one_inode (itable u 4) \<and> i_size (itable u 4) = 1"
proof -
  have "\<exists>t u. iupdate 3 one_fs = Ok t \<and> ilock 4 t = Ok u \<and> same_dinode (itable one_fs 3) (itable u 4) \<and> i_valid (itable u 4) \<and>
    (\<forall>i a. i \<noteq> i_inum (itable one_fs 3) \<and> a < DINODE_SIZE \<longrightarrow>
       cur t (IBLOCK i (sb one_fs)) (din_off i + a) = cur one_fs (IBLOCK i (sb one_fs)) (din_off i + a))"
    by (rule iupdate_ilock[OF one_fs_idle one_fs_layout _ one_file(2)])
      (simp_all add: one_range mini_sb_simps NBUF_def T_FILE_def zero_inode_def)
  then show ?thesis by (auto simp: same_dinode_def)
qed

theorem writei_correct_witness:
  "\<exists>t. writei 3 (Kern (\<lambda>_. 9) 0) 1 2 one_fs = Ok (2, t) \<and> written one_fs 3 (\<lambda>_. 9) 0 1 2 t \<and>
     i_size (itable t 3) = 3 \<and> content t 3 0 = 7 \<and> content t 3 2 = 9"
proof -
  have part: "e = 2" if "e \<le> 2" "e < 2 \<longrightarrow> P \<and> 1 + e = l * BSIZE" for e l P
    using that by (cases l) (auto simp: BSIZE_def)
  have "writei 3 (Kern (\<lambda>_. 9) 0) 1 2 one_fs = Panic ''bmap: extent overflow'' \<and>
      length (file_blocks (itable one_fs 3)) * BSIZE < 1 + 2 \<or>
    (\<exists>e t. writei 3 (Kern (\<lambda>_. 9) 0) 1 2 one_fs = Ok (int e, t) \<and> e \<le> 2 \<and> written one_fs 3 (\<lambda>_. 9) 0 1 e t \<and>
      (e < 2 \<longrightarrow> (\<forall>b < sb_size (sb one_fs). used (sb one_fs) (cur t) b) \<and>
        1 + e = length (file_blocks (itable t 3)) * BSIZE))"
    by (rule writei_correct[OF one_fs_idle one_fs_layout one_file(1)])
      (simp_all add: one_range mini_sb_simps nblk_def NBUF_def BSIZE_def MAXFILE_def)
  then obtain e t where t: "writei 3 (Kern (\<lambda>_. 9) 0) 1 2 one_fs = Ok (int e, t)" "written one_fs 3 (\<lambda>_. 9) 0 1 e t" "e = 2"
  proof (elim disjE exE conjE)
    assume "length (file_blocks (itable one_fs 3)) * BSIZE < 1 + 2"
    then show thesis by (simp add: one_blocks BSIZE_def)
  qed (use part in blast)
  from t(2) have "i_size (itable t 3) = 3" "\<forall>pos < 3. content t 3 pos = (if 1 \<le> pos \<and> pos < 3 then 9 else content one_fs 3 pos)"
    unfolding t(3) written_def by (simp_all add: eval_nat_numeral)
  then show ?thesis using t by (auto simp: one_content)
qed

theorem bmap_correct_witness:
  "bmap 3 0 one_fs = Ok (36, one_fs) \<and> (\<exists>b t. bmap 3 1 one_fs = Ok (b, t) \<and> \<not> used mini_sb one_disk b \<and> file_blocks (itable t 3) = [36, b])"
proof
  have r: "tx_room one_fs 2" by (simp add: one_range NBUF_def)
  show "bmap 3 0 one_fs = Ok (36, one_fs)"
    using bmap_correct[OF one_fs_idle one_fs_layout r one_file(2), of 0] by (simp add: one_blocks)
  have free: "\<not> (\<forall>b<64. used mini_sb one_disk b)" using one_used[of 40] by (auto intro!: exI[of _ 40])
  have ext: "\<not> (\<forall>k < NEXTENT. ext_len (i_extents one_inode k) \<noteq> 0)"
    by (simp add: NEXTENT_def one_inode_def zero_inode_def) (rule exI[of _ 1], simp)
  show "\<exists>b t. bmap 3 1 one_fs = Ok (b, t) \<and> \<not> used mini_sb one_disk b \<and> file_blocks (itable t 3) = [36, b]"
    using bmap_correct[OF one_fs_idle one_fs_layout r one_file(2), of 1] free ext
    by (auto simp: one_blocks one_fs_cur mini_sb_simps)
qed

end
