(* ===== verification/Fs_Names.thy ===== *)
theory Fs_Names
  imports Fs_Dir Fs_Content
begin

text \<open>
  What a directory means: the map from the names of its entries to their inode numbers and
  offsets. Lookup, through the directory cache or the entries themselves, computes this map, and
  \<^verbatim>\<open>dirlink\<close> updates it at one name.
\<close>

section \<open>Entries and the map they stand for\<close>

definition dirent :: "'a fs_state_scheme \<Rightarrow> nat \<Rightarrow> nat \<Rightarrow> bytes" where
  "dirent s dp k = blit (\<lambda>_. 0) 0 (content s dp) (k * DIRENT_SIZE) DIRENT_SIZE"

definition live :: "'a fs_state_scheme \<Rightarrow> nat \<Rightarrow> nat \<Rightarrow> bool" where
  "live s dp k \<longleftrightarrow> de_inum (dirent s dp k) \<noteq> 0"

definition ent_name :: "'a fs_state_scheme \<Rightarrow> nat \<Rightarrow> nat \<Rightarrow> byte list" where
  "ent_name s dp k = cstr (de_name (dirent s dp k)) DIRSIZ"

definition ent :: "'a fs_state_scheme \<Rightarrow> nat \<Rightarrow> nat \<Rightarrow> nat \<times> nat" where
  "ent s dp k = (de_inum (dirent s dp k), k * DIRENT_SIZE)"

text \<open>The first of the entries \<open>ks\<close> in use with a given name.\<close>

definition first_ent :: "'a fs_state_scheme \<Rightarrow> nat \<Rightarrow> nat list \<Rightarrow> byte list \<Rightarrow> (nat \<times> nat) option" where
  "first_ent s dp ks nm = map_option (ent s dp) (find (\<lambda>k. live s dp k \<and> ent_name s dp k = nm) ks)"

definition nents :: "'a fs_state_scheme \<Rightarrow> nat \<Rightarrow> nat" where
  "nents s dp = i_size (itable s dp) div DIRENT_SIZE"

definition dirmap :: "'a fs_state_scheme \<Rightarrow> nat \<Rightarrow> byte list \<rightharpoonup> nat \<times> nat" where
  "dirmap s dp = first_ent s dp [0..<nents s dp]"

text \<open>A sound directory: a sound file of whole entries.\<close>

definition dir_ok :: "'a fs_state_scheme \<Rightarrow> nat \<Rightarrow> bool" where
  "dir_ok s dp \<longleftrightarrow> file_ok s dp \<and> i_type (itable s dp) = T_DIR \<and> DIRENT_SIZE dvd i_size (itable s dp)"

text \<open>
  The directory cache describes the entries in use among the first \<open>m\<close>; all of them unless it
  says that it was cut off.
\<close>

definition cached :: "'a fs_state_scheme \<Rightarrow> nat \<Rightarrow> nat \<Rightarrow> bool" where
  "cached s dp m \<longleftrightarrow>
     (let c = i_cache (itable s dp); ks = filter (live s dp) [0..<m] in
      dc_nentries c = length ks \<and>
      (\<forall>j < length ks. (dce_inum (dc_entries c j), dce_off (dc_entries c j)) = ent s dp (ks ! j) \<and>
         cstr (dce_name (dc_entries c j)) DIRSIZ = ent_name s dp (ks ! j)))"

definition cache_ok :: "'a fs_state_scheme \<Rightarrow> nat \<Rightarrow> bool" where
  "cache_ok s dp \<longleftrightarrow>
     (let c = i_cache (itable s dp) in
      dc_valid c \<and> dc_size_snapshot c = i_size (itable s dp) \<longrightarrow>
        (\<exists>m \<le> nents s dp. cached s dp m \<and> (dc_truncated c \<or> m = nents s dp)))"

section \<open>Reading entries\<close>

text \<open>Steps that change the directory cache of \<open>dp\<close> and nothing else the file system stores.\<close>

definition dir_same :: "nat \<Rightarrow> 'a fs_state_scheme \<Rightarrow> 'a fs_state_scheme \<Rightarrow> bool" where
  "dir_same dp s t \<longleftrightarrow> cur t = cur s \<and> sb t = sb s \<and> log_start t = log_start s \<and> lh_n t = lh_n s \<and> rd_idle t \<and>
     (tx_idle s \<longrightarrow> tx_idle t) \<and> (\<exists>c. itable t = (itable s)(dp := (itable s dp)\<lparr>i_cache := c\<rparr>))"

lemma dir_same_refl: "rd_idle s \<Longrightarrow> dir_same dp s s"
  by (auto simp: dir_same_def intro!: exI[of _ "i_cache (itable s dp)"])

lemma dir_same_trans: "dir_same dp s t \<Longrightarrow> dir_same dp t u \<Longrightarrow> dir_same dp s u"
  by (auto simp: dir_same_def)

lemma dir_same_cache:
  "rd_idle s \<Longrightarrow> dir_same dp s (upd_inode dp (\<lambda>n. n\<lparr>i_cache := f n\<rparr>) s)"
  by (auto simp: dir_same_def upd_inode_def rd_idle_def tx_idle_def in_tx_def)

lemma dir_sameD:
  assumes "dir_same dp s t"
  shows "content t dp = content s dp" "i_size (itable t dp) = i_size (itable s dp)" "i_type (itable t dp) = i_type (itable s dp)"
    "file_ok t dp = file_ok s dp" "dirent t dp = dirent s dp" "live t dp = live s dp" "ent_name t dp = ent_name s dp"
    "ent t dp = ent s dp" "nents t dp = nents s dp" "dirmap t dp = dirmap s dp" "dir_ok t dp = dir_ok s dp" "rd_idle t"
proof -
  obtain c where t: "cur t = cur s" "sb t = sb s" "itable t = (itable s)(dp := (itable s dp)\<lparr>i_cache := c\<rparr>)" "rd_idle t"
    using assms by (auto simp: dir_same_def)
  show "rd_idle t" by (rule t)
  show c: "content t dp = content s dp" by (rule ext) (simp add: content_def t file_blocks_def)
  show z: "i_size (itable t dp) = i_size (itable s dp)" and ty: "i_type (itable t dp) = i_type (itable s dp)" by (simp_all add: t)
  show f: "file_ok t dp = file_ok s dp" by (simp add: file_ok_def blocks_ok_def t file_blocks_def ext_dense_def)
  show d: "dirent t dp = dirent s dp" by (rule ext) (simp add: dirent_def c)
  show l: "live t dp = live s dp" and n: "ent_name t dp = ent_name s dp" and e: "ent t dp = ent s dp" and k: "nents t dp = nents s dp"
    by (simp_all add: fun_eq_iff live_def ent_name_def ent_def nents_def d z)
  show "dirmap t dp = dirmap s dp" by (simp add: dirmap_def first_ent_def fun_eq_iff l n e k)
  show "dir_ok t dp = dir_ok s dp" by (simp add: dir_ok_def f ty z)
qed

lemma tx_same_core:
  assumes "tx_same s (t\<lparr>bio_checksum_errors := e\<rparr>)" "rd_idle t"
  shows "log_start t = log_start s" "sb t = sb s" "tx_idle s \<Longrightarrow> tx_idle t"
proof -
  have f: "log_frame s (t\<lparr>bio_checksum_errors := e\<rparr>)" using assms(1) by (simp add: tx_same_def)
  show "log_start t = log_start s" "sb t = sb s" using log_frameD(1)[OF f] tx_same_fs(1)[OF assms(1)] by simp_all
  show "tx_idle t" if "tx_idle s"
    using log_frameD(2,3)[OF f] that assms(2) by (simp add: tx_idle_def rd_idle_def in_tx_def)
qed

lemma ent_offset: "dir_ok s dp \<Longrightarrow> k < nents s dp \<Longrightarrow> k * DIRENT_SIZE + DIRENT_SIZE \<le> i_size (itable s dp)"
  unfolding dir_ok_def nents_def by (metis Suc_leI add.commute dvd_div_mult_self mult_Suc mult_le_mono1)

lemma read_de_spec:
  assumes "rd_idle s" "dir_ok s dp" "k < nents s dp"
  shows "\<exists>t. read_de msg dp (k * DIRENT_SIZE) s = Ok (dirent s dp k, t) \<and> dir_same dp s t \<and> itable t = itable s"
proof -
  have f: "file_ok s dp" using assms(2) by (simp add: dir_ok_def)
  have o: "k * DIRENT_SIZE + DIRENT_SIZE \<le> i_size (itable s dp)" by (rule ent_offset[OF assms(2,3)])
  have z: "i_size (itable s dp) < 2 ^ 32" using f by (auto simp: file_ok_def MAXFILE_def BSIZE_def)
  have "k * DIRENT_SIZE \<le> i_size (itable s dp)" "k * DIRENT_SIZE + DIRENT_SIZE < 2 ^ 32" using o z by simp_all
  from readi_spec[OF assms(1) f this, of "\<lambda>_. 0" 0] obtain t where t:
    "readi dp (Kern (\<lambda>_. 0) 0) (k * DIRENT_SIZE) DIRENT_SIZE s = Ok (int DIRENT_SIZE, Kern (dirent s dp k) DIRENT_SIZE, t)"
    "cur t = cur s" "itable t = itable s" "rd_idle t" "lh_n t = lh_n s"
    "tx_same s (t\<lparr>bio_checksum_errors := bio_checksum_errors s\<rparr>)"
    using o by (auto simp: dirent_def min_def)
  have "dir_same dp s t"
    unfolding dir_same_def using t(2-5) tx_same_core[OF t(6,4)] by (auto intro!: exI[of _ "i_cache (itable s dp)"])
  then show ?thesis using t(1,3) by (auto simp: read_de_def)
qed

section \<open>The directory cache\<close>

lemma cached_cong:
  assumes "dirent t dp = dirent s dp" "dc_nentries (i_cache (itable t dp)) = dc_nentries (i_cache (itable s dp))"
    "dc_entries (i_cache (itable t dp)) = dc_entries (i_cache (itable s dp))"
  shows "cached t dp m = cached s dp m"
  using assms by (simp add: cached_def live_def[abs_def] ent_def ent_name_def Let_def)

lemma cached_skip: "cached s dp m \<Longrightarrow> \<not> live s dp m \<Longrightarrow> cached s dp (Suc m)"
  by (simp add: cached_def)

definition cache_entry :: "bytes \<Rightarrow> nat \<Rightarrow> dircache \<Rightarrow> dircache" where
  "cache_entry de off c =
     c\<lparr>dc_nentries := dc_nentries c + 1,
       dc_entries := (dc_entries c)(dc_nentries c :=
         \<lparr>dce_name = blit (dce_name (dc_entries c (dc_nentries c))) 0 (de_name de) 0 DIRSIZ,
          dce_inum = de_inum de, dce_off = off\<rparr>)\<rparr>"

lemma cstr_blit: "cstr (blit b 0 f 0 n) n = cstr f n"
  unfolding cstr_def by (intro arg_cong[where f = "takeWhile _"] map_cong) (auto simp: blit_def)

lemma cached_add:
  assumes "cached s dp m" "live s dp m" "dirent t dp = dirent s dp"
    "i_cache (itable t dp) = cache_entry (dirent s dp m) (m * DIRENT_SIZE) (i_cache (itable s dp))"
  shows "cached t dp (Suc m)"
proof -
  have l: "live t dp = live s dp" "ent t dp = ent s dp" "ent_name t dp = ent_name s dp"
    by (simp_all only: live_def[abs_def] ent_def[abs_def] ent_name_def[abs_def] assms(3))
  show ?thesis
    using assms(1,2) unfolding cached_def Let_def l assms(4)
    by (auto simp: cache_entry_def nth_append less_Suc_eq ent_def ent_name_def cstr_blit)
qed

lemma rebuild_loop_spec:
  assumes "rd_idle s" "dir_ok s dp" "cached s dp m" "m \<le> nents s dp" "\<not> dc_truncated (i_cache (itable s dp))"
  shows "\<exists>t m'. rebuild_loop (map (\<lambda>k. k * DIRENT_SIZE) [m..<nents s dp]) dp s = Ok t \<and> dir_same dp s t \<and>
    m' \<le> nents s dp \<and> cached t dp m' \<and> (dc_truncated (i_cache (itable t dp)) \<or> m' = nents s dp) \<and>
    dc_size_snapshot (i_cache (itable t dp)) = dc_size_snapshot (i_cache (itable s dp))"
  using assms
proof (induction "nents s dp - m" arbitrary: m s)
  case 0
  then show ?case using dir_same_refl by auto
next
  case (Suc n)
  then have m: "m < nents s dp" "[m..<nents s dp] = m # [Suc m..<nents s dp]" by (auto simp: upt_rec)
  show ?case
  proof (cases "DIRCACHE_MAX \<le> dc_nentries (i_cache (itable s dp))")
    case True
    let ?t = "upd_inode dp (\<lambda>n. n\<lparr>i_cache := (i_cache n)\<lparr>dc_truncated := True\<rparr>\<rparr>) s"
    have "dir_same dp s ?t" by (rule dir_same_cache[OF Suc.prems(1)])
    moreover have "cached ?t dp m"
      using Suc.prems(3) cached_cong[of ?t dp s] dir_sameD(5)[OF \<open>dir_same dp s ?t\<close>] by (simp add: upd_inode_def)
    ultimately show ?thesis unfolding m(2) using True m(1)
      by (intro exI[of _ ?t] exI[of _ m]) (simp add: upd_inode_def)
  next
    case False
    obtain u where u: "read_de ''dircache rebuild read'' dp (m * DIRENT_SIZE) s = Ok (dirent s dp m, u)" "dir_same dp s u"
      "itable u = itable s" using read_de_spec[OF Suc.prems(1,2) m(1)] by blast
    define v where "v = (if live s dp m then upd_inode dp (\<lambda>n. n\<lparr>i_cache := cache_entry (dirent s dp m) (m * DIRENT_SIZE) (i_cache n)\<rparr>) u else u)"
    have e: "rebuild_loop (map (\<lambda>k. k * DIRENT_SIZE) [m..<nents s dp]) dp s =
        rebuild_loop (map (\<lambda>k. k * DIRENT_SIZE) [Suc m..<nents s dp]) dp v"
      unfolding m(2) using False u(1) by (simp add: v_def live_def cache_entry_def Let_def)
    have sv: "dir_same dp s v"
      unfolding v_def using u(2) dir_same_trans[OF u(2) dir_same_cache[OF dir_sameD(12)[OF u(2)]]] by simp
    note d = dir_sameD[OF sv]
    have cv: "cached v dp (Suc m)"
    proof (cases "live s dp m")
      case True
      then show ?thesis by (intro cached_add[OF Suc.prems(3) _ d(5)]) (simp_all add: v_def upd_inode_def u(3))
    next
      case False
      then show ?thesis using cached_skip[OF Suc.prems(3)] cached_cong[of v dp s] u(3) d(5) by (simp add: v_def)
    qed
    have same: "dc_truncated (i_cache (itable v dp)) = dc_truncated (i_cache (itable s dp))"
      "dc_size_snapshot (i_cache (itable v dp)) = dc_size_snapshot (i_cache (itable s dp))"
      by (simp_all add: v_def upd_inode_def cache_entry_def u(3))
    have "n = nents v dp - Suc m" "dir_ok v dp" "Suc m \<le> nents v dp" "\<not> dc_truncated (i_cache (itable v dp))"
      using Suc.hyps(2) Suc.prems(2,5) m(1) same by (simp_all add: d(9,11))
    from Suc.hyps(1)[OF this(1) d(12) this(2) cv this(3,4)] show ?thesis
      unfolding e d(9) same(2) using dir_same_trans[OF sv] by blast
  qed
qed

lemma dir_offs_ents: "dir_ok s dp \<Longrightarrow> dir_offs (i_size (itable s dp)) = map (\<lambda>k. k * DIRENT_SIZE) [0..<nents s dp]"
proof -
  assume "dir_ok s dp"
  then obtain k where "i_size (itable s dp) = DIRENT_SIZE * k" by (auto simp: dir_ok_def elim: dvdE)
  moreover have "(DIRENT_SIZE * k + DIRENT_SIZE - 1) div DIRENT_SIZE = k" by (simp add: DIRENT_SIZE_def DIRSIZ_def)
  moreover have "DIRENT_SIZE \<noteq> 0" by (simp add: DIRENT_SIZE_def)
  ultimately show ?thesis by (simp add: dir_offs_def nents_def)
qed

lemma dircache_rebuild_spec:
  assumes "rd_idle s" "dir_ok s dp"
  shows "\<exists>t m. dircache_rebuild dp s = Ok t \<and> dir_same dp s t \<and> m \<le> nents s dp \<and> cached t dp m \<and> cache_ok t dp"
proof -
  let ?f = "\<lambda>n. n\<lparr>i_cache := (i_cache n)\<lparr>dc_valid := False, dc_truncated := False,
                dc_size_snapshot := i_size n, dc_nentries := 0\<rparr>\<rparr>" and ?g = "\<lambda>n. n\<lparr>i_cache := (i_cache n)\<lparr>dc_valid := True\<rparr>\<rparr>"
  let ?s = "upd_inode dp ?f s"
  have s: "dir_same dp s ?s" by (rule dir_same_cache[OF assms(1)])
  note d = dir_sameD[OF s]
  have "cached ?s dp 0" "\<not> dc_truncated (i_cache (itable ?s dp))" "dir_ok ?s dp"
    using assms(2) by (simp_all add: cached_def upd_inode_def d(11)[unfolded upd_inode_def])
  from rebuild_loop_spec[OF d(12) this(3,1) _ this(2)] obtain t m where t:
    "rebuild_loop (map (\<lambda>k. k * DIRENT_SIZE) [0..<nents s dp]) dp ?s = Ok t" "dir_same dp ?s t" "m \<le> nents s dp" "cached t dp m"
    "dc_truncated (i_cache (itable t dp)) \<or> m = nents s dp" "dc_size_snapshot (i_cache (itable t dp)) = i_size (itable s dp)"
    unfolding d(9) by (auto simp: upd_inode_def)
  let ?u = "upd_inode dp ?g t"
  have "dir_same dp t ?u" by (rule dir_same_cache[OF dir_sameD(12)[OF t(2)]])
  then have u: "dir_same dp s ?u" using dir_same_trans s t(2) by blast
  have "dirent ?u dp = dirent t dp" using dir_sameD(5)[OF u] dir_sameD(5)[OF t(2)] d(5) by simp
  then have c: "cached ?u dp m" using t(4) cached_cong[of ?u dp t] by (simp add: upd_inode_def)
  have "cache_ok ?u dp"
    unfolding cache_ok_def Let_def dir_sameD(9)[OF u] using c t(3,5) by (auto simp: upd_inode_def)
  moreover have "dircache_rebuild dp s = Ok ?u"
    unfolding dircache_rebuild_def using t(1) dir_offs_ents[OF assms(2)] d(2) by (simp add: Let_def)
  ultimately show ?thesis using u c t(3) by blast
qed

lemma find_map: "find P (map f xs) = map_option f (find (\<lambda>x. P (f x)) xs)"
  by (induction xs) auto

lemma find_filter: "find P (filter Q xs) = find (\<lambda>x. Q x \<and> P x) xs"
  by (induction xs) auto

lemma find_cong_set: "(\<And>x. x \<in> set xs \<Longrightarrow> P x = Q x) \<Longrightarrow> find P xs = find Q xs"
  by (induction xs) auto

lemma find_append: "find P (xs @ ys) = (case find P xs of None \<Rightarrow> find P ys | Some x \<Rightarrow> Some x)"
  by (induction xs) auto

lemma namecmp_zero: "namecmp a b = 0 \<longleftrightarrow> cstr a DIRSIZ = cstr b DIRSIZ"
  by (simp add: namecmp_def strncmp_zero)

lemma cache_find_spec:
  assumes "cached s dp m"
  shows "cache_find (i_cache (itable s dp)) name = first_ent s dp [0..<m] (cstr name DIRSIZ)"
proof -
  let ?c = "i_cache (itable s dp)" and ?ks = "filter (live s dp) [0..<m]" and ?nm = "cstr name DIRSIZ"
  have c: "dc_nentries ?c = length ?ks" "\<And>j. j < length ?ks \<Longrightarrow> (dce_inum (dc_entries ?c j), dce_off (dc_entries ?c j)) = ent s dp (?ks ! j)"
    "\<And>j. j < length ?ks \<Longrightarrow> cstr (dce_name (dc_entries ?c j)) DIRSIZ = ent_name s dp (?ks ! j)"
    using assms by (auto simp: cached_def Let_def)
  have e: "find (\<lambda>j. namecmp name (dce_name (dc_entries ?c j)) = 0) [0..<length ?ks] = find (\<lambda>j. ent_name s dp (?ks ! j) = ?nm) [0..<length ?ks]"
    by (rule find_cong_set) (use c(3) in \<open>auto simp: namecmp_zero\<close>)
  have "first_ent s dp [0..<m] ?nm = map_option (ent s dp) (find (\<lambda>k. ent_name s dp k = ?nm) ?ks)"
    by (simp add: first_ent_def find_filter)
  also have "\<dots> = map_option (ent s dp) (find (\<lambda>k. ent_name s dp k = ?nm) (map ((!) ?ks) [0..<length ?ks]))"
    by (simp only: map_nth)
  also have "\<dots> = map_option (\<lambda>j. ent s dp (?ks ! j)) (find (\<lambda>j. ent_name s dp (?ks ! j) = ?nm) [0..<length ?ks])"
    by (simp add: find_map option.map_comp comp_def del: map_nth)
  also have "\<dots> = cache_find ?c name"
    unfolding cache_find_def c(1) e using c(2) by (intro option.map_cong) (auto simp: find_Some_iff)
  finally show ?thesis by simp
qed

lemma first_ent_prefix: "m \<le> n \<Longrightarrow> first_ent s dp [0..<m] nm = Some x \<Longrightarrow> first_ent s dp [0..<n] nm = Some x"
  using upt_add_eq_append[of 0 m "n - m"] by (auto simp: first_ent_def find_append)

lemma dircache_lookup_spec:
  assumes "rd_idle s" "dir_ok s dp" "cache_ok s dp"
  shows "\<exists>r t. dircache_lookup dp name s = Ok (r, t) \<and> dir_same dp s t \<and> cache_ok t dp \<and>
    (\<forall>x. r = Some x \<longrightarrow> dirmap s dp (cstr name DIRSIZ) = Some x)"
proof -
  let ?c = "i_cache (itable s dp)" and ?nm = "cstr name DIRSIZ"
  obtain t m where t: "dircache_rebuild dp s = Ok t" "dir_same dp s t" "m \<le> nents s dp" "cached t dp m" "cache_ok t dp"
    using dircache_rebuild_spec[OF assms(1,2)] by blast
  have "first_ent t dp [0..<m] ?nm = Some x \<Longrightarrow> dirmap t dp ?nm = Some x" for x
    unfolding dirmap_def using first_ent_prefix t(3) dir_sameD(9)[OF t(2)] by metis
  then have r: "cache_find (i_cache (itable t dp)) name = Some x \<Longrightarrow> dirmap s dp ?nm = Some x" for x
    using cache_find_spec[OF t(4)] dir_sameD(10)[OF t(2)] by simp
  show ?thesis
  proof (cases "dc_valid ?c \<and> dc_size_snapshot ?c = i_size (itable s dp)")
    case True
    then obtain m where m: "m \<le> nents s dp" "cached s dp m" using assms(3) by (auto simp: cache_ok_def Let_def)
    then have "cache_find ?c name = Some x \<Longrightarrow> dirmap s dp ?nm = Some x" for x
      using cache_find_spec[OF m(2)] first_ent_prefix[OF m(1)] by (simp add: dirmap_def)
    then show ?thesis
      using True t r dir_same_refl[OF assms(1)] assms(3)
      by (cases "cache_find ?c name") (auto simp: dircache_lookup_def Let_def)
  qed (use t r in \<open>auto simp: dircache_lookup_def Let_def\<close>)
qed

section \<open>Lookup\<close>

lemma lookup_loop_spec:
  assumes "rd_idle s" "dir_ok s dp" "\<forall>k\<in>set ks. k < nents s dp"
  shows "\<exists>t. lookup_loop (map (\<lambda>k. k * DIRENT_SIZE) ks) dp name s = Ok (first_ent s dp ks (cstr name DIRSIZ), t) \<and>
    dir_same dp s t \<and> itable t = itable s"
  using assms
proof (induction ks arbitrary: s)
  case Nil
  then show ?case using dir_same_refl by (auto simp: first_ent_def)
next
  case (Cons k ks)
  obtain u where u: "read_de ''dirlookup read'' dp (k * DIRENT_SIZE) s = Ok (dirent s dp k, u)" "dir_same dp s u" "itable u = itable s"
    using read_de_spec[OF Cons.prems(1,2), of k] Cons.prems(3) by fastforce
  note d = dir_sameD[OF u(2)]
  obtain t where t: "lookup_loop (map (\<lambda>k. k * DIRENT_SIZE) ks) dp name u = Ok (first_ent u dp ks (cstr name DIRSIZ), t)"
    "dir_same dp u t" "itable t = itable u"
    using Cons.IH[OF d(12)] Cons.prems(2,3) unfolding d(9,11) by force
  have "first_ent u dp ks = first_ent s dp ks" by (rule ext) (simp add: first_ent_def d(6-8))
  then show ?case
    using u t dir_same_trans[OF u(2) t(2)]
    by (auto simp: first_ent_def ent_def live_def namecmp_zero ent_name_def)
qed

lemma dirlookup_spec:
  assumes "rd_idle s" "dir_ok s dp" "cache_ok s dp"
  shows "\<exists>t. dir_same dp s t \<and> cache_ok t dp \<and>
    dirlookup dp name s = (case dirmap s dp (cstr name DIRSIZ) of
        None \<Rightarrow> Ok (None, t)
      | Some (inum, off) \<Rightarrow> kbind (iget (i_dev (itable s dp)) inum t) (\<lambda>(ip, u). Ok (Some (ip, off), u)))"
proof -
  obtain r t where t: "dircache_lookup dp name s = Ok (r, t)" "dir_same dp s t" "cache_ok t dp"
    "\<And>x. r = Some x \<Longrightarrow> dirmap s dp (cstr name DIRSIZ) = Some x"
    using dircache_lookup_spec[OF assms] by blast
  note d = dir_sameD[OF t(2)]
  have "dir_ok t dp" using assms(2) d(11) by simp
  then obtain u where u: "lookup_loop (dir_offs (i_size (itable t dp))) dp name t = Ok (dirmap t dp (cstr name DIRSIZ), u)"
    "dir_same dp t u" "itable u = itable t"
    using lookup_loop_spec[OF d(12), of dp "[0..<nents t dp]" name] by (auto simp: dir_offs_ents dirmap_def)
  have dev: "i_dev (itable t dp) = i_dev (itable s dp)" using t(2) by (auto simp: dir_same_def)
  have cu: "cache_ok u dp"
    using t(3) cached_cong[of u dp t] dir_sameD[OF u(2)] by (simp add: cache_ok_def u(3))
  have ty: "i_type (itable s dp) = T_DIR" using assms(2) by (simp add: dir_ok_def)
  show ?thesis
  proof (cases r)
    case None
    then show ?thesis
      using t(1) u dev cu dir_same_trans[OF t(2) u(2)]
      by (intro exI[of _ u]) (auto simp: dirlookup_def ty d(10) split: option.splits)
  next
    case (Some x)
    then show ?thesis
      using t dev by (intro exI[of _ t]) (auto simp: dirlookup_def ty split: option.splits)
  qed
qed

section \<open>Insertion\<close>

lemma free_slot_spec:
  assumes "rd_idle s" "dir_ok s dp" "m \<le> nents s dp"
  shows "\<exists>k t. free_slot_loop (map (\<lambda>k. k * DIRENT_SIZE) [m..<nents s dp]) (m * DIRENT_SIZE) dp s = Ok (k * DIRENT_SIZE, t) \<and>
    k \<le> nents s dp \<and> (k < nents s dp \<longrightarrow> \<not> live s dp k) \<and> dir_same dp s t \<and> itable t = itable s"
  using assms
proof (induction "nents s dp - m" arbitrary: m s)
  case 0
  then show ?case using dir_same_refl by auto
next
  case (Suc n)
  then have m: "m < nents s dp" "[m..<nents s dp] = m # [Suc m..<nents s dp]" by (auto simp: upt_rec)
  obtain u where u: "read_de ''dirlink read'' dp (m * DIRENT_SIZE) s = Ok (dirent s dp m, u)" "dir_same dp s u" "itable u = itable s"
    using read_de_spec[OF Suc.prems(1,2) m(1)] by blast
  note d = dir_sameD[OF u(2)]
  show ?case
  proof (cases "live s dp m")
    case True
    have "n = nents u dp - Suc m" "dir_ok u dp" "Suc m \<le> nents u dp" using Suc.hyps(2) Suc.prems(2) m(1) by (simp_all add: d(9,11))
    from Suc.hyps(1)[OF this(1) d(12) this(2,3)] obtain k t where
      "free_slot_loop (map (\<lambda>k. k * DIRENT_SIZE) [Suc m..<nents s dp]) (Suc m * DIRENT_SIZE) dp u = Ok (k * DIRENT_SIZE, t)"
      "k \<le> nents s dp" "k < nents s dp \<longrightarrow> \<not> live s dp k" "dir_same dp u t" "itable t = itable s"
      unfolding d(6,9) u(3) by blast
    then show ?thesis unfolding m(2) using u(1) True dir_same_trans[OF u(2)] by (auto simp: live_def add.commute)
  next
    case False
    then show ?thesis unfolding m(2) using u m(1) by (auto simp: live_def)
  qed
qed

definition new_de :: "bytes \<Rightarrow> nat \<Rightarrow> bytes" where
  "new_de name inum = put_le 2 (blit (\<lambda>_. 0) 2 (strncpy (\<lambda>_. 0) name DIRSIZ) 0 DIRSIZ) 0 inum"

lemma new_de_fields:
  assumes "\<And>i. i < DIRENT_SIZE \<Longrightarrow> de i = new_de name inum i" "inum < 2 ^ 16"
  shows "de_inum de = inum" "cstr (de_name de) DIRSIZ = cstr name DIRSIZ"
proof -
  have "get_le 2 de 0 = get_le 2 (new_de name inum) 0"
    by (rule get_le_cong) (use assms(1) in \<open>simp add: DIRENT_SIZE_def\<close>)
  then show "de_inum de = inum" using assms(2) by (simp add: de_inum_def new_de_def get_put_le)
  have "cstr (de_name de) DIRSIZ = cstr (strncpy (\<lambda>_. 0) name DIRSIZ) DIRSIZ"
    unfolding cstr_def
    by (intro arg_cong[where f = "takeWhile _"] map_cong)
      (auto simp: de_name_def assms(1) DIRENT_SIZE_def new_de_def put_le_outside blit_def)
  then show "cstr (de_name de) DIRSIZ = cstr name DIRSIZ" by (simp add: strncpy_cstr)
qed

lemma dirent_written:
  assumes "written s dp src 0 (k * DIRENT_SIZE) e t" "j * DIRENT_SIZE + DIRENT_SIZE \<le> i_size (itable t dp)"
    "e = DIRENT_SIZE \<or> e = 0"
  shows "j \<noteq> k \<or> e = 0 \<Longrightarrow> dirent t dp j = dirent s dp j"
    "i < DIRENT_SIZE \<Longrightarrow> e \<noteq> 0 \<Longrightarrow> j = k \<Longrightarrow> dirent t dp j i = src i"
proof -
  have c: "\<forall>pos < i_size (itable t dp). content t dp pos =
      (if k * DIRENT_SIZE \<le> pos \<and> pos < k * DIRENT_SIZE + e then src (pos - k * DIRENT_SIZE) else content s dp pos)"
    using assms(1) by (simp add: written_def)
  show "dirent t dp j i = src i" if "i < DIRENT_SIZE" "e \<noteq> 0" "j = k"
    using that c assms(2,3) by (simp add: dirent_def blit_def)
  show "dirent t dp j = dirent s dp j" if "j \<noteq> k \<or> e = 0"
  proof
    fix i
    have far: "j * DIRENT_SIZE + i < k * DIRENT_SIZE \<or> k * DIRENT_SIZE + e \<le> j * DIRENT_SIZE + i" if "i < DIRENT_SIZE"
    proof (cases "j < k")
      case True
      then have "Suc j * DIRENT_SIZE \<le> k * DIRENT_SIZE" by (intro mult_le_mono1) simp
      then show ?thesis using that by simp
    next
      case False
      show ?thesis
      proof (cases "e = 0")
        case False
        then have "Suc k * DIRENT_SIZE \<le> j * DIRENT_SIZE" using \<open>\<not> j < k\<close> \<open>j \<noteq> k \<or> e = 0\<close> by (intro mult_le_mono1) simp
        then show ?thesis using assms(3) by auto
      qed (use \<open>\<not> j < k\<close> in \<open>simp add: trans_le_add1\<close>)
    qed
    show "dirent t dp j i = dirent s dp j i"
      using far c assms(2) by (auto simp: dirent_def blit_def)
  qed
qed

lemma dir_written:
  assumes w: "written s dp src 0 (k * DIRENT_SIZE) e t" and e: "e = DIRENT_SIZE \<or> e = 0" and ok: "dir_ok s dp" "k \<le> nents s dp"
  shows "dir_ok t dp" "nents t dp = (if e = 0 then nents s dp else max (nents s dp) (Suc k))" "cache_ok t dp"
proof -
  have d: "DIRENT_SIZE dvd i_size (itable s dp)" "DIRENT_SIZE \<noteq> 0" using ok(1) by (simp_all add: dir_ok_def DIRENT_SIZE_def)
  then obtain n where n: "i_size (itable s dp) = n * DIRENT_SIZE" by (metis dvd_div_mult_self)
  have nn: "nents s dp = n" using n d(2) by (simp add: nents_def)
  obtain es X c where it: "itable t dp = (itable s dp)\<lparr>i_extents := es, i_size := max (i_size (itable s dp)) (k * DIRENT_SIZE + e), i_cache := X, i_checksum := c\<rparr>"
    "i_type (itable s dp) = T_DIR \<longrightarrow> \<not> dc_valid X" using w by (auto simp: written_def)
  have "max (n * DIRENT_SIZE) (k * DIRENT_SIZE + e) = (if e = 0 then n else max n (Suc k)) * DIRENT_SIZE"
    using e ok(2) d(2) unfolding nn by (auto simp: nat_mult_max_left add.commute max.absorb1)
  then have z: "i_size (itable t dp) = (if e = 0 then n else max n (Suc k)) * DIRENT_SIZE" by (simp add: it(1) n)
  show "nents t dp = (if e = 0 then nents s dp else max (nents s dp) (Suc k))" using d(2) by (simp add: nents_def z nn[unfolded nents_def])
  have "file_ok t dp" using w by (simp add: written_def)
  moreover have "i_type (itable t dp) = T_DIR" using ok(1) by (simp add: it(1) dir_ok_def)
  moreover have "DIRENT_SIZE dvd i_size (itable t dp)" unfolding z by (rule dvd_triv_right)
  ultimately show "dir_ok t dp" by (simp only: dir_ok_def simp_thms)
  show "cache_ok t dp" using ok(1) it by (simp add: cache_ok_def dir_ok_def)
qed

lemma find_upd:
  assumes "\<And>x. x \<in> set xs \<Longrightarrow> x \<noteq> k \<Longrightarrow> P x = Q x" "k \<in> set xs \<Longrightarrow> \<not> Q k"
  shows "\<not> P k \<Longrightarrow> find P xs = find Q xs" "find Q xs = None \<Longrightarrow> P k \<Longrightarrow> k \<in> set xs \<Longrightarrow> find P xs = Some k"
  using assms by (induction xs) (auto split: if_splits)

lemma ent_eq:
  assumes "dirent t dp j = dirent s dp j"
  shows "live t dp j = live s dp j" "ent_name t dp j = ent_name s dp j" "ent t dp j = ent s dp j"
  using assms by (simp_all add: live_def ent_name_def ent_def)

lemma dirmap_kept:
  assumes "\<And>j. j < nents s dp \<Longrightarrow> dirent t dp j = dirent s dp j" "nents t dp = nents s dp"
  shows "dirmap t dp = dirmap s dp"
proof
  fix x
  have "find (\<lambda>k. live t dp k \<and> ent_name t dp k = x) [0..<nents s dp] = find (\<lambda>k. live s dp k \<and> ent_name s dp k = x) [0..<nents s dp]"
    by (rule find_cong_set) (use ent_eq[OF assms(1)] in auto)
  then show "dirmap t dp x = dirmap s dp x"
    unfolding dirmap_def first_ent_def assms(2) using ent_eq(3)[OF assms(1)]
    by (auto simp: find_Some_iff intro!: option.map_cong)
qed

lemma dirmap_added:
  assumes new: "live t dp k" "ent_name t dp k = nm" and old: "\<And>j. j < nents s dp \<Longrightarrow> j \<noteq> k \<Longrightarrow> dirent t dp j = dirent s dp j"
    and k: "k \<le> nents s dp" "k < nents s dp \<longrightarrow> \<not> live s dp k" "nents t dp = max (nents s dp) (Suc k)"
    and none: "dirmap s dp nm = None"
  shows "dirmap t dp = (dirmap s dp)(nm \<mapsto> ent t dp k)"
proof
  fix x
  let ?n = "nents s dp"
  let ?P = "\<lambda>j. live t dp j \<and> ent_name t dp j = x" and ?Q = "\<lambda>j. j < ?n \<and> live s dp j \<and> ent_name s dp j = x"
  have up: "[0..<nents t dp] = [0..<?n] @ (if k = ?n then [k] else [])"
  proof (cases "k = ?n")
    case False
    then have "Suc k \<le> ?n" using k(1) by simp
    then show ?thesis using False by (simp add: k(3) max.absorb1)
  qed (simp add: k(3))
  have q: "find ?Q [0..<nents t dp] = find (\<lambda>j. live s dp j \<and> ent_name s dp j = x) [0..<?n]"
  proof -
    have "find ?Q [0..<?n] = find (\<lambda>j. live s dp j \<and> ent_name s dp j = x) [0..<?n]" by (rule find_cong_set) auto
    then show ?thesis unfolding up by (auto simp: find_append split: option.splits)
  qed
  have eq: "?P j = ?Q j" if "j \<in> set [0..<nents t dp]" "j \<noteq> k" for j
    using that k(1,3) ent_eq(1,2)[OF old[of j]] by (auto simp: max_def split: if_splits)
  have nq: "\<not> ?Q k" using k(2) by auto
  show "dirmap t dp x = ((dirmap s dp)(nm \<mapsto> ent t dp k)) x"
  proof (cases "x = nm")
    case True
    have "find ?Q [0..<nents t dp] = None" unfolding q using none True by (simp add: dirmap_def first_ent_def)
    from find_upd(2)[where xs = "[0..<nents t dp]" and k = k and P = ?P and Q = ?Q, OF eq nq this] have "find ?P [0..<nents t dp] = Some k" using new True k(1,3) by (simp add: max_def)
    then show ?thesis using True by (simp add: dirmap_def first_ent_def)
  next
    case False
    have "find ?P [0..<nents t dp] = find ?Q [0..<nents t dp]"
      by (rule find_upd(1)[where xs = "[0..<nents t dp]" and k = k and P = ?P and Q = ?Q, OF eq nq]) (use new(2) False in auto)
    moreover have "ent t dp j = ent s dp j" if "find ?Q [0..<nents t dp] = Some j" for j
      using that nq by (intro ent_eq(3) old) (auto simp: find_Some_iff)
    ultimately show ?thesis
      using False by (simp add: dirmap_def first_ent_def flip: q) (cases "find ?Q [0..<nents t dp]", auto)
  qed
qed

text \<open>Up to its write, \<^verbatim>\<open>dirlink\<close> found a place \<open>k\<close> for the entry and changed the cache only.\<close>

lemma dirlink_place:
  assumes "rd_idle s" "dir_ok s dp" "cache_ok s dp" "dirmap s dp (cstr name DIRSIZ) = None"
  obtains k v where "k \<le> nents s dp" "k < nents s dp \<longrightarrow> \<not> live s dp k" "dir_same dp s v"
    "dirlink dp name inum s = kbind (writei dp (Kern (new_de name inum) 0) (k * DIRENT_SIZE) DIRENT_SIZE v) (\<lambda>(r, s).
      Ok (if r \<noteq> int DIRENT_SIZE then -1 else 0, s))"
proof -
  obtain u where u: "dir_same dp s u" "cache_ok u dp" "dirlookup dp name s = Ok (None, u)"
    using dirlookup_spec[OF assms(1-3), of name] unfolding assms(4) by auto
  note du = dir_sameD[OF u(1)]
  have "dir_ok u dp" using assms(2) du(11) by simp
  with free_slot_spec[OF du(12), of dp 0] obtain k v where v:
    "free_slot_loop (dir_offs (i_size (itable u dp))) 0 dp u = Ok (k * DIRENT_SIZE, v)" "k \<le> nents s dp"
    "k < nents s dp \<longrightarrow> \<not> live s dp k" "dir_same dp s v"
    using dir_same_trans[OF u(1)] by (auto simp: dir_offs_ents du(6,9))
  then show ?thesis using that u(3) by (simp add: dirlink_def new_de_def Let_def)
qed

lemma ent_nblk: "nblk (k * DIRENT_SIZE) DIRENT_SIZE = 1"
proof -
  have "DIRENT_SIZE dvd BSIZE" by (simp add: DIRENT_SIZE_def DIRSIZ_def BSIZE_def)
  then have "DIRENT_SIZE dvd k * DIRENT_SIZE mod BSIZE" by (simp add: dvd_mod)
  then obtain j where j: "k * DIRENT_SIZE mod BSIZE = 16 * j" by (auto simp: DIRENT_SIZE_def DIRSIZ_def elim!: dvdE)
  have "k * DIRENT_SIZE mod BSIZE < 1024" by (simp add: BSIZE_def)
  then have "j < 64" unfolding j by simp
  then show ?thesis unfolding nblk_def j by (simp add: DIRENT_SIZE_def DIRSIZ_def BSIZE_def)
qed

definition linked :: "'a fs_state_scheme \<Rightarrow> nat \<Rightarrow> byte list \<Rightarrow> nat \<Rightarrow> int \<Rightarrow> 'a fs_state_scheme \<Rightarrow> bool" where
  "linked s dp nm inum r t \<longleftrightarrow> tx_idle t \<and> layout_ok t \<and> dir_ok t dp \<and> cache_ok t dp \<and>
     (if r = 0 then \<exists>off. dirmap t dp = (dirmap s dp)(nm \<mapsto> (inum, off))
      else r = -1 \<and> dirmap t dp = dirmap s dp \<and> BSIZE dvd i_size (itable s dp) \<and> (\<forall>b < sb_size (sb s). used (sb s) (cur t) b))"

lemma dirlink_wrote:
  assumes w: "written v dp (new_de name inum) 0 (k * DIRENT_SIZE) e t"
    and e: "e \<le> DIRENT_SIZE" "e < DIRENT_SIZE \<longrightarrow> (\<forall>b < sb_size (sb v). used (sb v) (cur t) b) \<and> k * DIRENT_SIZE + e = length (file_blocks (itable t dp)) * BSIZE"
    and v: "dir_ok v dp" "k \<le> nents v dp" "k < nents v dp \<longrightarrow> \<not> live v dp k"
    and new: "dirmap v dp (cstr name DIRSIZ) = None" "0 < inum" "inum < 2 ^ 16"
  shows "linked v dp (cstr name DIRSIZ) inum (if int e \<noteq> int DIRENT_SIZE then -1 else 0) t"
proof -
  have e0: "e = DIRENT_SIZE \<or> e = 0"
  proof (cases "e < DIRENT_SIZE")
    case True
    then have "k * DIRENT_SIZE + e = (length (file_blocks (itable t dp)) * 64) * DIRENT_SIZE" using e(2) by (simp add: DIRENT_SIZE_def DIRSIZ_def BSIZE_def)
    then have "DIRENT_SIZE dvd k * DIRENT_SIZE + e" by (metis dvd_triv_right)
    then have "DIRENT_SIZE dvd e" by (simp add: dvd_add_right_iff)
    then show ?thesis using True by (auto dest: dvd_imp_le)
  qed (use e(1) in simp)
  note t = dir_written[OF w e0 v(1,2)]
  have idle: "tx_idle t" "layout_ok t" using w by (simp_all add: written_def)
  show ?thesis
  proof (cases "e = 0")
    case True
    have "dirmap t dp = dirmap v dp"
      using t(2) True dirent_written(1)[OF w _ e0] ent_offset[OF t(1)] by (intro dirmap_kept) auto
    moreover have "BSIZE dvd i_size (itable v dp)"
    proof -
      have "k * DIRENT_SIZE = length (file_blocks (itable t dp)) * BSIZE" using e(2) True by (simp add: DIRENT_SIZE_def)
      moreover have "file_ok t dp" "i_size (itable t dp) = max (i_size (itable v dp)) (k * DIRENT_SIZE + e)"
        using w unfolding written_def by blast+
      then have "i_size (itable t dp) \<le> length (file_blocks (itable t dp)) * BSIZE" "i_size (itable v dp) \<le> i_size (itable t dp)"
        by (simp_all only: file_ok_def max.cobounded1)
      moreover have "k * DIRENT_SIZE \<le> i_size (itable v dp)" using v(1,2) by (auto simp: nents_def dir_ok_def elim!: dvdE)
      ultimately have "i_size (itable v dp) = length (file_blocks (itable t dp)) * BSIZE" by linarith
      then show ?thesis by simp
    qed
    ultimately show ?thesis using True e(2) idle t by (simp add: linked_def DIRENT_SIZE_def)
  next
    case False
    then have e16: "e = DIRENT_SIZE" using e0 by simp
    have off: "k * DIRENT_SIZE + DIRENT_SIZE \<le> i_size (itable t dp)" by (rule ent_offset[OF t(1)]) (use t(2) False in simp)
    note f = new_de_fields[of "dirent t dp k", OF dirent_written(2)[OF w off e0 _ False refl] new(3)]
    have "dirmap t dp = (dirmap v dp)(cstr name DIRSIZ \<mapsto> ent t dp k)"
    proof (rule dirmap_added[OF _ _ _ v(2,3) _ new(1)])
      show "dirent t dp j = dirent v dp j" if "j < nents v dp" "j \<noteq> k" for j
        using that t(2) False by (intro dirent_written(1)[OF w ent_offset[OF t(1)] e0]) auto
    qed (use t(2) f new(2) False in \<open>simp_all add: live_def ent_name_def\<close>)
    then show ?thesis using e16 idle t by (auto simp: linked_def ent_def f(1))
  qed
qed

lemma dirlink_spec:
  assumes s: "tx_idle s" "layout_ok s" "dir_ok s dp" "cache_ok s dp" "i_inum (itable s dp) < sb_ninodes (sb s)" "din_range (itable s dp)"
    and room: "tx_room s 4" "i_size (itable s dp) + DIRENT_SIZE \<le> MAXFILE * BSIZE"
    and new: "dirmap s dp (cstr name DIRSIZ) = None" "0 < inum" "inum < 2 ^ 16"
  shows "dirlink dp name inum s = Panic ''bmap: extent overflow'' \<and>
      length (file_blocks (itable s dp)) * BSIZE < i_size (itable s dp) + DIRENT_SIZE \<or>
    (\<exists>r t. dirlink dp name inum s = Ok (r, t) \<and> linked s dp (cstr name DIRSIZ) inum r t)"
proof -
  obtain k v where v: "k \<le> nents s dp" "k < nents s dp \<longrightarrow> \<not> live s dp k" "dir_same dp s v"
    and cal: "dirlink dp name inum s = kbind (writei dp (Kern (new_de name inum) 0) (k * DIRENT_SIZE) DIRENT_SIZE v) (\<lambda>(r, s).
      Ok (if r \<noteq> int DIRENT_SIZE then -1 else 0, s))"
    by (rule dirlink_place[OF tx_rd_idle[OF s(1)] s(3,4) new(1)])
  note d = dir_sameD[OF v(3)]
  obtain c where c: "cur v = cur s" "sb v = sb s" "log_start v = log_start s" "lh_n v = lh_n s" "tx_idle v"
    "itable v = (itable s)(dp := (itable s dp)\<lparr>i_cache := c\<rparr>)"
    using v(3) s(1) by (auto simp: dir_same_def)
  have fb: "file_blocks (itable v dp) = file_blocks (itable s dp)" by (simp add: c(6) file_blocks_def)
  have off: "k * DIRENT_SIZE \<le> i_size (itable s dp)" using v(1) s(3) by (auto simp: nents_def dir_ok_def elim!: dvdE)
  have rm: "tx_room v (3 * nblk (k * DIRENT_SIZE) DIRENT_SIZE + 1)" using room(1) by (simp add: tx_room_def c(4) ent_nblk)
  have lv: "layout_ok v" using s(2) c by (simp add: layout_ok_def)
  have fv: "file_ok v dp" "i_inum (itable v dp) < sb_ninodes (sb v)" "din_range (itable v dp)" "dir_ok v dp"
    using s(3,5,6) d(4,11) by (simp_all add: dir_ok_def c(2,6) din_range_def)
  have o: "k * DIRENT_SIZE \<le> i_size (itable v dp)" "k * DIRENT_SIZE + DIRENT_SIZE \<le> MAXFILE * BSIZE"
    using off room(2) by (simp_all add: d(2))
  from writei_spec[OF c(5) lv fv(1-3) o rm, of "new_de name inum" 0] show ?thesis
  proof (elim disjE exE conjE)
    fix e t
    assume t: "writei dp (Kern (new_de name inum) 0) (k * DIRENT_SIZE) DIRENT_SIZE v = Ok (int e, t)" "e \<le> DIRENT_SIZE"
      "written v dp (new_de name inum) 0 (k * DIRENT_SIZE) e t"
      "e < DIRENT_SIZE \<longrightarrow> (\<forall>b < sb_size (sb v). used (sb v) (cur t) b) \<and> k * DIRENT_SIZE + e = length (file_blocks (itable t dp)) * BSIZE"
    have "linked v dp (cstr name DIRSIZ) inum (if int e \<noteq> int DIRENT_SIZE then -1 else 0) t"
      by (rule dirlink_wrote[OF t(3,2,4) fv(4)]) (use v(1,2) new d in simp_all)
    then show ?thesis using cal t(1) by (auto simp: linked_def d(2,10) c(2))
  next
    assume "writei dp (Kern (new_de name inum) 0) (k * DIRENT_SIZE) DIRENT_SIZE v = Panic ''bmap: extent overflow''"
      "length (file_blocks (itable v dp)) * BSIZE < k * DIRENT_SIZE + DIRENT_SIZE"
    then show ?thesis using off by (simp add: cal fb)
  qed
qed

section \<open>Directories as maps\<close>

text \<open>
  C18. \<^verbatim>\<open>dirlookup\<close> in a sound directory computes the map its entries stand for, whether the answer comes
  from the directory cache, from a rebuilt cache or from the entries: it returns nothing for a name
  that is not there, and otherwise the inode \<^verbatim>\<open>iget\<close> finds for the number of the first entry of that
  name, and the offset of the entry. The directory, the disk and the log stay as they were, and the
  cache is sound afterwards.
\<close>

theorem dirlookup_correct:
  assumes "rd_idle s" "dir_ok s dp" "cache_ok s dp"
  shows "\<exists>t. dirlookup dp name s = (case dirmap s dp (cstr name DIRSIZ) of
        None \<Rightarrow> Ok (None, t)
      | Some (inum, off) \<Rightarrow> kbind (iget (i_dev (itable s dp)) inum t) (\<lambda>(ip, u). Ok (Some (ip, off), u))) \<and>
    cur t = cur s \<and> lh_n t = lh_n s \<and> rd_idle t \<and> dir_ok t dp \<and> dirmap t dp = dirmap s dp \<and> cache_ok t dp \<and>
    (\<forall>j. j \<noteq> dp \<longrightarrow> itable t j = itable s j)"
proof -
  obtain t where t: "dir_same dp s t" "cache_ok t dp" "dirlookup dp name s = (case dirmap s dp (cstr name DIRSIZ) of
        None \<Rightarrow> Ok (None, t)
      | Some (inum, off) \<Rightarrow> kbind (iget (i_dev (itable s dp)) inum t) (\<lambda>(ip, u). Ok (Some (ip, off), u)))"
    using dirlookup_spec[OF assms] by blast
  have "cur t = cur s" "lh_n t = lh_n s" "\<forall>j. j \<noteq> dp \<longrightarrow> itable t j = itable s j" using t(1) by (auto simp: dir_same_def)
  then show ?thesis using t(2,3) dir_sameD(10-12)[OF t(1)] assms(2) by blast
qed

text \<open>
  C19. \<^verbatim>\<open>dirlink\<close> of a new name, inside a transaction with room for it, updates the map of the directory
  at that name and at no other, so that a lookup finds the number linked; when the disk is full it
  returns -1 and the map is unchanged. The directory and its cache are sound afterwards. The one
  panic is that of \<^verbatim>\<open>bmap\<close> when the directory grows past its extents.
\<close>

theorem dirlink_correct:
  assumes "tx_idle s" "layout_ok s" "dir_ok s dp" "cache_ok s dp" "i_inum (itable s dp) < sb_ninodes (sb s)" "din_range (itable s dp)"
    and "tx_room s 4" "i_size (itable s dp) + DIRENT_SIZE \<le> MAXFILE * BSIZE"
    and "dirmap s dp (cstr name DIRSIZ) = None" "0 < inum" "inum < 2 ^ 16"
  shows "dirlink dp name inum s = Panic ''bmap: extent overflow'' \<and>
      length (file_blocks (itable s dp)) * BSIZE < i_size (itable s dp) + DIRENT_SIZE \<or>
    (\<exists>r t. dirlink dp name inum s = Ok (r, t) \<and> tx_idle t \<and> layout_ok t \<and> dir_ok t dp \<and> cache_ok t dp \<and>
       (if r = 0 then \<exists>off. dirmap t dp = (dirmap s dp)(cstr name DIRSIZ \<mapsto> (inum, off))
        else r = -1 \<and> dirmap t dp = dirmap s dp \<and> BSIZE dvd i_size (itable s dp) \<and> (\<forall>b < sb_size (sb s). used (sb s) (cur t) b)))"
  using dirlink_spec[OF assms] unfolding linked_def .

text \<open>A directory with one entry, of the empty name and inode number 7.\<close>

definition dir_fs :: fs_state where
  "dir_fs = one_fs\<lparr>itable := (itable one_fs)(3 := one_inode\<lparr>i_type := T_DIR, i_size := 16\<rparr>)\<rparr>"

definition name_a :: bytes where "name_a = (\<lambda>i. if i = 0 then 97 else 0)"

lemma dir_fs_simps:
  "cur dir_fs = one_disk" "sb dir_fs = mini_sb" "lh_n dir_fs = 0" "itable dir_fs 3 = one_inode\<lparr>i_type := T_DIR, i_size := 16\<rparr>"
  "file_blocks (one_inode\<lparr>i_type := T_DIR, i_size := 16\<rparr>) = [36]"
  using one_blocks by (simp_all add: dir_fs_def one_fs_cur[symmetric] file_blocks_def)

lemma dir_fs_ok: "tx_idle dir_fs" "layout_ok dir_fs" "dir_ok dir_fs 3" "cache_ok dir_fs 3"
proof -
  show "tx_idle dir_fs" using one_fs_idle by (simp add: dir_fs_def tx_idle_def in_tx_def)
  show "layout_ok dir_fs" using one_fs_layout by (simp add: dir_fs_def layout_ok_def)
  have "blocks_ok dir_fs 3" using one_file(2) by (simp add: blocks_ok_def dir_fs_simps one_blocks one_fs_cur ext_dense_def)
  then show "dir_ok dir_fs 3"
    by (simp add: dir_ok_def file_ok_def dir_fs_simps DIRENT_SIZE_def DIRSIZ_def BSIZE_def MAXFILE_def)
  show "cache_ok dir_fs 3" by (simp add: cache_ok_def dir_fs_simps one_inode_def zero_inode_def)
qed

lemma dir_fs_content: "pos < 16 \<Longrightarrow> content dir_fs 3 pos = (if pos = 0 then 7 else 0)"
  by (simp add: content_def dir_fs_simps one_disk_def BSIZE_def)

lemma dir_fs_map: "dirmap dir_fs 3 = [[] \<mapsto> (7, 0)]"
proof -
  have d: "dirent dir_fs 3 0 = (\<lambda>i. if i = 0 then 7 else 0)"
    by (rule ext) (simp add: dirent_def blit_def dir_fs_content DIRENT_SIZE_def DIRSIZ_def)
  have g: "get_le 2 f 0 = unat (f 0) + 256 * unat (f 1)" for f unfolding numeral_2_eq_2 by simp
  have "live dir_fs 3 0" "ent dir_fs 3 0 = (7, 0)" "ent_name dir_fs 3 0 = []" "nents dir_fs 3 = 1"
    by (simp_all add: live_def ent_def ent_name_def d de_inum_def de_name_def cstr_def nents_def dir_fs_simps
        DIRENT_SIZE_def DIRSIZ_def g upt_rec)
  then show ?thesis by (auto simp: dirmap_def first_ent_def fun_eq_iff)
qed

lemma name_a_cstr: "cstr name_a DIRSIZ = [97]"
  by (simp add: cstr_def name_a_def DIRSIZ_def upt_rec)

theorem dirlookup_correct_witness:
  "(\<exists>t. dirlookup 3 name_a dir_fs = Ok (None, t)) \<and>
   (\<exists>t. dirlookup 3 (\<lambda>_. 0) dir_fs = kbind (iget ROOTDEV 7 t) (\<lambda>(ip, u). Ok (Some (ip, 0), u)))"
proof -
  note w = dirlookup_correct[OF tx_rd_idle[OF dir_fs_ok(1)] dir_fs_ok(3,4)]
  have "cstr (\<lambda>_. 0) DIRSIZ = []" by (simp add: cstr_def DIRSIZ_def upt_rec)
  then show ?thesis using w[of name_a] w[of "\<lambda>_. 0"] by (auto simp: dir_fs_map name_a_cstr dir_fs_simps)
qed

theorem dirlink_correct_witness:
  "\<exists>t off. dirlink 3 name_a 5 dir_fs = Ok (0, t) \<and> dirmap t 3 [97] = Some (5, off) \<and> dirmap t 3 [] = Some (7, 0)"
proof -
  have "dirlink 3 name_a 5 dir_fs = Panic ''bmap: extent overflow'' \<and>
      length (file_blocks (itable dir_fs 3)) * BSIZE < i_size (itable dir_fs 3) + DIRENT_SIZE \<or>
    (\<exists>r t. dirlink 3 name_a 5 dir_fs = Ok (r, t) \<and> tx_idle t \<and> layout_ok t \<and> dir_ok t 3 \<and> cache_ok t 3 \<and>
       (if r = 0 then \<exists>off. dirmap t 3 = (dirmap dir_fs 3)(cstr name_a DIRSIZ \<mapsto> (5, off))
        else r = -1 \<and> dirmap t 3 = dirmap dir_fs 3 \<and> BSIZE dvd i_size (itable dir_fs 3) \<and>
          (\<forall>b < sb_size (sb dir_fs). used (sb dir_fs) (cur t) b)))"
    by (rule dirlink_correct[OF dir_fs_ok])
      (use one_range(1) in \<open>simp_all add: dir_fs_simps mini_sb_simps tx_room_def NBUF_def dir_fs_map name_a_cstr[unfolded DIRSIZ_def] din_range_def
         T_DIR_def DIRENT_SIZE_def DIRSIZ_def MAXFILE_def BSIZE_def\<close>)
  then show ?thesis
    by (auto simp: dir_fs_simps DIRENT_SIZE_def DIRSIZ_def BSIZE_def dir_fs_map name_a_cstr[unfolded DIRSIZ_def] split: if_splits)
qed

end
