(* ===== verification/Spinlock.thy ===== *)
theory Spinlock
  imports Hai_Prelude
begin

text \<open>
  Spin locks, \<^verbatim>\<open>kernel/spinlock.c\<close>, at the level at which the CPUs interleave: every
  read or write of a lock is a step of its own, and the steps of different CPUs come in any
  order. \<open>pc\<close> says where a CPU is in \<^verbatim>\<open>acquire\<close> or \<^verbatim>\<open>release\<close>. The set
  \<open>crit\<close> is a ghost: the locks that a CPU took with a completed \<^verbatim>\<open>acquire\<close> and has not
  given back. The other theories of the library take a critical section as one step; the
  mutual exclusion proved here is what allows it. Memory is sequentially consistent, which is
  what the fences of the code are there for.
\<close>

section \<open>Interrupts of one CPU\<close>

record spin_cpu =
  c_noff :: int
  c_intena :: bool
  c_sie :: bool

definition cpu_intr_get :: "spin_cpu \<Rightarrow> bool" where "cpu_intr_get c = c_sie c"
definition cpu_intr_off :: "spin_cpu \<Rightarrow> spin_cpu" where "cpu_intr_off c = c\<lparr>c_sie := False\<rparr>"
definition cpu_intr_on :: "spin_cpu \<Rightarrow> spin_cpu" where "cpu_intr_on c = c\<lparr>c_sie := True\<rparr>"

definition push_off :: "spin_cpu \<Rightarrow> spin_cpu" where
  "push_off c =
     (let old = cpu_intr_get c; c = cpu_intr_off c;
          c = (if c_noff c = 0 then c\<lparr>c_intena := old\<rparr> else c)
      in c\<lparr>c_noff := c_noff c + 1\<rparr>)"

definition pop_off :: "spin_cpu \<Rightarrow> spin_cpu kres" where
  "pop_off c =
     (if cpu_intr_get c then Panic ''pop_off - interruptible''
      else if c_noff c < 1 then Panic ''pop_off''
      else let c = c\<lparr>c_noff := c_noff c - 1\<rparr>
           in Ok (if c_noff c = 0 \<and> c_intena c then cpu_intr_on c else c))"

section \<open>Locks\<close>

text \<open>The field \<^verbatim>\<open>cpu\<close> is a pointer to a CPU or null.\<close>

record spinlock =
  lk_locked :: "32 word"
  lk_name :: string
  lk_cpu :: "nat option"

definition initlock :: "string \<Rightarrow> spinlock" where
  "initlock nm = \<lparr>lk_locked = 0, lk_name = nm, lk_cpu = None\<rparr>"

definition holding :: "nat \<Rightarrow> spinlock \<Rightarrow> bool" where
  "holding c lk \<longleftrightarrow> lk_locked lk \<noteq> 0 \<and> lk_cpu lk = Some c"

text \<open>
  \<open>AcqLocked\<close> and \<open>AcqCpu\<close> are the two reads of \<^verbatim>\<open>holding\<close> in \<^verbatim>\<open>acquire\<close>,
  \<open>Spin\<close> is its loop, \<open>Own\<close> the assignment to \<^verbatim>\<open>cpu\<close>; \<open>RelLocked\<close> and
  \<open>RelCpu\<close> are the reads in \<^verbatim>\<open>release\<close>, \<open>RelClear\<close> and \<open>RelUnlock\<close> its two
  writes, \<open>PopOff\<close> its call of \<^verbatim>\<open>pop_off\<close>.
\<close>

datatype pc = Run | AcqLocked nat | AcqCpu nat | Spin nat | Own nat
  | RelLocked nat | RelCpu nat | RelClear nat | RelUnlock nat | PopOff | Dead string

record spin_state =
  lock :: "nat \<Rightarrow> spinlock"
  cpus :: "nat \<Rightarrow> spin_cpu"
  pcs :: "nat \<Rightarrow> pc"
  crit :: "nat \<Rightarrow> nat set"

definition go :: "nat \<Rightarrow> pc \<Rightarrow> spin_state \<Rightarrow> spin_state" where
  "go c p s = s\<lparr>pcs := (pcs s)(c := p)\<rparr>"

definition upd_lock :: "nat \<Rightarrow> (spinlock \<Rightarrow> spinlock) \<Rightarrow> spin_state \<Rightarrow> spin_state" where
  "upd_lock l f s = s\<lparr>lock := (lock s)(l := f (lock s l))\<rparr>"

definition upd_cpu :: "nat \<Rightarrow> (spin_cpu \<Rightarrow> spin_cpu) \<Rightarrow> spin_state \<Rightarrow> spin_state" where
  "upd_cpu c f s = s\<lparr>cpus := (cpus s)(c := f (cpus s c))\<rparr>"

definition set_crit :: "nat \<Rightarrow> nat set \<Rightarrow> spin_state \<Rightarrow> spin_state" where
  "set_crit c A s = s\<lparr>crit := (crit s)(c := A)\<rparr>"

text \<open>The calls: \<^verbatim>\<open>acquire\<close> begins with \<^verbatim>\<open>push_off\<close>.\<close>

definition acquire :: "nat \<Rightarrow> nat \<Rightarrow> spin_state \<Rightarrow> spin_state" where
  "acquire c l s = go c (AcqLocked l) (upd_cpu c push_off s)"

definition release :: "nat \<Rightarrow> nat \<Rightarrow> spin_state \<Rightarrow> spin_state" where
  "release c l s = go c (RelLocked l) s"

text \<open>The next step of a CPU inside \<^verbatim>\<open>acquire\<close> or \<^verbatim>\<open>release\<close>.\<close>

definition acquire_step :: "nat \<Rightarrow> nat \<Rightarrow> spin_state \<Rightarrow> spin_state" where
  "acquire_step c l s =
     (let lk = lock s l in
      case pcs s c of
        AcqLocked _ \<Rightarrow> go c (if lk_locked lk = 0 then Spin l else AcqCpu l) s
      | AcqCpu _ \<Rightarrow> go c (if lk_cpu lk = Some c then Dead ''acquire'' else Spin l) s
      | Spin _ \<Rightarrow>
          let s1 = upd_lock l (\<lambda>k. k\<lparr>lk_locked := 1\<rparr>) s
          in if lk_locked lk \<noteq> 0 then s1 else go c (Own l) s1
      | Own _ \<Rightarrow> set_crit c (insert l (crit s c)) (go c Run (upd_lock l (\<lambda>k. k\<lparr>lk_cpu := Some c\<rparr>) s))
      | _ \<Rightarrow> s)"

definition release_step :: "nat \<Rightarrow> nat \<Rightarrow> spin_state \<Rightarrow> spin_state" where
  "release_step c l s =
     (let lk = lock s l in
      case pcs s c of
        RelLocked _ \<Rightarrow> go c (if lk_locked lk = 0 then Dead ''release'' else RelCpu l) s
      | RelCpu _ \<Rightarrow> go c (if lk_cpu lk \<noteq> Some c then Dead ''release'' else RelClear l) s
      | RelClear _ \<Rightarrow> set_crit c (crit s c - {l}) (go c (RelUnlock l) (upd_lock l (\<lambda>k. k\<lparr>lk_cpu := None\<rparr>) s))
      | RelUnlock _ \<Rightarrow> go c PopOff (upd_lock l (\<lambda>k. k\<lparr>lk_locked := 0\<rparr>) s)
      | _ \<Rightarrow> s)"

definition spin_next :: "nat \<Rightarrow> spin_state \<Rightarrow> spin_state" where
  "spin_next c s =
     (case pcs s c of
        AcqLocked l \<Rightarrow> acquire_step c l s | AcqCpu l \<Rightarrow> acquire_step c l s
      | Spin l \<Rightarrow> acquire_step c l s | Own l \<Rightarrow> acquire_step c l s
      | RelLocked l \<Rightarrow> release_step c l s | RelCpu l \<Rightarrow> release_step c l s
      | RelClear l \<Rightarrow> release_step c l s | RelUnlock l \<Rightarrow> release_step c l s
      | PopOff \<Rightarrow> (case pop_off (cpus s c) of
                     Ok k \<Rightarrow> go c Run (upd_cpu c (\<lambda>_. k) s) | Panic e \<Rightarrow> go c (Dead e) s | Sleep _ \<Rightarrow> s)
      | _ \<Rightarrow> s)"

section \<open>Runs of all CPUs\<close>

text \<open>Code outside the lock routines switches interrupts on only when it is in no \<^verbatim>\<open>push_off\<close>.\<close>

inductive spin_step :: "spin_state \<Rightarrow> spin_state \<Rightarrow> bool" where
  next_step: "spin_step s (spin_next c s)"
| call_acquire: "pcs s c = Run \<Longrightarrow> spin_step s (acquire c l s)"
| call_release: "pcs s c = Run \<Longrightarrow> spin_step s (release c l s)"
| intr_enable: "pcs s c = Run \<Longrightarrow> c_noff (cpus s c) = 0 \<Longrightarrow> spin_step s (upd_cpu c cpu_intr_on s)"
| intr_disable: "pcs s c = Run \<Longrightarrow> spin_step s (upd_cpu c cpu_intr_off s)"

inductive_cases spin_stepE: "spin_step s t"

definition spin_start :: "(nat \<Rightarrow> string) \<Rightarrow> spin_state" where
  "spin_start nm = \<lparr>lock = (\<lambda>l. initlock (nm l)), cpus = (\<lambda>_. \<lparr>c_noff = 0, c_intena = False, c_sie = False\<rparr>),
     pcs = (\<lambda>_. Run), crit = (\<lambda>_. {})\<rparr>"

inductive spin_reachable :: "spin_state \<Rightarrow> bool" where
  start: "spin_reachable (spin_start nm)"
| step: "spin_reachable s \<Longrightarrow> spin_step s t \<Longrightarrow> spin_reachable t"

section \<open>The invariant\<close>

text \<open>CPU \<open>c\<close> owns the lock from its successful swap to its write of zero.\<close>

definition owns :: "spin_state \<Rightarrow> nat \<Rightarrow> nat \<Rightarrow> bool" where
  "owns s c l \<longleftrightarrow> l \<in> crit s c \<or> pcs s c = Own l \<or> pcs s c = RelUnlock l"

text \<open>The \<^verbatim>\<open>push_off\<close> of the call that a CPU is in.\<close>

fun pending :: "pc \<Rightarrow> nat" where
  "pending (AcqLocked _) = 1" | "pending (AcqCpu _) = 1" | "pending (Spin _) = 1" | "pending (Own _) = 1"
| "pending (RelUnlock _) = 1" | "pending PopOff = 1" | "pending _ = 0"

definition lock_inv :: "spin_state \<Rightarrow> bool" where
  "lock_inv s \<longleftrightarrow>
     (\<forall>l. lk_locked (lock s l) \<noteq> 0 \<longleftrightarrow> (\<exists>c. owns s c l)) \<and>
     (\<forall>c d l. owns s c l \<and> owns s d l \<longrightarrow> c = d) \<and>
     (\<forall>c l. lk_cpu (lock s l) = Some c \<longleftrightarrow> l \<in> crit s c) \<and>
     (\<forall>c l. pcs s c = RelClear l \<longrightarrow> l \<in> crit s c) \<and>
     (\<forall>c l. pcs s c = Own l \<or> pcs s c = RelUnlock l \<longrightarrow> l \<notin> crit s c)"

definition intr_ok :: "nat set \<Rightarrow> pc \<Rightarrow> spin_cpu \<Rightarrow> bool" where
  "intr_ok A p k \<longleftrightarrow> finite A \<and> (0 < c_noff k \<longrightarrow> \<not> c_sie k) \<and> 0 \<le> c_noff k \<and>
     ((\<forall>e. p \<noteq> Dead e) \<longrightarrow> c_noff k = int (card A + pending p))"

definition intr_inv :: "spin_state \<Rightarrow> bool" where
  "intr_inv s \<longleftrightarrow> (\<forall>c. intr_ok (crit s c) (pcs s c) (cpus s c))"

lemmas spin_defs = go_def upd_lock_def upd_cpu_def set_crit_def acquire_def release_def acquire_step_def
  release_step_def spin_next_def

lemma lock_invD:
  assumes "lock_inv s"
  shows "lk_locked (lock s l) \<noteq> 0 \<longleftrightarrow> (\<exists>c. owns s c l)" "owns s c l \<Longrightarrow> owns s d l \<Longrightarrow> c = d"
    "lk_cpu (lock s l) = Some c \<longleftrightarrow> l \<in> crit s c" "pcs s c = RelClear l \<Longrightarrow> l \<in> crit s c"
    "pcs s c = Own l \<or> pcs s c = RelUnlock l \<Longrightarrow> l \<notin> crit s c"
  using assms by (auto simp: lock_inv_def)

lemma lock_inv_go:
  assumes "lock_inv s" "\<And>l. pcs s c \<noteq> Own l \<and> pcs s c \<noteq> RelUnlock l" "\<And>l. p \<noteq> Own l \<and> p \<noteq> RelUnlock l"
    "\<And>l. p = RelClear l \<Longrightarrow> l \<in> crit s c"
  shows "lock_inv (go c p s)"
proof -
  have "owns (go c p s) = owns s" using assms(2,3) by (intro ext) (auto simp: owns_def go_def)
  then show ?thesis
    using assms unfolding lock_inv_def by (auto simp: go_def)
qed

lemma lock_inv_cpu [simp]: "lock_inv (upd_cpu c f s) = lock_inv s"
  by (simp add: lock_inv_def upd_cpu_def owns_def)

lemma upd_cpu_pcs [simp]: "pcs (upd_cpu c f s) = pcs s" "crit (upd_cpu c f s) = crit s"
  by (simp_all add: upd_cpu_def)

lemma lock_inv_swap:
  assumes "lock_inv s" "pcs s c = Spin l"
  shows "lock_inv (acquire_step c l s)"
proof (cases "lk_locked (lock s l) = 0")
  case True
  have free: "\<not> owns s d l" for d using lock_invD(1)[OF assms(1), of l] True by blast
  have o: "owns (acquire_step c l s) d k \<longleftrightarrow> owns s d k \<or> d = c \<and> k = l" for d k
    using assms(2) True by (auto simp: acquire_step_def owns_def go_def upd_lock_def)
  note inv = assms(1)[unfolded lock_inv_def]
  have e: "lock (acquire_step c l s) = (lock s)(l := (lock s l)\<lparr>lk_locked := 1\<rparr>)" "crit (acquire_step c l s) = crit s"
    "pcs (acquire_step c l s) = (pcs s)(c := Own l)"
    using assms(2) True by (simp_all add: acquire_step_def go_def upd_lock_def)
  have "l \<notin> crit s c" using free by (simp add: owns_def)
  then show ?thesis
    unfolding lock_inv_def o e using inv free assms(2) by (intro conjI) (auto 4 3)
next
  case False
  then show ?thesis using assms by (auto simp: lock_inv_def acquire_step_def upd_lock_def owns_def)
qed

lemma lock_inv_own:
  assumes "lock_inv s" "pcs s c = Own l"
  shows "lock_inv (acquire_step c l s)"
proof -
  have o: "owns (acquire_step c l s) d k = owns s d k" for d k
    using assms(2) by (auto simp: acquire_step_def owns_def go_def upd_lock_def set_crit_def)
  have "owns s c l" using assms(2) by (simp add: owns_def)
  then have own: "l \<in> crit s d \<Longrightarrow> d = c" for d using lock_invD(2)[OF assms(1), of d l c] by (simp add: owns_def)
  show ?thesis
    unfolding lock_inv_def o using assms own
    by (auto simp: lock_inv_def acquire_step_def go_def upd_lock_def set_crit_def)
qed

lemma lock_inv_clear:
  assumes "lock_inv s" "pcs s c = RelClear l"
  shows "lock_inv (release_step c l s)"
proof -
  note inv = assms(1)[unfolded lock_inv_def]
  have l: "l \<in> crit s c" by (rule lock_invD(4)[OF assms])
  have own: "l \<in> crit s d \<Longrightarrow> d = c" for d using lock_invD(2)[OF assms(1), of d l c] l by (simp add: owns_def)
  have o: "owns (release_step c l s) d k = owns s d k" for d k
    using assms(2) l by (auto simp: release_step_def owns_def go_def upd_lock_def set_crit_def)
  have e: "lock (release_step c l s) = (lock s)(l := (lock s l)\<lparr>lk_cpu := None\<rparr>)" "crit (release_step c l s) = (crit s)(c := crit s c - {l})"
    "pcs (release_step c l s) = (pcs s)(c := RelUnlock l)"
    using assms(2) by (simp_all add: release_step_def go_def upd_lock_def set_crit_def)
  show ?thesis
    unfolding lock_inv_def o e using inv own assms(2) by (intro conjI) (auto dest: lock_invD(2)[OF assms(1)])
qed

lemma lock_inv_unlock:
  assumes "lock_inv s" "pcs s c = RelUnlock l"
  shows "lock_inv (release_step c l s)"
proof -
  note inv = assms(1)[unfolded lock_inv_def]
  have l: "l \<notin> crit s c" using lock_invD(5)[OF assms(1)] assms(2) by blast
  have "owns s c l" using assms(2) by (simp add: owns_def)
  then have own: "owns s d l \<Longrightarrow> d = c" for d using lock_invD(2)[OF assms(1)] by blast
  have o: "owns (release_step c l s) d k \<longleftrightarrow> owns s d k \<and> k \<noteq> l" for d k
  proof (cases "d = c")
    case True
    then show ?thesis using assms(2) l by (auto simp: release_step_def owns_def go_def upd_lock_def)
  next
    case False
    then have "owns (release_step c l s) d k = owns s d k"
      using assms(2) by (simp add: release_step_def owns_def go_def upd_lock_def)
    then show ?thesis using own[of d] False by blast
  qed
  have e: "lock (release_step c l s) = (lock s)(l := (lock s l)\<lparr>lk_locked := 0\<rparr>)" "crit (release_step c l s) = crit s"
    "pcs (release_step c l s) = (pcs s)(c := PopOff)"
    using assms(2) by (simp_all add: release_step_def go_def upd_lock_def)
  show ?thesis
    unfolding lock_inv_def o e using inv own assms(2) by (intro conjI) (auto dest: lock_invD(2)[OF assms(1)])
qed

lemma lock_inv_next:
  assumes inv: "lock_inv s"
  shows "lock_inv (spin_next c s)"
proof (cases "pcs s c")
  case (AcqLocked l)
  then show ?thesis by (auto simp: spin_next_def acquire_step_def intro: lock_inv_go[OF inv])
next
  case (AcqCpu l)
  then show ?thesis by (auto simp: spin_next_def acquire_step_def intro: lock_inv_go[OF inv])
next
  case (RelLocked l)
  then show ?thesis by (auto simp: spin_next_def release_step_def intro: lock_inv_go[OF inv])
next
  case (RelCpu l)
  then show ?thesis
    using lock_invD(3)[OF inv, of l c] by (auto simp: spin_next_def release_step_def intro: lock_inv_go[OF inv])
next
  case PopOff
  have u: "lock_inv (upd_cpu c f s)" for f using inv by simp
  show ?thesis
    using inv PopOff
    by (auto simp: spin_next_def intro: lock_inv_go[OF inv] lock_inv_go[OF u] split: kres.split)
qed (use inv in \<open>simp_all add: spin_next_def lock_inv_swap lock_inv_own lock_inv_clear lock_inv_unlock\<close>)

lemma lock_inv_step: "spin_step s t \<Longrightarrow> lock_inv s \<Longrightarrow> lock_inv t"
proof (induction rule: spin_step.induct)
  case (call_acquire s c l)
  then show ?case using lock_inv_go[of "upd_cpu c push_off s" c "AcqLocked l"] by (simp add: acquire_def)
next
  case (call_release s c l)
  then show ?case using lock_inv_go[of s c "RelLocked l"] by (simp add: release_def)
qed (simp_all add: lock_inv_next)

lemma push_off_simps:
  "c_noff (push_off k) = c_noff k + 1" "\<not> c_sie (push_off k)"
  by (simp_all add: push_off_def cpu_intr_get_def cpu_intr_off_def Let_def)

lemma spin_next_other:
  "d \<noteq> c \<Longrightarrow> crit (spin_next c s) d = crit s d \<and> pcs (spin_next c s) d = pcs s d \<and> cpus (spin_next c s) d = cpus s d"
  by (cases "pcs s c") (auto simp: spin_defs Let_def split: kres.split)

lemma intr_ok_pop:
  assumes "intr_ok A PopOff k"
  obtains j where "pop_off k = Ok j" "intr_ok A Run j"
proof -
  have "0 < c_noff k" "\<not> c_sie k" "c_noff k = int (card A) + 1" "finite A" using assms by (auto simp: intr_ok_def)
  then show thesis
    by (intro that[of "if A = {} \<and> c_intena k then cpu_intr_on (k\<lparr>c_noff := 0\<rparr>) else k\<lparr>c_noff := int (card A)\<rparr>"])
      (auto simp: pop_off_def cpu_intr_get_def cpu_intr_on_def intr_ok_def Let_def)
qed

lemma intr_inv_next:
  assumes "intr_inv s" "lock_inv s"
  shows "intr_inv (spin_next c s)"
proof -
  have ok: "intr_ok (crit s c) (pcs s c) (cpus s c)" using assms(1) by (simp add: intr_inv_def)
  then have fin: "finite (crit s c)" by (simp add: intr_ok_def)
  have "intr_ok (crit (spin_next c s) c) (pcs (spin_next c s) c) (cpus (spin_next c s) c)"
  proof (cases "pcs s c")
    case (Own l)
    then have "l \<notin> crit s c" using lock_invD(5)[OF assms(2), of c l] by blast
    then show ?thesis using ok Own fin by (simp add: spin_defs intr_ok_def)
  next
    case (RelClear l)
    then have "card (crit s c) = Suc (card (crit s c - {l}))"
      using card_Suc_Diff1[OF fin lock_invD(4)[OF assms(2) RelClear]] by simp
    then show ?thesis using ok RelClear by (simp add: spin_defs intr_ok_def)
  next
    case PopOff
    then obtain j where "pop_off (cpus s c) = Ok j" "intr_ok (crit s c) Run j" using intr_ok_pop ok by metis
    then show ?thesis using PopOff by (simp add: spin_defs)
  qed (use ok in \<open>auto simp: spin_defs intr_ok_def Let_def\<close>)
  then show ?thesis using assms(1) spin_next_other unfolding intr_inv_def by metis
qed

lemma intr_inv_step: "spin_step s t \<Longrightarrow> lock_inv s \<Longrightarrow> intr_inv s \<Longrightarrow> intr_inv t"
  by (induction rule: spin_step.induct)
    (simp_all add: intr_inv_next, auto simp: intr_inv_def intr_ok_def spin_defs push_off_simps cpu_intr_on_def cpu_intr_off_def)

lemma spin_reachable_inv: "spin_reachable s \<Longrightarrow> lock_inv s \<and> intr_inv s"
proof (induction rule: spin_reachable.induct)
  case (start nm)
  show ?case by (simp add: lock_inv_def intr_inv_def intr_ok_def owns_def spin_start_def initlock_def)
next
  case (step s t)
  then show ?case using lock_inv_step intr_inv_step by blast
qed

text \<open>The other CPUs: a step that leaves CPU \<open>c\<close> where it is.\<close>

definition other_step :: "nat \<Rightarrow> spin_state \<Rightarrow> spin_state \<Rightarrow> bool" where
  "other_step c s t \<longleftrightarrow> spin_step s t \<and> pcs t c = pcs s c \<and> crit t c = crit s c \<and> cpus t c = cpus s c"

lemma other_steps:
  "(other_step c)\<^sup>*\<^sup>* s t \<Longrightarrow> spin_reachable s \<Longrightarrow> spin_reachable t \<and> pcs t c = pcs s c \<and> crit t c = crit s c"
  by (induction rule: rtranclp_induct) (auto simp: other_step_def intro: spin_reachable.step)

text \<open>Of the locks a CPU holds, the word is set and the field \<^verbatim>\<open>cpu\<close> names it.\<close>

lemma crit_lock:
  assumes "spin_reachable s"
  shows "l \<in> crit s c \<Longrightarrow> lk_locked (lock s l) \<noteq> 0" "lk_cpu (lock s l) = Some c \<longleftrightarrow> l \<in> crit s c"
  using lock_invD(1,3)[OF conjunct1[OF spin_reachable_inv[OF assms]]] by (auto simp: owns_def)

lemma reacquire_dies:
  assumes "spin_reachable s" "pcs s c = AcqLocked l" "l \<in> crit s c" "(other_step c)\<^sup>*\<^sup>* s t" "(other_step c)\<^sup>*\<^sup>* (spin_next c t) u"
  shows "pcs (spin_next c u) c = Dead ''acquire''"
proof -
  from other_steps[OF assms(4,1)] assms(2,3) have t: "spin_reachable t" "pcs t c = AcqLocked l" "l \<in> crit t c" by simp_all
  have n: "spin_reachable (spin_next c t)" using t(1) by (blast intro: spin_reachable.step spin_step.next_step)
  have "pcs (spin_next c t) c = AcqCpu l" "crit (spin_next c t) c = crit t c" using t crit_lock(1)[OF t(1,3)] by (simp_all add: spin_defs)
  with other_steps[OF assms(5) n] t(3) have u: "spin_reachable u" "pcs u c = AcqCpu l" "l \<in> crit u c" by simp_all
  then show ?thesis using crit_lock(2)[OF u(1), of l c] by (simp add: spin_defs)
qed

lemma rerelease_dies:
  assumes "spin_reachable s" "pcs s c = RelLocked l" "l \<notin> crit s c" "(other_step c)\<^sup>*\<^sup>* s t" "(other_step c)\<^sup>*\<^sup>* (spin_next c t) u"
  shows "pcs (spin_next c u) c = Dead ''release''"
proof -
  from other_steps[OF assms(4,1)] assms(2,3) have t: "spin_reachable t" "pcs t c = RelLocked l" "l \<notin> crit t c" by simp_all
  have n: "spin_reachable (spin_next c t)" using t(1) by (blast intro: spin_reachable.step spin_step.next_step)
  have "pcs (spin_next c t) c = Dead ''release'' \<or> pcs (spin_next c t) c = RelCpu l" "crit (spin_next c t) c = crit t c"
    using t by (simp_all add: spin_defs)
  with other_steps[OF assms(5) n] t(3) have u: "spin_reachable u" "pcs u c = Dead ''release'' \<or> pcs u c = RelCpu l" "l \<notin> crit u c"
    by simp_all
  then show ?thesis using crit_lock(2)[OF u(1), of l c] by (auto simp: spin_defs)
qed

text \<open>The steps into the loop of \<^verbatim>\<open>acquire\<close> are from a lock that is free or another CPU's.\<close>

lemma spin_next_wait:
  assumes "spin_reachable s" "pcs s c = Spin l \<Longrightarrow> l \<notin> crit s c" "pcs (spin_next d s) c = Spin l"
  shows "l \<notin> crit (spin_next d s) c"
proof (cases "d = c")
  case True
  then show ?thesis
    using assms crit_lock[OF assms(1), of l c]
    by (cases "pcs s c") (auto simp: spin_defs Let_def split: if_splits kres.splits)
next
  case False
  then show ?thesis using assms(2,3) spin_next_other[of c d s] by auto
qed

lemma spin_not_held: "spin_reachable s \<Longrightarrow> pcs s c = Spin l \<Longrightarrow> l \<notin> crit s c"
proof (induction arbitrary: c l rule: spin_reachable.induct)
  case (start nm)
  then show ?case by (simp add: spin_start_def)
next
  case (step s t)
  from step.hyps(2) show ?case
  proof (cases rule: spin_step.cases)
    case (next_step d)
    then show ?thesis using spin_next_wait[OF step.hyps(1), of c l d] step.IH step.prems by blast
  qed (use step in \<open>auto simp: spin_defs split: if_splits\<close>)
qed

section \<open>Properties\<close>

text \<open>
  C5. Mutual exclusion: however the steps of the CPUs interleave, no two CPUs are between their
  \<^verbatim>\<open>acquire\<close> and \<^verbatim>\<open>release\<close> of the same lock, and a CPU that is runs with interrupts off.
\<close>

theorem mutual_exclusion:
  assumes "spin_reachable s" "l \<in> crit s c"
  shows "(\<forall>d. l \<in> crit s d \<longrightarrow> d = c) \<and> holding c (lock s l) \<and> ((\<forall>e. pcs s c \<noteq> Dead e) \<longrightarrow> \<not> c_sie (cpus s c))"
proof -
  have inv: "lock_inv s" "intr_inv s" using spin_reachable_inv[OF assms(1)] by simp_all
  have o: "owns s c l" using assms(2) by (simp add: owns_def)
  have "d = c" if "l \<in> crit s d" for d using lock_invD(2)[OF inv(1), of d l c] o that by (simp add: owns_def)
  moreover have "holding c (lock s l)"
    using lock_invD(1)[OF inv(1), of l] lock_invD(3)[OF inv(1), of l c] o assms(2) by (auto simp: holding_def)
  moreover have "0 < card (crit s c)" using assms(2) inv(2) by (auto simp: intr_inv_def intr_ok_def card_gt_0_iff)
  ultimately show ?thesis using inv(2) by (auto simp: intr_inv_def intr_ok_def)
qed

text \<open>
  C24. The lock routines panic exactly on misuse. A call of \<^verbatim>\<open>acquire\<close> for a lock the CPU already
  holds ends in the panic of \<^verbatim>\<open>acquire\<close> after two more steps of that CPU, and a call of
  \<^verbatim>\<open>release\<close> for a lock it does not hold in the panic of \<^verbatim>\<open>release\<close>, whatever the other CPUs
  do in between; a CPU never waits for a lock it holds itself. Conversely, a CPU dies in \<^verbatim>\<open>acquire\<close> only when
  it holds the lock, in \<^verbatim>\<open>release\<close> only when it does not, and never in \<^verbatim>\<open>pop_off\<close>.
\<close>

theorem spin_panics:
  assumes "spin_reachable s"
  shows "(pcs s c = Run \<and> l \<in> crit s c \<longrightarrow>
      (\<forall>t u. (other_step c)\<^sup>*\<^sup>* (acquire c l s) t \<and> (other_step c)\<^sup>*\<^sup>* (spin_next c t) u \<longrightarrow>
         pcs (spin_next c u) c = Dead ''acquire'')) \<and>
    (pcs s c = Run \<and> l \<notin> crit s c \<longrightarrow>
      (\<forall>t u. (other_step c)\<^sup>*\<^sup>* (release c l s) t \<and> (other_step c)\<^sup>*\<^sup>* (spin_next c t) u \<longrightarrow>
         pcs (spin_next c u) c = Dead ''release'')) \<and>
    (pcs s c = Spin l \<longrightarrow> l \<notin> crit s c) \<and>
    ((\<forall>e. pcs s c \<noteq> Dead e) \<longrightarrow> pcs (spin_next c s) c = Dead e \<longrightarrow>
      (\<exists>l. pcs s c = AcqCpu l \<and> l \<in> crit s c \<and> e = ''acquire'') \<or>
      (\<exists>l. (pcs s c = RelLocked l \<or> pcs s c = RelCpu l) \<and> l \<notin> crit s c \<and> e = ''release''))"
proof (intro conjI impI allI)
  fix t u
  assume c: "pcs s c = Run \<and> l \<in> crit s c"
    and o: "(other_step c)\<^sup>*\<^sup>* (acquire c l s) t \<and> (other_step c)\<^sup>*\<^sup>* (spin_next c t) u"
  have "spin_reachable (acquire c l s)" using assms c by (blast intro: spin_reachable.step spin_step.call_acquire)
  then show "pcs (spin_next c u) c = Dead ''acquire''"
    by (rule reacquire_dies[OF _ _ _ conjunct1[OF o] conjunct2[OF o]]) (use c in \<open>auto simp: acquire_def go_def\<close>)
next
  fix t u
  assume c: "pcs s c = Run \<and> l \<notin> crit s c"
    and o: "(other_step c)\<^sup>*\<^sup>* (release c l s) t \<and> (other_step c)\<^sup>*\<^sup>* (spin_next c t) u"
  have "spin_reachable (release c l s)" using assms c by (blast intro: spin_reachable.step spin_step.call_release)
  then show "pcs (spin_next c u) c = Dead ''release''"
    by (rule rerelease_dies[OF _ _ _ conjunct1[OF o] conjunct2[OF o]]) (use c in \<open>auto simp: release_def go_def\<close>)
next
  show "l \<notin> crit s c" if "pcs s c = Spin l" by (rule spin_not_held[OF assms that])
next
  assume alive: "\<forall>e. pcs s c \<noteq> Dead e" and dead: "pcs (spin_next c s) c = Dead e"
  have inv: "lock_inv s" "intr_inv s" using spin_reachable_inv[OF assms(1)] by simp_all
  have pop: "\<exists>k. pop_off (cpus s c) = Ok k" if "pcs s c = PopOff"
    using intr_ok_pop[of "crit s c" "cpus s c"] inv(2) that by (metis intr_inv_def)
  show "(\<exists>l. pcs s c = AcqCpu l \<and> l \<in> crit s c \<and> e = ''acquire'') \<or>
      (\<exists>l. (pcs s c = RelLocked l \<or> pcs s c = RelCpu l) \<and> l \<notin> crit s c \<and> e = ''release'')"
    using alive dead pop lock_invD(1,3)[OF inv(1)]
    by (cases "pcs s c") (auto simp: spin_defs owns_def Let_def split: if_splits)
qed

text \<open>
  C25. An uncontended \<^verbatim>\<open>acquire\<close> returns with the lock held and interrupts off, and the matching
  \<^verbatim>\<open>release\<close> returns with the lock free and the interrupt flag and nesting depth as they were before,
  at any depth of nesting.
\<close>

theorem acquire_release_returns:
  assumes "spin_reachable s" "pcs s c = Run" "\<forall>d. \<not> owns s d l"
  shows "\<exists>t u. t = (spin_next c ^^ 3) (acquire c l s) \<and> pcs t c = Run \<and> crit t c = insert l (crit s c) \<and>
      \<not> c_sie (cpus t c) \<and>
    u = (spin_next c ^^ 5) (release c l t) \<and> pcs u c = Run \<and> crit u = crit s \<and> lk_locked (lock u l) = 0 \<and>
      c_sie (cpus u c) = c_sie (cpus s c) \<and> c_noff (cpus u c) = c_noff (cpus s c)"
proof -
  have inv: "lock_inv s" "intr_inv s" using spin_reachable_inv[OF assms(1)] by simp_all
  have free: "lk_locked (lock s l) = 0" "l \<notin> crit s c"
    using lock_invD(1)[OF inv(1), of l] assms(3) by (auto simp: owns_def)
  have k: "0 \<le> c_noff (cpus s c)" "0 < c_noff (cpus s c) \<Longrightarrow> \<not> c_sie (cpus s c)"
    using inv(2) by (auto simp: intr_inv_def intr_ok_def)
  define lk where "lk = (lock s l)\<lparr>lk_locked := 1, lk_cpu := Some c\<rparr>"
  define t where "t = s\<lparr>lock := (lock s)(l := lk), cpus := (cpus s)(c := push_off (cpus s c)),
    pcs := (pcs s)(c := Run), crit := (crit s)(c := insert l (crit s c))\<rparr>"
  have t: "(spin_next c ^^ 3) (acquire c l s) = t"
    using free assms(2) by (simp add: numeral_3_eq_3 spin_defs t_def lk_def)
  define v where "v = s\<lparr>lock := (lock s)(l := lk\<lparr>lk_cpu := None, lk_locked := 0\<rparr>),
    cpus := (cpus s)(c := push_off (cpus s c)), pcs := (pcs s)(c := PopOff)\<rparr>"
  have v: "(spin_next c ^^ 4) (release c l t) = v"
    using free(2) by (simp add: eval_nat_numeral spin_defs t_def v_def lk_def insert_absorb)
  obtain j where j: "pop_off (push_off (cpus s c)) = Ok j" "c_sie j = c_sie (cpus s c)" "c_noff j = c_noff (cpus s c)"
    using k by (cases "c_noff (cpus s c) = 0") (auto simp: pop_off_def push_off_def cpu_intr_get_def cpu_intr_off_def cpu_intr_on_def Let_def)
  have "(spin_next c ^^ 5) (release c l t) = spin_next c v"
    using v by (simp add: eval_nat_numeral)
  also have "\<dots> = v\<lparr>cpus := (cpus v)(c := j), pcs := (pcs v)(c := Run)\<rparr>"
    using j(1) by (simp add: v_def spin_defs)
  finally have u: "(spin_next c ^^ 5) (release c l t) = v\<lparr>cpus := (cpus v)(c := j), pcs := (pcs v)(c := Run)\<rparr>" .
  show ?thesis
    by (rule exI[of _ t], rule exI[of _ "v\<lparr>cpus := (cpus v)(c := j), pcs := (pcs v)(c := Run)\<rparr>"])
      (simp add: t u, simp add: t_def push_off_simps v_def j lk_def)
qed

section \<open>Witnesses\<close>

text \<open>CPU 0 has taken lock 5; CPU 1 is spinning on it.\<close>

definition two_cpus :: spin_state where
  "two_cpus = (spin_next 1 ^^ 3) (acquire 1 5 ((spin_next 0 ^^ 3) (acquire 0 5 (spin_start (\<lambda>_. ''lock'')))))"

lemma spin_next_reachable: "spin_reachable s \<Longrightarrow> spin_reachable ((spin_next c ^^ n) s)"
  by (induction n) (auto intro: spin_reachable.step spin_step.next_step)

lemma acquire_reachable: "spin_reachable s \<Longrightarrow> pcs s c = Run \<Longrightarrow> spin_reachable ((spin_next c ^^ n) (acquire c l s))"
  by (intro spin_next_reachable spin_reachable.step[OF _ spin_step.call_acquire])

lemma two_cpus_reachable: "spin_reachable two_cpus"
  unfolding two_cpus_def
  by (intro acquire_reachable spin_reachable.start) (simp_all add: spin_defs spin_start_def initlock_def eval_nat_numeral)

lemma two_cpus_state: "crit two_cpus 0 = {5}" "pcs two_cpus 1 = Spin 5" "crit two_cpus 1 = {}" "pcs two_cpus 0 = Run"
  "\<not> c_sie (cpus two_cpus 0)"
  by (simp_all add: two_cpus_def spin_defs spin_start_def initlock_def eval_nat_numeral push_off_simps)

theorem mutual_exclusion_witness:
  "spin_reachable two_cpus \<and> 5 \<in> crit two_cpus 0 \<and> pcs two_cpus 1 = Spin 5 \<and> holding 0 (lock two_cpus 5) \<and> \<not> c_sie (cpus two_cpus 0)"
  using mutual_exclusion[OF two_cpus_reachable, of 5 0] two_cpus_reachable two_cpus_state by simp

theorem spin_panics_witness:
  "spin_reachable two_cpus \<and> 5 \<in> crit two_cpus 0 \<and> pcs (spin_next 0 (spin_next 1 (spin_next 0 (acquire 0 5 two_cpus)))) 0 = Dead ''acquire'' \<and>
   7 \<notin> crit two_cpus 0 \<and> pcs (spin_next 0 (spin_next 0 (release 0 7 two_cpus))) 0 = Dead ''release''"
proof -
  let ?t = "spin_next 0 (acquire 0 5 two_cpus)"
  have "other_step 0 ?t (spin_next 1 ?t)"
    using spin_next_other[of 0 1 ?t] spin_step.next_step[of ?t 1] by (simp add: other_step_def)
  then have "(other_step 0)\<^sup>*\<^sup>* ?t (spin_next 1 ?t)" by (rule r_into_rtranclp)
  then have "pcs (spin_next 0 (spin_next 1 ?t)) 0 = Dead ''acquire''"
    by (intro spin_panics[OF two_cpus_reachable, of 0 5, THEN conjunct1, rule_format, OF _ conjI[OF rtranclp.rtrancl_refl]])
      (simp_all add: two_cpus_state)
  moreover have "pcs (spin_next 0 (spin_next 0 (release 0 7 two_cpus))) 0 = Dead ''release''"
    by (intro spin_panics[OF two_cpus_reachable, of 0 7, THEN conjunct2, THEN conjunct1, rule_format,
          OF _ conjI[OF rtranclp.rtrancl_refl rtranclp.rtrancl_refl]]) (simp add: two_cpus_state)
  ultimately show ?thesis using two_cpus_reachable two_cpus_state(1) by simp
qed

theorem acquire_release_returns_witness:
  "\<exists>t u. t = (spin_next 0 ^^ 3) (acquire 0 7 two_cpus) \<and> crit t 0 = {5, 7} \<and>
     u = (spin_next 0 ^^ 5) (release 0 7 t) \<and> crit u 0 = {5} \<and> \<not> c_sie (cpus u 0)"
proof -
  have "\<not> owns two_cpus d 7" for d
    by (cases "d = 0"; cases "d = 1") (simp_all add: owns_def two_cpus_def spin_defs spin_start_def initlock_def eval_nat_numeral)
  then show ?thesis
    using acquire_release_returns[OF two_cpus_reachable two_cpus_state(4), of 7] two_cpus_state(1)
      two_cpus_state(5) by (auto simp: insert_commute)
qed

end
