(* ===== verification/Vm_Map.thy ===== *)
theory Vm_Map
  imports Vm
begin

text \<open>
  What the page-table code of \<^verbatim>\<open>kernel/vm.c\<close> does to translations. \<open>ptree\<close> says that a page
  table is a tree of three levels that shares no page with itself; \<open>entry\<close> is the entry that the
  tree holds for an address. The lemmas show that \<^verbatim>\<open>walk\<close> keeps the tree and every entry, and the
  properties at the end are those of \<^verbatim>\<open>mappages\<close> and \<^verbatim>\<open>cowfault\<close>.
\<close>

section \<open>Entries\<close>

lemma or_add: "b < 2 ^ n \<Longrightarrow> Bit_Operations.or (a * 2 ^ n) b = a * 2 ^ n + (b :: nat)"
proof -
  assume b: "b < 2 ^ n"
  have "Bit_Operations.and (a * 2 ^ n) b = 0"
  proof (rule bit_eqI)
    fix k
    have "\<not> bit b k" if "n \<le> k"
      using b that by (simp add: bit_iff_odd div_less order_less_le_trans[OF b power_increasing])
    then show "bit (Bit_Operations.and (a * 2 ^ n) b) k = bit 0 k"
      by (auto simp: bit_simps push_bit_eq_mult[symmetric])
  qed
  then show ?thesis by (simp add: disjunctive_add_eq_or)
qed

definition mk_pte :: "nat \<Rightarrow> nat \<Rightarrow> nat" where
  "mk_pte pa fl = Bit_Operations.or (PA2PTE pa) fl"

lemma mk_pte_eq: "fl < 1024 \<Longrightarrow> mk_pte pa fl = PA2PTE pa + fl"
  using or_add[of fl 10 "pa div 4096"] by (simp add: mk_pte_def PA2PTE_def)

lemma mk_pte_simps:
  assumes "fl < 1024" "pa mod PGSIZE = 0" "pa < 2 ^ 56"
  shows "PTE2PA (mk_pte pa fl) = pa" "PTE_FLAGS (mk_pte pa fl) = fl" "mk_pte pa fl < 2 ^ 64"
    "k < 10 \<Longrightarrow> bit (mk_pte pa fl) k = bit fl k"
proof -
  have pa: "pa div 4096 * 4096 = pa" using assms(2) by (simp add: PGSIZE_def minus_mod_eq_div_mult[symmetric])
  have e: "mk_pte pa fl = pa div 4096 * 1024 + fl" using mk_pte_eq[OF assms(1)] by (simp add: PA2PTE_def)
  show "PTE2PA (mk_pte pa fl) = pa" using assms(1,3) by (simp add: e PTE2PA_def pa)
  show f: "PTE_FLAGS (mk_pte pa fl) = fl" using assms(1) by (simp add: e PTE_FLAGS_def)
  have "pa div 4096 < 2 ^ 44" using assms(3) by (simp add: div_less_iff_less_mult)
  then show "mk_pte pa fl < 2 ^ 64" using assms(1) unfolding e by simp
  show "bit (mk_pte pa fl) k = bit fl k" if "k < 10"
  proof -
    have "bit (take_bit 10 (mk_pte pa fl)) k = bit (mk_pte pa fl) k" using that by (simp add: bit_take_bit_iff)
    moreover have "take_bit 10 (mk_pte pa fl) = fl" using f by (simp add: take_bit_eq_mod PTE_FLAGS_def)
    ultimately show ?thesis by simp
  qed
qed

lemma PX_less: "PX k va < 512"
  by (simp add: PX_def)

section \<open>Page tables as trees\<close>

definition in_page :: "nat \<Rightarrow> nat \<Rightarrow> bool" where
  "in_page p x \<longleftrightarrow> p \<le> x \<and> x < p + PGSIZE"

definition same_page :: "bytes \<Rightarrow> bytes \<Rightarrow> nat \<Rightarrow> bool" where
  "same_page m m' p \<longleftrightarrow> (\<forall>x. in_page p x \<longrightarrow> m' x = m x)"

lemma same_page_entry: "same_page m m' p \<Longrightarrow> i < 512 \<Longrightarrow> get_le 8 m' (p + 8 * i) = get_le 8 m (p + 8 * i)"
  by (rule get_le_cong) (auto simp: same_page_def in_page_def PGSIZE_def)

lemma in_page_unique: "p mod PGSIZE = 0 \<Longrightarrow> q mod PGSIZE = 0 \<Longrightarrow> in_page p x \<Longrightarrow> in_page q x \<Longrightarrow> p = q"
  using page_disjoint[of p q] by (auto simp: in_page_def)

text \<open>
  \<open>ptree l pt m T\<close>: in memory \<open>m\<close>, \<open>pt\<close> is the root of a tree of page tables with \<open>l\<close> levels
  below it; \<open>T\<close> is the set of its pages, and no page occurs twice.
\<close>

primrec ptree :: "nat \<Rightarrow> nat \<Rightarrow> bytes \<Rightarrow> nat set \<Rightarrow> bool" where
  "ptree 0 pt m T \<longleftrightarrow> T = {pt}"
| "ptree (Suc l) pt m T \<longleftrightarrow> (\<exists>F. T = insert pt (\<Union>i<512. F i) \<and> pt \<notin> (\<Union>i<512. F i) \<and>
     (\<forall>i<512. \<forall>j<512. i \<noteq> j \<longrightarrow> F i \<inter> F j = {}) \<and>
     (\<forall>i<512. if bit (get_le 8 m (pt + 8 * i)) PTE_V then ptree l (PTE2PA (get_le 8 m (pt + 8 * i))) m (F i)
              else F i = {}))"

text \<open>The table of level 0 that holds the entry of an address, and that entry (0 when there is none).\<close>

primrec ltable :: "nat \<Rightarrow> nat \<Rightarrow> nat \<Rightarrow> bytes \<Rightarrow> nat option" where
  "ltable 0 pt va m = Some pt"
| "ltable (Suc l) pt va m =
     (let pte = get_le 8 m (pt + 8 * PX (Suc l) va) in if bit pte PTE_V then ltable l (PTE2PA pte) va m else None)"

definition lentry :: "nat \<Rightarrow> nat \<Rightarrow> nat \<Rightarrow> bytes \<Rightarrow> nat" where
  "lentry l pt va m = (case ltable l pt va m of None \<Rightarrow> 0 | Some p \<Rightarrow> get_le 8 m (p + 8 * PX 0 va))"

definition entry :: "'a kmem_state_scheme \<Rightarrow> nat \<Rightarrow> nat \<Rightarrow> nat" where
  "entry s pt va = lentry 2 pt va (pmem s)"

lemma ptree_root: "ptree l pt m T \<Longrightarrow> pt \<in> T"
  by (cases l) auto

lemma ptree_cong: "ptree l pt m T \<Longrightarrow> (\<And>p. p \<in> T \<Longrightarrow> same_page m m' p) \<Longrightarrow> ptree l pt m' T"
proof (induction l arbitrary: pt T)
  case (Suc l)
  from Suc.prems(1) obtain F where F: "T = insert pt (\<Union>i<512. F i)" "pt \<notin> (\<Union>i<512. F i)"
    "\<forall>i<512. \<forall>j<512. i \<noteq> j \<longrightarrow> F i \<inter> F j = {}"
    "\<forall>i<512. if bit (get_le 8 m (pt + 8 * i)) PTE_V then ptree l (PTE2PA (get_le 8 m (pt + 8 * i))) m (F i) else F i = {}"
    by auto
  have e: "get_le 8 m' (pt + 8 * i) = get_le 8 m (pt + 8 * i)" if "i < 512" for i
    using Suc.prems(2)[of pt] that by (intro same_page_entry) (auto simp: F(1))
  have "ptree l q m' (F i)" if "i < 512" "ptree l q m (F i)" for i q
    by (rule Suc.IH[OF that(2)]) (use Suc.prems(2) that(1) in \<open>auto simp: F(1)\<close>)
  then show ?case
    unfolding ptree.simps using F by (intro exI[of _ F]) (auto simp: e)
qed simp

lemma ltable_in: "ptree l pt m T \<Longrightarrow> ltable l pt va m = Some p \<Longrightarrow> p \<in> T"
proof (induction l arbitrary: pt T)
  case (Suc l)
  then obtain F where F: "T = insert pt (\<Union>i<512. F i)"
    "\<forall>i<512. if bit (get_le 8 m (pt + 8 * i)) PTE_V then ptree l (PTE2PA (get_le 8 m (pt + 8 * i))) m (F i) else F i = {}"
    by auto
  let ?i = "PX (Suc l) va"
  have v: "bit (get_le 8 m (pt + 8 * ?i)) PTE_V" and p: "ltable l (PTE2PA (get_le 8 m (pt + 8 * ?i))) va m = Some p"
    using Suc.prems(2) by (auto simp: Let_def split: if_splits)
  have "p \<in> F ?i" using F(2) v PX_less[of "Suc l" va] Suc.IH[OF _ p] by auto
  then show ?case using F(1) PX_less by blast
qed simp

lemma ltable_cong:
  assumes "ptree l pt m T" "\<And>p. p \<in> T \<Longrightarrow> same_page m m' p"
  shows "ltable l pt va m' = ltable l pt va m" "lentry l pt va m' = lentry l pt va m"
proof -
  show t: "ltable l pt va m' = ltable l pt va m"
    using assms
  proof (induction l arbitrary: pt T)
    case (Suc l)
    then obtain F where F: "T = insert pt (\<Union>i<512. F i)"
      "\<forall>i<512. if bit (get_le 8 m (pt + 8 * i)) PTE_V then ptree l (PTE2PA (get_le 8 m (pt + 8 * i))) m (F i) else F i = {}"
      by auto
    let ?i = "PX (Suc l) va"
    have e: "get_le 8 m' (pt + 8 * ?i) = get_le 8 m (pt + 8 * ?i)"
      using Suc.prems(2)[of pt] PX_less by (intro same_page_entry) (auto simp: F(1))
    have "ltable l q va m' = ltable l q va m" if "ptree l q m (F ?i)" for q
      by (rule Suc.IH[OF that]) (use Suc.prems(2) PX_less[of "Suc l" va] in \<open>auto simp: F(1)\<close>)
    then show ?case using F(2) PX_less[of "Suc l" va] by (auto simp: Let_def e)
  qed simp
  show "lentry l pt va m' = lentry l pt va m"
  proof (cases "ltable l pt va m")
    case (Some p)
    then have "same_page m m' p" using ltable_in[OF assms(1)] assms(2) by blast
    then show ?thesis using t Some PX_less by (simp add: lentry_def same_page_entry)
  qed (use t in \<open>simp add: lentry_def\<close>)
qed

definition kids :: "nat \<Rightarrow> nat \<Rightarrow> bytes \<Rightarrow> (nat \<Rightarrow> nat set) \<Rightarrow> nat set \<Rightarrow> bool" where
  "kids l pt m F T \<longleftrightarrow> T = insert pt (\<Union>i<512. F i) \<and> pt \<notin> (\<Union>i<512. F i) \<and>
     (\<forall>i<512. \<forall>j<512. i \<noteq> j \<longrightarrow> F i \<inter> F j = {}) \<and>
     (\<forall>i<512. if bit (get_le 8 m (pt + 8 * i)) PTE_V then ptree l (PTE2PA (get_le 8 m (pt + 8 * i))) m (F i)
              else F i = {})"

lemma ptree_kids: "ptree (Suc l) pt m T \<longleftrightarrow> (\<exists>F. kids l pt m F T)"
  by (simp add: kids_def)

lemma kidsD:
  assumes "kids l pt m F T"
  shows "T = insert pt (\<Union>i<512. F i)" "pt \<notin> (\<Union>i<512. F i)"
    "\<And>i j. i < 512 \<Longrightarrow> j < 512 \<Longrightarrow> i \<noteq> j \<Longrightarrow> F i \<inter> F j = {}"
    "\<And>i. i < 512 \<Longrightarrow> bit (get_le 8 m (pt + 8 * i)) PTE_V \<Longrightarrow> ptree l (PTE2PA (get_le 8 m (pt + 8 * i))) m (F i)"
    "\<And>i. i < 512 \<Longrightarrow> \<not> bit (get_le 8 m (pt + 8 * i)) PTE_V \<Longrightarrow> F i = {}"
  using assms by (auto simp: kids_def)

text \<open>Two addresses with the same table of level 0 agree in the upper indices.\<close>

lemma ltable_inj:
  "ptree l pt m T \<Longrightarrow> ltable l pt va m = Some p \<Longrightarrow> ltable l pt vb m = Some p \<Longrightarrow> 0 < k \<Longrightarrow> k \<le> l \<Longrightarrow> PX k va = PX k vb"
proof (induction l arbitrary: pt T)
  case (Suc l)
  from Suc.prems(1) obtain F where "kids l pt m F T" unfolding ptree_kids ..
  note F = kidsD(3,4)[OF this]
  let ?q = "\<lambda>va. get_le 8 m (pt + 8 * PX (Suc l) va)"
  have v: "bit (?q va) PTE_V" "bit (?q vb) PTE_V" "ltable l (PTE2PA (?q va)) va m = Some p" "ltable l (PTE2PA (?q vb)) vb m = Some p"
    using Suc.prems(2,3) by (auto simp: Let_def split: if_splits)
  have "p \<in> F (PX (Suc l) va)" "p \<in> F (PX (Suc l) vb)"
    using ltable_in[OF F(2)] v PX_less by blast+
  then have e: "PX (Suc l) va = PX (Suc l) vb" using F(1) PX_less by blast
  show ?case
  proof (cases "k = Suc l")
    case False
    then show ?thesis using Suc.IH[OF F(2)] v Suc.prems(4,5) PX_less by (metis e le_SucE)
  qed (use e in simp)
qed simp

lemma PX_page:
  assumes "PX 0 va = PX 0 vb" "PX 1 va = PX 1 vb" "PX 2 va = PX 2 vb" "va < MAXVA" "vb < MAXVA"
  shows "va div PGSIZE = vb div PGSIZE"
proof -
  have split: "x div 4096 = PX 0 x + 512 * (PX 1 x + 512 * PX 2 x)" if "x < MAXVA" for x
  proof -
    have a: "x div 2 ^ 21 = x div 4096 div 512" "x div 2 ^ 30 = x div 4096 div 512 div 512"
      by (simp_all add: div_mult2_eq[symmetric])
    have "x div 4096 div 512 div 512 < 512" using that by (simp add: MAXVA_def div_mult2_eq[symmetric] div_less_iff_less_mult)
    then have b: "PX 0 x = x div 4096 mod 512" "PX 1 x = x div 4096 div 512 mod 512" "PX 2 x = x div 4096 div 512 div 512"
      by (simp_all add: PX_def a[simplified])
    show ?thesis unfolding b by simp
  qed
  show ?thesis using split[OF assms(4)] split[OF assms(5)] assms(1-3) by (simp add: PGSIZE_def)
qed

text \<open>Writing an entry of level 0.\<close>

lemma ptree_leaf_write:
  assumes "ptree l pt m T" "ltable l pt va m = Some p" "i < 512" "\<And>q. q \<in> T \<Longrightarrow> q mod PGSIZE = 0"
  shows "ptree l pt (put_le 8 m (p + 8 * i) v) T"
    and "ltable l pt vb (put_le 8 m (p + 8 * i) v) = ltable l pt vb m"
proof -
  let ?m = "put_le 8 m (p + 8 * i) v"
  have pm: "p mod PGSIZE = 0" using assms(4)[OF ltable_in[OF assms(1,2)]] .
  have other: "same_page m ?m q" if "q mod PGSIZE = 0" "q \<noteq> p" for q
    using page_disjoint[OF that(1) pm that(2)] assms(3)
    by (auto simp: same_page_def in_page_def put_le_outside PGSIZE_def)
  have "ptree l pt ?m T \<and> ltable l pt vb ?m = ltable l pt vb m"
    using assms(1,2,4)
  proof (induction l arbitrary: pt T)
    case (Suc l)
    from Suc.prems(1) obtain F where "kids l pt m F T" unfolding ptree_kids ..
    note F = kidsD[OF this]
    let ?q = "get_le 8 m (pt + 8 * PX (Suc l) va)"
    have v: "bit ?q PTE_V" "ltable l (PTE2PA ?q) va m = Some p" using Suc.prems(2) by (auto simp: Let_def split: if_splits)
    have p: "p \<in> F (PX (Suc l) va)" using ltable_in[OF F(4) v(2)] v(1) PX_less by blast
    then have ne: "pt \<noteq> p" using F(2) PX_less by blast
    have e: "get_le 8 ?m (pt + 8 * j) = get_le 8 m (pt + 8 * j)" if "j < 512" for j
      using other[OF _ ne] Suc.prems(3)[of pt] that by (intro same_page_entry) (auto simp: F(1))
    have sub: "q \<in> T" if "q \<in> F j" "j < 512" for q j using that F(1) by blast
    have child: "ptree l (PTE2PA (get_le 8 m (pt + 8 * j))) ?m (F j) \<and>
        ltable l (PTE2PA (get_le 8 m (pt + 8 * j))) vb ?m = ltable l (PTE2PA (get_le 8 m (pt + 8 * j))) vb m"
      if "j < 512" "bit (get_le 8 m (pt + 8 * j)) PTE_V" for j
    proof (cases "j = PX (Suc l) va")
      case True
      then show ?thesis using Suc.IH[OF F(4)[OF that], of ] v(2) Suc.prems(3) sub that(1) by blast
    next
      case False
      then have "p \<notin> F j" using F(3)[OF that(1) PX_less False] p by blast
      then have "same_page m ?m q" if "q \<in> F j" for q using other[of q] sub[OF that \<open>j < 512\<close>] Suc.prems(3) that by metis
      then show ?thesis using ptree_cong[OF F(4)[OF that]] ltable_cong(1)[OF F(4)[OF that]] by blast
    qed
    have "ptree (Suc l) pt ?m T"
      unfolding ptree.simps using F child by (intro exI[of _ F]) (auto simp: e)
    then show ?case using child[OF PX_less] by (auto simp: Let_def e[OF PX_less])
  qed simp
  then show "ptree l pt ?m T" "ltable l pt vb ?m = ltable l pt vb m" by simp_all
qed

section \<open>Growing a tree\<close>

lemma kmem_write:
  assumes "kmem_inv s" "\<And>p. p \<in> pool s \<Longrightarrow> same_page (pmem s) m p"
  shows "kmem_inv (s\<lparr>pmem := m\<rparr>)" "pool (s\<lparr>pmem := m\<rparr>) = pool s" "page_ok (s\<lparr>pmem := m\<rparr>) = page_ok s"
proof -
  obtain xs where xs: "klist s xs" "kmem_wf s xs" "pool s = set xs" "kready s" using assms(1) by (rule kmem_invE)
  show ok: "page_ok (s\<lparr>pmem := m\<rparr>) = page_ok s" by (rule page_ok_cong) simp
  have "flist m (freelist s) xs"
    by (rule flist_cong[of "pmem s"]) (use xs assms(2) in \<open>auto simp: klist_def same_page_def in_page_def PGSIZE_def\<close>)
  then have k: "klist (s\<lparr>pmem := m\<rparr>) xs" using xs(1) by (simp add: klist_def ok)
  show "kmem_inv (s\<lparr>pmem := m\<rparr>)" "pool (s\<lparr>pmem := m\<rparr>) = pool s"
    using kmem_invI[OF k] xs by (simp_all add: ok kmem_wf_def)
qed

lemma same_page_disjoint:
  assumes "p mod PGSIZE = 0" "q mod PGSIZE = 0" "p \<noteq> q" "\<And>x. \<not> in_page q x \<Longrightarrow> m' x = m x"
  shows "same_page m m' p"
  using page_disjoint[OF assms(1-3)] assms(4) by (auto simp: same_page_def in_page_def)

text \<open>
  The pages of a tree are allocated pages. \<open>grew\<close>: the tree may have got more pages from the pool,
  but it has the same entries, and no other memory changed.
\<close>

definition tree_ok :: "nat \<Rightarrow> nat \<Rightarrow> nat set \<Rightarrow> 'a kmem_state_scheme \<Rightarrow> bool" where
  "tree_ok l pt T s \<longleftrightarrow> kmem_inv s \<and> ptree l pt (pmem s) T \<and> (\<forall>p\<in>T. page_ok s p \<and> p \<notin> pool s)"

definition grew :: "nat \<Rightarrow> nat \<Rightarrow> nat set \<Rightarrow> 'a kmem_state_scheme \<Rightarrow> nat set \<Rightarrow> 'a kmem_state_scheme \<Rightarrow> bool" where
  "grew l pt T s T' t \<longleftrightarrow> tree_ok l pt T' t \<and> T \<subseteq> T' \<and> T' \<subseteq> T \<union> pool s \<and> pool t = pool s - T' \<and>
     page_ok t = page_ok s \<and> (\<forall>q. page_ok s q \<and> q \<notin> T' \<longrightarrow> page_rc t q = page_rc s q) \<and>
     (\<forall>x. (\<forall>p\<in>T'. \<not> in_page p x) \<longrightarrow> pmem t x = pmem s x) \<and>
     (\<forall>va. lentry l pt va (pmem t) = lentry l pt va (pmem s))"

lemma grew_refl: "tree_ok l pt T s \<Longrightarrow> grew l pt T s T s"
  by (auto simp: grew_def tree_ok_def)

lemma grew_trans: "grew l pt T s T' t \<Longrightarrow> grew l pt T' t T'' u \<Longrightarrow> grew l pt T s T'' u"
  unfolding grew_def by (intro conjI) (auto 4 3)

lemma tree_aligned: "tree_ok l pt T s \<Longrightarrow> p \<in> T \<Longrightarrow> p mod PGSIZE = 0"
  by (auto simp: tree_ok_def page_ok_def)

lemma page_small: "page_ok s p \<Longrightarrow> p < 2 ^ 56"
  by (simp add: page_ok_def PHYSTOP_def KERNBASE_def)

text \<open>The oom flag is no part of the tree.\<close>

lemma grew_oom:
  assumes "tree_ok l pt T s" "pool s = {}" "kalloc s = (p, t)"
  shows "p = 0" "grew l pt T s T t"
proof -
  have inv: "kmem_inv s" using assms(1) by (simp add: tree_ok_def)
  note k = kalloc_pool_empty[OF inv assms(2,3)]
  show "p = 0" by (rule k(2))
  show "grew l pt T s T t" using assms k by (simp add: grew_def tree_ok_def)
qed

lemma ltable_zero_page:
  assumes "\<And>x. in_page p x \<Longrightarrow> m x = 0"
  shows "ptree l p m {p}" "lentry l p va m = 0"
proof -
  have e: "get_le 8 m (p + 8 * i) = 0" if "i < 512" for i
  proof -
    have "get_le 8 m (p + 8 * i) = get_le 8 (\<lambda>_. 0) (p + 8 * i)"
      using assms that by (intro get_le_cong) (auto simp: in_page_def PGSIZE_def)
    also have "\<dots> = 0" by (simp add: get_le_zero)
    finally show ?thesis .
  qed
  show "ptree l p m {p}" by (cases l) (auto simp: e intro!: exI[of _ "\<lambda>_. {}"])
  show "lentry l p va m = 0" using PX_less by (cases l) (simp_all add: lentry_def Let_def e)
qed

declare ptree.simps(2) [simp del]

lemma lentry_Suc:
  "lentry (Suc l) pt va m = (let pte = get_le 8 m (pt + 8 * PX (Suc l) va) in
     if bit pte PTE_V then lentry l (PTE2PA pte) va m else 0)"
  by (simp add: lentry_def Let_def)

lemma pte_valid_one:
  assumes "page_ok s p"
  shows "bit (mk_pte p 1) PTE_V" "PTE2PA (mk_pte p 1) = p" "mk_pte p 1 < 2 ^ 64"
proof -
  have "bit (Suc 0) 0" by (simp add: bit_0)
  then show "bit (mk_pte p 1) PTE_V" "PTE2PA (mk_pte p 1) = p" "mk_pte p 1 < 2 ^ 64"
    using mk_pte_simps[of 1 p] page_small[OF assms] assms by (simp_all add: page_ok_def PTE_V_def)
qed

text \<open>A missing table is allocated, zeroed and entered.\<close>

lemma alloc_child:
  assumes tree: "tree_ok (Suc l) pt T s" and i: "i < 512" "\<not> bit (get_le 8 (pmem s) (pt + 8 * i)) PTE_V"
    and k: "kalloc s = (p, s1)" "p \<noteq> 0"
  defines "u \<equiv> write_pte (pt + 8 * i) (mk_pte p 1) (zero_page p s1)"
  shows "grew (Suc l) pt T s (insert p T) u" "get_le 8 (pmem u) (pt + 8 * i) = mk_pte p 1"
proof -
  have inv: "kmem_inv s" using tree by (simp add: tree_ok_def)
  have "pool s \<noteq> {}" using kalloc_pool_empty(2)[OF inv _ k(1)] k(2) by blast
  note a = kalloc_pool_ok[OF inv this k(1)]
  have T: "q \<in> T \<Longrightarrow> page_ok s q \<and> q \<notin> pool s" for q using tree by (simp add: tree_ok_def)
  have pt: "pt \<in> T" using tree ptree_root by (auto simp: tree_ok_def)
  have ne: "p \<noteq> pt" using T[OF pt] a(2) by blast
  have al: "p mod PGSIZE = 0" "pt mod PGSIZE = 0" using T[OF pt] a(6) by (simp_all add: page_ok_def)
  note p1 = pte_valid_one[OF a(6)]
  have um: "pmem u = put_le 8 (memset (pmem s1) p 0 PGSIZE) (pt + 8 * i) (mk_pte p 1)"
    by (simp add: u_def write_pte_def zero_page_def)
  have m1: "pmem u x = pmem s x" if "\<not> in_page p x" "\<not> in_page pt x" for x
  proof -
    have "x < pt + 8 * i \<or> pt + 8 * i + 8 \<le> x" using that(2) i(1) by (auto simp: in_page_def PGSIZE_def)
    then show ?thesis using that a(9) by (auto simp: um put_le_outside memset_eq in_page_def)
  qed
  have z: "pmem u x = 0" if "in_page p x" for x
  proof -
    have "x < pt + 8 * i \<or> pt + 8 * i + 8 \<le> x"
      using that page_disjoint[OF al ne] i(1) by (auto simp: in_page_def PGSIZE_def)
    then show ?thesis using that by (simp add: um put_le_outside memset_eq in_page_def)
  qed
  show ei: "get_le 8 (pmem u) (pt + 8 * i) = mk_pte p 1" using p1(3) by (simp add: um get_put_le)
  have ej: "get_le 8 (pmem u) (pt + 8 * j) = get_le 8 (pmem s) (pt + 8 * j)" if "j < 512" "j \<noteq> i" for j
  proof -
    have "get_le 8 (pmem u) (pt + 8 * j) = get_le 8 (memset (pmem s1) p 0 PGSIZE) (pt + 8 * j)"
      unfolding um using that(2) by (intro get_put_le_other) auto
    also have "\<dots> = get_le 8 (pmem s) (pt + 8 * j)"
      using page_disjoint[OF al ne] a(9) that(1) by (intro get_le_cong) (auto simp: memset_eq PGSIZE_def)
    finally show ?thesis .
  qed
  obtain F where K: "kids l pt (pmem s) F T" using tree unfolding tree_ok_def ptree_kids by blast
  note F = kidsD[OF K]
  have same: "same_page (pmem s) (pmem u) q" if "q \<noteq> p" "q \<noteq> pt" "q mod PGSIZE = 0" for q
    using page_disjoint[OF that(3) al(1) that(1)] page_disjoint[OF that(3) al(2) that(2)] m1
    by (auto simp: same_page_def in_page_def)
  have sub: "q \<in> T \<and> q \<noteq> pt" if "q \<in> F j" "j < 512" for q j using F(1,2) that by blast
  have child: "ptree l c (pmem u) (F j)" "lentry l c va (pmem u) = lentry l c va (pmem s)"
    if "j < 512" "ptree l c (pmem s) (F j)" for j c va
  proof -
    have "same_page (pmem s) (pmem u) q" if "q \<in> F j" for q
      using same[of q] sub[OF that \<open>j < 512\<close>] T[of q] a(2) by (auto simp: page_ok_def)
    then show "ptree l c (pmem u) (F j)" "lentry l c va (pmem u) = lentry l c va (pmem s)"
      using ptree_cong[OF that(2)] ltable_cong(2)[OF that(2)] by blast+
  qed
  have "ptree (Suc l) pt (pmem u) (insert p T)"
    unfolding ptree.simps
  proof (intro exI[of _ "F(i := {p})"] conjI allI impI)
    show "insert p T = insert pt (\<Union>j<512. (F(i := {p})) j)"
      using F(1,5) i by (auto split: if_splits)
    show "pt \<notin> (\<Union>j<512. (F(i := {p})) j)" using F(2) ne by (auto split: if_splits)
    show "(F(i := {p})) x \<inter> (F(i := {p})) y = {}" if "x < 512" "y < 512" "x \<noteq> y" for x y
      using F(3)[OF that] sub T a(2) that by (auto split: if_splits)
    show "if bit (get_le 8 (pmem u) (pt + 8 * j)) PTE_V
        then ptree l (PTE2PA (get_le 8 (pmem u) (pt + 8 * j))) (pmem u) ((F(i := {p})) j) else (F(i := {p})) j = {}"
      if "j < 512" for j
      using ei ej[OF that] p1 ltable_zero_page(1)[of p "pmem u" l] z F(4,5)[OF that] child(1)[OF that] by (cases "j = i") auto
  qed
  moreover have "lentry (Suc l) pt va (pmem u) = lentry (Suc l) pt va (pmem s)" for va
  proof (cases "PX (Suc l) va = i")
    case True
    then show ?thesis using ei p1 i(2) ltable_zero_page(2)[of p "pmem u" l va] z by (simp add: lentry_Suc)
  next
    case False
    then show ?thesis
      using child(2)[OF PX_less F(4)[OF PX_less, of "Suc l" va], of va] by (simp add: lentry_Suc Let_def ej[OF PX_less])
  qed
  moreover have "kmem_inv u \<and> pool u = pool s - {p} \<and> page_ok u = page_ok s"
  proof -
    have "same_page (pmem s1) (pmem u) q" if "q \<in> pool s1" for q
    proof -
      have q: "q \<noteq> p" "q \<noteq> pt" "q mod PGSIZE = 0"
        using that a(4) T[OF pt] pool_page_ok[OF inv, of q] by (auto simp: page_ok_def)
      have "same_page (pmem s) (pmem u) q" by (rule same[OF q])
      moreover have "same_page (pmem s) (pmem s1) q"
        by (rule same_page_disjoint[OF q(3) al(1) q(1)]) (use a(9) in \<open>auto simp: in_page_def\<close>)
      ultimately show ?thesis by (simp add: same_page_def)
    qed
    from kmem_write[OF a(1) this] show ?thesis
      using a(4,5) by (simp add: u_def write_pte_def zero_page_def)
  qed
  moreover have "page_rc u = page_rc s1" by (simp add: u_def write_pte_def zero_page_def)
  ultimately show "grew (Suc l) pt T s (insert p T) u"
    unfolding grew_def tree_ok_def using T pt a m1 by (auto simp: fun_eq_iff)
qed

text \<open>A change in one subtree.\<close>

lemma grew_child:
  assumes tree: "tree_ok (Suc l) pt T s" and i: "i < 512" "bit (get_le 8 (pmem s) (pt + 8 * i)) PTE_V"
    and K: "kids l pt (pmem s) F T"
    and g: "grew l (PTE2PA (get_le 8 (pmem s) (pt + 8 * i))) (F i) s C t"
  shows "grew (Suc l) pt T s (T \<union> C) t" "j < 512 \<Longrightarrow> get_le 8 (pmem t) (pt + 8 * j) = get_le 8 (pmem s) (pt + 8 * j)"
proof -
  note F = kidsD[OF K]
  note g' = g[unfolded grew_def tree_ok_def]
  have T: "q \<in> T \<Longrightarrow> page_ok s q \<and> q \<notin> pool s" for q using tree by (simp add: tree_ok_def)
  have sub: "q \<in> T \<and> q \<noteq> pt" if "q \<in> F j" "j < 512" for q j using F(1,2) that by blast
  have C: "F i \<subseteq> C" "C \<subseteq> F i \<union> pool s" using g' by auto
  have same: "same_page (pmem s) (pmem t) q" if "q \<in> T" "q \<notin> C" for q
  proof -
    have "\<not> in_page p x" if "p \<in> C" "in_page q x" for p x
    proof -
      have "p mod PGSIZE = 0" "q mod PGSIZE = 0" using g' T[OF \<open>q \<in> T\<close>] that(1) by (auto simp: page_ok_def)
      moreover have "q \<noteq> p" using that \<open>q \<notin> C\<close> by auto
      ultimately show ?thesis using page_disjoint[of q p] that(2) by (auto simp: in_page_def)
    qed
    then show ?thesis using g' by (auto simp: same_page_def)
  qed
  have ptC: "pt \<notin> C" using C(2) F(2) T[of pt] i(1) by (auto simp: F(1))
  have e: "get_le 8 (pmem t) (pt + 8 * j) = get_le 8 (pmem s) (pt + 8 * j)" if "j < 512" for j
    using same[OF _ ptC] that by (intro same_page_entry) (simp_all add: F(1))
  then show "get_le 8 (pmem t) (pt + 8 * j) = get_le 8 (pmem s) (pt + 8 * j)" if "j < 512" using that .
  have other: "ptree l c (pmem t) (F j)" "lentry l c va (pmem t) = lentry l c va (pmem s)"
    if "j < 512" "j \<noteq> i" "ptree l c (pmem s) (F j)" for j c va
  proof -
    have "q \<notin> C" if "q \<in> F j" for q using C(2) F(3)[OF \<open>j < 512\<close> i(1) \<open>j \<noteq> i\<close>] sub[OF that \<open>j < 512\<close>] T that by blast
    then have "same_page (pmem s) (pmem t) q" if "q \<in> F j" for q using same sub[OF that \<open>j < 512\<close>] that by blast
    then show "ptree l c (pmem t) (F j)" "lentry l c va (pmem t) = lentry l c va (pmem s)"
      using ptree_cong[OF that(3)] ltable_cong(2)[OF that(3)] by blast+
  qed
  have "ptree (Suc l) pt (pmem t) (T \<union> C)"
    unfolding ptree.simps
  proof (intro exI[of _ "F(i := C)"] conjI allI impI)
    show "T \<union> C = insert pt (\<Union>j<512. (F(i := C)) j)" using F(1) i(1) C(1) by (auto split: if_splits)
    show "pt \<notin> (\<Union>j<512. (F(i := C)) j)" using F(2) ptC by (auto split: if_splits)
    show "(F(i := C)) x \<inter> (F(i := C)) y = {}" if "x < 512" "y < 512" "x \<noteq> y" for x y
      using F(3)[OF that] F(3)[of i x] F(3)[of i y] that i(1) C(2) sub T by (auto split: if_splits)
    show "if bit (get_le 8 (pmem t) (pt + 8 * j)) PTE_V
        then ptree l (PTE2PA (get_le 8 (pmem t) (pt + 8 * j))) (pmem t) ((F(i := C)) j) else (F(i := C)) j = {}"
      if "j < 512" for j
      using e[OF that] i(2) g' F(4,5)[OF that] other(1)[OF that] by (cases "j = i") auto
  qed
  moreover have "lentry (Suc l) pt va (pmem t) = lentry (Suc l) pt va (pmem s)" for va
    using g' other(2)[OF PX_less _ F(4)[OF PX_less], of "Suc l" va va] e[OF PX_less, of "Suc l" va]
    by (cases "PX (Suc l) va = i") (simp_all add: lentry_Suc Let_def)
  ultimately show "grew (Suc l) pt T s (T \<union> C) t"
    unfolding grew_def tree_ok_def using g' T C sub[OF _ i(1)] by auto
qed

lemma walk_grew:
  "tree_ok l pt T s \<Longrightarrow> walk_from l pt va True s = (a, t) \<Longrightarrow>
   \<exists>T'. grew l pt T s T' t \<and>
     (if a = 0 then pool t = {} else \<exists>p. ltable l pt va (pmem t) = Some p \<and> a = p + 8 * PX 0 va)"
proof (induction l arbitrary: pt T s)
  case 0
  then have "pt \<in> T" "page_ok s pt" using ptree_root by (auto simp: tree_ok_def)
  moreover have "0 < kend s" using 0(1) by (auto simp: tree_ok_def kmem_inv_def kmem_wf_def klist_def)
  ultimately have "pt \<noteq> 0" by (auto simp: page_ok_def)
  then show ?case using 0 grew_refl[OF 0(1)] by auto
next
  case (Suc l)
  let ?i = "PX (Suc l) va"
  have valid: "\<exists>T'. grew (Suc l) pt T s T' t \<and>
     (if a = 0 then pool t = {} else \<exists>p. ltable (Suc l) pt va (pmem t) = Some p \<and> a = p + 8 * PX 0 va)"
    if tree: "tree_ok (Suc l) pt T s" and w: "walk_from l (PTE2PA (get_le 8 (pmem s) (pt + 8 * ?i))) va True s = (a, t)"
      and v: "bit (get_le 8 (pmem s) (pt + 8 * ?i)) PTE_V" for T s
  proof -
    obtain F where K: "kids l pt (pmem s) F T" using tree unfolding tree_ok_def ptree_kids by blast
  note F = kidsD[OF K]
    have "tree_ok l (PTE2PA (get_le 8 (pmem s) (pt + 8 * ?i))) (F ?i) s"
      using tree F(4)[OF PX_less v] PX_less[of "Suc l" va] unfolding tree_ok_def F(1) by blast
    from Suc.IH[OF this w] obtain C where C: "grew l (PTE2PA (get_le 8 (pmem s) (pt + 8 * ?i))) (F ?i) s C t"
      "if a = 0 then pool t = {} else \<exists>p. ltable l (PTE2PA (get_le 8 (pmem s) (pt + 8 * ?i))) va (pmem t) = Some p \<and> a = p + 8 * PX 0 va"
      by blast
    note g = grew_child[OF tree PX_less v K C(1)]
    have "get_le 8 (pmem t) (pt + 8 * ?i) = get_le 8 (pmem s) (pt + 8 * ?i)" by (rule g(2)[OF PX_less])
    then show ?thesis using g(1) C(2) v by (intro exI[of _ "T \<union> C"]) (auto simp: Let_def)
  qed
  show ?case
  proof (cases "bit (get_le 8 (pmem s) (pt + 8 * ?i)) PTE_V")
    case True
    then have "walk_from l (PTE2PA (get_le 8 (pmem s) (pt + 8 * ?i))) va True s = (a, t)"
      using Suc.prems(2) by (simp add: read_pte_def Let_def)
    from valid[OF Suc.prems(1) this True] show ?thesis .
  next
    case False
    obtain p s1 where k: "kalloc s = (p, s1)" by (cases "kalloc s")
    show ?thesis
    proof (cases "p = 0")
      case True
      then have at: "a = 0" "t = s1" using Suc.prems(2) False k by (simp_all add: read_pte_def Let_def)
      have "pool s = {}"
        using kalloc_pool_ok(3)[OF _ _ k] True Suc.prems(1) by (auto simp: tree_ok_def)
      with grew_oom(2)[OF Suc.prems(1) _ k] at show ?thesis by (auto simp: grew_def)
    next
      case pn: False
      define u where "u = write_pte (pt + 8 * ?i) (mk_pte p 1) (zero_page p s1)"
      note g = alloc_child[OF Suc.prems(1) PX_less False k pn, folded u_def]
      have inv: "kmem_inv s" using Suc.prems(1) by (simp add: tree_ok_def)
      have "pool s \<noteq> {}" using kalloc_pool_empty(2)[OF inv _ k] pn by blast
      then have p1: "bit (mk_pte p 1) PTE_V" "PTE2PA (mk_pte p 1) = p"
        using pte_valid_one kalloc_pool_ok(6)[OF inv _ k] by blast+
      have "walk_from l p va True u = (a, t)"
        using Suc.prems(2) False k pn by (simp add: read_pte_def Let_def u_def mk_pte_def flags_def PTE_V_def)
      then obtain T' where "grew (Suc l) pt (insert p T) u T' t" "if a = 0 then pool t = {} else
          \<exists>p. ltable (Suc l) pt va (pmem t) = Some p \<and> a = p + 8 * PX 0 va"
        using valid[of "insert p T" u] g p1 by (auto simp: grew_def)
      then show ?thesis using grew_trans[OF g(1)] by blast
    qed
  qed
qed

section \<open>Entries of a whole table\<close>

lemma walk_lookup:
  "walk_from l pt va False s = (case ltable l pt va (pmem s) of None \<Rightarrow> 0 | Some p \<Rightarrow> p + 8 * PX 0 va, s)"
  by (induction l arbitrary: pt) (simp_all add: Let_def read_pte_def split: option.splits)

lemma tree_pages: "tree_ok l pt T s \<Longrightarrow> p \<in> T \<Longrightarrow> page_ok s p \<and> p \<notin> pool s \<and> 0 < p"
proof -
  assume "tree_ok l pt T s" "p \<in> T"
  then have "kmem_inv s" "page_ok s p" "p \<notin> pool s" by (auto simp: tree_ok_def)
  moreover have "0 < kend s" if "kmem_inv s" using that by (simp add: kmem_inv_def kmem_wf_def klist_def)
  ultimately show ?thesis by (auto simp: page_ok_def)
qed

lemma PX_eq: "va div PGSIZE = vb div PGSIZE \<Longrightarrow> PX k va = PX k vb"
  by (simp add: PX_def PGSIZE_def power_add div_mult2_eq)

lemma ltable_eq: "va div PGSIZE = vb div PGSIZE \<Longrightarrow> ltable l pt va m = ltable l pt vb m"
  by (induction l arbitrary: pt) (simp_all add: PX_eq[of va vb] Let_def)

text \<open>The pages and counts after an operation on a page table: it touches only its own pages.\<close>

definition kept :: "nat \<Rightarrow> nat set \<Rightarrow> 'a kmem_state_scheme \<Rightarrow> nat set \<Rightarrow> 'a kmem_state_scheme \<Rightarrow> bool" where
  "kept pt T s T' t \<longleftrightarrow> tree_ok 2 pt T' t \<and> T \<subseteq> T' \<and> T' \<subseteq> T \<union> pool s \<and> pool t = pool s - T' \<and>
     page_ok t = page_ok s \<and> (\<forall>q. page_ok s q \<and> q \<notin> T' \<longrightarrow> page_rc t q = page_rc s q) \<and>
     (\<forall>x. (\<forall>p\<in>T'. \<not> in_page p x) \<longrightarrow> pmem t x = pmem s x)"

lemma kept_refl: "tree_ok 2 pt T s \<Longrightarrow> kept pt T s T s"
  by (auto simp: kept_def tree_ok_def)

lemma kept_trans: "kept pt T s T' t \<Longrightarrow> kept pt T' t T'' u \<Longrightarrow> kept pt T s T'' u"
  unfolding kept_def by (intro conjI) (auto 4 3)

lemma grew_kept: "grew 2 pt T s T' t \<Longrightarrow> kept pt T s T' t \<and> (\<forall>va. entry t pt va = entry s pt va)"
  by (simp add: grew_def kept_def entry_def)

lemma entry_write:
  assumes tree: "tree_ok 2 pt T s" and p: "ltable 2 pt va (pmem s) = Some p" and v: "v < 2 ^ 64" and va: "va < MAXVA"
  defines "t \<equiv> write_pte (p + 8 * PX 0 va) v s"
  shows "kept pt T s T t"
    and "vb < MAXVA \<Longrightarrow> entry t pt vb = (if vb div PGSIZE = va div PGSIZE then v else entry s pt vb)"
proof -
  have pt: "ptree 2 pt (pmem s) T" using tree by (simp add: tree_ok_def)
  have pT: "p \<in> T" by (rule ltable_in[OF pt p])
  note pp = tree_pages[OF tree pT]
  have tm: "pmem t = put_le 8 (pmem s) (p + 8 * PX 0 va) v" by (simp add: t_def write_pte_def)
  note w = ptree_leaf_write[where i = "PX 0 va" and v = v, OF pt p PX_less tree_aligned[OF tree], folded tm]
  have out: "pmem t x = pmem s x" if "\<not> in_page p x" for x
    using that PX_less[of 0 va] by (auto simp: tm put_le_outside in_page_def PGSIZE_def)
  have "same_page (pmem s) (pmem t) q" if "q \<in> pool s" for q
  proof -
    have inv: "kmem_inv s" using tree by (simp add: tree_ok_def)
    have "q mod PGSIZE = 0" "q \<noteq> p" using pool_page_ok[OF inv that] pp that by (auto simp: page_ok_def)
    moreover have "p mod PGSIZE = 0" using pp by (simp add: page_ok_def)
    ultimately show ?thesis using out by (intro same_page_disjoint[of q p]) auto
  qed
  note k = kmem_write[OF _ this]
  have ts: "t = s\<lparr>pmem := pmem t\<rparr>" by (simp add: t_def write_pte_def)
  have k': "kmem_inv t" "pool t = pool s" "page_ok t = page_ok s"
    using k tree by (subst ts, simp add: tree_ok_def)+
  show "kept pt T s T t"
    unfolding kept_def tree_ok_def using w(1) tree k' pT out by (auto simp: tree_ok_def) (auto simp: t_def write_pte_def)
  show "entry t pt vb = (if vb div PGSIZE = va div PGSIZE then v else entry s pt vb)" if vb: "vb < MAXVA"
  proof (cases "vb div PGSIZE = va div PGSIZE")
    case True
    then show ?thesis
      using p v w(2)[of vb]
      by (simp add: entry_def lentry_def ltable_eq[OF True] PX_eq[OF True]) (simp add: tm get_put_le)
  next
    case False
    have lt: "ltable 2 pt vb (pmem t) = ltable 2 pt vb (pmem s)" by (rule w(2))
    show ?thesis
    proof (cases "ltable 2 pt vb (pmem s)")
      case (Some q)
      have "get_le 8 (pmem t) (q + 8 * PX 0 vb) = get_le 8 (pmem s) (q + 8 * PX 0 vb)"
      proof (cases "q = p")
        case True
        have "PX 0 vb \<noteq> PX 0 va"
          using False PX_page[OF _ _ _ vb va] ltable_inj[OF pt Some[unfolded True] p] by force
        then show ?thesis unfolding tm True by (intro get_put_le_other) auto
      next
        case ne: False
        have "q mod PGSIZE = 0" "p mod PGSIZE = 0"
          using tree_aligned[OF tree] ltable_in[OF pt Some] pT by blast+
        then have "same_page (pmem s) (pmem t) q" using ne out by (intro same_page_disjoint[of q p]) auto
        then show ?thesis by (rule same_page_entry[OF _ PX_less])
      qed
      then show ?thesis using False lt Some by (simp add: entry_def lentry_def)
    qed (use False lt in \<open>simp add: entry_def lentry_def\<close>)
  qed
qed

text \<open>The entries after \<open>k\<close> pages from \<open>a\<close> on were mapped to the pages from \<open>pa\<close> on.\<close>

definition map_entry :: "'a kmem_state_scheme \<Rightarrow> nat \<Rightarrow> nat \<Rightarrow> nat \<Rightarrow> nat \<Rightarrow> nat \<Rightarrow> nat \<Rightarrow> nat" where
  "map_entry s pt a pa perm k va =
     (if a \<le> va \<and> va < a + k * PGSIZE
      then mk_pte (pa + (va - a) div PGSIZE * PGSIZE) (Bit_Operations.or perm (2 ^ PTE_V)) else entry s pt va)"

definition map_post ::
    "nat \<Rightarrow> nat \<Rightarrow> nat \<Rightarrow> nat \<Rightarrow> nat \<Rightarrow> nat set \<Rightarrow> 'a kmem_state_scheme \<Rightarrow> (int \<times> 'a kmem_state_scheme) kres \<Rightarrow> bool" where
  "map_post pt a pa perm n T s res \<longleftrightarrow> (case res of
     Ok (r, t) \<Rightarrow> \<exists>k\<le>n. \<exists>T'. kept pt T s T' t \<and> (\<forall>va<MAXVA. entry t pt va = map_entry s pt a pa perm k va) \<and>
       (k = n \<and> r = 0 \<or> k < n \<and> r = -1 \<and> pool t = {})
   | Panic e \<Rightarrow> e = ''mappages: remap'' \<and> (\<exists>va. a \<le> va \<and> va < a + n * PGSIZE \<and> bit (entry s pt va) PTE_V)
   | Sleep c \<Rightarrow> False)"

lemma or_less_1024: "a < 1024 \<Longrightarrow> b < 1024 \<Longrightarrow> Bit_Operations.or a b < (1024 :: nat)"
proof -
  assume "a < 1024" "b < 1024"
  then have "take_bit 10 a = a" "take_bit 10 b = b" by (simp_all add: take_bit_nat_eq_self)
  then have "take_bit 10 (Bit_Operations.or a b) = Bit_Operations.or a b" by simp
  then show ?thesis using take_bit_nat_less_exp[of 10 "Bit_Operations.or a b"] by simp
qed

lemma page_of:
  assumes "a mod PGSIZE = 0"
  shows "va div PGSIZE = a div PGSIZE \<longleftrightarrow> a \<le> va \<and> va < a + PGSIZE"
proof -
  obtain k where k: "a = k * PGSIZE" using assms by (metis mod_0_imp_dvd dvdE mult.commute)
  have "va div PGSIZE = k \<longleftrightarrow> k * PGSIZE \<le> va \<and> va < Suc k * PGSIZE"
    using div_nat_eqI[of PGSIZE k va] dividend_less_times_div[OF PGSIZE_pos, of va]
    by (auto simp: mult.commute)
  then show ?thesis unfolding k by (simp add: add.commute)
qed

lemma map_entry_step:
  assumes "a mod PGSIZE = 0" "\<And>va. va < MAXVA \<Longrightarrow> entry u pt va =
      (if va div PGSIZE = a div PGSIZE then mk_pte pa (Bit_Operations.or perm (2 ^ PTE_V)) else entry s pt va)" "va < MAXVA"
  shows "map_entry u pt (a + PGSIZE) (pa + PGSIZE) perm k va = map_entry s pt a pa perm (Suc k) va"
proof -
  consider "va < a" | "a \<le> va" "va < a + PGSIZE" | "a + PGSIZE \<le> va" by linarith
  then show ?thesis
  proof cases
    case 3
    then have d: "va - a = (va - (a + PGSIZE)) + PGSIZE" by simp
    have "(va - a) div PGSIZE = (va - (a + PGSIZE)) div PGSIZE + 1"
      unfolding d by (rule div_add_self2) (use PGSIZE_pos in simp)
    then have "pa + PGSIZE + (va - (a + PGSIZE)) div PGSIZE * PGSIZE = pa + (va - a) div PGSIZE * PGSIZE" by simp
    moreover have "entry u pt va = entry s pt va" using assms(2)[OF assms(3)] 3 page_of[OF assms(1), of va] by simp
    ultimately show ?thesis using 3 by (simp add: map_entry_def add.assoc)
  qed (use assms(2,3) in \<open>simp_all add: map_entry_def page_of[OF assms(1)]\<close>)
qed

lemma map_loop_spec:
  "tree_ok 2 pt T s \<Longrightarrow> a mod PGSIZE = 0 \<Longrightarrow> a + n * PGSIZE \<le> MAXVA \<Longrightarrow> pa mod PGSIZE = 0 \<Longrightarrow>
   pa + n * PGSIZE \<le> 2 ^ 56 \<Longrightarrow> perm < 1024 \<Longrightarrow> map_post pt a pa perm n T s (map_loop n pt a pa perm s)"
proof (induction n arbitrary: a pa s T)
  case 0
  then show ?case using kept_refl by (auto simp: map_post_def map_entry_def)
next
  case (Suc n)
  have a: "a < MAXVA" "pa < 2 ^ 56" using Suc.prems(3,5) PGSIZE_pos unfolding mult_Suc by linarith+
  obtain p s1 where w: "walk_from 2 pt a True s = (p, s1)" by (cases "walk_from 2 pt a True s")
  from walk_grew[OF Suc.prems(1) w] obtain T1 where T1: "grew 2 pt T s T1 s1"
    "if p = 0 then pool s1 = {} else \<exists>q. ltable 2 pt a (pmem s1) = Some q \<and> p = q + 8 * PX 0 a" by blast
  note k1 = grew_kept[OF T1(1)]
  show ?case
  proof (cases "p = 0")
    case True
    then show ?thesis using w a T1(2) k1
      by (auto simp: walk_def map_post_def map_entry_def intro!: exI[of _ 0] exI[of _ T1])
  next
    case False
    then obtain q where q: "ltable 2 pt a (pmem s1) = Some q" "p = q + 8 * PX 0 a" using T1(2) by auto
    have "read_pte s1 p = entry s1 pt a" using q by (simp add: read_pte_def entry_def lentry_def)
    then have rd: "read_pte s1 p = entry s pt a" using k1 by simp
    show ?thesis
    proof (cases "bit (entry s pt a) PTE_V")
      case True
      then show ?thesis using w a False rd
        by (auto simp: walk_def map_post_def PGSIZE_def intro!: exI[of _ a])
    next
      case nv: False
      let ?fl = "Bit_Operations.or perm (2 ^ PTE_V)"
      have fl: "?fl < 1024" using Suc.prems(6) or_less_1024[of perm 1] by (simp add: PTE_V_def)
      define u where "u = write_pte p (mk_pte pa ?fl) s1"
      have tree1: "tree_ok 2 pt T1 s1" using T1(1) by (simp add: grew_def)
      note ew = entry_write[OF tree1 q(1) mk_pte_simps(3)[OF fl Suc.prems(4) a(2)] a(1), folded q(2), folded u_def]
      have su: "kept pt T s T1 u" using kept_trans k1 ew(1) by blast
      have ue: "entry u pt va = (if va div PGSIZE = a div PGSIZE then mk_pte pa ?fl else entry s pt va)" if "va < MAXVA" for va
        using ew(2)[OF that] k1 by simp
      note me = map_entry_step[OF Suc.prems(2) ue]
      have step: "map_loop (Suc n) pt a pa perm s = map_loop n pt (a + PGSIZE) (pa + PGSIZE) perm u"
        using w a False nv rd by (simp add: walk_def u_def mk_pte_def flags_def)
      have IH: "map_post pt (a + PGSIZE) (pa + PGSIZE) perm n T1 u (map_loop n pt (a + PGSIZE) (pa + PGSIZE) perm u)"
        by (rule Suc.IH) (use Suc.prems su in \<open>simp_all add: kept_def\<close>)
      show ?thesis
      proof (cases "map_loop n pt (a + PGSIZE) (pa + PGSIZE) perm u")
        case (Ok x)
        obtain r t where x: "x = (r, t)" by (cases x)
        from IH obtain k T' where "k \<le> n" "kept pt T1 u T' t"
          "\<forall>va<MAXVA. entry t pt va = map_entry u pt (a + PGSIZE) (pa + PGSIZE) perm k va"
          "k = n \<and> r = 0 \<or> k < n \<and> r = -1 \<and> pool t = {}" by (auto simp: map_post_def Ok x)
        then show ?thesis
          unfolding step using kept_trans[OF su] me
          by (auto simp: map_post_def Ok x intro!: exI[of _ "Suc k"] exI[of _ T'])
      next
        case (Panic e)
        then obtain va where "e = ''mappages: remap''" "a + PGSIZE \<le> va" "va < a + PGSIZE + n * PGSIZE" "bit (entry u pt va) PTE_V"
          using IH by (auto simp: map_post_def)
        moreover have "va < MAXVA" "va div PGSIZE \<noteq> a div PGSIZE"
          using calculation(2,3) Suc.prems(3) page_of[OF Suc.prems(2), of va] by simp_all
        ultimately show ?thesis unfolding step using ue[of va] Panic by (auto simp: map_post_def intro!: exI[of _ va])
      qed (use IH in \<open>simp add: map_post_def\<close>)
    qed
  qed
qed

lemma walkaddr_entry:
  assumes "tree_ok 2 pt T s" "va < MAXVA"
  shows "walkaddr pt va s = (if bit (entry s pt va) PTE_V \<and> bit (entry s pt va) PTE_U then PTE2PA (entry s pt va) else 0)"
proof (cases "ltable 2 pt va (pmem s)")
  case None
  then show ?thesis using assms(2) by (simp add: walkaddr_def walk_def walk_lookup entry_def lentry_def)
next
  case (Some p)
  then have "0 < p" using tree_pages[OF assms(1) ltable_in] assms(1) by (auto simp: tree_ok_def)
  then show ?thesis using assms(2) Some by (simp add: walkaddr_def walk_def walk_lookup entry_def lentry_def read_pte_def Let_def)
qed

lemma cow_flags_less: "unset_bit PTE_COW (set_bit PTE_W (PTE_FLAGS e)) < 1024"
proof -
  have "set_bit PTE_W (PTE_FLAGS e) < 1024"
    using or_less_1024[of "PTE_FLAGS e" 4] by (simp add: set_bit_eq_or PTE_FLAGS_def PTE_W_def)
  then have "take_bit 10 (set_bit PTE_W (PTE_FLAGS e)) = set_bit PTE_W (PTE_FLAGS e)" by (simp add: take_bit_nat_eq_self)
  then have "take_bit 10 (unset_bit PTE_COW (set_bit PTE_W (PTE_FLAGS e))) = unset_bit PTE_COW (set_bit PTE_W (PTE_FLAGS e))"
    by (simp add: take_bit_unset_bit_eq PTE_COW_def)
  then show ?thesis using take_bit_nat_less_exp[of 10 "unset_bit PTE_COW (set_bit PTE_W (PTE_FLAGS e))"] by simp
qed

lemma entry_page: "entry s pt (PGROUNDDOWN va) = entry s pt va"
proof -
  have "PGROUNDDOWN va div PGSIZE = va div PGSIZE" by (simp add: PGROUNDDOWN_def)
  from ltable_eq[OF this] PX_eq[OF this] show ?thesis by (simp add: entry_def lentry_def split: option.split)
qed

text \<open>Writes to one page outside the tree.\<close>

lemma tree_other_page:
  assumes "tree_ok 2 pt T s" "p \<notin> T" "p mod PGSIZE = 0" "kmem_inv t" "\<And>x. \<not> in_page p x \<Longrightarrow> pmem t x = pmem s x"
    "page_ok t = page_ok s" "pool t \<inter> T = {}"
  shows "tree_ok 2 pt T t" "entry t pt va = entry s pt va" "ltable 2 pt va (pmem t) = ltable 2 pt va (pmem s)"
proof -
  have pt: "ptree 2 pt (pmem s) T" using assms(1) by (simp add: tree_ok_def)
  have same: "same_page (pmem s) (pmem t) q" if "q \<in> T" for q
    using that assms(2,3,5) tree_aligned[OF assms(1) that] by (intro same_page_disjoint[of q p]) auto
  show "tree_ok 2 pt T t"
    using ptree_cong[OF pt same] assms by (auto simp: tree_ok_def)
  show "entry t pt va = entry s pt va" "ltable 2 pt va (pmem t) = ltable 2 pt va (pmem s)"
    using ltable_cong[OF pt same] by (simp_all add: entry_def)
qed

lemma kfree_tree:
  assumes tree: "tree_ok 2 pt T s" and pa: "page_ok s pa" "pa \<notin> pool s" "pa \<notin> T"
  obtains t where "kfree pa s = Ok t" "tree_ok 2 pt T t" "\<And>v. entry t pt v = entry s pt v"
    "\<And>q. page_ok s q \<Longrightarrow> page_rc t q = (if q = pa then page_rc s pa - 1 else page_rc s q)"
    "pool t = (if page_rc s pa = 1 then insert pa (pool s) else pool s)"
    "\<And>x. \<not> in_page pa x \<Longrightarrow> pmem t x = pmem s x" "page_rc s pa \<noteq> 1 \<Longrightarrow> pmem t = pmem s"
proof -
  have inv: "kmem_inv s" using tree by (simp add: tree_ok_def)
  have al: "pa mod PGSIZE = 0" using pa(1) by (simp add: page_ok_def)
  have idx: "pa_to_idx q = pa_to_idx pa \<longleftrightarrow> q = pa" if "page_ok s q" for q
    using that al idx_inj by (simp add: page_ok_def)
  have "page_rc s pa \<noteq> 0" using pool_iff[OF inv pa(1)] pa(2) by simp
  then consider "page_rc s pa = 1" | "1 < page_rc s pa" by linarith
  then show thesis
  proof cases
    case 1
    from kfree_last[OF inv pa(1) 1] obtain t where t: "kfree pa s = Ok t" "kmem_inv t" "pool t = insert pa (pool s)"
      "page_ok t = page_ok s" "refcnt t = (refcnt s)(pa_to_idx pa := 0)" "\<forall>a. a < pa \<or> pa + PGSIZE \<le> a \<longrightarrow> pmem t a = pmem s a"
      by blast
    have out: "pmem t x = pmem s x" if "\<not> in_page pa x" for x using that t(6) by (auto simp: in_page_def)
    have "pool t \<inter> T = {}" using tree t(3) pa(3) by (auto simp: tree_ok_def)
    note o = tree_other_page[OF tree pa(3) al t(2) out t(4) this]
    show thesis by (rule that[OF t(1) o(1,2)]) (use t 1 out idx in auto)
  next
    case 2
    let ?t = "s\<lparr>refcnt := (refcnt s)(pa_to_idx pa := page_rc s pa - 1)\<rparr>"
    note t = kfree_shared[OF inv pa(1) 2]
    have ok: "page_ok (s\<lparr>refcnt := f\<rparr>) = page_ok s" for f by (rule page_ok_cong) simp
    show thesis
      by (rule that[OF t(1)]) (use 2 t(2,3) tree idx in \<open>auto simp: tree_ok_def entry_def ok\<close>)
  qed
qed

section \<open>Properties\<close>

text \<open>
  C9. \<^verbatim>\<open>mappages\<close> on a sound page table: it panics only if a page of the range is mapped already; if
  it returns 0 then exactly the addresses of the range have new entries, with the wanted physical pages and
  permissions, and \<^verbatim>\<open>walkaddr\<close> finds them if they are user pages; it returns -1 only when memory ran out,
  with a prefix of the range mapped. No entry outside the range and no memory outside the table changes.
\<close>

theorem mappages_correct:
  assumes tree: "tree_ok 2 pt T s" and va: "va mod PGSIZE = 0" "sz mod PGSIZE = 0" "0 < sz" "va + sz \<le> MAXVA"
    and pa: "pa mod PGSIZE = 0" "pa + sz \<le> 2 ^ 56" and perm: "perm < 1024"
  shows "mappages pt va sz pa perm s = Panic ''mappages: remap'' \<and>
      (\<exists>v. va \<le> v \<and> v < va + sz \<and> bit (entry s pt v) PTE_V) \<or>
    (\<exists>r t k T'. mappages pt va sz pa perm s = Ok (r, t) \<and> kept pt T s T' t \<and>
      (\<forall>v < MAXVA. entry t pt v = map_entry s pt va pa perm k v) \<and>
      (if r = 0 then k = sz div PGSIZE \<and> (bit perm PTE_U \<longrightarrow>
           (\<forall>v. va \<le> v \<and> v < va + sz \<longrightarrow> walkaddr pt v t = pa + (v - va) div PGSIZE * PGSIZE))
       else r = -1 \<and> k < sz div PGSIZE \<and> pool t = {}))"
proof -
  have n: "sz div PGSIZE * PGSIZE = sz" using va(2) by (simp add: minus_mod_eq_div_mult[symmetric])
  have "map_post pt va pa perm (sz div PGSIZE) T s (map_loop (sz div PGSIZE) pt va pa perm s)"
    by (rule map_loop_spec) (use assms n in simp_all)
  moreover have e: "mappages pt va sz pa perm s = map_loop (sz div PGSIZE) pt va pa perm s"
    using va by (simp add: mappages_def)
  ultimately have post: "map_post pt va pa perm (sz div PGSIZE) T s (mappages pt va sz pa perm s)" by simp
  show ?thesis
  proof (cases "mappages pt va sz pa perm s")
    case (Ok x)
    obtain r t where x: "x = (r, t)" by (cases x)
    from post obtain k T' where k: "kept pt T s T' t" "\<forall>v<MAXVA. entry t pt v = map_entry s pt va pa perm k v"
      "k = sz div PGSIZE \<and> r = 0 \<or> k < sz div PGSIZE \<and> r = -1 \<and> pool t = {}" by (auto simp: map_post_def Ok x)
    have "walkaddr pt v t = pa + (v - va) div PGSIZE * PGSIZE"
      if u: "bit perm PTE_U" and v: "va \<le> v" "v < va + sz" and r: "k = sz div PGSIZE" for v
    proof -
      let ?fl = "Bit_Operations.or perm (2 ^ PTE_V)" let ?p = "pa + (v - va) div PGSIZE * PGSIZE"
      have fl: "?fl < 1024" using perm or_less_1024[of perm 1] by (simp add: PTE_V_def)
      have "(v - va) div PGSIZE * PGSIZE \<le> v - va" by simp
      then have p: "?p mod PGSIZE = 0" "?p < 2 ^ 56" using pa v by (simp, linarith)
      have en: "entry t pt v = mk_pte ?p ?fl" using k(2) v va(4) r n by (simp add: map_entry_def)
      have "bit ?fl PTE_V" "bit ?fl PTE_U" using u by (simp_all add: bit_or_iff bit_exp_iff)
      then show ?thesis
        using walkaddr_entry[of pt T' t v] k(1) v va(4) mk_pte_simps[OF fl p]
        by (simp add: en kept_def PTE_V_def PTE_U_def)
    qed
    then show ?thesis using k Ok x by (intro disjI2 exI[of _ r] exI[of _ t] exI[of _ k] exI[of _ T']) auto
  qed (use post n in \<open>auto simp: map_post_def\<close>)
qed

text \<open>\<^verbatim>\<open>cowfault\<close> up to its call of \<^verbatim>\<open>kfree\<close>.\<close>

lemma cowfault_copied:
  assumes tree: "tree_ok 2 pt T s" and va: "va < MAXVA"
    and e: "bit (entry s pt va) PTE_V" "bit (entry s pt va) PTE_COW"
    and pa: "pa = PTE2PA (entry s pt va)" "page_ok s pa" "pa \<notin> pool s" "pa \<notin> T" and "pool s \<noteq> {}"
  obtains mem u where "cowfault pt va s = kbind (kfree pa u) (\<lambda>t. Ok (0, t))" "mem \<in> pool s" "page_ok s mem"
    "tree_ok 2 pt T u" "pool u = pool s - {mem}" "page_ok u = page_ok s" "page_rc u pa = page_rc s pa" "page_rc u mem = 1"
    "\<And>v. v < MAXVA \<Longrightarrow> entry u pt v = (if v div PGSIZE = va div PGSIZE
       then mk_pte mem (unset_bit PTE_COW (set_bit PTE_W (PTE_FLAGS (entry s pt va)))) else entry s pt v)"
    "\<And>i. i < PGSIZE \<Longrightarrow> pmem u (mem + i) = pmem s (pa + i)" "same_page (pmem s) (pmem u) pa"
proof -
  let ?e = "entry s pt va" let ?va0 = "PGROUNDDOWN va"
  have va0: "?va0 < MAXVA" using va page_offset(2)[of va] by linarith
  have inv: "kmem_inv s" and pt: "ptree 2 pt (pmem s) T" using tree by (simp_all add: tree_ok_def)
  obtain p where p: "ltable 2 pt ?va0 (pmem s) = Some p"
    using e(1) entry_page[of s pt va] by (cases "ltable 2 pt ?va0 (pmem s)") (auto simp: entry_def lentry_def)
  have p0: "0 < p" "p \<in> T" using tree_pages[OF tree ltable_in[OF pt p]] ltable_in[OF pt p] by simp_all
  let ?a = "p + 8 * PX 0 ?va0"
  have w: "fst (walk pt ?va0 False s) = ?a" "read_pte s ?a = ?e"
    using va0 p entry_page[of s pt va] by (simp_all add: walk_def walk_lookup read_pte_def entry_def lentry_def)
  obtain mem s1 where k: "kalloc s = (mem, s1)" by (cases "kalloc s")
  note a = kalloc_pool_ok[OF inv assms(9) k]
  have ne: "mem \<noteq> pa" "mem \<notin> T" using a(2) pa(3) tree by (auto simp: tree_ok_def)
  have al: "mem mod PGSIZE = 0" "pa mod PGSIZE = 0" using a(6) pa(2) by (simp_all add: page_ok_def)
  define s2 where "s2 = s1\<lparr>pmem := memmove (pmem s1) mem pa PGSIZE\<rparr>"
  have m2: "pmem s2 x = (if in_page mem x then pmem s (pa + (x - mem)) else pmem s x)" for x
    using page_disjoint[OF al ne(1)] a(9)
    by (auto simp: s2_def memmove_moved moved_def in_page_def)
  have k2: "kmem_inv s2" "pool s2 = pool s1" "page_ok s2 = page_ok s1"
  proof -
    have "same_page (pmem s1) (memmove (pmem s1) mem pa PGSIZE) q" if "q \<in> pool s1" for q
      using that a(4) pool_page_ok[OF a(1) that] al(1)
      by (intro same_page_disjoint[of q mem]) (auto simp: page_ok_def memmove_moved moved_def in_page_def)
    from kmem_write[OF a(1) this] show "kmem_inv s2" "pool s2 = pool s1" "page_ok s2 = page_ok s1" by (simp_all add: s2_def)
  qed
  have t2: "tree_ok 2 pt T s2" "entry s2 pt v = entry s pt v" "ltable 2 pt v (pmem s2) = ltable 2 pt v (pmem s)" for v
    by (rule tree_other_page[OF tree ne(2) al(1) k2(1)]; use m2 k2 a(4,5) tree in \<open>auto simp: tree_ok_def\<close>)+
  let ?fl = "unset_bit PTE_COW (set_bit PTE_W (PTE_FLAGS ?e))"
  have v64: "mk_pte mem ?fl < 2 ^ 64" using mk_pte_simps(3)[OF cow_flags_less al(1) page_small[OF a(6)]] .
  define s3 where "s3 = write_pte ?a (mk_pte mem ?fl) s2"
  have p2: "ltable 2 pt ?va0 (pmem s2) = Some p" using p t2(3) by simp
  note w3 = entry_write[OF t2(1) p2 v64 va0, folded s3_def]
  have t3: "tree_ok 2 pt T s3" "pool s3 = pool s - {mem}" "page_ok s3 = page_ok s"
    "\<And>q. page_rc s3 q = page_rc s1 q" "\<And>x. (\<forall>q\<in>T. \<not> in_page q x) \<Longrightarrow> pmem s3 x = pmem s2 x"
    using w3(1) k2 a(4,5) tree by (auto simp: kept_def tree_ok_def) (simp add: s3_def s2_def write_pte_def)
  have e3: "entry s3 pt v = (if v div PGSIZE = va div PGSIZE then mk_pte mem ?fl else entry s pt v)" if "v < MAXVA" for v
    using w3(2)[OF that] t2(2) by (simp add: PGROUNDDOWN_def)
  have rd: "read_pte s2 ?a = ?e"
    using p2 t2(2)[of ?va0] entry_page[of s pt va] by (simp add: read_pte_def entry_def lentry_def)
  have run: "cowfault pt va s = kbind (kfree pa s3) (\<lambda>t. Ok (0, t))"
    using w p0(1) e k a(3) rd
    by (simp add: cowfault_def Let_def pa(1)[symmetric] s2_def[symmetric]) (simp add: s3_def mk_pte_def)
  have rc: "page_rc s3 pa = page_rc s pa" "page_rc s3 mem = 1" using t3(4) a(7,8) ne(1) pa(2) by auto
  have far: "\<forall>q\<in>T. \<not> in_page q x" if "in_page r x" "r \<notin> T" "r mod PGSIZE = 0" for r x
    using in_page_unique[OF that(3) tree_aligned[OF tree] that(1)] that(2) by auto
  have "pmem s3 (mem + i) = pmem s (pa + i)" if "i < PGSIZE" for i
  proof -
    have i: "in_page mem (mem + i)" using that by (simp add: in_page_def)
    show ?thesis using t3(5)[OF far[OF i ne(2) al(1)]] m2[of "mem + i"] i by simp
  qed
  moreover have "pmem s3 x = pmem s x" if "in_page pa x" for x
  proof -
    have "\<not> in_page mem x" using in_page_unique[OF al] that ne(1) by blast
    then show ?thesis using t3(5)[OF far[OF that pa(4) al(2)]] m2[of x] by simp
  qed
  ultimately show thesis
    by (intro that[OF run a(2,6) t3(1-3) rc e3]) (simp_all add: same_page_def)
qed

text \<open>
  C10. \<^verbatim>\<open>cowfault\<close> on a shared page: it gives the faulting address a page of its own with the same
  contents, writable and no longer marked shared, takes one reference off the old page and leaves the old
  page as it was while others use it; no other entry changes. It fails, with no change of memory, only when
  no page is free.
\<close>

theorem cowfault_correct:
  assumes tree: "tree_ok 2 pt T s" and va: "va < MAXVA"
    and e: "bit (entry s pt va) PTE_V" "bit (entry s pt va) PTE_COW"
    and pa: "pa = PTE2PA (entry s pt va)" "page_ok s pa" "pa \<notin> pool s" "pa \<notin> T"
  shows "if pool s = {} then \<exists>t. cowfault pt va s = Ok (-1, t) \<and> pmem t = pmem s \<and> refcnt t = refcnt s
    else \<exists>t mem. cowfault pt va s = Ok (0, t) \<and> mem \<in> pool s \<and> mem \<notin> pool t \<and> page_rc t mem = 1 \<and> tree_ok 2 pt T t \<and>
      (\<forall>v < MAXVA. entry t pt v = (if v div PGSIZE = va div PGSIZE
         then mk_pte mem (unset_bit PTE_COW (set_bit PTE_W (PTE_FLAGS (entry s pt va)))) else entry s pt v)) \<and>
      (\<forall>i < PGSIZE. pmem t (mem + i) = pmem s (pa + i)) \<and> page_rc t pa = page_rc s pa - 1 \<and>
      (if page_rc s pa = 1 then pa \<in> pool t else pa \<notin> pool t \<and> same_page (pmem s) (pmem t) pa)"
proof (cases "pool s = {}")
  case True
  let ?va0 = "PGROUNDDOWN va"
  have va0: "?va0 < MAXVA" using va page_offset(2)[of va] by linarith
  have inv: "kmem_inv s" and pt: "ptree 2 pt (pmem s) T" using tree by (simp_all add: tree_ok_def)
  obtain p where p: "ltable 2 pt ?va0 (pmem s) = Some p"
    using e(1) entry_page[of s pt va] by (cases "ltable 2 pt ?va0 (pmem s)") (auto simp: entry_def lentry_def)
  obtain mem s1 where k: "kalloc s = (mem, s1)" by (cases "kalloc s")
  have "0 < p" using tree_pages[OF tree ltable_in[OF pt p]] by simp
  moreover have "read_pte s (p + 8 * PX 0 ?va0) = entry s pt va"
    using p entry_page[of s pt va] by (simp add: read_pte_def entry_def lentry_def)
  ultimately show ?thesis
    using True e k va0 p kalloc_pool_empty[OF inv True k] by (simp add: cowfault_def walk_def walk_lookup Let_def)
next
  case False
  obtain mem u where u: "cowfault pt va s = kbind (kfree pa u) (\<lambda>t. Ok (0, t))" "mem \<in> pool s" "page_ok s mem"
    "tree_ok 2 pt T u" "pool u = pool s - {mem}" "page_ok u = page_ok s" "page_rc u pa = page_rc s pa" "page_rc u mem = 1"
    "\<And>v. v < MAXVA \<Longrightarrow> entry u pt v = (if v div PGSIZE = va div PGSIZE
       then mk_pte mem (unset_bit PTE_COW (set_bit PTE_W (PTE_FLAGS (entry s pt va)))) else entry s pt v)"
    "\<And>i. i < PGSIZE \<Longrightarrow> pmem u (mem + i) = pmem s (pa + i)" "same_page (pmem s) (pmem u) pa"
    by (rule cowfault_copied[OF assms False]) blast
  obtain t where t: "kfree pa u = Ok t" "tree_ok 2 pt T t" "\<And>v. entry t pt v = entry u pt v"
    "\<And>q. page_ok u q \<Longrightarrow> page_rc t q = (if q = pa then page_rc u pa - 1 else page_rc u q)"
    "pool t = (if page_rc u pa = 1 then insert pa (pool u) else pool u)"
    "\<And>x. \<not> in_page pa x \<Longrightarrow> pmem t x = pmem u x" "page_rc u pa \<noteq> 1 \<Longrightarrow> pmem t = pmem u"
    by (rule kfree_tree[OF u(4), of pa]) (use pa u(5,6) in auto)
  have ne: "mem \<noteq> pa" using u(2) pa(3) by blast
  have "pmem t (mem + i) = pmem s (pa + i)" if "i < PGSIZE" for i
    using t(6)[of "mem + i"] u(10)[OF that] page_disjoint[of mem pa] ne u(3) pa(2) that
    by (auto simp: in_page_def page_ok_def)
  moreover have "page_rc t mem = 1" "page_rc t pa = page_rc s pa - 1" using t(4) u ne pa(2) by auto
  moreover have "mem \<notin> pool t" "if page_rc s pa = 1 then pa \<in> pool t else pa \<notin> pool t \<and> same_page (pmem s) (pmem t) pa"
    using t(5,7) u pa(3) ne by (auto simp: same_page_def)
  ultimately show ?thesis
    using False u t(1-3) by (auto intro!: exI[of _ mem])
qed

section \<open>A small address space\<close>

text \<open>
  For examples: the page at \<^verbatim>\<open>KERNBASE\<close> is free, the next three are the tables of a page table,
  and the two pages after them are mapped at addresses 0 and 4096 with flags \<open>fl\<close>; the first of them is
  counted twice.
\<close>

definition vm_mem :: "nat \<Rightarrow> bytes" where
  "vm_mem fl = put_le 8 (put_le 8 (put_le 8 (put_le 8 (\<lambda>_. 0) 0x80001000 (PA2PTE 0x80002000 + 1))
     0x80002000 (PA2PTE 0x80003000 + 1)) 0x80003000 (PA2PTE 0x80004000 + fl)) 0x80003008 (PA2PTE 0x80005000 + fl)"

definition small_vm :: "nat \<Rightarrow> 'a kmem_state_scheme \<Rightarrow> 'a kmem_state_scheme" where
  "small_vm fl s = s\<lparr>pmem := vm_mem fl, kend := KERNBASE, freelist := KERNBASE, total_pages := 65536, free_pages := 1,
     kready := True, refcnt := (\<lambda>i. if i = 0x80000 then 0 else if i = 0x80004 then 2 else 1)\<rparr>"

abbreviation vm_tables :: "nat set" where
  "vm_tables \<equiv> {0x80001000, 0x80002000, 0x80003000}"

lemma vm_mem_entries:
  "i < 512 \<Longrightarrow> get_le 8 (vm_mem fl) (0x80001000 + 8 * i) = (if i = 0 then PA2PTE 0x80002000 + 1 else 0)"
  "i < 512 \<Longrightarrow> get_le 8 (vm_mem fl) (0x80002000 + 8 * i) = (if i = 0 then PA2PTE 0x80003000 + 1 else 0)"
  "get_le 8 (vm_mem fl) 0x80000000 = 0"
  by (simp_all add: vm_mem_def get_put_le get_put_le_other get_le_zero PA2PTE_def)

lemma vm_mem_leaf:
  assumes "i < 512" "fl < 1024"
  shows "get_le 8 (vm_mem fl) (0x80003000 + 8 * i) =
    (if i = 0 then PA2PTE 0x80004000 + fl else if i = 1 then PA2PTE 0x80005000 + fl else 0)"
  using assms by (auto simp: vm_mem_def get_put_le get_put_le_other get_le_zero PA2PTE_def)

lemma vm_mem_tables:
  "PTE2PA (PA2PTE 0x80002000 + 1) = 0x80002000" "PTE2PA (PA2PTE 0x80003000 + 1) = 0x80003000"
  "bit (PA2PTE 0x80002000 + 1) PTE_V" "bit (PA2PTE 0x80003000 + 1) PTE_V"
  by (simp_all add: PTE2PA_def PA2PTE_def PTE_V_def bit_0)

lemma small_vm_page: "page_ok (small_vm fl s) pa \<longleftrightarrow> pa mod PGSIZE = 0 \<and> KERNBASE \<le> pa \<and> pa < PHYSTOP"
  by (simp add: page_ok_def small_vm_def)

lemma small_vm_pool: "kmem_inv (small_vm fl s)" "pool (small_vm fl s) = {KERNBASE}"
proof -
  have "klist (small_vm fl s) [KERNBASE]" using vm_mem_entries(3)
    by (simp add: klist_def small_vm_page) (simp add: small_vm_def KERNBASE_def PHYSTOP_def PGSIZE_def)
  moreover have "pa_to_idx pa = 0x80000 \<longleftrightarrow> pa = KERNBASE" if "page_ok (small_vm fl s) pa" for pa
    using that idx_inj[of pa KERNBASE] by (simp add: page_ok_def pa_to_idx_def KERNBASE_def PGSIZE_def)
  ultimately show "kmem_inv (small_vm fl s)" "pool (small_vm fl s) = {KERNBASE}"
    using kmem_invI[of "small_vm fl s" "[KERNBASE]"] by (auto simp: small_vm_def)
qed

lemma small_vm_tree: "tree_ok 2 0x80001000 vm_tables (small_vm fl s)"
proof -
  note [simp] = vm_mem_tables vm_mem_tables[simplified] vm_mem_entries
  have "ptree 1 0x80002000 (vm_mem fl) {0x80002000, 0x80003000}"
    unfolding One_nat_def ptree.simps
    by (intro exI[of _ "\<lambda>i. if i = 0 then {0x80003000} else {}"]) auto
  then have "ptree 2 0x80001000 (vm_mem fl) vm_tables"
    unfolding numeral_2_eq_2 ptree.simps(2)[of 1, unfolded One_nat_def]
    by (intro exI[of _ "\<lambda>i. if i = 0 then {0x80002000, 0x80003000} else {}"]) auto
  moreover have "pmem (small_vm fl s) = vm_mem fl" by (simp add: small_vm_def)
  ultimately show ?thesis
    by (simp add: tree_ok_def small_vm_pool small_vm_page KERNBASE_def PHYSTOP_def PGSIZE_def)
qed

lemma small_vm_entry:
  assumes "v div PGSIZE < 512" "fl < 1024"
  shows "entry (small_vm fl s) 0x80001000 v =
    (if v div PGSIZE = 0 then PA2PTE 0x80004000 + fl else if v div PGSIZE = 1 then PA2PTE 0x80005000 + fl else 0)"
proof -
  have e: "v div 2 ^ (12 + k) = v div PGSIZE div 2 ^ k" for k by (simp add: PGSIZE_def power_add div_mult2_eq)
  have p: "PX 0 v = v div PGSIZE" using assms(1) e[of 0] by (simp add: PX_def)
  have "PX (Suc 0) v = 0" "PX (Suc (Suc 0)) v = 0" using assms(1) e[of 9] e[of 18] by (simp_all add: PX_def)
  then have "ltable 2 0x80001000 v (vm_mem fl) = Some 0x80003000"
    using vm_mem_entries(1,2)[of 0 fl] vm_mem_tables by (simp add: numeral_2_eq_2 Let_def)
  then show ?thesis using vm_mem_leaf[OF assms] p by (simp add: entry_def lentry_def small_vm_def)
qed

definition shared_vm :: kmem_state where
  "shared_vm = small_vm 0x113 one_page"

theorem mappages_correct_witness:
  "\<exists>r t. mappages 0x80001000 (2 * PGSIZE) PGSIZE 0x80004000 (2 ^ PTE_U) shared_vm = Ok (r, t) \<and>
     (r = 0 \<and> walkaddr 0x80001000 (2 * PGSIZE) t = 0x80004000 \<or> r = -1 \<and> pool t = {})"
proof -
  have e: "entry shared_vm 0x80001000 v = 0" if "2 * PGSIZE \<le> v" "v < 2 * PGSIZE + PGSIZE" for v
  proof -
    have "v div PGSIZE = 2" using that by (simp add: div_nat_eqI PGSIZE_def)
    then show ?thesis by (simp add: shared_vm_def small_vm_entry)
  qed
  have u: "bit (2 ^ PTE_U :: nat) PTE_U" by (simp add: bit_exp_iff)
  have h: "2 * PGSIZE mod PGSIZE = 0" "PGSIZE mod PGSIZE = 0" "0 < PGSIZE" "2 * PGSIZE + PGSIZE \<le> MAXVA"
    "(0x80004000::nat) mod PGSIZE = 0" "0x80004000 + PGSIZE \<le> 2 ^ 56" "(2 ^ PTE_U :: nat) < 1024"
    by (simp_all add: PGSIZE_def MAXVA_def PTE_U_def)
  note m = mappages_correct[OF small_vm_tree[of "0x113" one_page, folded shared_vm_def] h]
  show ?thesis using m e h(3) u by (auto simp: PTE_V_def split: if_split_asm)
qed

theorem cowfault_correct_witness:
  "\<exists>t. cowfault 0x80001000 0 shared_vm = Ok (0, t) \<and> PTE2PA (entry t 0x80001000 0) = KERNBASE \<and>
     page_rc t KERNBASE = 1 \<and> page_rc t 0x80004000 = 1"
proof -
  let ?e = "PA2PTE 0x80004000 + 0x113"
  note tree = small_vm_tree[of "0x113" one_page, folded shared_vm_def]
    and pool = small_vm_pool(2)[of "0x113" one_page, folded shared_vm_def]
  have e: "entry shared_vm 0x80001000 0 = ?e" by (simp add: small_vm_entry shared_vm_def)
  have b: "bit ?e PTE_V" "bit ?e PTE_COW" "PTE2PA ?e = 0x80004000"
    by (simp_all add: PA2PTE_def PTE2PA_def PTE_V_def PTE_COW_def bit_iff_odd)
  have p: "page_ok shared_vm 0x80004000" by (simp add: shared_vm_def small_vm_page KERNBASE_def PHYSTOP_def PGSIZE_def)
  have rc: "page_rc shared_vm 0x80004000 = 2" by (simp add: shared_vm_def small_vm_def PGSIZE_def pa_to_idx_def)
  have k: "KERNBASE mod PGSIZE = 0" "KERNBASE < 2 ^ 56" "(0::nat) < MAXVA" "(0x80004000::nat) \<notin> {KERNBASE}"
    "(0x80004000::nat) \<notin> vm_tables" by (simp_all add: KERNBASE_def PGSIZE_def MAXVA_def)
  from cowfault_correct[OF tree k(3), unfolded e, OF b(1,2) b(3)[symmetric] p, unfolded pool, OF k(4,5)]
  obtain t mem where "cowfault 0x80001000 0 shared_vm = Ok (0, t)" "mem = KERNBASE" "page_rc t mem = 1"
    "\<forall>v < MAXVA. entry t 0x80001000 v = (if v div PGSIZE = 0 div PGSIZE
       then mk_pte mem (unset_bit PTE_COW (set_bit PTE_W (PTE_FLAGS ?e))) else entry shared_vm 0x80001000 v)"
    "page_rc t 0x80004000 = page_rc shared_vm 0x80004000 - 1"
    unfolding if_not_P[OF insert_not_empty] by blast
  then show ?thesis using mk_pte_simps(1)[OF cow_flags_less k(1,2), of ?e] k(3) rc by simp
qed

end
