(* ===== verification/Vm_User.thy ===== *)
theory Vm_User
  imports Vm_Map
begin

text \<open>
  User memory as a process sees it: the byte at a virtual address, and what \<^verbatim>\<open>copyin\<close> and
  \<^verbatim>\<open>copyout\<close> of \<^verbatim>\<open>kernel/vm.c\<close> read and write of it.
\<close>

section \<open>The view\<close>

text \<open>The physical address of a virtual address, and the byte there.\<close>

definition uaddr :: "'a kmem_state_scheme \<Rightarrow> nat \<Rightarrow> nat \<Rightarrow> nat" where
  "uaddr s pt va = PTE2PA (entry s pt va) + va mod PGSIZE"

definition umem :: "'a kmem_state_scheme \<Rightarrow> nat \<Rightarrow> nat \<Rightarrow> byte" where
  "umem s pt va = pmem s (uaddr s pt va)"

text \<open>
  The page of \<open>va\<close> is mapped for the user, to a page in use that is no part of the page table \<open>T\<close>;
  \<open>uwrite\<close>: and it is writable. \<open>uspace\<close>: so are the \<open>n\<close> bytes from \<open>va\<close> on, and no two of their
  pages share memory.
\<close>

definition upage :: "'a kmem_state_scheme \<Rightarrow> nat \<Rightarrow> nat set \<Rightarrow> nat \<Rightarrow> bool" where
  "upage s pt T va \<longleftrightarrow> va < MAXVA \<and> bit (entry s pt va) PTE_V \<and> bit (entry s pt va) PTE_U \<and>
     page_ok s (PTE2PA (entry s pt va)) \<and> PTE2PA (entry s pt va) \<notin> T \<and> PTE2PA (entry s pt va) \<notin> pool s"

definition uwrite :: "'a kmem_state_scheme \<Rightarrow> nat \<Rightarrow> nat set \<Rightarrow> nat \<Rightarrow> bool" where
  "uwrite s pt T va \<longleftrightarrow> upage s pt T va \<and> bit (entry s pt va) PTE_W"

definition uspace :: "'a kmem_state_scheme \<Rightarrow> nat \<Rightarrow> nat set \<Rightarrow> nat \<Rightarrow> nat \<Rightarrow> bool" where
  "uspace s pt T va n \<longleftrightarrow> tree_ok 2 pt T s \<and> (\<forall>i<n. uwrite s pt T (va + i)) \<and>
     (\<forall>i<n. \<forall>j<n. PTE2PA (entry s pt (va + i)) = PTE2PA (entry s pt (va + j)) \<longrightarrow> (va + i) div PGSIZE = (va + j) div PGSIZE)"

section \<open>Lemmas\<close>

lemma entry_same_page: "v div PGSIZE = w div PGSIZE \<Longrightarrow> entry s pt v = entry s pt w"
  using entry_page[of s pt v] entry_page[of s pt w] by (simp add: PGROUNDDOWN_def)

lemma upage_walkaddr:
  assumes "tree_ok 2 pt T s" "upage s pt T va"
  shows "walkaddr pt (PGROUNDDOWN va) s = PTE2PA (entry s pt va)" "0 < PTE2PA (entry s pt va)"
    "PTE2PA (entry s pt va) mod PGSIZE = 0" "PGROUNDDOWN va < MAXVA"
proof -
  show va: "PGROUNDDOWN va < MAXVA" using assms(2) page_offset(2)[of va] by (simp add: upage_def)
  show "walkaddr pt (PGROUNDDOWN va) s = PTE2PA (entry s pt va)"
    using walkaddr_entry[OF assms(1) va] assms(2) by (simp add: entry_page upage_def)
  have "kmem_inv s" using assms(1) by (simp add: tree_ok_def)
  then have "0 < kend s" by (simp add: kmem_inv_def kmem_wf_def klist_def)
  then show "0 < PTE2PA (entry s pt va)" "PTE2PA (entry s pt va) mod PGSIZE = 0"
    using assms(2) by (auto simp: upage_def page_ok_def)
qed

lemma offset_mod: "va - PGROUNDDOWN va = va mod PGSIZE"
  by (simp add: PGROUNDDOWN_def minus_div_mult_eq_mod)

lemma chunk_page: "i < PGSIZE - va mod PGSIZE \<Longrightarrow> (va + i) div PGSIZE = va div PGSIZE \<and> (va + i) mod PGSIZE = va mod PGSIZE + i"
proof -
  assume i: "i < PGSIZE - va mod PGSIZE"
  obtain q r where v: "va = q * PGSIZE + r" "r < PGSIZE" "va mod PGSIZE = r" "va div PGSIZE = q"
    by (metis div_mult_mod_eq mod_less_divisor PGSIZE_def zero_less_numeral)
  have "(r + i) div PGSIZE = 0" "(r + i) mod PGSIZE = r + i" using i v(2,3) by simp_all
  then show ?thesis using v by (simp add: add.assoc PGSIZE_def)
qed

lemma uaddr_chunk: "i < PGSIZE - va mod PGSIZE \<Longrightarrow> uaddr s pt (va + i) = uaddr s pt va + i"
  using chunk_page[of i va] entry_same_page[of "va + i" va s pt] by (simp add: uaddr_def)

lemma next_page: "PGROUNDDOWN va + PGSIZE = va + (PGSIZE - va mod PGSIZE)"
proof -
  have "PGROUNDDOWN va + va mod PGSIZE = va" "va mod PGSIZE < PGSIZE" by (simp_all add: PGROUNDDOWN_def PGSIZE_def)
  then show ?thesis by linarith
qed

lemma next_chunk:
  assumes "i < len - min (PGSIZE - va mod PGSIZE) len"
  shows "PGROUNDDOWN va + PGSIZE + i = va + (min (PGSIZE - va mod PGSIZE) len + i)"
proof -
  have "min (PGSIZE - va mod PGSIZE) len = PGSIZE - va mod PGSIZE" using assms by linarith
  then show ?thesis using next_page[of va] by linarith
qed

section \<open>Reading user memory\<close>

lemma copyin_user:
  "tree_ok 2 pt T s \<Longrightarrow> \<forall>i<len. upage s pt T (va + i) \<Longrightarrow>
   copyin pt dst d va len s = Ok (0, \<lambda>x. if d \<le> x \<and> x < d + len then umem s pt (va + (x - d)) else dst x, s)"
proof (induction len arbitrary: dst d va rule: less_induct)
  case (less len)
  show ?case
  proof (cases "len = 0")
    case True
    then show ?thesis by (auto simp: copyin.simps fun_eq_iff)
  next
    case False
    define k where "k = min (PGSIZE - va mod PGSIZE) len"
    have k: "0 < k" "k \<le> len" using False by (simp_all add: k_def PGSIZE_def)
    have up: "upage s pt T va" using less.prems(2) False by (metis add.right_neutral gr0I)
    note w = upage_walkaddr[OF less.prems(1) up]
    have n: "PGROUNDDOWN va + PGSIZE + i = va + (k + i)" if "i < len - k" for i
      using next_chunk[of i len va] that by (simp add: k_def)
    have rest: "\<forall>i<len - k. upage s pt T (PGROUNDDOWN va + PGSIZE + i)"
    proof (intro allI impI)
      fix i assume i: "i < len - k"
      then have "upage s pt T (va + (k + i))" using less.prems(2) by simp
      then show "upage s pt T (PGROUNDDOWN va + PGSIZE + i)" unfolding n[OF i] .
    qed
    have c: "pmem s (uaddr s pt va + i) = umem s pt (va + i)" if "i < k" for i
      using uaddr_chunk[of i va s pt] that by (simp add: umem_def k_def)
    have "copyin pt dst d va len s =
        copyin pt (blit dst d (pmem s) (uaddr s pt va) k) (d + k) (PGROUNDDOWN va + PGSIZE) (len - k) s"
      using False w(1,2) by (subst copyin.simps) (simp add: Let_def uaddr_def offset_mod k_def)
    also have "\<dots> = Ok (0, \<lambda>x. if d + k \<le> x \<and> x < d + k + (len - k) then umem s pt (PGROUNDDOWN va + PGSIZE + (x - (d + k)))
        else blit dst d (pmem s) (uaddr s pt va) k x, s)"
      by (rule less.IH) (use less.prems(1) rest k in simp_all)
    also have "\<dots> = Ok (0, \<lambda>x. if d \<le> x \<and> x < d + len then umem s pt (va + (x - d)) else dst x, s)"
    proof -
      have "(if d + k \<le> x \<and> x < d + k + (len - k) then umem s pt (PGROUNDDOWN va + PGSIZE + (x - (d + k)))
          else blit dst d (pmem s) (uaddr s pt va) k x) = (if d \<le> x \<and> x < d + len then umem s pt (va + (x - d)) else dst x)" for x
      proof (cases "d + k \<le> x")
        case True
        then show ?thesis using n[of "x - (d + k)"] k by (auto simp: blit_def)
      next
        case False
        then show ?thesis using c[of "x - d"] k by (auto simp: blit_def)
      qed
      then show ?thesis by simp
    qed
    finally show ?thesis .
  qed
qed

section \<open>Writing user memory\<close>

lemma user_write:
  assumes tree: "tree_ok 2 pt T s" and pa: "page_ok s pa" "pa \<notin> T" "pa \<notin> pool s"
    and m: "\<And>x. \<not> in_page pa x \<Longrightarrow> m x = pmem s x"
  shows "tree_ok 2 pt T (s\<lparr>pmem := m\<rparr>)" "entry (s\<lparr>pmem := m\<rparr>) pt va = entry s pt va"
    "pool (s\<lparr>pmem := m\<rparr>) = pool s" "page_ok (s\<lparr>pmem := m\<rparr>) = page_ok s"
proof -
  have inv: "kmem_inv s" using tree by (simp add: tree_ok_def)
  have al: "pa mod PGSIZE = 0" using pa(1) by (simp add: page_ok_def)
  have "same_page (pmem s) m q" if "q \<in> pool s" for q
    using that pa(3) pool_page_ok[OF inv that] m al by (intro same_page_disjoint[of q pa]) (auto simp: page_ok_def)
  note k = kmem_write[OF inv this]
  show "pool (s\<lparr>pmem := m\<rparr>) = pool s" "page_ok (s\<lparr>pmem := m\<rparr>) = page_ok s" using k(2,3) by simp_all
  have "pool (s\<lparr>pmem := m\<rparr>) \<inter> T = {}" using k(2) tree by (auto simp: tree_ok_def)
  note o = tree_other_page[OF tree pa(2) al k(1) _ k(3) this]
  show "tree_ok 2 pt T (s\<lparr>pmem := m\<rparr>)" "entry (s\<lparr>pmem := m\<rparr>) pt va = entry s pt va"
    using o(1,2) m by simp_all
qed

lemma uspaceD:
  "uspace s pt T va n \<Longrightarrow> tree_ok 2 pt T s" "uspace s pt T va n \<Longrightarrow> i < n \<Longrightarrow> uwrite s pt T (va + i)"
  "uspace s pt T va n \<Longrightarrow> i < n \<Longrightarrow> j < n \<Longrightarrow>
     PTE2PA (entry s pt (va + i)) = PTE2PA (entry s pt (va + j)) \<Longrightarrow> (va + i) div PGSIZE = (va + j) div PGSIZE"
  unfolding uspace_def by blast+

lemma uaddr_page: "in_page (PTE2PA (entry s pt va)) (uaddr s pt va)"
  by (simp add: in_page_def uaddr_def PGSIZE_def)

text \<open>The pages of a space are apart: an address determines its virtual address there.\<close>

lemma uaddr_inj:
  assumes "uspace s pt T va n" "i < n" "j < n" "uaddr s pt (va + i) = uaddr s pt (va + j)"
  shows "i = j"
proof -
  let ?p = "\<lambda>i. PTE2PA (entry s pt (va + i))"
  have al: "?p k mod PGSIZE = 0" if "k < n" for k
    using uspaceD(2)[OF assms(1) that] by (simp add: uwrite_def upage_def page_ok_def)
  have p: "?p i = ?p j"
    by (rule in_page_unique[OF al[OF assms(2)] al[OF assms(3)] uaddr_page]) (simp add: assms(4) uaddr_page)
  then have "(va + i) div PGSIZE = (va + j) div PGSIZE" by (rule uspaceD(3)[OF assms(1-3)])
  moreover have "(va + i) mod PGSIZE = (va + j) mod PGSIZE" using assms(4) p by (simp add: uaddr_def)
  ultimately have "va + i = va + j" by (metis div_mult_mod_eq)
  then show ?thesis by simp
qed

lemma uspace_chunk:
  assumes "uspace s pt T va len" "k \<le> len" "va' = va + k \<or> k = len"
    "tree_ok 2 pt T t" "\<And>v. entry t pt v = entry s pt v" "pool t = pool s" "page_ok t = page_ok s"
  shows "uspace t pt T va' (len - k)"
proof (cases "k = len")
  case True
  then show ?thesis using assms(4) by (simp add: uspace_def)
next
  case False
  then have v: "va' + i = va + (k + i)" for i using assms(3) by simp
  have "uwrite t pt T (va' + i)" if "i < len - k" for i
    using uspaceD(2)[OF assms(1), of "k + i"] assms(5-7) that unfolding v by (simp add: uwrite_def upage_def)
  moreover have "(va' + i) div PGSIZE = (va' + j) div PGSIZE"
    if "i < len - k" "j < len - k" "PTE2PA (entry t pt (va' + i)) = PTE2PA (entry t pt (va' + j))" for i j
    using uspaceD(3)[OF assms(1), of "k + i" "k + j"] assms(5) that unfolding v by simp
  ultimately show ?thesis using assms(4) unfolding uspace_def by blast
qed

text \<open>What \<^verbatim>\<open>copyout\<close> leaves: the bytes at their addresses, and all other memory as it was.\<close>

definition uwrote :: "'a kmem_state_scheme \<Rightarrow> nat \<Rightarrow> nat \<Rightarrow> bytes \<Rightarrow> nat \<Rightarrow> nat \<Rightarrow> bytes \<Rightarrow> bool" where
  "uwrote s pt va src so len m \<longleftrightarrow> (\<forall>i<len. m (uaddr s pt (va + i)) = src (so + i)) \<and>
     (\<forall>x. (\<forall>i<len. x \<noteq> uaddr s pt (va + i)) \<longrightarrow> m x = pmem s x)"

lemma copyout_step:
  assumes sp: "uspace s pt T va len" and "0 < len"
  defines "k \<equiv> min (PGSIZE - va mod PGSIZE) len"
  shows "copyout pt va src so len s = copyout pt (PGROUNDDOWN va + PGSIZE) src (so + k) (len - k)
     (s\<lparr>pmem := blit (pmem s) (uaddr s pt va) src so k\<rparr>)"
proof -
  have w: "uwrite s pt T va" and tree: "tree_ok 2 pt T s"
    using uspaceD(1)[OF sp] uspaceD(2)[OF sp assms(2)] by simp_all
  then have up: "upage s pt T va" "bit (entry s pt va) PTE_W" by (simp_all add: uwrite_def)
  note a = upage_walkaddr[OF tree up(1)]
  let ?va0 = "PGROUNDDOWN va"
  obtain p where p: "ltable 2 pt ?va0 (pmem s) = Some p"
    using up(1) entry_page[of s pt va] by (cases "ltable 2 pt ?va0 (pmem s)") (auto simp: upage_def entry_def lentry_def)
  have "0 < p" using tree_pages[OF tree ltable_in[OF _ p]] tree by (simp add: tree_ok_def)
  moreover have "read_pte s (p + 8 * PX 0 ?va0) = entry s pt va"
    using p entry_page[of s pt va] by (simp add: read_pte_def entry_def lentry_def)
  ultimately show ?thesis
    using assms(2) a(1,2,4) p up(2)
    by (subst copyout.simps) (simp add: Let_def walk_def walk_lookup offset_mod uaddr_def k_def)
qed

lemma chunk_write:
  fixes src :: bytes and so :: nat
  assumes sp: "uspace s pt T va len" and "0 < len"
  defines "k \<equiv> min (PGSIZE - va mod PGSIZE) len"
  defines "t \<equiv> s\<lparr>pmem := blit (pmem s) (uaddr s pt va) src so k\<rparr>"
  shows "uspace t pt T (PGROUNDDOWN va + PGSIZE) (len - k)" "entry t pt v = entry s pt v"
    "pool t = pool s" "page_ok t = page_ok s"
proof -
  have up: "upage s pt T va" using uspaceD(2)[OF sp assms(2)] by (simp add: uwrite_def)
  have out: "blit (pmem s) (uaddr s pt va) src so k x = pmem s x" if "\<not> in_page (PTE2PA (entry s pt va)) x" for x
    using that by (auto simp: blit_def uaddr_def in_page_def k_def)
  note w = user_write[OF uspaceD(1)[OF sp], of "PTE2PA (entry s pt va)", OF _ _ _ out, folded t_def]
  have f: "tree_ok 2 pt T t" "entry t pt v = entry s pt v" "pool t = pool s" "page_ok t = page_ok s" for v
    using w up by (simp_all add: upage_def)
  then show "entry t pt v = entry s pt v" "pool t = pool s" "page_ok t = page_ok s" by simp_all
  have "PGROUNDDOWN va + PGSIZE = va + k \<or> k = len"
    using next_page[of va] by (auto simp: k_def min_def)
  then show "uspace t pt T (PGROUNDDOWN va + PGSIZE) (len - k)"
    by (intro uspace_chunk[OF sp _ _ f]) (simp_all add: k_def)
qed

lemma copyout_user:
  "uspace s pt T va len \<Longrightarrow>
   \<exists>m. copyout pt va src so len s = Ok (0, s\<lparr>pmem := m\<rparr>) \<and> uwrote s pt va src so len m \<and>
     tree_ok 2 pt T (s\<lparr>pmem := m\<rparr>) \<and> (\<forall>v. entry (s\<lparr>pmem := m\<rparr>) pt v = entry s pt v) \<and>
     pool (s\<lparr>pmem := m\<rparr>) = pool s \<and> page_ok (s\<lparr>pmem := m\<rparr>) = page_ok s"
proof (induction len arbitrary: so va s rule: less_induct)
  case (less len)
  show ?case
  proof (cases "len = 0")
    case True
    then show ?thesis
      using uspaceD(1)[OF less.prems] by (intro exI[of _ "pmem s"]) (simp add: copyout.simps uwrote_def)
  next
    case False
    then have l: "0 < len" by simp
    define k where "k = min (PGSIZE - va mod PGSIZE) len"
    define t where "t = s\<lparr>pmem := blit (pmem s) (uaddr s pt va) src so k\<rparr>"
    let ?va = "PGROUNDDOWN va + PGSIZE"
    have k: "0 < k" "k \<le> len" using l by (simp_all add: k_def PGSIZE_def)
    note w = chunk_write[OF less.prems l, of src so, folded k_def, folded t_def]
    from less.IH[OF _ w(1)] k obtain m where m: "copyout pt ?va src (so + k) (len - k) t = Ok (0, t\<lparr>pmem := m\<rparr>)"
      "uwrote t pt ?va src (so + k) (len - k) m" "tree_ok 2 pt T (t\<lparr>pmem := m\<rparr>)"
      "\<forall>v. entry (t\<lparr>pmem := m\<rparr>) pt v = entry t pt v" "pool (t\<lparr>pmem := m\<rparr>) = pool t" "page_ok (t\<lparr>pmem := m\<rparr>) = page_ok t"
      by (metis diff_less l)
    have st: "t\<lparr>pmem := m\<rparr> = s\<lparr>pmem := m\<rparr>" by (simp add: t_def)
    have ua: "uaddr t pt v = uaddr s pt v" for v by (simp add: uaddr_def w(2))
    have n: "?va + i = va + (k + i)" if "i < len - k" for i using next_chunk[of i len va] that by (simp add: k_def)
    have c: "uaddr s pt (va + i) = uaddr s pt va + i" if "i < k" for i using uaddr_chunk[of i va s pt] that by (simp add: k_def)
    have "uwrote s pt va src so len m"
      unfolding uwrote_def
    proof (intro conjI allI impI)
      fix i assume i: "i < len"
      show "m (uaddr s pt (va + i)) = src (so + i)"
      proof (cases "i < k")
        case True
        have "uaddr s pt (va + i) \<noteq> uaddr t pt (?va + j)" if "j < len - k" for j
        proof -
          have "k + j < len" using that by linarith
          from uaddr_inj[OF less.prems i this] True show ?thesis unfolding ua n[OF that] by auto
        qed
        then have "m (uaddr s pt (va + i)) = pmem t (uaddr s pt (va + i))" using m(2) by (simp add: uwrote_def)
        then show ?thesis using c[OF True] True by (simp add: t_def blit_def)
      next
        case False
        then have "i - k < len - k" "va + i = ?va + (i - k)" using i n[of "i - k"] by simp_all
        then show ?thesis using m(2) False unfolding uwrote_def ua by (metis add.assoc le_add_diff_inverse not_less)
      qed
    next
      fix x assume x: "\<forall>i<len. x \<noteq> uaddr s pt (va + i)"
      have "x \<noteq> uaddr t pt (?va + j)" if "j < len - k" for j
        using x that unfolding ua n[OF that] by simp
      then have "m x = pmem t x" using m(2) by (simp add: uwrote_def)
      moreover have "\<not> (uaddr s pt va \<le> x \<and> x < uaddr s pt va + k)"
      proof
        assume a: "uaddr s pt va \<le> x \<and> x < uaddr s pt va + k"
        then obtain i where i: "x = uaddr s pt va + i" "i < k" using nat_le_iff_add[of "uaddr s pt va" x] by auto
        have "x \<noteq> uaddr s pt (va + i)" using x i(2) k by simp
        then show False using i(1) c[OF i(2)] by simp
      qed
      ultimately show "m x = pmem s x" by (auto simp: t_def blit_def)
    qed
    moreover have "copyout pt va src so len s = Ok (0, s\<lparr>pmem := m\<rparr>)"
      using copyout_step[OF less.prems l, of src so, folded k_def, folded t_def] m(1) st by simp
    ultimately show ?thesis using m(3-6) w(2-4) unfolding st by (intro exI[of _ m]) simp
  qed
qed

text \<open>
  C11. What \<^verbatim>\<open>copyout\<close> wrote to mapped, writable user memory is what \<^verbatim>\<open>copyin\<close> reads back, whatever
  page boundaries the range crosses; neither fails, and the write changes no byte of physical memory other
  than those of the range, no page-table entry, and no free page.
\<close>

theorem copyout_copyin:
  assumes "uspace s pt T va len"
  shows "\<exists>t. copyout pt va src so len s = Ok (0, t) \<and> copyin pt dst d va len t = Ok (0, blit dst d src so len, t) \<and>
     (\<forall>v. entry t pt v = entry s pt v) \<and> tree_ok 2 pt T t \<and> pool t = pool s \<and>
     (\<forall>x. (\<forall>i<len. x \<noteq> uaddr s pt (va + i)) \<longrightarrow> pmem t x = pmem s x)"
proof -
  obtain m where m: "copyout pt va src so len s = Ok (0, s\<lparr>pmem := m\<rparr>)" "uwrote s pt va src so len m"
    "tree_ok 2 pt T (s\<lparr>pmem := m\<rparr>)" "\<forall>v. entry (s\<lparr>pmem := m\<rparr>) pt v = entry s pt v"
    "pool (s\<lparr>pmem := m\<rparr>) = pool s" "page_ok (s\<lparr>pmem := m\<rparr>) = page_ok s"
    using copyout_user[OF assms] by blast
  let ?t = "s\<lparr>pmem := m\<rparr>"
  have "\<forall>i<len. upage ?t pt T (va + i)"
    using uspaceD(2)[OF assms] m(4-6) by (simp add: uwrite_def upage_def)
  note r = copyin_user[OF m(3) this, of dst d]
  have u: "umem ?t pt (va + i) = src (so + i)" if "i < len" for i
    using m(2,4) that by (simp add: umem_def uaddr_def uwrote_def)
  have "(if d \<le> x \<and> x < d + len then umem ?t pt (va + (x - d)) else dst x) = blit dst d src so len x" for x
    using u[of "x - d"] by (auto simp: blit_def)
  then have "copyin pt dst d va len ?t = Ok (0, blit dst d src so len, ?t)" unfolding r by (simp add: fun_eq_iff)
  then show ?thesis using m by (intro exI[of _ ?t]) (simp add: uwrote_def)
qed

lemma small_vm_space:
  assumes "va + n \<le> 2 * PGSIZE"
  shows "uspace (small_vm 0x17 s) 0x80001000 vm_tables va n"
proof -
  let ?s = "small_vm 0x17 s" let ?pt = "0x80001000"
  have d: "(va + i) div PGSIZE = 0 \<or> (va + i) div PGSIZE = 1" if "i < n" for i
    using assms that by (simp add: PGSIZE_def) linarith
  have f: "bit (PA2PTE pa + 0x17) PTE_V" "bit (PA2PTE pa + 0x17) PTE_U" "bit (PA2PTE pa + 0x17) PTE_W"
    "PTE2PA (PA2PTE pa + 0x17) = pa" if "pa = 0x80004000 \<or> pa = 0x80005000" for pa
    using that by (auto simp: PA2PTE_def PTE2PA_def PTE_V_def PTE_U_def PTE_W_def bit_iff_odd)
  have e: "entry ?s ?pt (va + i) = PA2PTE (if (va + i) div PGSIZE = 0 then 0x80004000 else 0x80005000) + 0x17" if "i < n" for i
    using d[OF that] small_vm_entry[of "va + i" "0x17" s] by auto
  have p: "PTE2PA (entry ?s ?pt (va + i)) = (if (va + i) div PGSIZE = 0 then 0x80004000 else 0x80005000)" if "i < n" for i
    using f(4) unfolding e[OF that] by simp
  have "uwrite ?s ?pt vm_tables (va + i)" if i: "i < n" for i
  proof -
    have "va + i < MAXVA" using assms that by (simp add: MAXVA_def PGSIZE_def)
    then show ?thesis
      using f(1-3) p[OF i] unfolding uwrite_def upage_def e[OF i]
      by (simp add: small_vm_page small_vm_pool KERNBASE_def PHYSTOP_def PGSIZE_def)
  qed
  moreover have "(va + i) div PGSIZE = (va + j) div PGSIZE"
    if "i < n" "j < n" "PTE2PA (entry ?s ?pt (va + i)) = PTE2PA (entry ?s ?pt (va + j))" for i j
    using p[OF that(1)] p[OF that(2)] that(3) d[OF that(1)] d[OF that(2)] by (auto split: if_splits)
  ultimately show ?thesis using small_vm_tree unfolding uspace_def by blast
qed

theorem copyout_copyin_witness:
  "\<exists>t. copyout 0x80001000 4094 (\<lambda>i. of_nat (i + 7)) 0 4 (small_vm 0x17 sched_bss) = Ok (0, t) \<and>
     copyin 0x80001000 (\<lambda>_. 0) 0 4094 4 t = Ok (0, blit (\<lambda>_. 0) 0 (\<lambda>i. of_nat (i + 7)) 0 4, t)"
proof -
  have "uspace (small_vm 0x17 sched_bss) 0x80001000 vm_tables 4094 4" by (rule small_vm_space) (simp add: PGSIZE_def)
  from copyout_copyin[OF this] show ?thesis by blast
qed

end
