(* ===== verification/Ring.thy ===== *)
theory Ring
  imports Hai_Prelude
begin

text \<open>
  Circular buffers with free-running 32-bit indices, the shape of the pipe buffer of
  \<^verbatim>\<open>kernel/pipe.c\<close> and of the input buffer of \<^verbatim>\<open>kernel/console.c\<close>: the contract
  of their slot functions, and what a put, a get and an unput do to the contents.
\<close>

definition ring_list :: "(32 word \<Rightarrow> nat) \<Rightarrow> bytes \<Rightarrow> 32 word \<Rightarrow> 32 word \<Rightarrow> byte list" where
  "ring_list slot buf r w = map (\<lambda>k. buf (slot (r + of_nat k))) [0..<unat (w - r)]"

lemma length_ring_list [simp]: "length (ring_list slot buf r w) = unat (w - r)"
  by (simp add: ring_list_def)

lemma ring_list_empty [simp]: "ring_list slot buf r r = []"
  by (simp add: ring_list_def)

lemma unat_pred: "x \<noteq> 0 \<Longrightarrow> unat x = Suc (unat (x - 1))"
  using unat_minus_one[of x] unat_gt_0[of x] by simp

lemma ring_get: "r \<noteq> w \<Longrightarrow> ring_list slot buf r w = buf (slot r) # ring_list slot buf (r + 1) w"
proof -
  assume "r \<noteq> w"
  then have "w - r \<noteq> 0" by simp
  then have u: "unat (w - r) = Suc (unat (w - (r + 1)))"
    by (metis unat_pred diff_diff_eq)
  have "map (\<lambda>k. buf (slot (r + of_nat k))) [Suc 0..<Suc n] = map (\<lambda>k. buf (slot (r + 1 + of_nat k))) [0..<n]" for n
    by (rule nth_equalityI) (simp_all add: add.assoc del: upt_Suc)
  then show ?thesis unfolding ring_list_def u by (subst upt_conv_Cons) simp_all
qed

lemma ring_unput: "r \<noteq> w \<Longrightarrow> ring_list slot buf r (w - 1) = butlast (ring_list slot buf r w)"
proof -
  assume "r \<noteq> w"
  then have "w - r \<noteq> 0" by simp
  then have "unat (w - r) = Suc (unat (w - 1 - r))" by (metis unat_pred diff_right_commute)
  then show ?thesis by (simp add: ring_list_def)
qed

lemma ring_last: "r \<noteq> w \<Longrightarrow> buf (slot (w - 1)) \<in> set (ring_list slot buf r w)"
proof -
  assume "r \<noteq> w"
  then have "w - r \<noteq> 0" by simp
  then have "unat (w - r) = Suc (unat (w - 1 - r))" by (metis unat_pred diff_right_commute)
  then have "ring_list slot buf r w = map (\<lambda>k. buf (slot (r + of_nat k))) [0..<unat (w - 1 - r)] @ [buf (slot (w - 1))]"
    by (simp add: ring_list_def)
  then show ?thesis by simp
qed

text \<open>Two indices less than a buffer length apart use different slots.\<close>

locale ring =
  fixes slot :: "32 word \<Rightarrow> nat" and len :: nat
  assumes slot_apart: "i < j \<Longrightarrow> j < len \<Longrightarrow> slot (r + of_nat i) \<noteq> slot (r + of_nat j)"
    and len_small: "len < 2 ^ 32"
begin

lemma put_distance: "unat (w - r) < len \<Longrightarrow> unat (w + 1 - r :: 32 word) = Suc (unat (w - r))"
proof -
  assume "unat (w - r) < len"
  then have "Suc (unat (w - r)) < 2 ^ 32" using len_small by linarith
  moreover have "unat (w - r + 1) = Suc (unat (w - r)) mod 2 ^ 32" by (simp add: unat_word_ariths)
  moreover have "w + 1 - r = w - r + 1" by simp
  ultimately show ?thesis by (metis mod_less)
qed

lemma ring_put:
  assumes "unat (w - r) < len"
  shows "ring_list slot (buf(slot w := c)) r (w + 1) = ring_list slot buf r w @ [c]"
proof -
  have w: "r + of_nat (unat (w - r)) = w" by simp
  have "slot (r + of_nat k) \<noteq> slot w" if "k < unat (w - r)" for k
    using slot_apart[OF that assms, of r] unfolding w .
  then have "map (\<lambda>k. (buf(slot w := c)) (slot (r + of_nat k))) [0..<unat (w - r)] = ring_list slot buf r w"
    by (simp add: ring_list_def)
  then show ?thesis using w by (simp add: ring_list_def put_distance[OF assms])
qed

lemma ring_keep:
  assumes "unat (w - r) + unat (e - w) < len"
  shows "ring_list slot (buf(slot e := c)) r w = ring_list slot buf r w"
proof -
  have "r + of_nat (unat (w - r) + unat (e - w)) = e" by simp
  then have "slot (r + of_nat k) \<noteq> slot e" if "k < unat (w - r)" for k
    using slot_apart[OF trans_less_add1[OF that] assms, of r] by simp
  then show ?thesis by (simp add: ring_list_def)
qed

lemma ring_room: "unat (w - r :: 32 word) < len \<Longrightarrow> w \<noteq> r + of_nat len"
  using len_small by (auto simp: unat_of_nat)

lemma ring_full: "unat (w - r :: 32 word) \<le> len \<Longrightarrow> w \<noteq> r + of_nat len \<Longrightarrow> unat (w - r) < len"
proof (rule ccontr)
  assume "unat (w - r) \<le> len" "w \<noteq> r + of_nat len" "\<not> unat (w - r) < len"
  then have "unat (w - r) = len" by simp
  then have "w - r = of_nat len" using word_arith_nat_add[of "w - r" 0] by simp
  then have "w = r + of_nat len" by (metis add.commute diff_add_cancel)
  with \<open>w \<noteq> r + of_nat len\<close> show False ..
qed

end

text \<open>A buffer whose length divides \<^verbatim>\<open>2^32\<close>, indexed by the remainder.\<close>

lemma mod_slot_apart:
  assumes "N dvd 2 ^ 32" "i < j" "j < N"
  shows "unat (r + of_nat i :: 32 word) mod N \<noteq> unat (r + of_nat j) mod N"
proof -
  have m: "unat (r + of_nat k :: 32 word) mod N = (unat r + k) mod N" for k
    using assms(1) by (simp add: unat_word_ariths unat_of_nat mod_mod_cancel mod_add_right_eq)
  have "(unat r + i) mod N \<noteq> (unat r + j) mod N"
  proof
    assume "(unat r + i) mod N = (unat r + j) mod N"
    then have "N dvd (unat r + j) - (unat r + i)" by (metis mod_eq_dvd_iff_nat add_le_cancel_left assms(2) less_imp_le)
    then show False using assms(2,3) by (simp add: nat_dvd_not_less)
  qed
  then show ?thesis unfolding m .
qed

end
