(* ===== verification/Pipe_Queue.thy ===== *)
theory Pipe_Queue
  imports Pipe Vm_User Ring Fs_Content
begin

text \<open>
  A pipe as the queue of bytes it promises to be: what \<^verbatim>\<open>pipewrite\<close> and
  \<^verbatim>\<open>piperead\<close> of \<^verbatim>\<open>kernel/pipe.c\<close> do to the queue and to user memory.
\<close>

section \<open>The queue in a pipe\<close>

definition pqueue :: "pipe \<Rightarrow> byte list" where
  "pqueue p = ring_list pslot (pi_data p) (pi_nread p) (pi_nwrite p)"

definition pipe_ok :: "pipe \<Rightarrow> bool" where
  "pipe_ok p \<longleftrightarrow> length (pqueue p) \<le> PIPESIZE"

definition pipe_room :: "pipe \<Rightarrow> nat" where
  "pipe_room p = PIPESIZE - length (pqueue p)"

interpretation pipe_ring: ring pslot PIPESIZE
proof
  show "pslot (r + of_nat i) \<noteq> pslot (r + of_nat j)" if "i < j" "j < PIPESIZE" for i j r
    using mod_slot_apart[OF _ that, of r] by (simp add: pslot_def PIPESIZE_def)
qed (simp add: PIPESIZE_def)

lemma pipe_put_queue:
  assumes "pipe_ok p" "length (pqueue p) < PIPESIZE"
  shows "pqueue (pipe_put c p) = pqueue p @ [c]" "pipe_ok (pipe_put c p)"
proof -
  show q: "pqueue (pipe_put c p) = pqueue p @ [c]"
    using pipe_ring.ring_put assms(2) by (simp add: pqueue_def pipe_put_def)
  show "pipe_ok (pipe_put c p)" using assms(2) by (simp add: pipe_ok_def q)
qed

lemma pipe_full:
  assumes "pipe_ok p"
  shows "pi_nwrite p = pi_nread p + of_nat PIPESIZE \<longleftrightarrow> length (pqueue p) = PIPESIZE"
proof -
  have "unat (pi_nwrite p - pi_nread p) \<le> PIPESIZE" using assms by (simp add: pipe_ok_def pqueue_def)
  then show ?thesis
    using pipe_ring.ring_full pipe_ring.ring_room unfolding pqueue_def length_ring_list
    by (metis nat_less_le)
qed

definition pipe_get :: "pipe \<Rightarrow> pipe" where
  "pipe_get p = p\<lparr>pi_nread := pi_nread p + 1\<rparr>"

lemma pipe_get_queue:
  assumes "pi_nread p \<noteq> pi_nwrite p"
  shows "pqueue p = pi_data p (pslot (pi_nread p)) # pqueue (pipe_get p)"
  using ring_get[OF assms] by (simp add: pqueue_def pipe_get_def)

lemma pipe_empty: "pi_nread p = pi_nwrite p \<longleftrightarrow> pqueue p = []"
  using pipe_get_queue[of p] by (metis list.distinct(1) ring_list_empty pqueue_def)

section \<open>Writing\<close>

text \<open>The pipes are no part of the memory of the user.\<close>

lemma mem_pipes [simp]:
  "entry (s\<lparr>pipes := f\<rparr>) pt va = entry s pt va" "umem (s\<lparr>pipes := f\<rparr>) pt va = umem s pt va"
  "page_ok (s\<lparr>pipes := f\<rparr>) = page_ok s" "pool (s\<lparr>pipes := f\<rparr>) = pool s"
  by (simp_all add: entry_def umem_def uaddr_def page_ok_def fun_eq_iff pool_def free_list_def)

lemma kmem_inv_pipes [simp]: "kmem_inv (s\<lparr>pipes := f\<rparr>) = kmem_inv s"
  by (simp add: kmem_inv_def kmem_wf_def klist_def free_list_def)

lemma upage_pipes [simp]:
  "upage (s\<lparr>pipes := f\<rparr>) pt T va = upage s pt T va" "tree_ok 2 pt T (s\<lparr>pipes := f\<rparr>) = tree_ok 2 pt T s"
  by (simp_all add: upage_def tree_ok_def)

lemma pipewrite_loop_queue:
  assumes "tree_ok 2 (p_pagetable (procs s pr)) T s" "\<forall>j<n. upage s (p_pagetable (procs s pr)) T (addr + j)"
    "pipe_ok (pipes s pi)" "pi_readopen (pipes s pi)" "\<not> killed pr s" "i \<le> n"
  shows "\<exists>p. pipe_ok p \<and> pi_readopen p \<and> pi_writeopen p = pi_writeopen (pipes s pi) \<and>
     pqueue p = pqueue (pipes s pi) @
       map (\<lambda>j. umem s (p_pagetable (procs s pr)) (addr + j)) [i..<i + min (n - i) (pipe_room (pipes s pi))] \<and>
     pipewrite_loop pr pi addr n i s =
       (let t = wakeup (ChanPipeRead pi) (s\<lparr>pipes := (pipes s)(pi := p)\<rparr>) in
        Ok (if n - i \<le> pipe_room (pipes s pi) then Done (int n) t else Wait (ChanPipeWrite pi) (i + pipe_room (pipes s pi)) t))"
  using assms
proof (induction "n - i" arbitrary: i s)
  case 0
  then show ?case by (intro exI[of _ "pipes s pi"]) (simp add: pipewrite_loop.simps Let_def)
next
  case (Suc k)
  note prems = Suc.prems
  let ?pt = "p_pagetable (procs s pr)" let ?p = "pipes s pi"
  show ?case
  proof (cases "length (pqueue ?p) = PIPESIZE")
    case True
    then show ?thesis using Suc.hyps(2) prems pipe_full[OF prems(3)]
      by (intro exI[of _ ?p]) (simp add: pipewrite_loop.simps pipe_room_def Let_def)
  next
    case False
    then have l: "length (pqueue ?p) < PIPESIZE" using prems(3) by (simp add: pipe_ok_def)
    let ?c = "umem s ?pt (addr + i)" let ?s = "upd_pipe pi (pipe_put ?c) s"
    note q = pipe_put_queue[OF prems(3) l, of ?c]
    have n: "i < n" using Suc.hyps(2) by simp
    have ci: "copyin ?pt (\<lambda>_. 0) 0 (addr + i) 1 s = Ok (0, (\<lambda>x. if x = 0 then ?c else 0), s)"
      using copyin_user[OF prems(1), of 1 "addr + i" "\<lambda>_. 0" 0] prems(2) n by (simp add: fun_eq_iff)
    have step: "pipewrite_loop pr pi addr n i s = pipewrite_loop pr pi addr n (i + 1) ?s"
      using prems(4,5) n False pipe_full[OF prems(3)] ci
      by (subst pipewrite_loop.simps) simp
    have "\<exists>p. pipe_ok p \<and> pi_readopen p \<and> pi_writeopen p = pi_writeopen (pipes ?s pi) \<and>
     pqueue p = pqueue (pipes ?s pi) @
       map (\<lambda>j. umem ?s (p_pagetable (procs ?s pr)) (addr + j)) [i + 1..<i + 1 + min (n - (i + 1)) (pipe_room (pipes ?s pi))] \<and>
     pipewrite_loop pr pi addr n (i + 1) ?s =
       (let t = wakeup (ChanPipeRead pi) (?s\<lparr>pipes := (pipes ?s)(pi := p)\<rparr>) in
        Ok (if n - (i + 1) \<le> pipe_room (pipes ?s pi) then Done (int n) t else Wait (ChanPipeWrite pi) (i + 1 + pipe_room (pipes ?s pi)) t))"
      by (rule Suc.hyps(1)) (use Suc.hyps(2) prems q(2) in \<open>simp_all add: upd_pipe_def killed_def pipe_put_def\<close>)
    then obtain p where p: "pipe_ok p" "pi_readopen p" "pi_writeopen p = pi_writeopen (pipes ?s pi)"
      "pqueue p = pqueue (pipes ?s pi) @
       map (\<lambda>j. umem ?s (p_pagetable (procs ?s pr)) (addr + j)) [i + 1..<i + 1 + min (n - (i + 1)) (pipe_room (pipes ?s pi))]"
      "pipewrite_loop pr pi addr n (i + 1) ?s =
       (let t = wakeup (ChanPipeRead pi) (?s\<lparr>pipes := (pipes ?s)(pi := p)\<rparr>) in
        Ok (if n - (i + 1) \<le> pipe_room (pipes ?s pi) then Done (int n) t else Wait (ChanPipeWrite pi) (i + 1 + pipe_room (pipes ?s pi)) t))" by blast
    have r: "pipe_room (pipes s pi) = Suc (pipe_room (pipes ?s pi))" using l q(1) by (simp add: pipe_room_def upd_pipe_def)
    have "min (n - i) (pipe_room (pipes s pi)) = Suc (min (n - (i + 1)) (pipe_room (pipes ?s pi)))"
      using n unfolding r by linarith
    then have u: "[i..<i + min (n - i) (pipe_room (pipes s pi))] =
        i # [i + 1..<i + 1 + min (n - (i + 1)) (pipe_room (pipes ?s pi))]" by (simp only: upt_add_Suc) simp
    have q': "pqueue p = pqueue ?p @ map (\<lambda>j. umem s ?pt (addr + j)) [i..<i + min (n - i) (pipe_room (pipes s pi))]"
      unfolding u using p(4) q(1) by (simp add: upd_pipe_def)
    have st: "?s\<lparr>pipes := (pipes ?s)(pi := p)\<rparr> = s\<lparr>pipes := (pipes s)(pi := p)\<rparr>" by (simp add: upd_pipe_def)
    have "n - (i + 1) \<le> pipe_room (pipes ?s pi) \<longleftrightarrow> n - i \<le> pipe_room (pipes s pi)"
      "i + 1 + pipe_room (pipes ?s pi) = i + pipe_room (pipes s pi)" using n r by linarith+
    note run = step[unfolded p(5) st this]
    have "pi_writeopen p = pi_writeopen ?p" using p(3) by (simp add: upd_pipe_def pipe_put_def)
    then show ?thesis using p(1,2) q' run by blast
  qed
qed

section \<open>Reading\<close>

text \<open>One byte to user memory, and then the rest.\<close>

lemma uwrote_Suc:
  assumes sp: "uspace s pt T va (Suc n)" and m1: "uwrote s pt va (\<lambda>_. c) 0 1 m1"
    and e: "\<And>v. entry (s\<lparr>pmem := m1\<rparr>) pt v = entry s pt v"
    and m: "uwrote (s\<lparr>pmem := m1\<rparr>) pt (va + 1) (\<lambda>i. xs ! i) 0 n m"
  shows "uwrote s pt va (\<lambda>i. (c # xs) ! i) 0 (Suc n) m"
proof -
  have ua: "uaddr (s\<lparr>pmem := m1\<rparr>) pt v = uaddr s pt v" for v by (simp add: uaddr_def e)
  have ne: "uaddr s pt va \<noteq> uaddr s pt (va + 1 + i)" if "i < n" for i
    using uaddr_inj[OF sp, of 0 "Suc i"] that by auto
  have "m (uaddr s pt va) = c" using m m1 ne by (simp add: uwrote_def ua)
  moreover have "m (uaddr s pt (va + Suc i)) = xs ! i" if "i < n" for i
    using m that by (simp add: uwrote_def ua)
  ultimately have "m (uaddr s pt (va + i)) = (c # xs) ! i" if "i < Suc n" for i using that by (cases i) auto
  moreover have "m x = pmem s x" if x: "\<forall>i<Suc n. x \<noteq> uaddr s pt (va + i)" for x
  proof -
    have "x \<noteq> uaddr s pt (va + 1 + i)" if "i < n" for i using x that by (auto dest: spec[of _ "Suc i"])
    then have "m x = m1 x" using m by (simp add: uwrote_def ua)
    moreover have "x \<noteq> uaddr s pt (va + 0)" using x by blast
    ultimately show ?thesis using m1 by (simp add: uwrote_def)
  qed
  ultimately show ?thesis by (simp add: uwrote_def)
qed

lemma uspace_pipes [simp]: "uspace (s\<lparr>pipes := f\<rparr>) pt T va n = uspace s pt T va n"
  by (simp add: uspace_def uwrite_def)

lemma uspace_tail:
  assumes "uspace s pt T va (Suc n)" "tree_ok 2 pt T t" "\<And>v. entry t pt v = entry s pt v" "pool t = pool s" "page_ok t = page_ok s"
  shows "uspace t pt T (va + 1) n"
  using uspace_chunk[OF assms(1) _ _ assms(2-5), of 1 "va + 1"] by simp

lemma piperead_loop_queue:
  assumes "uspace s (p_pagetable (procs s pr)) T (addr + i) (min (n - i) (length (pqueue (pipes s pi))))" "i \<le> n"
  shows "\<exists>m p. piperead_loop pr pi addr n i s =
       Ok (int (i + min (n - i) (length (pqueue (pipes s pi)))), s\<lparr>pmem := m, pipes := (pipes s)(pi := p)\<rparr>) \<and>
     uwrote s (p_pagetable (procs s pr)) (addr + i) (\<lambda>j. pqueue (pipes s pi) ! j) 0 (min (n - i) (length (pqueue (pipes s pi)))) m \<and>
     pqueue p = drop (n - i) (pqueue (pipes s pi)) \<and> pi_readopen p = pi_readopen (pipes s pi) \<and>
     pi_writeopen p = pi_writeopen (pipes s pi)"
  using assms
proof (induction "n - i" arbitrary: i s)
  case 0
  then show ?case
    by (intro exI[of _ "pmem s"] exI[of _ "pipes s pi"]) (simp add: piperead_loop.simps uwrote_def)
next
  case (Suc k)
  let ?p = "pipes s pi" let ?pt = "p_pagetable (procs s pr)"
  show ?case
  proof (cases "pqueue ?p")
    case Nil
    then have "pi_nread ?p = pi_nwrite ?p" using pipe_empty by blast
    with Nil show ?thesis using Suc.hyps(2)
      by (intro exI[of _ "pmem s"] exI[of _ ?p]) (simp add: piperead_loop.simps uwrote_def)
  next
    case (Cons c q)
    then have ne: "pi_nread ?p \<noteq> pi_nwrite ?p" using pipe_empty by fastforce
    from pipe_get_queue[OF ne] Cons have c: "pi_data ?p (pslot (pi_nread ?p)) = c" "pqueue (pipe_get ?p) = q" by simp_all
    define l where "l = min (n - (i + 1)) (length q)"
    have n: "i < n" and l: "min (n - i) (length (pqueue ?p)) = Suc l" using Suc.hyps(2) Cons by (auto simp: l_def)
    note sp = Suc.prems(1)[unfolded l]
    have "uspace s ?pt T (addr + i) 1"
      using sp by (auto simp: uspace_def)
    from copyout_user[OF this, of "\<lambda>_. c" 0] obtain m1 where
      m1: "copyout ?pt (addr + i) (\<lambda>_. c) 0 1 s = Ok (0, s\<lparr>pmem := m1\<rparr>)" "uwrote s ?pt (addr + i) (\<lambda>_. c) 0 1 m1"
        "tree_ok 2 ?pt T (s\<lparr>pmem := m1\<rparr>)" "\<And>v. entry (s\<lparr>pmem := m1\<rparr>) ?pt v = entry s ?pt v"
        "pool (s\<lparr>pmem := m1\<rparr>) = pool s" "page_ok (s\<lparr>pmem := m1\<rparr>) = page_ok s" by blast
    let ?t = "upd_pipe pi pipe_get (s\<lparr>pmem := m1\<rparr>)"
    have t: "pqueue (pipes ?t pi) = q" "procs ?t = procs s" by (simp_all add: upd_pipe_def c)
    have step: "piperead_loop pr pi addr n i s = piperead_loop pr pi addr n (i + 1) ?t"
      using n ne m1(1) by (subst piperead_loop.simps) (simp add: c Let_def pipe_get_def[abs_def])
    have "uspace ?t ?pt T (addr + (i + 1)) l"
      using uspace_tail[OF sp m1(3-6)] by (simp add: upd_pipe_def)
    then have u: "uspace ?t (p_pagetable (procs ?t pr)) T (addr + (i + 1)) (min (n - (i + 1)) (length (pqueue (pipes ?t pi))))"
      unfolding t l_def .
    have "k = n - (i + 1)" "i + 1 \<le> n" using Suc.hyps(2) n by simp_all
    from Suc.hyps(1)[OF this(1) u this(2), unfolded t, folded l_def] obtain m p where m:
      "piperead_loop pr pi addr n (i + 1) ?t = Ok (int (i + 1 + l), ?t\<lparr>pmem := m, pipes := (pipes ?t)(pi := p)\<rparr>)"
      "uwrote ?t ?pt (addr + (i + 1)) (\<lambda>j. q ! j) 0 l m" "pqueue p = drop (n - (i + 1)) q"
      "pi_readopen p = pi_readopen (pipes ?t pi)" "pi_writeopen p = pi_writeopen (pipes ?t pi)"
      by blast
    have "uwrote (s\<lparr>pmem := m1\<rparr>) ?pt (addr + i + 1) (\<lambda>j. q ! j) 0 l m"
      using m(2) by (simp add: uwrote_def upd_pipe_def uaddr_def)
    from uwrote_Suc[OF sp m1(2,4) this] have "uwrote s ?pt (addr + i) (\<lambda>j. (c # q) ! j) 0 (Suc l) m" .
    moreover have "drop (n - i) (c # q) = drop (n - (i + 1)) q" using n by (simp add: drop_Cons')
    ultimately show ?thesis
      unfolding l using m step Cons
      by (intro exI[of _ m] exI[of _ p]) (simp add: upd_pipe_def pipe_get_def)
  qed
qed

section \<open>Properties\<close>

text \<open>
  C12. \<^verbatim>\<open>pipewrite\<close> from mapped user memory appends the bytes in order as far as there is room, wakes
  the readers, and returns the number of bytes, or goes to sleep when the pipe is full, remembering how far it
  came; with no reader left, or killed, it returns -1 and changes nothing. The 32-bit counters may wrap around.
\<close>

theorem pipewrite_correct:
  assumes "myproc s = Some pr" "tree_ok 2 (p_pagetable (procs s pr)) T s"
    "\<forall>j<n. upage s (p_pagetable (procs s pr)) T (addr + j)" "pipe_ok (pipes s pi)" "0 < n"
  shows "if \<not> pi_readopen (pipes s pi) \<or> killed pr s then pipewrite pi addr (int n) s = Ok (Done (-1) s)
    else \<exists>p t. pipe_ok p \<and> t = wakeup (ChanPipeRead pi) (s\<lparr>pipes := (pipes s)(pi := p)\<rparr>) \<and>
      pqueue p = pqueue (pipes s pi) @
        map (\<lambda>j. umem s (p_pagetable (procs s pr)) (addr + j)) [0..<min n (pipe_room (pipes s pi))] \<and>
      pipewrite pi addr (int n) s = Ok (if n \<le> pipe_room (pipes s pi) then Done (int n) t
        else Wait (ChanPipeWrite pi) (pipe_room (pipes s pi)) t)"
proof (cases "\<not> pi_readopen (pipes s pi) \<or> killed pr s")
  case True
  then show ?thesis using assms(1,5) by (simp add: pipewrite_def pipewrite_loop.simps[of pr pi addr n 0])
next
  case False
  then have o: "pi_readopen (pipes s pi)" "\<not> killed pr s" by simp_all
  have w: "pipewrite pi addr (int n) s = pipewrite_loop pr pi addr n 0 s" using assms(1) by (simp add: pipewrite_def)
  obtain p where p: "pipe_ok p" "pqueue p = pqueue (pipes s pi) @
      map (\<lambda>j. umem s (p_pagetable (procs s pr)) (addr + j)) [0..<min n (pipe_room (pipes s pi))]"
    "pipewrite pi addr (int n) s = (let t = wakeup (ChanPipeRead pi) (s\<lparr>pipes := (pipes s)(pi := p)\<rparr>) in
        Ok (if n \<le> pipe_room (pipes s pi) then Done (int n) t else Wait (ChanPipeWrite pi) (pipe_room (pipes s pi)) t))"
    using pipewrite_loop_queue[OF assms(2-4) o, of 0] unfolding w add_0 diff_zero by blast
  from p(3) show ?thesis
    unfolding if_not_P[OF False] Let_def using p(1,2) by blast
qed

text \<open>
  C13. \<^verbatim>\<open>piperead\<close> into writable user memory returns the oldest bytes of the pipe in order, as many as
  asked for and present, takes them off and wakes the writers; on an empty pipe it waits while a writer is left
  (or returns -1 when killed) and returns 0 when none is. No other memory changes.
\<close>

theorem piperead_correct:
  assumes q: "q = pqueue (pipes s pi)" and "myproc s = Some pr" "uspace s (p_pagetable (procs s pr)) T addr (min n (length (q)))"
  shows "if q = [] \<and> pi_writeopen (pipes s pi)
    then piperead pi addr (int n) s = Ok (if killed pr s then Done (-1) s else Wait (ChanPipeRead pi) () s)
    else \<exists>m p. piperead pi addr (int n) s =
        Ok (Done (int (min n (length (q)))) (wakeup (ChanPipeWrite pi) (s\<lparr>pmem := m, pipes := (pipes s)(pi := p)\<rparr>))) \<and>
      uwrote s (p_pagetable (procs s pr)) addr (\<lambda>j. q ! j) 0 (min n (length (q))) m \<and> pqueue p = drop n (q)"
proof (cases "q = [] \<and> pi_writeopen (pipes s pi)")
  case True
  then show ?thesis using assms(2) pipe_empty[of "pipes s pi"] by (simp add: piperead_def q)
next
  case False
  have "uspace s (p_pagetable (procs s pr)) T (addr + 0) (min (n - 0) (length (pqueue (pipes s pi))))"
    using assms(3) by (simp add: q)
  from piperead_loop_queue[OF this] obtain m p where
    "piperead_loop pr pi addr n 0 s = Ok (int (min n (length (q))), s\<lparr>pmem := m, pipes := (pipes s)(pi := p)\<rparr>)"
    "uwrote s (p_pagetable (procs s pr)) addr (\<lambda>j. q ! j) 0 (min n (length (q))) m" "pqueue p = drop n (q)"
    by (auto simp: q)
  then show ?thesis using False assms(2) pipe_empty[of "pipes s pi"] by (auto simp: piperead_def q)
qed

text \<open>A machine whose process 0 runs with two pages, and a pipe holding two bytes whose counters are about to wrap.\<close>

definition wrap_pipe :: pipe where
  "wrap_pipe = \<lparr>pi_data = (\<lambda>i. of_nat i), pi_nread = 0xFFFFFFFF, pi_nwrite = 1, pi_readopen = True, pi_writeopen = True\<rparr>"

definition pipe_machine :: file_state where
  "pipe_machine = small_vm 0x17 (cons_state.extend
     (fs_state.extend one_fs (cons_state.fields (\<lambda>_. 0) 0 0 0 False 0 0 [] [] 0))
     (file_state.fields (\<lambda>_. undefined) (\<lambda>_. wrap_pipe) (\<lambda>_. NoFn) (\<lambda>_. NoFn))
     \<lparr>cpu_proc := (\<lambda>_. Some 0), procs := (\<lambda>_. zero_proc\<lparr>p_pagetable := 0x80001000\<rparr>)\<rparr>)"

lemma wrap_pipe_queue: "pqueue wrap_pipe = [255, 0]"
proof -
  have "pqueue wrap_pipe = ring_list pslot (\<lambda>i. of_nat i) 0xFFFFFFFF 1" by (simp add: pqueue_def wrap_pipe_def)
  also have "\<dots> = 255 # ring_list pslot (\<lambda>i. of_nat i) 0 1"
  proof -
    have z: "(0xFFFFFFFF + 1 :: 32 word) = 0" by code_simp
    show ?thesis using ring_get[of "0xFFFFFFFF" 1 pslot "\<lambda>i. of_nat i"] unfolding z by (simp add: pslot_def PIPESIZE_def)
  qed
  also have "\<dots> = [255, 0]" by (simp add: ring_get pslot_def)
  finally show ?thesis .
qed

lemma pipe_machine_simps:
  "myproc pipe_machine = Some 0" "p_pagetable (procs pipe_machine i) = 0x80001000" "\<not> killed i pipe_machine"
  "pipes pipe_machine = (\<lambda>_. wrap_pipe)"
  by (simp_all add: pipe_machine_def small_vm_def myproc_def killed_def zero_proc_def
      fs_state.defs cons_state.defs file_state.defs)

lemma pipe_machine_space: "va + n \<le> 2 * PGSIZE \<Longrightarrow> uspace pipe_machine 0x80001000 vm_tables va n"
  unfolding pipe_machine_def by (rule small_vm_space)

theorem pipewrite_correct_witness:
  "\<exists>t. pipewrite 0 4095 3 pipe_machine = Ok (Done 3 t)"
proof -
  note sp = pipe_machine_space[of 4095 3]
  have "tree_ok 2 0x80001000 vm_tables pipe_machine" "\<forall>j<3. upage pipe_machine 0x80001000 vm_tables (4095 + j)"
    using uspaceD(1,2)[OF sp] by (simp_all add: PGSIZE_def uwrite_def)
  then show ?thesis
    using pipewrite_correct[OF pipe_machine_simps(1), where T = vm_tables and n = 3 and addr = 4095 and pi = 0] wrap_pipe_queue
    by (auto simp: pipe_machine_simps pipe_ok_def pipe_room_def PIPESIZE_def wrap_pipe_def[THEN arg_cong[where f = pi_readopen]])
qed

theorem piperead_correct_witness:
  "\<exists>t. piperead 0 4095 5 pipe_machine = Ok (Done 2 t) \<and> pqueue (pipes t 0) = []"
proof -
  have "uspace pipe_machine 0x80001000 vm_tables 4095 2" by (rule pipe_machine_space) (simp add: PGSIZE_def)
  then have u: "uspace pipe_machine 0x80001000 vm_tables 4095 (min 5 (length [255 :: byte, 0]))" by (simp add: numeral_2_eq_2)
  show ?thesis
    using piperead_correct[OF refl pipe_machine_simps(1), where pi = 0 and n = 5 and addr = 4095 and T = vm_tables] u
    by (auto simp: pipe_machine_simps wrap_pipe_queue wakeup_eq)
qed

end
