(* ===== verification/Console_Input.thy ===== *)
theory Console_Input
  imports Console Ring Fs_Content
begin

text \<open>
  The line discipline of \<^verbatim>\<open>kernel/console.c\<close>: \<^verbatim>\<open>consoleintr\<close> on its circular buffer
  implements line editing on a list of finished characters and a list of characters of the line
  being typed.
\<close>

section \<open>Specification\<close>

definition cooked :: "'a cons_state_scheme \<Rightarrow> byte list" where
  "cooked s = ring_list cslot (cons_buf s) (cons_r s) (cons_w s)"

definition raw :: "'a cons_state_scheme \<Rightarrow> byte list" where
  "raw s = ring_list cslot (cons_buf s) (cons_w s) (cons_e s)"

text \<open>The buffer is never more than full, and the line being typed holds no end of line.\<close>

definition cons_ok :: "'a cons_state_scheme \<Rightarrow> bool" where
  "cons_ok s \<longleftrightarrow> length (cooked s) + length (raw s) \<le> INPUT_BUF_SIZE \<and> 10 \<notin> set (raw s)"

text \<open>
  Line editing: control-U erases the line, backspace and delete its last character; other characters are
  added (a carriage return as a newline), and dropped when the buffer is full. A newline, control-D or a full
  buffer finishes the line.
\<close>

definition line_edit :: "byte \<Rightarrow> byte list \<times> byte list \<Rightarrow> byte list \<times> byte list" where
  "line_edit c = (\<lambda>(done, line).
     if c = 16 then (done, line)
     else if c = 21 then (done, [])
     else if c = 8 \<or> c = 127 then (done, butlast line)
     else if c = 0 \<or> length done + length line = INPUT_BUF_SIZE then (done, line)
     else let d = (if c = 13 then 10 else c) in
       if d = 10 \<or> d = 4 \<or> length done + length line + 1 = INPUT_BUF_SIZE
       then (done @ line @ [d], []) else (done, line @ [d]))"

section \<open>Lemmas\<close>

interpretation cons_ring: ring cslot INPUT_BUF_SIZE
proof
  show "cslot (r + of_nat i) \<noteq> cslot (r + of_nat j)" if "i < j" "j < INPUT_BUF_SIZE" for i j r
    using mod_slot_apart[OF _ that, of r] by (simp add: cslot_def INPUT_BUF_SIZE_def)
qed (simp add: INPUT_BUF_SIZE_def)

lemma wakeup_cons [simp]:
  "cons_buf (wakeup c s) = cons_buf s" "cons_r (wakeup c s) = cons_r s" "cons_w (wakeup c s) = cons_w s"
  "cons_e (wakeup c s) = cons_e s"
  by (simp_all add: wakeup_eq)

lemma emit_cons [simp]:
  "cons_buf (emit cs s) = cons_buf s" "cons_r (emit cs s) = cons_r s" "cons_w (emit cs s) = cons_w s"
  "cons_e (emit cs s) = cons_e s"
  by (induction cs arbitrary: s) (simp_all add: emit_def uartputc_sync_def)

text \<open>The distance of two indices, and the buffer as one list.\<close>

lemma word_distance:
  assumes "unat (w - r) + unat (e - w) \<le> 128"
  shows "unat (e - r :: 32 word) = unat (w - r) + unat (e - w)"
proof -
  have "unat (w - r + (e - w)) = (unat (w - r) + unat (e - w)) mod 2 ^ 32"
    by (simp only: unat_word_ariths) simp
  also have "\<dots> = unat (w - r) + unat (e - w)" using assms by (intro mod_less) simp
  finally have "unat (w - r + (e - w)) = unat (w - r) + unat (e - w)" .
  then show ?thesis by simp
qed

lemma ring_append:
  assumes "unat (w - r) + unat (e - w) \<le> 128"
  shows "ring_list slot buf r e = ring_list slot buf r w @ ring_list slot buf w e"
proof (rule nth_equalityI)
  fix k assume "k < length (ring_list slot buf r e)"
  then have k: "k < unat (w - r) + unat (e - w)" by (simp add: word_distance[OF assms])
  show "ring_list slot buf r e ! k = (ring_list slot buf r w @ ring_list slot buf w e) ! k"
  proof (cases "k < unat (w - r)")
    case True
    then show ?thesis using k by (simp add: ring_list_def word_distance[OF assms] nth_append)
  next
    case False
    then have "r + of_nat k = w + of_nat (k - unat (w - r))" by (simp add: of_nat_diff)
    then show ?thesis using k False by (simp add: ring_list_def word_distance[OF assms] nth_append add.commute)
  qed
qed (simp add: word_distance[OF assms])

lemma kill_line_raw: "10 \<notin> set (raw s) \<Longrightarrow> cooked (kill_line s) = cooked s \<and> raw (kill_line s) = [] \<and> cons_r (kill_line s) = cons_r s"
proof (induction s rule: kill_line.induct)
  case (1 s)
  show ?case
  proof (cases "cons_e s = cons_w s")
    case True
    then show ?thesis by (simp add: kill_line.simps[of s] raw_def)
  next
    case False
    let ?t = "consputc BACKSPACE (s\<lparr>cons_e := cons_e s - 1\<rparr>)"
    have "raw ?t = butlast (raw s)" "cooked ?t = cooked s"
      using ring_unput[of "cons_w s" "cons_e s"] False by (auto simp: raw_def cooked_def)
    moreover have "cons_buf s (cslot (cons_e s - 1)) \<noteq> 10"
      using ring_last[of "cons_w s" "cons_e s" "cons_buf s" cslot] False "1.prems" by (auto simp: raw_def)
    ultimately show ?thesis
      using "1.IH" "1.prems" False by (auto simp: kill_line.simps[of s] dest: in_set_butlastD)
  qed
qed

text \<open>A character goes into the buffer.\<close>

lemma cons_store:
  fixes c :: byte
  assumes ok: "cons_ok s" and room: "length (cooked s) + length (raw s) < INPUT_BUF_SIZE"
  defines "t \<equiv> s\<lparr>cons_buf := (cons_buf s)(cslot (cons_e s) := c), cons_e := cons_e s + 1\<rparr>"
  shows "cooked t = cooked s" "raw t = raw s @ [c]" "cooked (t\<lparr>cons_w := cons_e t\<rparr>) = cooked s @ raw s @ [c]"
    "raw (t\<lparr>cons_w := cons_e t\<rparr>) = []" "unat (cons_e t - cons_r t) = length (cooked s) + length (raw s) + 1"
proof -
  have d: "unat (cons_w s - cons_r s) + unat (cons_e s - cons_w s) < INPUT_BUF_SIZE"
    using room by (simp add: cooked_def raw_def)
  show c: "cooked t = cooked s" using cons_ring.ring_keep[OF d] by (simp add: cooked_def t_def)
  have "unat (cons_e s - cons_w s) < INPUT_BUF_SIZE" using d by simp
  from cons_ring.ring_put[OF this] show r: "raw t = raw s @ [c]" by (simp add: raw_def t_def)
  have l: "unat (cons_w t - cons_r t) = length (cooked s)" "unat (cons_e t - cons_w t) = length (raw s) + 1"
    using arg_cong[OF c, of length] arg_cong[OF r, of length] by (simp_all add: cooked_def raw_def)
  then have le: "unat (cons_w t - cons_r t) + unat (cons_e t - cons_w t) \<le> 128"
    using room by (simp add: INPUT_BUF_SIZE_def)
  show "cooked (t\<lparr>cons_w := cons_e t\<rparr>) = cooked s @ raw s @ [c]"
    using ring_append[OF le, of cslot "cons_buf t"] c r by (simp add: cooked_def raw_def)
  show "raw (t\<lparr>cons_w := cons_e t\<rparr>) = []" by (simp add: raw_def)
  show "unat (cons_e t - cons_r t) = length (cooked s) + length (raw s) + 1"
    using word_distance[OF le] l by simp
qed

lemma cooked_consputc [simp]: "cooked (consputc c s) = cooked s" "raw (consputc c s) = raw s"
  by (simp_all add: cooked_def raw_def)

lemma cons_room:
  assumes "cons_ok s"
  shows "unat (cons_e s - cons_r s) = length (cooked s) + length (raw s)"
  using word_distance[of "cons_w s" "cons_r s" "cons_e s"] assms
  by (simp add: cons_ok_def cooked_def raw_def INPUT_BUF_SIZE_def)

section \<open>Properties\<close>

text \<open>
  C14. \<^verbatim>\<open>consoleintr\<close> implements line editing: on a sound buffer every character has the effect of
  \<open>line_edit\<close> on the finished and the unfinished input, and leaves the buffer sound, also when the 32-bit indices
  wrap around. In particular characters that do not fit are dropped and never overwrite unread input.
\<close>

theorem consoleintr_edits:
  assumes "cons_ok s"
  shows "cons_ok (consoleintr c s) \<and>
    (cooked (consoleintr c s), raw (consoleintr c s)) = line_edit c (cooked s, raw s)"
proof -
  note room = cons_room[OF assms]
  have lt: "cons_e s - cons_r s < of_nat INPUT_BUF_SIZE \<longleftrightarrow> length (cooked s) + length (raw s) < INPUT_BUF_SIZE"
    by (simp add: word_less_nat_alt room INPUT_BUF_SIZE_def)
  have e: "cons_e s = cons_w s \<Longrightarrow> raw s = []" by (simp add: raw_def)
  consider (dump) "c = 16" | (kill) "c = 21" | (bs) "c = 8 \<or> c = 127"
    | (full) "c \<noteq> 16" "c \<noteq> 21" "c \<noteq> 8" "c \<noteq> 127" "c = 0 \<or> length (cooked s) + length (raw s) = INPUT_BUF_SIZE"
    | (put) "c \<noteq> 16" "c \<noteq> 21" "c \<noteq> 8" "c \<noteq> 127" "c \<noteq> 0" "length (cooked s) + length (raw s) < INPUT_BUF_SIZE"
    using assms unfolding cons_ok_def by (metis le_neq_implies_less)
  then show ?thesis
  proof cases
    case dump
    have "cooked (procdump s) = cooked s" "raw (procdump s) = raw s" by (simp_all add: cooked_def raw_def procdump_def)
    then show ?thesis using assms dump by (simp add: consoleintr_def line_edit_def cons_ok_def)
  next
    case kill
    then show ?thesis using assms kill_line_raw[of s] by (auto simp: consoleintr_def line_edit_def cons_ok_def)
  next
    case bs
    show ?thesis
    proof (cases "cons_e s = cons_w s")
      case True
      then show ?thesis using bs assms e[OF True] by (auto simp: consoleintr_def line_edit_def)
    next
      case False
      let ?t = "s\<lparr>cons_e := cons_e s - 1\<rparr>"
      have "cooked ?t = cooked s" "raw ?t = butlast (raw s)"
        using ring_unput[of "cons_w s" "cons_e s"] False by (simp_all add: cooked_def raw_def)
      then show ?thesis using bs assms False
        by (auto simp: consoleintr_def line_edit_def cons_ok_def dest: in_set_butlastD)
    qed
  next
    case full
    then show ?thesis using assms lt by (auto simp: consoleintr_def line_edit_def)
  next
    case put
    define d where "d = (if c = 13 then 10 else c)"
    let ?u = "consputc (unat d) s"
    define t where "t = ?u\<lparr>cons_buf := (cons_buf ?u)(cslot (cons_e ?u) := d), cons_e := cons_e ?u + 1\<rparr>"
    have "cons_ok ?u" using assms by (simp add: cons_ok_def)
    from cons_store[OF this, of d] put(6)
    have t: "cooked t = cooked s" "raw t = raw s @ [d]" "cooked (t\<lparr>cons_w := cons_e t\<rparr>) = cooked s @ raw s @ [d]"
      "raw (t\<lparr>cons_w := cons_e t\<rparr>) = []" "unat (cons_e t - cons_r t) = length (cooked s) + length (raw s) + 1"
      by (simp_all add: t_def)
    have f: "cons_e t - cons_r t = of_nat INPUT_BUF_SIZE \<longleftrightarrow> length (cooked s) + length (raw s) + 1 = INPUT_BUF_SIZE"
      using t(5) by (simp add: word_unat_eq_iff INPUT_BUF_SIZE_def)
    have c: "consoleintr c s = (if d = 10 \<or> d = 4 \<or> length (cooked s) + length (raw s) + 1 = INPUT_BUF_SIZE
        then wakeup ChanConsR (t\<lparr>cons_w := cons_e t\<rparr>) else t)"
      using put lt unfolding f[symmetric] by (simp add: consoleintr_def t_def d_def Let_def)
    have w: "cooked (wakeup ChanConsR u) = cooked u" "raw (wakeup ChanConsR u) = raw u" for u :: "'a cons_state_scheme"
      by (simp_all add: cooked_def raw_def)
    show ?thesis
      using put assms t(1-4) unfolding c by (auto simp: w cons_ok_def line_edit_def d_def[symmetric] Let_def)
  qed
qed

text \<open>An empty buffer whose indices are about to wrap around.\<close>

definition quiet_console :: cons_state where
  "quiet_console = fs_state.extend one_fs (cons_state.fields (\<lambda>_. 0) 0xFFFFFFFF 0xFFFFFFFF 0xFFFFFFFF False 0 0 [] [] 0)"

theorem consoleintr_edits_witness:
  "cons_ok quiet_console \<and> cooked (consoleintr 97 quiet_console) = [] \<and> raw (consoleintr 97 quiet_console) = [97]"
proof -
  have "cooked quiet_console = []" "raw quiet_console = []"
    by (simp_all add: cooked_def raw_def quiet_console_def fs_state.defs cons_state.defs)
  moreover from this have "cons_ok quiet_console" by (simp add: cons_ok_def)
  ultimately show ?thesis
    using consoleintr_edits[of quiet_console 97] by (simp add: line_edit_def INPUT_BUF_SIZE_def)
qed

end
