(* ===== verification/Ulib.thy ===== *)
theory Ulib
  imports Printf
begin

text \<open>
  The string routines of the user library, \<^verbatim>\<open>user/ulib.c\<close>, over the memory of a
  process. A routine that runs until it meets a null byte has no bound of its own: \<open>None\<close> is a
  run that never ends; on a terminated string (\<open>cstr_at\<close>) it returns. Characters are unsigned
  on RISC-V. \<^verbatim>\<open>memmove\<close> is \<open>ulib_memmove\<close> of theory Klib.
\<close>

section \<open>Operations\<close>

partial_function (option) strcpy :: "bytes \<Rightarrow> nat \<Rightarrow> nat \<Rightarrow> bytes option" where
  "strcpy m s t = (if m t = 0 then Some (m(s := 0)) else strcpy (m(s := m t)) (s + 1) (t + 1))"

partial_function (option) strcmp :: "bytes \<Rightarrow> nat \<Rightarrow> nat \<Rightarrow> int option" where
  "strcmp m p q = (if m p \<noteq> 0 \<and> m p = m q then strcmp m (p + 1) (q + 1) else Some (int (unat (m p)) - int (unat (m q))))"

partial_function (option) ulib_strlen_loop :: "bytes \<Rightarrow> nat \<Rightarrow> nat \<Rightarrow> nat option" where
  "ulib_strlen_loop m s n = (if m (s + n) = 0 then Some n else ulib_strlen_loop m s (n + 1))"

definition ulib_strlen :: "bytes \<Rightarrow> nat \<Rightarrow> nat option" where
  "ulib_strlen m s = ulib_strlen_loop m s 0"

primrec ulib_memset_loop :: "nat \<Rightarrow> nat \<Rightarrow> byte \<Rightarrow> nat \<Rightarrow> bytes \<Rightarrow> bytes" where
  "ulib_memset_loop 0 dst c i m = m"
| "ulib_memset_loop (Suc k) dst c i m = ulib_memset_loop k dst c (i + 1) (m(dst + i := c))"

definition ulib_memset :: "bytes \<Rightarrow> nat \<Rightarrow> byte \<Rightarrow> nat \<Rightarrow> bytes" where
  "ulib_memset m dst c n = ulib_memset_loop n dst c 0 m"

text \<open>\<^verbatim>\<open>strchr\<close> returns the address of the character, 0 if there is none.\<close>

partial_function (option) strchr :: "bytes \<Rightarrow> nat \<Rightarrow> byte \<Rightarrow> nat option" where
  "strchr m s c = (if m s = 0 then Some 0 else if m s = c then Some s else strchr m (s + 1) c)"

text \<open>
  \<^verbatim>\<open>gets\<close> with \<open>k\<close> more characters of room; \<open>inp\<close> is what \<^verbatim>\<open>read(0, &c, 1)\<close> returns
  one after the other until it fails or meets the end of the input.
\<close>

primrec gets_loop :: "nat \<Rightarrow> nat \<Rightarrow> nat \<Rightarrow> bytes \<Rightarrow> byte list \<Rightarrow> bytes \<times> byte list" where
  "gets_loop 0 buf i m inp = (m(buf + i := 0), inp)"
| "gets_loop (Suc k) buf i m inp =
     (case inp of
        [] \<Rightarrow> (m(buf + i := 0), [])
      | c # cs \<Rightarrow> let m = m(buf + i := c) in
          if c = 10 \<or> c = 13 then (m(buf + (i + 1) := 0), cs) else gets_loop k buf (i + 1) m cs)"

definition gets :: "bytes \<Rightarrow> nat \<Rightarrow> int \<Rightarrow> byte list \<Rightarrow> bytes \<times> byte list" where
  "gets m buf mx inp = gets_loop (nat (mx - 1)) buf 0 m inp"

text \<open>\<^verbatim>\<open>atoi\<close>: the sum is a 32-bit integer and wraps around.\<close>

partial_function (option) atoi_loop :: "bytes \<Rightarrow> nat \<Rightarrow> 32 word \<Rightarrow> 32 word option" where
  "atoi_loop m s n =
     (if 48 \<le> m s \<and> m s \<le> 57 then atoi_loop m (s + 1) (n * 10 + ucast (m s) - 48) else Some n)"

definition atoi :: "bytes \<Rightarrow> nat \<Rightarrow> int option" where
  "atoi m s = map_option sint (atoi_loop m s 0)"

primrec ulib_memcmp_loop :: "nat \<Rightarrow> bytes \<Rightarrow> nat \<Rightarrow> nat \<Rightarrow> int" where
  "ulib_memcmp_loop 0 m p q = 0"
| "ulib_memcmp_loop (Suc n) m p q =
     (if m p \<noteq> m q then int (unat (m p)) - int (unat (m q)) else ulib_memcmp_loop n m (p + 1) (q + 1))"

definition ulib_memcmp :: "bytes \<Rightarrow> nat \<Rightarrow> nat \<Rightarrow> nat \<Rightarrow> int" where
  "ulib_memcmp m s1 s2 n = ulib_memcmp_loop n m s1 s2"

definition ulib_memcpy :: "bytes \<Rightarrow> nat \<Rightarrow> nat \<Rightarrow> nat \<Rightarrow> bytes" where
  "ulib_memcpy m dst src n = ulib_memmove m dst src n"

section \<open>Lemmas\<close>

text \<open>The string at an address.\<close>

primrec cstr_at :: "bytes \<Rightarrow> nat \<Rightarrow> byte list \<Rightarrow> bool" where
  "cstr_at m a [] \<longleftrightarrow> m a = 0"
| "cstr_at m a (x # xs) \<longleftrightarrow> m a = x \<and> x \<noteq> 0 \<and> cstr_at m (a + 1) xs"

lemma cstr_at_nth:
  "cstr_at m a xs \<longleftrightarrow> 0 \<notin> set xs \<and> m (a + length xs) = 0 \<and> (\<forall>i<length xs. m (a + i) = xs ! i)"
  by (induction xs arbitrary: a) (auto simp: nth_Cons' less_Suc_eq_0_disj)

lemma cstr_at_unique: "cstr_at m a xs \<Longrightarrow> cstr_at m a ys \<Longrightarrow> xs = ys"
proof (induction xs arbitrary: a ys)
  case Nil
  then show ?case by (cases ys) auto
next
  case (Cons x xs)
  then show ?case by (cases ys) auto
qed

lemma cstr_at_cong: "(\<And>i. i \<le> length xs \<Longrightarrow> m' (a + i) = m (a + i)) \<Longrightarrow> cstr_at m a xs \<Longrightarrow> cstr_at m' a xs"
  unfolding cstr_at_nth by auto

lemma strlen_cstr: "cstr_at m (s + n) xs \<Longrightarrow> ulib_strlen_loop m s n = Some (n + length xs)"
proof (induction xs arbitrary: n)
  case Nil
  then show ?case by (simp add: ulib_strlen_loop.simps)
next
  case (Cons x xs)
  then show ?case by (subst ulib_strlen_loop.simps) simp
qed

lemma ulib_strlen_cstr: "cstr_at m s xs \<Longrightarrow> ulib_strlen m s = Some (length xs)"
  using strlen_cstr[of m s 0 xs] by (simp add: ulib_strlen_def)

lemma strchr_cstr:
  "cstr_at m s xs \<Longrightarrow> strchr m s c = Some (if c \<in> set xs then s + length (takeWhile (\<lambda>x. x \<noteq> c) xs) else 0)"
proof (induction xs arbitrary: s)
  case Nil
  then show ?case by (simp add: strchr.simps)
next
  case (Cons x xs)
  then show ?case by (subst strchr.simps) auto
qed

lemma strcmp_cstr:
  "cstr_at m p xs \<Longrightarrow> cstr_at m q ys \<Longrightarrow> \<exists>r. strcmp m p q = Some r \<and> (r = 0 \<longleftrightarrow> xs = ys)"
proof (induction xs arbitrary: p q ys)
  case Nil
  then show ?case by (cases ys) (auto simp: strcmp.simps)
next
  case (Cons x xs)
  show ?case
  proof (cases "ys \<noteq> [] \<and> hd ys = x")
    case True
    then obtain zs where "ys = x # zs" by (cases ys) auto
    then show ?thesis using Cons by (subst strcmp.simps) auto
  next
    case False
    then show ?thesis using Cons.prems by (subst strcmp.simps) (cases ys; auto)
  qed
qed

section \<open>Printing and reading a number\<close>

text \<open>The bytes \<open>xs\<close> at an address, and the value of decimal digits.\<close>

definition bytes_at :: "bytes \<Rightarrow> nat \<Rightarrow> byte list \<Rightarrow> bool" where
  "bytes_at m a xs \<longleftrightarrow> (\<forall>i<length xs. m (a + i) = xs ! i)"

lemma bytes_at_Cons: "bytes_at m a (x # xs) \<longleftrightarrow> m a = x \<and> bytes_at m (a + 1) xs"
  by (auto simp: bytes_at_def nth_Cons' less_Suc_eq_0_disj)

definition digit :: "byte \<Rightarrow> bool" where
  "digit c \<longleftrightarrow> 48 \<le> c \<and> c \<le> 57"

definition dec_val :: "nat \<Rightarrow> byte list \<Rightarrow> nat" where
  "dec_val = foldl (\<lambda>a c. a * 10 + (unat c - 48))"

lemma dec_val_Cons [simp]: "dec_val a (c # cs) = dec_val (a * 10 + (unat c - 48)) cs" "dec_val a [] = a"
  by (simp_all add: dec_val_def)

lemma atoi_loop_digits:
  "bytes_at m s cs \<Longrightarrow> \<forall>c\<in>set cs. digit c \<Longrightarrow> \<not> digit (m (s + length cs)) \<Longrightarrow>
   atoi_loop m s (of_nat n) = Some (of_nat (dec_val n cs))"
proof (induction cs arbitrary: s n)
  case Nil
  then show ?case by (subst atoi_loop.simps) (auto simp: digit_def)
next
  case (Cons c cs)
  have d: "48 \<le> c" "c \<le> 57" using Cons.prems(2) by (simp_all add: digit_def)
  have "48 \<le> unat c" using d(1) by (simp add: word_le_nat_alt)
  then have "(of_nat n * 10 + ucast c - 48 :: 32 word) = of_nat (n * 10 + (unat c - 48))"
    by (simp only: of_nat_add of_nat_mult of_nat_diff of_nat_unat of_nat_numeral add_diff_eq)
  then have "atoi_loop m s (of_nat n) = atoi_loop m (s + 1) (of_nat (n * 10 + (unat c - 48)))"
    using d Cons.prems(1) unfolding bytes_at_Cons by (subst atoi_loop.simps) (simp only: if_True simp_thms)
  also have "\<dots> = Some (of_nat (dec_val (n * 10 + (unat c - 48)) cs))"
    by (rule Cons.IH) (use Cons.prems in \<open>simp_all add: bytes_at_Cons\<close>)
  finally show ?case by simp
qed

lemma decimal_digit:
  assumes "dg = kdigits \<or> dg = udigits" "i < 10"
  shows "dg ! i = 48 + of_nat i"
proof -
  have "i \<in> {0, 1, 2, 3, 4, 5, 6, 7, 8, 9}" using assms(2) by auto
  then show ?thesis using assms(1) by (auto simp: kdigits_def udigits_def str_def ch_def)
qed

lemma int_digits_dec:
  assumes "dg = kdigits \<or> dg = udigits"
  shows "(\<forall>c\<in>set (int_digits dg 10 x). digit c) \<and> dec_val 0 (rev (int_digits dg 10 x)) = x"
proof (induction x rule: less_induct)
  case (less x)
  let ?c = "dg ! (x mod 10)"
  have "unat (48 + of_nat (x mod 10) :: byte) = 48 + x mod 10" by (simp add: unat_word_ariths unat_of_nat)
  then have c: "digit ?c" "unat ?c = 48 + x mod 10"
    using decimal_digit[OF assms, of "x mod 10"] by (simp_all add: digit_def word_le_nat_alt)
  show ?case
  proof (cases "x div 10 = 0")
    case True
    then show ?thesis using c by (subst (1 2) int_digits.simps) simp
  next
    case False
    then have "x div 10 < x" by (intro div_less_dividend) (auto intro!: gr0I)
    note ih = less.IH[OF this]
    have "int_digits dg 10 x = ?c # int_digits dg 10 (x div 10)" using False by (subst int_digits.simps) simp
    then show ?thesis using ih c by (simp add: dec_val_def)
  qed
qed

text \<open>
  C37. \<^verbatim>\<open>atoi\<close> reads what \<^verbatim>\<open>printf\<close> prints: for every non-negative 32-bit number, its decimal
  digits followed by anything that is no digit are read back as the number, whatever follows them.
\<close>

theorem atoi_printint:
  assumes "0 \<le> sint v" "sint v < 2 ^ 31" "dg = kdigits \<or> dg = udigits"
    "bytes_at m s (printint dg v 10 True)" "\<not> digit (m (s + length (printint dg v 10 True)))"
  shows "atoi m s = Some (sint v)"
proof -
  have p: "printint dg v 10 True = rev (int_digits dg 10 (unat v))" using assms(1) by (simp add: printint_def)
  have "atoi_loop m s (of_nat 0) = Some (of_nat (dec_val 0 (printint dg v 10 True)))"
    by (rule atoi_loop_digits) (use assms(4,5) int_digits_dec[OF assms(3), of "unat v"] in \<open>simp_all add: p\<close>)
  then have a: "atoi m s = Some (sint (of_nat (unat v) :: 32 word))"
    using int_digits_dec[OF assms(3), of "unat v"] by (simp add: atoi_def p)
  have "int (unat v) = sint v" by (rule unat_nonneg[OF assms(1)])
  then have "(of_nat (unat v) :: 32 word) = of_int (sint v)" by (metis of_int_of_nat_eq)
  then have "sint (of_nat (unat v) :: 32 word) = signed_take_bit 31 (sint v)" by (simp only: signed_of_int) simp
  then show ?thesis using a assms(1,2) by (simp add: signed_take_bit_int_eq_self)
qed

theorem atoi_printint_witness:
  "atoi (arr (printint udigits 407 10 True)) 0 = Some 407"
proof -
  have p: "printint udigits 407 10 True = [52, 48, 55]"
    by (simp add: printint_def int_digits.simps udigits_def str_def ch_def)
  have "bytes_at (arr [52, 48, 55]) 0 (printint udigits 407 10 True)"
    "\<not> digit (arr [52, 48, 55] (0 + length (printint udigits 407 10 True)))"
    unfolding p by (auto simp: bytes_at_def arr_def digit_def)
  from atoi_printint[OF _ _ _ this] show ?thesis by (simp add: p)
qed

end
