(* ===== verification/Grep.thy ===== *)
theory Grep
  imports Ulib
begin

text \<open>
  \<^verbatim>\<open>user/grep.c\<close>: the matcher for patterns with \<open>^ . * $\<close> and the loop that cuts the input
  into lines. A string that is only read is the list of its bytes before the null byte, so the
  empty list is a pointer to the null byte.
\<close>

section \<open>The matcher\<close>

definition STAR :: byte where "STAR = ch CHR ''*''"
definition DOT :: byte where "DOT = ch CHR ''.''"
definition DOLLAR :: byte where "DOLLAR = ch CHR ''$''"
definition CARET :: byte where "CARET = ch CHR ''^''"

function matchhere :: "byte list \<Rightarrow> byte list \<Rightarrow> bool" and matchstar :: "byte \<Rightarrow> byte list \<Rightarrow> byte list \<Rightarrow> bool" where
  "matchhere re text =
     (case re of
        [] \<Rightarrow> True
      | c # re1 \<Rightarrow>
          if re1 \<noteq> [] \<and> hd re1 = STAR then matchstar c (tl re1) text
          else if c = DOLLAR \<and> re1 = [] then text = []
          else if text \<noteq> [] \<and> (c = DOT \<or> c = hd text) then matchhere re1 (tl text)
          else False)"
| "matchstar c re text =
     (if matchhere re text then True
      else if text \<noteq> [] \<and> (hd text = c \<or> c = DOT) then matchstar c re (tl text) else False)"
  by pat_completeness auto
termination
proof (relation "measure (\<lambda>x. case x of Inl (re, text) \<Rightarrow> 2 * length re + length text | Inr (c, re, text) \<Rightarrow> Suc (2 * length re + length text))")
qed (auto simp: neq_Nil_conv)

declare matchhere.simps [simp del] matchstar.simps [simp del]

text \<open>The loop of \<^verbatim>\<open>match\<close> over the suffixes of the text, the empty one included.\<close>

fun match_loop :: "byte list \<Rightarrow> byte list \<Rightarrow> bool" where
  "match_loop re text = (if matchhere re text then True else case text of [] \<Rightarrow> False | _ # t \<Rightarrow> match_loop re t)"

declare match_loop.simps [simp del]

definition match :: "byte list \<Rightarrow> byte list \<Rightarrow> bool" where
  "match re text = (if re \<noteq> [] \<and> hd re = CARET then matchhere (tl re) text else match_loop re text)"

section \<open>The line loop\<close>

text \<open>
  \<^verbatim>\<open>read\<close> of up to \<open>n\<close> bytes from a file: what is left of the file, and for each call how many
  bytes it is willing to return (at least one before the end of the file).
\<close>

type_synonym infile = "nat list \<times> byte list"

definition fd_read :: "nat \<Rightarrow> infile \<Rightarrow> byte list \<times> infile" where
  "fd_read n f = (case f of (sizes, inp) \<Rightarrow>
     let k = (case sizes of [] \<Rightarrow> n | z # _ \<Rightarrow> min n (Suc z)) in (take k inp, (tl sizes, drop k inp)))"

text \<open>
  The inner loop: \<open>p\<close> is the buffer from \<^verbatim>\<open>p\<close> to its end. \<^verbatim>\<open>strchr\<close> looks for a newline before
  the first null byte. The result is what is left and what was written.
\<close>

function grep_lines :: "byte list \<Rightarrow> byte list \<Rightarrow> byte list \<Rightarrow> byte list \<times> byte list" where
  "grep_lines pat p out =
     (let l = takeWhile (\<lambda>c. c \<noteq> 10 \<and> c \<noteq> 0) p in
      if length l < length p \<and> p ! length l = 10
      then grep_lines pat (drop (length l + 1) p) (if match pat l then out @ l @ [10] else out)
      else (p, out))"
  by pat_completeness auto
termination by (relation "measure (\<lambda>(pat, p, out). length p)") auto

declare grep_lines.simps [simp del]

definition GREPBUF :: nat where "GREPBUF = 1024"

text \<open>\<^verbatim>\<open>grep\<close> with the first \<open>m\<close> bytes of its buffer filled with \<open>buf\<close>.\<close>

function grep_loop :: "byte list \<Rightarrow> byte list \<Rightarrow> infile \<Rightarrow> byte list \<Rightarrow> byte list" where
  "grep_loop pat buf f out =
     (case fd_read (GREPBUF - length buf - 1) f of (r, f1) \<Rightarrow>
        if r = [] then out
        else case grep_lines pat (buf @ r) out of (rest, out1) \<Rightarrow> grep_loop pat rest f1 out1)"
  by pat_completeness auto
termination
  by (relation "measure (\<lambda>(pat, buf, f, out). length (snd f))")
    (auto simp: fd_read_def Let_def split: prod.splits list.splits)

declare grep_loop.simps [simp del]

definition grep :: "byte list \<Rightarrow> infile \<Rightarrow> byte list" where
  "grep pat f = grep_loop pat [] f []"

section \<open>Specification\<close>

text \<open>A pattern as a list of items, each a character class or its repetition, and whether it ends in \<open>$\<close>.\<close>

datatype atom = AnyChar | Lit byte
datatype item = One atom | Many atom

definition mk_atom :: "byte \<Rightarrow> atom" where
  "mk_atom c = (if c = DOT then AnyChar else Lit c)"

fun atom_ok :: "atom \<Rightarrow> byte \<Rightarrow> bool" where
  "atom_ok AnyChar x = True"
| "atom_ok (Lit c) x = (x = c)"

fun items :: "byte list \<Rightarrow> item list" where
  "items [] = []"
| "items [c] = (if c = DOLLAR then [] else [One (mk_atom c)])"
| "items (c # d # re) = (if d = STAR then Many (mk_atom c) # items re else One (mk_atom c) # items (d # re))"

fun at_end :: "byte list \<Rightarrow> bool" where
  "at_end [] = False"
| "at_end [c] = (c = DOLLAR)"
| "at_end (c # d # re) = (if d = STAR then at_end re else at_end (d # re))"

text \<open>The texts a list of items stands for.\<close>

fun lang :: "item list \<Rightarrow> byte list \<Rightarrow> bool" where
  "lang [] v = (v = [])"
| "lang (One a # is) v = (\<exists>x w. v = x # w \<and> atom_ok a x \<and> lang is w)"
| "lang (Many a # is) v = (\<exists>u w. v = u @ w \<and> (\<forall>x\<in>set u. atom_ok a x) \<and> lang is w)"

text \<open>The lines of a text that end with a newline.\<close>

function tlines :: "byte list \<Rightarrow> byte list list" where
  "tlines inp = (let l = takeWhile (\<lambda>c. c \<noteq> 10) inp in
     if length l < length inp then l # tlines (drop (length l + 1) inp) else [])"
  by pat_completeness auto
termination by (relation "measure length") auto

declare tlines.simps [simp del]

section \<open>Correctness of the matcher\<close>

definition here_spec :: "byte list \<Rightarrow> byte list \<Rightarrow> bool" where
  "here_spec re tx \<longleftrightarrow> (\<exists>v w. tx = v @ w \<and> lang (items re) v \<and> (at_end re \<longrightarrow> w = []))"

definition star_spec :: "byte \<Rightarrow> byte list \<Rightarrow> byte list \<Rightarrow> bool" where
  "star_spec c re tx \<longleftrightarrow> (\<exists>u t. tx = u @ t \<and> (\<forall>x\<in>set u. atom_ok (mk_atom c) x) \<and> here_spec re t)"

lemma star_spec_unfold:
  "star_spec c re tx \<longleftrightarrow> here_spec re tx \<or>
     (\<exists>x t. tx = x # t \<and> atom_ok (mk_atom c) x \<and> star_spec c re t)"
proof
  assume "star_spec c re tx"
  then obtain u t where "tx = u @ t" "\<forall>x\<in>set u. atom_ok (mk_atom c) x" "here_spec re t" by (auto simp: star_spec_def)
  then show "here_spec re tx \<or> (\<exists>x t. tx = x # t \<and> atom_ok (mk_atom c) x \<and> star_spec c re t)"
    by (cases u) (auto simp: star_spec_def)
next
  assume "here_spec re tx \<or> (\<exists>x t. tx = x # t \<and> atom_ok (mk_atom c) x \<and> star_spec c re t)"
  then show "star_spec c re tx"
  proof
    assume "here_spec re tx"
    then show ?thesis unfolding star_spec_def by (intro exI[of _ "[]"] exI[of _ tx]) simp
  next
    assume "\<exists>x t. tx = x # t \<and> atom_ok (mk_atom c) x \<and> star_spec c re t"
    then obtain x u t where "tx = x # u @ t" "atom_ok (mk_atom c) x" "\<forall>y\<in>set u. atom_ok (mk_atom c) y" "here_spec re t"
      by (auto simp: star_spec_def)
    then show ?thesis unfolding star_spec_def by (intro exI[of _ "x # u"] exI[of _ t]) simp
  qed
qed

lemma split_three:
  "(\<exists>v w. x = v @ w \<and> (\<exists>u v'. v = u @ v' \<and> P u \<and> Q v') \<and> R w) \<longleftrightarrow>
   (\<exists>u t. x = u @ t \<and> P u \<and> (\<exists>v w. t = v @ w \<and> Q v \<and> R w))"
  by (metis append.assoc)

lemma split_head:
  "(\<exists>v w. x = v @ w \<and> (\<exists>y v'. v = y # v' \<and> P y \<and> Q v') \<and> R w) \<longleftrightarrow>
   (\<exists>y t. x = y # t \<and> P y \<and> (\<exists>v w. t = v @ w \<and> Q v \<and> R w))" (is "?l \<longleftrightarrow> ?r")
proof
  assume ?l
  then obtain y v w where "x = y # v @ w" "P y" "Q v" "R w" by auto
  then show ?r by blast
next
  assume ?r
  then obtain y v w where "x = (y # v) @ w" "P y" "Q v" "R w" by auto
  then show ?l by blast
qed

lemma here_spec_star: "here_spec (c # STAR # re) tx = star_spec c re tx"
  unfolding here_spec_def star_spec_def by (simp add: split_three)

lemma here_spec_one:
  assumes "re \<noteq> [] \<Longrightarrow> hd re \<noteq> STAR" "\<not> (c = DOLLAR \<and> re = [])"
  shows "here_spec (c # re) tx \<longleftrightarrow> (\<exists>x t. tx = x # t \<and> atom_ok (mk_atom c) x \<and> here_spec re t)"
proof -
  have "items (c # re) = One (mk_atom c) # items re" "at_end (c # re) = at_end re"
    using assms by (cases re; auto)+
  then show ?thesis unfolding here_spec_def by (simp add: split_head)
qed

lemma match_specs: "matchhere re tx = here_spec re tx" "matchstar c re tx = star_spec c re tx"
proof (induction re tx and c re tx rule: matchhere_matchstar.induct)
  case (1 re tx)
  show ?case
  proof (cases re)
    case Nil
    then show ?thesis by (simp add: matchhere.simps here_spec_def)
  next
    case (Cons c re1)
    consider (star) re2 where "re1 = STAR # re2" | (dollar) "c = DOLLAR" "re1 = []"
      | (one) "re1 \<noteq> [] \<Longrightarrow> hd re1 \<noteq> STAR" "\<not> (c = DOLLAR \<and> re1 = [])" by (cases re1) auto
    then show ?thesis
    proof cases
      case star
      then have "matchhere re tx = matchstar c re2 tx" by (simp add: Cons matchhere.simps)
      then show ?thesis using 1(1)[OF Cons] star by (simp add: Cons here_spec_star)
    next
      case dollar
      then show ?thesis by (auto simp: Cons matchhere.simps here_spec_def)
    next
      case one
      have "matchhere re tx \<longleftrightarrow> tx \<noteq> [] \<and> (c = DOT \<or> c = hd tx) \<and> matchhere re1 (tl tx)"
        using one by (subst matchhere.simps) (auto simp: Cons)
      also have "\<dots> \<longleftrightarrow> (\<exists>x t. tx = x # t \<and> atom_ok (mk_atom c) x \<and> here_spec re1 t)"
        using 1(2)[OF Cons] one by (cases tx) (auto simp: mk_atom_def)
      finally show ?thesis using here_spec_one[OF one] Cons by simp
    qed
  qed
next
  case (2 c re tx)
  show ?case
    using 2 by (subst matchstar.simps, subst star_spec_unfold) (cases tx; auto simp: mk_atom_def)
qed

lemma match_loop_spec: "match_loop re tx \<longleftrightarrow> (\<exists>u t. tx = u @ t \<and> here_spec re t)"
proof (induction tx)
  case Nil
  then show ?case by (simp add: match_loop.simps match_specs)
next
  case (Cons x tx)
  show ?case
    by (subst match_loop.simps) (auto simp: match_specs Cons Cons_eq_append_conv)
qed

text \<open>
  C30. \<^verbatim>\<open>match\<close> decides the patterns it documents: it accepts a text exactly if the text contains a
  part that the items of the pattern stand for, at the start if the pattern begins with \<open>^\<close>, up to the end if it
  ends with \<open>$\<close>. A star applies to the character before it; at the beginning of a pattern it stands for itself.
\<close>

theorem match_correct:
  "match re tx \<longleftrightarrow>
     (let anchored = re \<noteq> [] \<and> hd re = CARET; body = (if anchored then tl re else re) in
      \<exists>u v w. tx = u @ v @ w \<and> lang (items body) v \<and> (anchored \<longrightarrow> u = []) \<and> (at_end body \<longrightarrow> w = []))"
  by (auto simp: match_def match_loop_spec match_specs here_spec_def Let_def)

theorem match_correct_witness:
  "match (str ''^ab*$'') (str ''abb'') \<and> items (str ''ab*$'') = [One (Lit 97), Many (Lit 98)]"
proof -
  have i: "items (str ''ab*$'') = [One (Lit 97), Many (Lit 98)]"
    by (simp add: str_def ch_def STAR_def DOLLAR_def mk_atom_def DOT_def)
  have c: "str ''^ab*$'' \<noteq> []" "hd (str ''^ab*$'') = CARET" "tl (str ''^ab*$'') = str ''ab*$''" by (simp_all add: str_def CARET_def)
  have "lang (items (str ''ab*$'')) (str ''abb'')"
    unfolding i by (simp add: str_def ch_def)
  then have "match (str ''^ab*$'') (str ''abb'')"
    unfolding match_correct Let_def using c by (intro exI[of _ "[]"] exI[of _ "str ''abb''"]) simp
  with i show ?thesis by blast
qed

section \<open>Correctness of the line loop\<close>

definition selected :: "byte list \<Rightarrow> byte list list \<Rightarrow> byte list" where
  "selected pat ls = concat (map (\<lambda>l. l @ [10]) (filter (match pat) ls))"

lemma takeWhile_nl: "0 \<notin> set p \<Longrightarrow> takeWhile (\<lambda>c. c \<noteq> 10 \<and> c \<noteq> 0) p = takeWhile (\<lambda>c. c \<noteq> 10) (p :: byte list)"
  by (rule takeWhile_cong) auto

lemma takeWhile_stop: "length (takeWhile P p) < length p \<Longrightarrow> \<not> P (p ! length (takeWhile P p))"
  using nth_length_takeWhile by blast

lemma no_newline: "\<not> length (takeWhile (\<lambda>c. c \<noteq> 10) p) < length p \<longleftrightarrow> (10 :: byte) \<notin> set p"
  by (metis (mono_tags, lifting) length_takeWhile_le linorder_neqE_nat not_less takeWhile_eq_all_conv takeWhile_eq_take take_all_iff)

lemma tlines_none: "(10 :: byte) \<notin> set p \<Longrightarrow> tlines p = []"
  using no_newline[of p] by (subst tlines.simps) (simp add: Let_def)

lemma grep_lines_spec:
  "0 \<notin> set p \<Longrightarrow> \<exists>rest. grep_lines pat p out = (rest, out @ selected pat (tlines p)) \<and> 10 \<notin> set rest \<and>
     set rest \<subseteq> set p \<and> (\<forall>q. tlines (p @ q) = tlines p @ tlines (rest @ q))"
proof (induction pat p out rule: grep_lines.induct)
  case (1 pat p out)
  let ?l = "takeWhile (\<lambda>c. c \<noteq> 10) p"
  have l: "takeWhile (\<lambda>c. c \<noteq> 10 \<and> c \<noteq> 0) p = ?l" using "1.prems" by (rule takeWhile_nl)
  show ?case
  proof (cases "length ?l < length p")
    case False
    then have n: "10 \<notin> set p" by (simp add: no_newline)
    then have "grep_lines pat p out = (p, out)" using False l by (subst grep_lines.simps) (simp add: Let_def)
    moreover have "selected pat (tlines p) = []" using n by (simp add: tlines_none selected_def)
    ultimately show ?thesis using n by (intro exI[of _ p]) (simp add: tlines_none)
  next
    case True
    let ?p = "drop (length ?l + 1) p" let ?out = "if match pat ?l then out @ ?l @ [10] else out"
    have nl: "p ! length ?l = 10" using takeWhile_stop[OF True] by simp
    have "0 \<notin> set ?p" using "1.prems" by (meson in_set_dropD)
    then obtain rest where rest: "grep_lines pat ?p ?out = (rest, ?out @ selected pat (tlines ?p))" "10 \<notin> set rest"
      "set rest \<subseteq> set ?p" "\<forall>q. tlines (?p @ q) = tlines ?p @ tlines (rest @ q)"
      using "1.IH"[OF refl, unfolded l] True nl by blast
    have t: "tlines (p @ q) = ?l # tlines (?p @ q)" for q
    proof -
      have "takeWhile (\<lambda>c. c \<noteq> 10) (p @ q) = ?l"
        by (rule takeWhile_append1[OF nth_mem[OF True]]) (simp add: nl)
      then show ?thesis using True by (subst tlines.simps) (simp add: Let_def)
    qed
    have "grep_lines pat p out = grep_lines pat ?p ?out" using True nl l by (subst grep_lines.simps) (simp add: Let_def)
    moreover have "out @ selected pat (tlines p) = ?out @ selected pat (tlines ?p)"
      using t[of "[]"] by (simp add: selected_def)
    ultimately have "grep_lines pat p out = (rest, out @ selected pat (tlines p))" using rest(1) by simp
    moreover have "\<forall>q. tlines (p @ q) = tlines p @ tlines (rest @ q)" using rest(4) t t[of "[]"] by simp
    moreover have "set rest \<subseteq> set p" using rest(3) set_drop_subset[of "length ?l + 1" p] by blast
    ultimately show ?thesis using rest(2) by blast
  qed
qed

lemma grep_loop_spec:
  "0 \<notin> set (buf @ snd f) \<Longrightarrow> 10 \<notin> set buf \<Longrightarrow> \<forall>l\<in>set (tlines (buf @ snd f)). length l < GREPBUF - 1 \<Longrightarrow>
   grep_loop pat buf f out = out @ selected pat (tlines (buf @ snd f))"
proof (induction pat buf f out rule: grep_loop.induct)
  case (1 pat buf f out)
  obtain sizes inp where f: "f = (sizes, inp)" by (cases f)
  obtain r f1 where r: "fd_read (GREPBUF - length buf - 1) f = (r, f1)" by (cases "fd_read (GREPBUF - length buf - 1) f")
  have inp: "inp = r @ snd f1" using r by (auto simp: fd_read_def f Let_def split: list.splits)
  show ?case
  proof (cases "r = []")
    case True
    have "tlines (buf @ inp) = []"
    proof (cases "inp = []")
      case True
      then show ?thesis using "1.prems"(2) tlines_none by simp
    next
      case False
      then have "GREPBUF - length buf - 1 = 0" using r True by (auto simp: fd_read_def f Let_def split: list.splits)
      moreover have "takeWhile (\<lambda>c. c \<noteq> 10) (buf @ inp) = buf @ takeWhile (\<lambda>c. c \<noteq> 10) inp"
        using "1.prems"(2) by (intro takeWhile_append2) auto
      then have "length buf \<le> length (takeWhile (\<lambda>c. c \<noteq> 10) (buf @ inp))" by simp
      ultimately have "\<not> length (takeWhile (\<lambda>c. c \<noteq> 10) (buf @ inp)) < GREPBUF - 1" by linarith
      then show ?thesis using "1.prems"(3) by (subst tlines.simps) (auto simp: f tlines.simps[of "buf @ inp"] Let_def)
    qed
    then show ?thesis using True r f by (subst grep_loop.simps) (simp add: selected_def)
  next
    case False
    have "0 \<notin> set (buf @ r)" using "1.prems"(1) by (simp add: f inp)
    from grep_lines_spec[OF this, of pat out] obtain rest where rest:
      "grep_lines pat (buf @ r) out = (rest, out @ selected pat (tlines (buf @ r)))" "10 \<notin> set rest"
      "set rest \<subseteq> set (buf @ r)" "\<And>q. tlines ((buf @ r) @ q) = tlines (buf @ r) @ tlines (rest @ q)" by blast
    have t: "tlines (buf @ inp) = tlines (buf @ r) @ tlines (rest @ snd f1)" using rest(4)[of "snd f1"] by (simp add: inp)
    have "grep_loop pat buf f out = grep_loop pat rest f1 (out @ selected pat (tlines (buf @ r)))"
      using False r rest(1) by (subst grep_loop.simps) simp
    also have "\<dots> = (out @ selected pat (tlines (buf @ r))) @ selected pat (tlines (rest @ snd f1))"
      by (rule "1.IH"[OF r[symmetric] False rest(1)[symmetric]])
        (use "1.prems" rest(2,3) t in \<open>auto simp: f inp\<close>)
    finally show ?thesis by (simp add: f t selected_def)
  qed
qed

text \<open>
  C31. \<^verbatim>\<open>grep\<close> prints exactly the lines that match, in order, however the reads cut the input: for input
  without null bytes whose lines fit in its buffer. A last line without a newline is not looked at.
\<close>

theorem grep_correct:
  assumes "0 \<notin> set inp" "\<forall>l\<in>set (tlines inp). length l < GREPBUF - 1"
  shows "grep pat (sizes, inp) = concat (map (\<lambda>l. l @ [10]) (filter (match pat) (tlines inp)))"
  using grep_loop_spec[of "[]" "(sizes, inp)" pat "[]"] assms by (simp add: grep_def selected_def)

theorem grep_correct_witness:
  "grep (str ''b'') ([0, 3], str ''ab'' @ [10] @ str ''cd'' @ [10]) = str ''ab'' @ [10]"
proof -
  have t: "tlines [97, 98, 10, 99, 100, 10] = [[97, 98], [99, 100]]" by (simp add: tlines.simps)
  have m: "match [98] [97, 98]" "\<not> match [98] [99, 100]"
    by (simp_all add: match_def CARET_def ch_def match_loop.simps matchhere.simps DOT_def DOLLAR_def)
  show ?thesis
    using grep_correct[of "[97, 98, 10, 99, 100, 10]" "[98]" "[0, 3]"] by (simp add: t m str_def ch_def GREPBUF_def)
qed

text \<open>A line that does not fit ends the search: neither it nor any line after it is printed.\<close>

lemma grep_loop_long:
  "0 \<notin> set (buf @ snd f) \<Longrightarrow> length buf \<le> GREPBUF - 1 \<Longrightarrow>
   GREPBUF - 1 \<le> length (takeWhile (\<lambda>c. c \<noteq> 10) (buf @ snd f)) \<Longrightarrow> grep_loop pat buf f out = out"
proof (induction pat buf f out rule: grep_loop.induct)
  case (1 pat buf f out)
  obtain r f1 where r: "fd_read (GREPBUF - length buf - 1) f = (r, f1)" by (cases "fd_read (GREPBUF - length buf - 1) f")
  have inp: "snd f = r @ snd f1" "length r \<le> GREPBUF - length buf - 1"
    using r by (auto simp: fd_read_def Let_def split: list.splits prod.splits)
  show ?case
  proof (cases "r = []")
    case True
    then show ?thesis using r by (subst grep_loop.simps) simp
  next
    case False
    have len: "length (buf @ r) \<le> GREPBUF - 1" using inp(2) "1.prems"(2) by simp
    have "\<not> (10 \<in> set (buf @ r))"
    proof
      assume "10 \<in> set (buf @ r)"
      then have "takeWhile (\<lambda>c. c \<noteq> 10) (buf @ snd f) = takeWhile (\<lambda>c. c \<noteq> 10) (buf @ r)"
        unfolding inp(1) append_assoc[symmetric] by (rule takeWhile_append1) simp
      moreover have "length (takeWhile (\<lambda>c. c \<noteq> 10) (buf @ r)) < length (buf @ r)"
        using no_newline[of "buf @ r"] \<open>10 \<in> set (buf @ r)\<close> by blast
      ultimately show False using "1.prems"(3) len by simp
    qed
    moreover have z: "0 \<notin> set (buf @ r)" using "1.prems"(1) by (simp add: inp(1))
    ultimately have g: "grep_lines pat (buf @ r) out = (buf @ r, out)"
      using no_newline[of "buf @ r"] takeWhile_nl[OF z] by (subst grep_lines.simps) (simp add: Let_def)
    have "grep_loop pat buf f out = grep_loop pat (buf @ r) f1 out" using False r g by (subst grep_loop.simps) simp
    also have "\<dots> = out"
      by (rule "1.IH"[OF r[symmetric] False g[symmetric]]) (use "1.prems" len inp(1) in simp_all)
    finally show ?thesis .
  qed
qed

theorem grep_long_line:
  assumes "0 \<notin> set inp" "GREPBUF - 1 \<le> length (takeWhile (\<lambda>c. c \<noteq> 10) inp)"
  shows "grep pat (sizes, inp) = []"
  using grep_loop_long[of "[]" "(sizes, inp)" pat "[]"] assms by (simp add: grep_def)

end
