(* ===== verification/Sh_Parse.thy ===== *)
theory Sh_Parse
  imports Ulib
begin

text \<open>
  The parser of the shell, \<^verbatim>\<open>user/sh.c\<close>. It works on a command line in memory and returns
  commands that point into it; the structures it allocates are the constructors of \<open>cmd\<close>. A call
  of \<^verbatim>\<open>panic\<close> is the outcome \<open>Fail\<close>. The recursive routines take fuel, and \<open>Stuck\<close> is a run
  that needs more of it; \<^verbatim>\<open>parsecmd\<close> gives them four times the length of the line and four.
\<close>

section \<open>Characters and commands\<close>

definition whitespace :: "byte list" where
  "whitespace = map ch [CHR '' '', CHR 0x09, CHR 0x0D, CHR 0x0A, CHR 0x0B]"
definition symbols :: "byte list" where "symbols = str ''<|>&;()''"

abbreviation "cLT \<equiv> ch CHR ''<''"
abbreviation "cGT \<equiv> ch CHR ''>''"
abbreviation "cBAR \<equiv> ch CHR ''|''"
abbreviation "cAMP \<equiv> ch CHR ''&''"
abbreviation "cSEMI \<equiv> ch CHR '';''"
abbreviation "cLP \<equiv> ch CHR ''(''"
abbreviation "cRP \<equiv> ch CHR '')''"
abbreviation "cWORD \<equiv> ch CHR ''a''"
abbreviation "cAPP \<equiv> ch CHR ''+''"

definition O_RDONLY :: nat where "O_RDONLY = 0x000"
definition O_WRONLY :: nat where "O_WRONLY = 0x001"
definition O_CREATE :: nat where "O_CREATE = 0x200"
definition O_TRUNC :: nat where "O_TRUNC = 0x400"
definition MAXARGS :: nat where "MAXARGS = 10"

text \<open>The pairs of \<open>EXEC\<close> are \<^verbatim>\<open>argv[i]\<close> and \<^verbatim>\<open>eargv[i]\<close>.\<close>

datatype cmd =
    EXEC "(nat \<times> nat) list"
  | REDIR cmd nat nat nat nat
  | PIPE cmd cmd
  | LIST cmd cmd
  | BACK cmd

datatype 'a parse = Stuck | Fail string | Got 'a nat

fun pbind :: "'a parse \<Rightarrow> ('a \<Rightarrow> nat \<Rightarrow> 'b parse) \<Rightarrow> 'b parse" where
  "pbind Stuck f = Stuck"
| "pbind (Fail e) f = Fail e"
| "pbind (Got x s) f = f x s"

section \<open>Tokens\<close>

text \<open>Two loops over the line: past characters that satisfy \<open>P\<close>, up to its end \<open>es\<close>.\<close>

function skip_while :: "(byte \<Rightarrow> bool) \<Rightarrow> bytes \<Rightarrow> nat \<Rightarrow> nat \<Rightarrow> nat" where
  "skip_while P m s es = (if s < es \<and> P (m s) then skip_while P m (s + 1) es else s)"
  by pat_completeness auto
termination by (relation "measure (\<lambda>(P, m, s, es). es - s)") auto

declare skip_while.simps [simp del]

abbreviation "is_ws c \<equiv> c \<in> set whitespace"
abbreviation "is_sym c \<equiv> c \<in> set symbols"

text \<open>\<^verbatim>\<open>gettoken\<close>: the token code, the ends of the token, and the new position.\<close>

definition gettoken :: "bytes \<Rightarrow> nat \<Rightarrow> nat \<Rightarrow> byte \<times> nat \<times> nat \<times> nat" where
  "gettoken m s0 es =
     (let q = skip_while is_ws m s0 es;
          c = m q;
          (ret, eq) =
            (if c = 0 then (0, q)
             else if c \<in> {cBAR, cLP, cRP, cSEMI, cAMP, cLT} then (c, q + 1)
             else if c = cGT then (if m (q + 1) = cGT then (cAPP, q + 2) else (c, q + 1))
             else (cWORD, skip_while (\<lambda>c. \<not> is_ws c \<and> \<not> is_sym c) m q es))
      in (ret, q, eq, skip_while is_ws m eq es))"

definition peek :: "bytes \<Rightarrow> nat \<Rightarrow> nat \<Rightarrow> string \<Rightarrow> bool \<times> nat" where
  "peek m s0 es toks =
     (let s = skip_while is_ws m s0 es in (m s \<noteq> 0 \<and> m s \<in> set (str toks), s))"

section \<open>Parsing\<close>

text \<open>\<^verbatim>\<open>parseredirs\<close>.\<close>

primrec parseredirs :: "nat \<Rightarrow> bytes \<Rightarrow> cmd \<Rightarrow> nat \<Rightarrow> nat \<Rightarrow> cmd parse" where
  "parseredirs 0 m c s es = Stuck"
| "parseredirs (Suc n) m c s es =
     (let (b, s) = peek m s es ''<>'' in
      if \<not> b then Got c s
      else let (tok, _, _, s) = gettoken m s es; (t, q, eq, s) = gettoken m s es in
        if t \<noteq> cWORD then Fail ''missing file for redirection''
        else parseredirs n m
          (if tok = cLT then REDIR c q eq O_RDONLY 0
           else if tok = cGT then REDIR c q eq (O_WRONLY + O_CREATE + O_TRUNC) 1
           else if tok = cAPP then REDIR c q eq (O_WRONLY + O_CREATE) 1
           else c) s es)"

text \<open>
  \<^verbatim>\<open>parseexec\<close> holds a second pointer to the \<open>EXEC\<close> under the redirections it has put around it,
  and stores the arguments through it.
\<close>

fun add_arg :: "nat \<Rightarrow> nat \<Rightarrow> cmd \<Rightarrow> cmd" where
  "add_arg q eq (EXEC as) = EXEC (as @ [(q, eq)])"
| "add_arg q eq (REDIR c f e md fd) = REDIR (add_arg q eq c) f e md fd"
| "add_arg q eq c = c"

primrec parseargs :: "nat \<Rightarrow> bytes \<Rightarrow> cmd \<Rightarrow> nat \<Rightarrow> nat \<Rightarrow> nat \<Rightarrow> cmd parse" where
  "parseargs 0 m ret argc s es = Stuck"
| "parseargs (Suc n) m ret argc s es =
     (let (b, s) = peek m s es ''|)&;'' in
      if b then Got ret s
      else let (tok, q, eq, s) = gettoken m s es in
        if tok = 0 then Got ret s
        else if tok \<noteq> cWORD then Fail ''syntax''
        else if argc + 1 \<ge> MAXARGS then Fail ''too many args''
        else pbind (parseredirs n m (add_arg q eq ret) s es) (\<lambda>ret s. parseargs n m ret (argc + 1) s es))"

primrec parseback :: "nat \<Rightarrow> bytes \<Rightarrow> cmd \<Rightarrow> nat \<Rightarrow> nat \<Rightarrow> cmd parse" where
  "parseback 0 m c s es = Stuck"
| "parseback (Suc n) m c s es =
     (let (b, s) = peek m s es ''&'' in
      if b then let (_, _, _, s) = gettoken m s es in parseback n m (BACK c) s es else Got c s)"

fun parseline :: "nat \<Rightarrow> bytes \<Rightarrow> nat \<Rightarrow> nat \<Rightarrow> cmd parse"
  and parsepipe :: "nat \<Rightarrow> bytes \<Rightarrow> nat \<Rightarrow> nat \<Rightarrow> cmd parse"
  and parseexec :: "nat \<Rightarrow> bytes \<Rightarrow> nat \<Rightarrow> nat \<Rightarrow> cmd parse"
  and parseblock :: "nat \<Rightarrow> bytes \<Rightarrow> nat \<Rightarrow> nat \<Rightarrow> cmd parse" where
  "parseline 0 m s es = Stuck"
| "parseline (Suc n) m s es =
     pbind (parsepipe n m s es) (\<lambda>c s.
     pbind (parseback n m c s es) (\<lambda>c s.
     let (b, s) = peek m s es '';'' in
     if b then let (_, _, _, s) = gettoken m s es in
       pbind (parseline n m s es) (\<lambda>r s. Got (LIST c r) s)
     else Got c s))"
| "parsepipe 0 m s es = Stuck"
| "parsepipe (Suc n) m s es =
     pbind (parseexec n m s es) (\<lambda>c s.
     let (b, s) = peek m s es ''|'' in
     if b then let (_, _, _, s) = gettoken m s es in
       pbind (parsepipe n m s es) (\<lambda>r s. Got (PIPE c r) s)
     else Got c s)"
| "parseexec 0 m s es = Stuck"
| "parseexec (Suc n) m s es =
     (let (b, s) = peek m s es ''('' in
      if b then parseblock n m s es
      else pbind (parseredirs n m (EXEC []) s es) (\<lambda>ret s. parseargs n m ret 0 s es))"
| "parseblock 0 m s es = Stuck"
| "parseblock (Suc n) m s es =
     (let (b, s) = peek m s es ''('' in
      if \<not> b then Fail ''parseblock''
      else let (_, _, _, s) = gettoken m s es in
        pbind (parseline n m s es) (\<lambda>c s.
        let (b, s) = peek m s es '')'' in
        if \<not> b then Fail ''syntax - missing )''
        else let (_, _, _, s) = gettoken m s es in parseredirs n m c s es))"

declare parseline.simps [simp del] parsepipe.simps [simp del] parseexec.simps [simp del] parseblock.simps [simp del]

primrec nulterminate :: "cmd \<Rightarrow> bytes \<Rightarrow> bytes" where
  "nulterminate (EXEC as) m = fold (\<lambda>(q, eq) m. m(eq := 0)) as m"
| "nulterminate (REDIR c f e md fd) m = (nulterminate c m)(e := 0)"
| "nulterminate (PIPE l r) m = nulterminate r (nulterminate l m)"
| "nulterminate (LIST l r) m = nulterminate r (nulterminate l m)"
| "nulterminate (BACK c) m = nulterminate c m"

text \<open>\<^verbatim>\<open>parsecmd\<close> returns the command and the line cut into strings.\<close>

definition parsecmd :: "bytes \<Rightarrow> nat \<Rightarrow> (cmd \<times> bytes) parse option" where
  "parsecmd m s =
     (case ulib_strlen m s of
        None \<Rightarrow> None
      | Some n \<Rightarrow> let es = s + n in
          Some (pbind (parseline (4 * n + 4) m s es) (\<lambda>c s.
            let (_, s) = peek m s es '''' in
            if s \<noteq> es then Fail ''syntax'' else Got (c, nulterminate c m) s)))"

section \<open>Characters as bytes\<close>

lemma ch_nat: "unat (ch c) = (of_char c :: nat)"
  by (cases c) (simp add: ch_def unat_of_nat of_char_def)

lemma ch_inj [simp]: "ch a = ch b \<longleftrightarrow> a = b"
  by (metis ch_nat of_char_eq_iff)

lemma ch_zero [simp]: "ch a = 0 \<longleftrightarrow> a = CHR 0x00"
proof -
  have "ch CHR 0x00 = 0" by (simp add: ch_def)
  then show ?thesis by (metis ch_inj)
qed

end
