(* ===== verification/Sh_Tokens.thy ===== *)
theory Sh_Tokens
  imports Sh_Parse
begin

text \<open>
  What \<^verbatim>\<open>gettoken\<close> and \<^verbatim>\<open>peek\<close> of \<^verbatim>\<open>user/sh.c\<close> do to a command line seen as a list of
  tokens, and that the parser always comes back.
\<close>

section \<open>Lines and tokens\<close>

definition seg :: "bytes \<Rightarrow> nat \<Rightarrow> nat \<Rightarrow> byte list" where
  "seg m s e = map m [s..<e]"

lemma seg_simps [simp]: "seg m s s = []" "length (seg m s e) = e - s"
  by (simp_all add: seg_def)

lemma seg_Cons: "s < e \<Longrightarrow> seg m s e = m s # seg m (s + 1) e"
  by (simp add: seg_def upt_conv_Cons)

lemma drop_seg: "drop k (seg m s e) = seg m (s + k) e"
  by (simp add: seg_def drop_map)

lemma take_seg: "s + k \<le> e \<Longrightarrow> take k (seg m s e) = seg m s (s + k)"
  by (simp add: seg_def take_map)

text \<open>The line from \<open>s\<close> to its null byte at \<open>es\<close>.\<close>

definition line_at :: "bytes \<Rightarrow> nat \<Rightarrow> nat \<Rightarrow> bool" where
  "line_at m s es \<longleftrightarrow> s \<le> es \<and> m es = 0 \<and> 0 \<notin> set (seg m s es)"

lemma line_at_mono: "line_at m s es \<Longrightarrow> s \<le> s' \<Longrightarrow> s' \<le> es \<Longrightarrow> line_at m s' es"
  using set_drop_subset[of "s' - s" "seg m s es"] by (auto simp: line_at_def drop_seg)

lemma line_at_char: "line_at m s es \<Longrightarrow> m s = 0 \<longleftrightarrow> s = es"
  by (cases "s = es") (auto simp: line_at_def seg_Cons)

datatype token = Word "byte list" | Sym byte | App

abbreviation "wordch c \<equiv> \<not> is_ws c \<and> \<not> is_sym c"

function tokens :: "byte list \<Rightarrow> token list" where
  "tokens xs =
     (case dropWhile is_ws xs of
        [] \<Rightarrow> []
      | c # cs \<Rightarrow>
          if c = cGT \<and> cs \<noteq> [] \<and> hd cs = cGT then App # tokens (tl cs)
          else if is_sym c then Sym c # tokens cs
          else Word (takeWhile wordch (c # cs)) # tokens (dropWhile wordch cs))"
  by pat_completeness auto
termination
proof (relation "measure length")
  have d: "length (dropWhile P xs) \<le> length xs" for P and xs :: "byte list" by (rule length_dropWhile_le)
  fix xs :: "byte list" and c cs assume x: "dropWhile is_ws xs = c # cs"
  then have l: "length cs < length xs" using d[of is_ws xs] by simp
  show "(cs, xs) \<in> measure length" using l by simp
  show "(tl cs, xs) \<in> measure length" using l by simp
  show "(dropWhile wordch cs, xs) \<in> measure length" using l d[of wordch cs] by simp
qed simp

declare tokens.simps [simp del]

fun tok_code :: "token \<Rightarrow> byte" where
  "tok_code (Word w) = cWORD"
| "tok_code (Sym c) = c"
| "tok_code App = cAPP"

text \<open>Whether a list of tokens begins with one of some symbols.\<close>

fun starts :: "token list \<Rightarrow> byte set \<Rightarrow> bool" where
  "starts (Sym c # ts) S = (c \<in> S)"
| "starts (App # ts) S = (cGT \<in> S)"
| "starts _ S = False"

lemma skip_while_eq: "s \<le> es \<Longrightarrow> skip_while P m s es = s + length (takeWhile P (seg m s es))"
proof (induction "es - s" arbitrary: s)
  case 0
  then show ?case by (simp add: skip_while.simps)
next
  case (Suc k)
  then have "s < es" by simp
  then show ?case using Suc.hyps(1)[of "s + 1"] Suc.hyps(2) by (subst skip_while.simps) (simp add: seg_Cons)
qed

lemma skip_while_seg:
  fixes P :: "byte \<Rightarrow> bool"
  assumes "line_at m s es"
  defines "q \<equiv> skip_while P m s es"
  shows "seg m q es = dropWhile P (seg m s es)" "seg m s q = takeWhile P (seg m s es)" "s \<le> q" "q \<le> es" "line_at m q es"
proof -
  let ?n = "length (takeWhile P (seg m s es))"
  have q: "q = s + ?n" using assms(1) by (simp add: q_def skip_while_eq line_at_def)
  have n: "?n \<le> es - s" using length_takeWhile_le[of P "seg m s es"] by simp
  show "seg m q es = dropWhile P (seg m s es)" by (simp add: q drop_seg[symmetric] dropWhile_eq_drop)
  show le: "s \<le> q" "q \<le> es" using q n assms(1) unfolding line_at_def by linarith+
  show "seg m s q = takeWhile P (seg m s es)"
    using take_seg[of s ?n es m] le q by (simp add: takeWhile_eq_take[symmetric])
  show "line_at m q es" by (rule line_at_mono[OF assms(1) le])
qed

lemma tokens_ws: "tokens (dropWhile is_ws xs) = tokens xs"
  by (subst (1 2) tokens.simps) simp

lemma symbols_eq: "set symbols = {cLT, cBAR, cGT, cAMP, cSEMI, cLP, cRP}"
  by (auto simp: symbols_def str_def)

lemma ws_sym: "is_ws c \<Longrightarrow> \<not> is_sym c"
  by (auto simp: symbols_eq whitespace_def)

lemma takeWhile_hd: "takeWhile P xs = [] \<longleftrightarrow> xs = [] \<or> \<not> P (hd xs)"
  by (cases xs) auto

text \<open>The outcome of \<^verbatim>\<open>gettoken\<close> at token \<open>t\<close>, with \<open>ts\<close> left.\<close>

definition got_token :: "bytes \<Rightarrow> nat \<Rightarrow> nat \<Rightarrow> token \<Rightarrow> token list \<Rightarrow> bool" where
  "got_token m s es t ts \<longleftrightarrow> (\<exists>q e s'. gettoken m s es = (tok_code t, q, e, s') \<and> s < s' \<and> line_at m s' es \<and>
     tokens (seg m s' es) = ts \<and> q < e \<and> e \<le> es \<and>
     (case t of Word w \<Rightarrow> seg m q e = w \<and> (\<forall>x\<in>set w. wordch x) \<and> (e = es \<or> \<not> wordch (m e)) | _ \<Rightarrow> True))"

lemma gettoken_end:
  assumes "line_at m s es" "tokens (seg m s es) = []"
  shows "gettoken m s es = (0, es, es, es)"
proof -
  note q = skip_while_seg[OF assms(1), of is_ws]
  have "dropWhile is_ws (seg m s es) = []" using assms(2) by (subst (asm) tokens.simps) (auto split: list.splits if_splits)
  then have "skip_while is_ws m s es = es" using q by (metis seg_simps(2) diff_is_0_eq le_antisym list.size(3))
  moreover have "skip_while is_ws m es es = es" by (simp add: skip_while.simps)
  ultimately show ?thesis using assms(1) by (simp add: gettoken_def Let_def line_at_def)
qed

lemma gettoken_token:
  assumes l: "line_at m s es" and t: "tokens (seg m s es) = t # ts"
  shows "got_token m s es t ts"
proof -
  define q where "q = skip_while is_ws m s es"
  note q = skip_while_seg[OF l, of is_ws, folded q_def]
  obtain c cs where c: "dropWhile is_ws (seg m s es) = c # cs"
    using t by (subst (asm) tokens.simps) (auto split: list.splits)
  then have seg: "seg m q es = c # cs" using q(1) by simp
  then have qe: "q < es" using q(4) by (metis le_neq_implies_less list.distinct(1) seg_simps(1))
  have mq: "m q = c" "seg m (q + 1) es = cs" using seg seg_Cons[OF qe, of m] by simp_all
  have c0: "c \<noteq> 0" using q(5) seg by (auto simp: line_at_def)
  have ws: "\<not> is_ws c" using c by (metis hd_dropWhile list.distinct(1) list.sel(1))
  have tok: "t # ts = (if c = cGT \<and> cs \<noteq> [] \<and> hd cs = cGT then App # tokens (tl cs)
      else if is_sym c then Sym c # tokens cs else Word (takeWhile wordch (c # cs)) # tokens (dropWhile wordch cs))"
    using t c by (subst (asm) tokens.simps) (auto split: if_splits)
  have rest: "\<exists>s'. skip_while is_ws m e es = s' \<and> line_at m s' es \<and> e \<le> s' \<and> tokens (seg m s' es) = tokens (seg m e es)"
    if "q \<le> e" "e \<le> es" for e
    using skip_while_seg[OF line_at_mono[OF q(5) that], of is_ws] by (simp add: tokens_ws)
  consider (app) "c = cGT" "cs \<noteq> []" "hd cs = cGT" | (sym) "is_sym c" "\<not> (c = cGT \<and> cs \<noteq> [] \<and> hd cs = cGT)" | (word) "\<not> is_sym c"
    by blast
  then show ?thesis
  proof cases
    case app
    have q1: "q + 1 < es" using app(2) mq(2) q(4) by (metis le_neq_implies_less Suc_eq_plus1 Suc_leI qe seg_simps(1))
    have "cs = m (q + 1) # seg m (q + 2) es" using seg_Cons[OF q1, of m] mq(2) by simp
    then have m1: "m (q + 1) = cGT" "seg m (q + 2) es = tl cs" using app(3) by simp_all
    obtain s' where "skip_while is_ws m (q + 2) es = s'" "line_at m s' es" "q + 2 \<le> s'" "tokens (seg m s' es) = tokens (tl cs)"
      using rest[of "q + 2"] q1 m1(2) by auto
    then show ?thesis
      using app tok q(3) q1 mq(1) m1(1) unfolding got_token_def gettoken_def q_def[symmetric] Let_def
      by auto
  next
    case sym
    obtain s' where s': "skip_while is_ws m (q + 1) es = s'" "line_at m s' es" "q + 1 \<le> s'" "tokens (seg m s' es) = tokens cs"
      using rest[of "q + 1"] qe mq(2) by auto
    have "m (q + 1) \<noteq> cGT" if "c = cGT"
    proof (cases "cs = []")
      case True
      then have "q + 1 = es" using mq(2) qe by (metis Suc_eq_plus1 Suc_leI diff_is_0_eq le_antisym list.size(3) seg_simps(2))
      then show ?thesis using l by (auto simp: line_at_def)
    next
      case False
      then have "q + 1 < es" using mq(2) qe by (metis Suc_eq_plus1 Suc_leI le_neq_implies_less seg_simps(1))
      then have "cs = m (q + 1) # seg m (q + 2) es" using seg_Cons[of "q + 1" es m] mq(2) by simp
      then show ?thesis using sym(2) that by auto
    qed
    then show ?thesis
      using s' sym tok q(3) qe mq(1) c0 unfolding got_token_def gettoken_def q_def[symmetric] Let_def
      by (auto simp: symbols_eq)
  next
    case word
    define e where "e = skip_while wordch m q es"
    note e = skip_while_seg[OF q(5), of wordch, folded e_def]
    have w: "seg m q e = takeWhile wordch (c # cs)" "seg m e es = dropWhile wordch cs"
      using e(1,2) seg word ws by simp_all
    have qe': "q < e"
    proof (rule ccontr)
      assume "\<not> q < e"
      then have "seg m q e = []" by (simp add: seg_def)
      with w(1) word ws show False by simp
    qed
    have stop: "e = es \<or> \<not> wordch (m e)"
    proof (cases "e = es")
      case False
      then have "dropWhile wordch (seg m q es) = m e # seg m (e + 1) es" using e(1,4) seg_Cons[of e es m] by simp
      then have "\<not> wordch (m e)" using hd_dropWhile[of wordch "seg m q es"] by simp
      then show ?thesis ..
    qed simp
    obtain s' where s': "skip_while is_ws m e es = s'" "line_at m s' es" "e \<le> s'" "tokens (seg m s' es) = tokens (dropWhile wordch cs)"
      using rest[OF e(3,4)] w(2) by auto
    have g: "gettoken m s es = (cWORD, q, e, s')"
      using word mq(1) c0 s'(1) unfolding gettoken_def q_def[symmetric] Let_def e_def by (auto simp: symbols_eq)
    have t': "t = Word (takeWhile wordch (c # cs))" "ts = tokens (dropWhile wordch cs)" using tok word by (auto simp: symbols_eq)
    define wd where "wd = takeWhile wordch (c # cs)"
    have wd: "\<forall>x\<in>set wd. wordch x" using set_takeWhileD[of _ wordch "c # cs"] unfolding wd_def by blast
    have c2: "s < s'" using q(3) qe' s'(3) by linarith
    have c7: "case t of Word w \<Rightarrow> seg m q e = w \<and> (\<forall>x\<in>set w. wordch x) \<and> (e = es \<or> \<not> wordch (m e)) | _ \<Rightarrow> True"
      unfolding t'(1) wd_def[symmetric] token.case using wd stop w(1)[folded wd_def] by blast
    have c1: "gettoken m s es = (tok_code t, q, e, s')" using g by (simp add: t'(1))
    have c4: "tokens (seg m s' es) = ts" using s'(4) t'(2) by simp
    show ?thesis
      unfolding got_token_def using c1 c2 s'(2) c4 qe' e(4) c7 by blast
  qed
qed

lemma peek_tokens:
  assumes l: "line_at m s es" and S: "set (str toks) \<subseteq> set symbols"
  shows "\<exists>s'. peek m s es toks = (starts (tokens (seg m s es)) (set (str toks)), s') \<and> s \<le> s' \<and> line_at m s' es \<and>
     tokens (seg m s' es) = tokens (seg m s es)"
proof -
  define q where "q = skip_while is_ws m s es"
  note q = skip_while_seg[OF l, of is_ws, folded q_def]
  have t: "tokens (seg m q es) = tokens (seg m s es)" by (simp add: q(1) tokens_ws)
  have "starts (tokens (seg m s es)) (set (str toks)) \<longleftrightarrow> m q \<noteq> 0 \<and> m q \<in> set (str toks)"
  proof (cases "seg m q es")
    case Nil
    then have "q = es" using q(4) by (metis diff_is_0_eq le_antisym list.size(3) seg_simps(2))
    then show ?thesis using Nil t l by (simp add: tokens.simps[of "[]"] line_at_def)
  next
    case (Cons c cs)
    then have "q < es" using q(4) by (metis le_neq_implies_less list.distinct(1) seg_simps(1))
    then have c: "m q = c" "c \<noteq> 0" using Cons seg_Cons[of q es m] q(5) by (auto simp: line_at_def)
    have "dropWhile is_ws (seg m s es) = c # cs" using q(1) Cons by simp
    then show ?thesis using c S by (subst tokens.simps) auto
  qed
  then show ?thesis using q(3,5) t by (intro exI[of _ q]) (simp add: peek_def q_def[symmetric] Let_def)
qed

end
