(* ===== verification/Sh_Correct.thy ===== *)
theory Sh_Correct
  imports Sh_Tokens
begin

text \<open>
  The shell's parser always comes back, and on the tokens of a command it builds that command.
\<close>

section \<open>Termination\<close>

text \<open>The routine comes back, and if it does not fail, at a later place of the line.\<close>

definition fine :: "bytes \<Rightarrow> nat \<Rightarrow> nat \<Rightarrow> 'a parse \<Rightarrow> bool" where
  "fine m s es r \<longleftrightarrow> (case r of Stuck \<Rightarrow> False | Fail _ \<Rightarrow> True | Got c s' \<Rightarrow> s \<le> s' \<and> line_at m s' es)"

lemma fine_simps [simp]: "fine m s es (Fail e)" "fine m s es (Got c s') \<longleftrightarrow> s \<le> s' \<and> line_at m s' es"
  by (simp_all add: fine_def)

lemma fine_bind:
  assumes "fine m s es r" "\<And>c s'. s \<le> s' \<Longrightarrow> line_at m s' es \<Longrightarrow> fine m s' es (f c s')"
  shows "fine m s es (pbind r f)"
proof (cases r)
  case (Got c s')
  then have "s \<le> s'" "line_at m s' es" using assms(1) by simp_all
  then show ?thesis using assms(2)[of s' c] Got by (auto simp: fine_def split: parse.splits)
qed (use assms(1) in \<open>simp_all add: fine_def\<close>)

lemma fine_mono: "fine m s' es r \<Longrightarrow> s \<le> s' \<Longrightarrow> fine m s es r"
  by (auto simp: fine_def split: parse.splits)

text \<open>The shapes of \<^verbatim>\<open>peek\<close> and \<^verbatim>\<open>gettoken\<close> in the proofs below.\<close>

lemma peekE:
  assumes "line_at m s es" "set (str toks) \<subseteq> set symbols"
  obtains s' where "peek m s es toks = (starts (tokens (seg m s es)) (set (str toks)), s')" "s \<le> s'" "line_at m s' es"
    "tokens (seg m s' es) = tokens (seg m s es)"
  using peek_tokens[OF assms] by blast

lemma gettokenE:
  assumes "line_at m s es"
  obtains t q e s' where "gettoken m s es = (t, q, e, s')" "s \<le> s'" "line_at m s' es"
    "tokens (seg m s es) \<noteq> [] \<Longrightarrow> s < s'" "tokens (seg m s es) = [] \<Longrightarrow> t = 0"
proof (cases "tokens (seg m s es)")
  case Nil
  show thesis
    by (rule that[OF gettoken_end[OF assms Nil]]) (use assms Nil in \<open>auto simp: line_at_def\<close>)
next
  case (Cons t ts)
  from gettoken_token[OF assms Cons] obtain q e s' where "gettoken m s es = (tok_code t, q, e, s')" "s < s'" "line_at m s' es"
    by (auto simp: got_token_def)
  then show thesis using Cons by (intro that) auto
qed

lemma starts_nonempty: "starts ts S \<Longrightarrow> ts \<noteq> []"
  by auto

lemma toks_symbols [simp]:
  "set (str ''<>'') \<subseteq> set symbols" "set (str ''|)&;'') \<subseteq> set symbols" "set (str ''&'') \<subseteq> set symbols"
  "set (str '';'') \<subseteq> set symbols" "set (str ''|'') \<subseteq> set symbols" "set (str ''('') \<subseteq> set symbols"
  "set (str '')'') \<subseteq> set symbols" "set (str '''') \<subseteq> set symbols"
  by (auto simp: str_def symbols_eq)

lemma parseredirs_fine: "line_at m s es \<Longrightarrow> es - s < n \<Longrightarrow> fine m s es (parseredirs n m c s es)"
proof (induction n arbitrary: c s)
  case (Suc n)
  obtain s1 where p: "peek m s es ''<>'' = (starts (tokens (seg m s es)) (set (str ''<>'')), s1)" "s \<le> s1" "line_at m s1 es"
    "tokens (seg m s1 es) = tokens (seg m s es)" by (rule peekE[OF Suc.prems(1) toks_symbols(1)]) blast
  obtain t1 q1 e1 s2 where g1: "gettoken m s1 es = (t1, q1, e1, s2)" "s1 \<le> s2" "line_at m s2 es"
    "tokens (seg m s1 es) \<noteq> [] \<Longrightarrow> s1 < s2" by (rule gettokenE[OF p(3)]) blast
  obtain t2 q2 e2 s3 where g2: "gettoken m s2 es = (t2, q2, e2, s3)" "s2 \<le> s3" "line_at m s3 es" by (rule gettokenE[OF g1(3)]) blast
  show ?case
  proof (cases "starts (tokens (seg m s es)) (set (str ''<>''))")
    case True
    then have "s1 < s2" using g1(4) p(4) starts_nonempty by metis
    moreover have "s2 \<le> es" using g1(3) by (simp add: line_at_def)
    ultimately have "es - s3 < n" using p(2) g2(2) Suc.prems(2) by linarith
    note ih = Suc.IH[OF g2(3) this]
    show ?thesis using fine_mono[OF ih, of s] p g1 g2 True by (simp add: Let_def)
  next
    case False
    then show ?thesis using p by simp
  qed
qed simp

lemma parseargs_fine: "line_at m s es \<Longrightarrow> es - s < n \<Longrightarrow> fine m s es (parseargs n m ret argc s es)"
proof (induction n arbitrary: ret argc s)
  case (Suc n)
  obtain s1 where p: "peek m s es ''|)&;'' = (starts (tokens (seg m s es)) (set (str ''|)&;'')), s1)" "s \<le> s1" "line_at m s1 es"
    by (rule peekE[OF Suc.prems(1) toks_symbols(2)]) blast
  obtain t q e s2 where g: "gettoken m s1 es = (t, q, e, s2)" "s1 \<le> s2" "line_at m s2 es"
    "tokens (seg m s1 es) \<noteq> [] \<Longrightarrow> s1 < s2" "tokens (seg m s1 es) = [] \<Longrightarrow> t = 0" by (rule gettokenE[OF p(3)]) blast
  have step: "fine m s2 es (pbind (parseredirs n m (add_arg q e ret) s2 es) (\<lambda>ret s. parseargs n m ret (argc + 1) s es))" if "t \<noteq> 0"
  proof -
    have "s1 < s2" using g(4,5) that by blast
    moreover have "s2 \<le> es" using g(3) by (simp add: line_at_def)
    ultimately have d: "es - s2 < n" using p(2) Suc.prems(2) by linarith
    show ?thesis
      by (rule fine_bind[OF parseredirs_fine[OF g(3) d]], rule Suc.IH) (use d in auto)
  qed
  show ?case using p g(1-3) fine_mono[OF step, of s] by (auto simp: Let_def)
qed simp

lemma parseback_fine: "line_at m s es \<Longrightarrow> es - s < n \<Longrightarrow> fine m s es (parseback n m c s es)"
proof (induction n arbitrary: c s)
  case (Suc n)
  obtain s1 where p: "peek m s es ''&'' = (starts (tokens (seg m s es)) (set (str ''&'')), s1)" "s \<le> s1" "line_at m s1 es"
    "tokens (seg m s1 es) = tokens (seg m s es)" by (rule peekE[OF Suc.prems(1) toks_symbols(3)]) blast
  obtain t q e s2 where g: "gettoken m s1 es = (t, q, e, s2)" "s1 \<le> s2" "line_at m s2 es"
    "tokens (seg m s1 es) \<noteq> [] \<Longrightarrow> s1 < s2" by (rule gettokenE[OF p(3)]) blast
  show ?case
  proof (cases "starts (tokens (seg m s es)) (set (str ''&''))")
    case True
    then have "s1 < s2" using g(4) p(4) starts_nonempty by metis
    moreover have "s2 \<le> es" using g(3) by (simp add: line_at_def)
    ultimately have "es - s2 < n" using p(2) Suc.prems(2) by linarith
    note ih = Suc.IH[OF g(3) this]
    show ?thesis using fine_mono[OF ih, of s] p g True by (simp add: Let_def)
  next
    case False
    then show ?thesis using p by simp
  qed
qed simp

text \<open>A symbol that was seen is taken, and the line gets shorter.\<close>

lemma take_symbol:
  assumes "line_at m s es" "set (str toks) \<subseteq> set symbols"
  shows "\<exists>b s1 t q e s2. peek m s es toks = (b, s1) \<and> s \<le> s1 \<and> line_at m s1 es \<and> gettoken m s1 es = (t, q, e, s2) \<and>
    line_at m s2 es \<and> (b \<longrightarrow> s < s2)"
proof -
  obtain s1 where p: "peek m s es toks = (starts (tokens (seg m s es)) (set (str toks)), s1)" "s \<le> s1" "line_at m s1 es"
    "tokens (seg m s1 es) = tokens (seg m s es)" by (rule peekE[OF assms]) blast
  obtain t q e s2 where g: "gettoken m s1 es = (t, q, e, s2)" "s1 \<le> s2" "line_at m s2 es"
    "tokens (seg m s1 es) \<noteq> [] \<Longrightarrow> s1 < s2" by (rule gettokenE[OF p(3)]) blast
  have "starts (tokens (seg m s es)) (set (str toks)) \<longrightarrow> s < s2" using g(4) p(2,4) starts_nonempty by (metis le_less_trans)
  then show ?thesis using p(1-3) g(1,3) by blast
qed

lemma take_symbolE:
  assumes "line_at m s es" "set (str toks) \<subseteq> set symbols"
  obtains b s1 t q e s2 where "peek m s es toks = (b, s1)" "s \<le> s1" "line_at m s1 es" "gettoken m s1 es = (t, q, e, s2)"
    "line_at m s2 es" "b \<Longrightarrow> s < s2"
  using take_symbol[OF assms] by blast

lemma parse_fine:
  assumes "line_at m s es"
  shows "4 * (es - s) + 4 \<le> n \<Longrightarrow> fine m s es (parseline n m s es)"
    "4 * (es - s) + 3 \<le> n \<Longrightarrow> fine m s es (parsepipe n m s es)"
    "4 * (es - s) + 2 \<le> n \<Longrightarrow> fine m s es (parseexec n m s es)"
    "4 * (es - s) + 1 \<le> n \<Longrightarrow> fine m s es (parseblock n m s es)"
  using assms
proof (induction n arbitrary: s)
  case 0
  { case 1 then show ?case by simp
  next case 2 then show ?case by simp
  next case 3 then show ?case by simp
  next case 4 then show ?case by simp }
next
  case (Suc n)
  {
    case 1
    have l: "line_at m s es" and n: "4 * (es - s) + 3 \<le> n" using 1 by simp_all
    show ?case
      unfolding parseline.simps
    proof (rule fine_bind[OF Suc.IH(2)[OF n l]], rule fine_bind[OF parseback_fine])
      fix s1 assume s1: "s \<le> s1" "line_at m s1 es"
      then show "line_at m s1 es" "es - s1 < n" using n by auto
      fix s2 and c :: cmd assume s2: "s1 \<le> s2" "line_at m s2 es"
      obtain b s3 t q e s4 where p: "peek m s2 es '';'' = (b, s3)" "s2 \<le> s3" "line_at m s3 es" "gettoken m s3 es = (t, q, e, s4)"
        "line_at m s4 es" "b \<Longrightarrow> s2 < s4" by (rule take_symbolE[OF s2(2) toks_symbols(4)]) blast
      show "fine m s2 es (let (b, s) = peek m s2 es '';'' in if b then let (_, _, _, s) = gettoken m s es in
          pbind (parseline n m s es) (\<lambda>r s. Got (LIST c r) s) else Got c s)"
      proof (cases b)
        case True
        have "s4 \<le> es" using p(5) by (simp add: line_at_def)
        then have "4 * (es - s4) + 4 \<le> n" using p(6)[OF True] s1(1) s2(1) n by linarith
        from fine_bind[OF Suc.IH(1)[OF this p(5)], of "\<lambda>r s. Got (LIST c r) s"]
        have "fine m s4 es (pbind (parseline n m s4 es) (\<lambda>r s. Got (LIST c r) s))" by simp
        then show ?thesis using fine_mono[of m s4 es _ s2] p(1,4) p(6)[OF True] True by simp
      qed (use p in simp)
    qed
  next
    case 2
    have l: "line_at m s es" and n: "4 * (es - s) + 2 \<le> n" using 2 by simp_all
    show ?case
      unfolding parsepipe.simps
    proof (rule fine_bind[OF Suc.IH(3)[OF n l]])
      fix s2 and c :: cmd assume s2: "s \<le> s2" "line_at m s2 es"
      obtain b s3 t q e s4 where p: "peek m s2 es ''|'' = (b, s3)" "s2 \<le> s3" "line_at m s3 es" "gettoken m s3 es = (t, q, e, s4)"
        "line_at m s4 es" "b \<Longrightarrow> s2 < s4" by (rule take_symbolE[OF s2(2) toks_symbols(5)]) blast
      show "fine m s2 es (let (b, s) = peek m s2 es ''|'' in if b then let (_, _, _, s) = gettoken m s es in
          pbind (parsepipe n m s es) (\<lambda>r s. Got (PIPE c r) s) else Got c s)"
      proof (cases b)
        case True
        have "s4 \<le> es" using p(5) by (simp add: line_at_def)
        then have "4 * (es - s4) + 3 \<le> n" using p(6)[OF True] s2(1) n by linarith
        from fine_bind[OF Suc.IH(2)[OF this p(5)], of "\<lambda>r s. Got (PIPE c r) s"]
        have "fine m s4 es (pbind (parsepipe n m s4 es) (\<lambda>r s. Got (PIPE c r) s))" by simp
        then show ?thesis using fine_mono[of m s4 es _ s2] p(1,4) p(6)[OF True] True by simp
      qed (use p in simp)
    qed
  next
    case 3
    have l: "line_at m s es" and n: "4 * (es - s) + 1 \<le> n" using 3 by simp_all
    obtain b s1 where p: "peek m s es ''('' = (b, s1)" "s \<le> s1" "line_at m s1 es"
      by (rule take_symbolE[OF l toks_symbols(6)]) blast
    have d: "4 * (es - s1) + 1 \<le> n" "es - s1 < n" using n p(2) by linarith+
    have "fine m s1 es (pbind (parseredirs n m (EXEC []) s1 es) (\<lambda>ret s. parseargs n m ret 0 s es))"
      by (rule fine_bind[OF parseredirs_fine[OF p(3) d(2)]], rule parseargs_fine) (use d in auto)
    from fine_mono[OF this p(2)] fine_mono[OF Suc.IH(4)[OF d(1) p(3)] p(2)] show ?case
      using p(1) by (simp add: parseexec.simps)
  next
    case 4
    have l: "line_at m s es" and n: "4 * (es - s) \<le> n" using 4 by simp_all
    obtain b s1 t q e s2 where p: "peek m s es ''('' = (b, s1)" "s \<le> s1" "line_at m s1 es" "gettoken m s1 es = (t, q, e, s2)"
      "line_at m s2 es" "b \<Longrightarrow> s < s2" by (rule take_symbolE[OF l toks_symbols(6)]) blast
    show ?case
    proof (cases b)
      case True
      have "s2 \<le> es" using p(5) by (simp add: line_at_def)
      then have d: "4 * (es - s2) + 4 \<le> n" using p(6)[OF True] n by linarith
      have "fine m s2 es (pbind (parseline n m s2 es) (\<lambda>c s. let (b, s) = peek m s es '')'' in
          if \<not> b then Fail ''syntax - missing )'' else let (_, _, _, s) = gettoken m s es in parseredirs n m c s es))"
      proof (rule fine_bind[OF Suc.IH(1)[OF d p(5)]])
        fix s3 and c :: cmd assume s3: "s2 \<le> s3" "line_at m s3 es"
        obtain b s4 t q e s5 where r: "peek m s3 es '')'' = (b, s4)" "gettoken m s4 es = (t, q, e, s5)" "s3 \<le> s4"
          "line_at m s5 es" "b \<Longrightarrow> s3 < s5" by (rule take_symbolE[OF s3(2) toks_symbols(7)]) blast
        have "fine m s5 es (parseredirs n m c s5 es)" if b
          by (rule parseredirs_fine[OF r(4)]) (use r(5)[OF that] s3(1) d in linarith)
        then show "fine m s3 es (let (b, s) = peek m s3 es '')'' in
          if \<not> b then Fail ''syntax - missing )'' else let (_, _, _, s) = gettoken m s es in parseredirs n m c s es)"
          using r(1,2,5) fine_mono[of m s5 es "parseredirs n m c s5 es" s3] by (cases b) (simp_all add: Let_def)
      qed
      then show ?thesis using fine_mono[of m s2 es _ s] p(1,4) p(6)[OF True] True by (simp add: parseblock.simps)
    qed (use p in \<open>simp add: parseblock.simps\<close>)
  }
qed

section \<open>What the parser reads and writes\<close>

text \<open>The places that \<^verbatim>\<open>nulterminate\<close> writes.\<close>

primrec cmd_ends :: "cmd \<Rightarrow> nat set" where
  "cmd_ends (EXEC as) = snd ` set as"
| "cmd_ends (REDIR c f e md fd) = insert e (cmd_ends c)"
| "cmd_ends (PIPE l r) = cmd_ends l \<union> cmd_ends r"
| "cmd_ends (LIST l r) = cmd_ends l \<union> cmd_ends r"
| "cmd_ends (BACK c) = cmd_ends c"

lemma nulterminate_at: "nulterminate c m i = (if i \<in> cmd_ends c then 0 else m i)"
proof (induction c arbitrary: m)
  case (EXEC as)
  show ?case by (induction as arbitrary: m) auto
qed auto

lemma nulterminate_writes:
  assumes "cmd_ends c \<subseteq> {a..b}" "nulterminate c m i \<noteq> m i"
  shows "nulterminate c m i = 0 \<and> a \<le> i \<and> i \<le> b"
proof -
  have "i \<in> cmd_ends c" using assms(2) by (auto simp: nulterminate_at split: if_splits)
  then show ?thesis using subsetD[OF assms(1)] by (simp add: nulterminate_at)
qed

lemma add_arg_ends: "cmd_ends (add_arg q e c) \<subseteq> insert e (cmd_ends c)"
  by (induction q e c rule: add_arg.induct) auto

text \<open>
  Two memories that agree on the places \<open>s0\<close> to \<open>es\<close>, the second of them with a null byte at \<open>es\<close>. A routine has the
  same outcome on both, and its position and its command are within these places.
\<close>

definition same :: "nat \<Rightarrow> nat \<Rightarrow> cmd parse \<Rightarrow> cmd parse \<Rightarrow> bool" where
  "same s0 es r2 r \<longleftrightarrow> r2 = r \<and> (\<forall>c t. r = Got c t \<longrightarrow> t \<in> {s0..es} \<and> cmd_ends c \<subseteq> {s0..es})"

definition agree :: "bytes \<Rightarrow> bytes \<Rightarrow> nat \<Rightarrow> nat \<Rightarrow> bool" where
  "agree m2 m s0 es \<longleftrightarrow> s0 \<le> es \<and> m es = 0 \<and> (\<forall>i. s0 \<le> i \<and> i \<le> es \<longrightarrow> m2 i = m i)"

lemma skip_while_agree:
  assumes "agree m2 m s0 es" "s \<in> {s0..es}"
  shows "skip_while P m2 s es = skip_while P m s es \<and> skip_while P m s es \<in> {s..es}"
  using assms
proof (induction P m s es rule: skip_while.induct)
  case (1 P m s es)
  have "m2 s = m s" using 1(2,3) by (simp add: agree_def)
  then show ?case using 1 by (subst (1 2 3) skip_while.simps) auto
qed

lemma peek_agree:
  assumes "agree m2 m s0 es" "s \<in> {s0..es}"
  obtains b t where "peek m2 s es tk = (b, t)" "peek m s es tk = (b, t)" "t \<in> {s0..es}"
proof -
  note k = skip_while_agree[OF assms, of is_ws]
  then have "skip_while is_ws m s es \<in> {s0..es}" using assms(2) by simp
  moreover from this have "m2 (skip_while is_ws m s es) = m (skip_while is_ws m s es)" using assms(1) by (simp add: agree_def)
  ultimately show thesis using that k by (simp add: peek_def Let_def)
qed

lemma gettoken_agree:
  assumes "agree m2 m s0 es" "s \<in> {s0..es}"
  obtains t q e s' where "gettoken m2 s es = (t, q, e, s')" "gettoken m s es = (t, q, e, s')" "e \<in> {s0..es}" "s' \<in> {s0..es}"
proof -
  define q where "q = skip_while is_ws m s es"
  have q: "q \<in> {s0..es}" "skip_while is_ws m2 s es = q"
    using skip_while_agree[OF assms, of is_ws] assms(2) by (auto simp: q_def)
  have eq: "m2 i = m i" if "i \<in> {s0..es}" for i using assms(1) that by (simp add: agree_def)
  have step: "i + 1 \<in> {s0..es}" if "i \<in> {s0..es}" "m i \<noteq> 0" for i
    using assms(1) that by (cases "i = es") (auto simp: agree_def)
  define w where "w = skip_while (\<lambda>c. \<not> is_ws c \<and> \<not> is_sym c) m q es"
  have w: "w \<in> {s0..es}" "skip_while (\<lambda>c. \<not> is_ws c \<and> \<not> is_sym c) m2 q es = w"
    using skip_while_agree[OF assms(1) q(1), of "\<lambda>c. \<not> is_ws c \<and> \<not> is_sym c"] q(1) by (auto simp: w_def)
  have gt: "cGT \<noteq> 0" by simp
  define r where "r = (if m q = 0 then (0, q) else if m q \<in> {cBAR, cLP, cRP, cSEMI, cAMP, cLT} then (m q, q + 1)
    else if m q = cGT then (if m (q + 1) = cGT then (cAPP, q + 2) else (m q, q + 1)) else (cWORD, w))"
  have r: "snd r \<in> {s0..es}"
    using q(1) w(1) step[OF q(1)] step[of "q + 1"] gt by (auto simp: r_def)
  have "gettoken m s es = (fst r, q, snd r, skip_while is_ws m (snd r) es)"
    unfolding gettoken_def Let_def q_def[symmetric] w_def[symmetric] r_def[symmetric] by (simp add: case_prod_beta)
  moreover have "gettoken m2 s es = (fst r, q, snd r, skip_while is_ws m (snd r) es)"
  proof -
    have "m q = cGT \<Longrightarrow> m2 (q + 1) = m (q + 1)" using eq step[OF q(1)] gt by simp
    then have "(if m2 q = 0 then (0, q) else if m2 q \<in> {cBAR, cLP, cRP, cSEMI, cAMP, cLT} then (m2 q, q + 1)
      else if m2 q = cGT then (if m2 (q + 1) = cGT then (cAPP, q + 2) else (m2 q, q + 1)) else (cWORD, w)) = r"
      unfolding eq[OF q(1)] r_def by simp
    then show ?thesis
      unfolding gettoken_def Let_def q(2) w(2) by (simp add: case_prod_beta skip_while_agree[OF assms(1) r])
  qed
  ultimately show thesis
    using that[of _ q "snd r"] r skip_while_agree[OF assms(1) r, of is_ws] by (meson atLeastAtMost_iff le_trans)
qed

text \<open>Rules that follow the parser step by step.\<close>

lemma same_peek:
  assumes "agree m2 m s0 es" "s \<in> {s0..es}" "\<And>b t. t \<in> {s0..es} \<Longrightarrow> same s0 es (f2 b t) (f b t)"
  shows "same s0 es (let (b, s) = peek m2 s es tk in f2 b s) (let (b, s) = peek m s es tk in f b s)"
  by (rule peek_agree[OF assms(1,2), of tk]) (use assms(3) in simp)

lemma same_gettoken:
  assumes "agree m2 m s0 es" "s \<in> {s0..es}"
    "\<And>t q e s. e \<in> {s0..es} \<Longrightarrow> s \<in> {s0..es} \<Longrightarrow> same s0 es (f2 t q e s) (f t q e s)"
  shows "same s0 es (let (t, q, e, s) = gettoken m2 s es in f2 t q e s) (let (t, q, e, s) = gettoken m s es in f t q e s)"
  by (rule gettoken_agree[OF assms(1,2)]) (use assms(3) in simp)

lemma same_bind:
  assumes "same s0 es r2 r"
    "\<And>c s. s \<in> {s0..es} \<Longrightarrow> cmd_ends c \<subseteq> {s0..es} \<Longrightarrow> same s0 es (f2 c s) (f c s)"
  shows "same s0 es (pbind r2 f2) (pbind r f)"
proof (cases r)
  case (Got c t)
  then have "r2 = Got c t" "t \<in> {s0..es}" "cmd_ends c \<subseteq> {s0..es}" using assms(1) by (auto simp: same_def)
  then show ?thesis using assms(2) Got by simp
qed (use assms(1) in \<open>simp_all add: same_def\<close>)

lemma same_if: "(b \<Longrightarrow> same s0 es x2 x) \<Longrightarrow> (\<not> b \<Longrightarrow> same s0 es y2 y) \<Longrightarrow> same s0 es (if b then x2 else y2) (if b then x else y)"
  by simp

lemma same_ends: "same s0 es Stuck Stuck" "same s0 es (Fail e) (Fail e)"
  "t \<in> {s0..es} \<Longrightarrow> cmd_ends c \<subseteq> {s0..es} \<Longrightarrow> same s0 es (Got c t) (Got c t)"
  by (auto simp: same_def)

lemma parseredirs_same:
  assumes "agree m2 m s0 es"
  shows "s \<in> {s0..es} \<Longrightarrow> cmd_ends c \<subseteq> {s0..es} \<Longrightarrow> same s0 es (parseredirs n m2 c s es) (parseredirs n m c s es)"
proof (induction n arbitrary: c s)
  case (Suc n)
  show ?case
    unfolding parseredirs.simps
    by (intro same_peek[OF assms] same_gettoken[OF assms] same_if same_ends Suc) (use Suc.prems in auto)
qed (simp add: same_ends)

lemma parseargs_same:
  assumes "agree m2 m s0 es"
  shows "s \<in> {s0..es} \<Longrightarrow> cmd_ends c \<subseteq> {s0..es} \<Longrightarrow> same s0 es (parseargs n m2 c k s es) (parseargs n m c k s es)"
proof (induction n arbitrary: c k s)
  case (Suc n)
  show ?case
    unfolding parseargs.simps
    by (intro same_peek[OF assms] same_gettoken[OF assms] same_bind same_if same_ends parseredirs_same[OF assms] Suc)
      (use Suc.prems add_arg_ends in fastforce)+
qed (simp add: same_ends)

lemma parseback_same:
  assumes "agree m2 m s0 es"
  shows "s \<in> {s0..es} \<Longrightarrow> cmd_ends c \<subseteq> {s0..es} \<Longrightarrow> same s0 es (parseback n m2 c s es) (parseback n m c s es)"
proof (induction n arbitrary: c s)
  case (Suc n)
  show ?case
    unfolding parseback.simps
    by (intro same_peek[OF assms] same_gettoken[OF assms] same_if same_ends Suc) (use Suc.prems in auto)
qed (simp add: same_ends)

lemma parse_same:
  assumes "agree m2 m s0 es"
  shows "s \<in> {s0..es} \<Longrightarrow> same s0 es (parseline n m2 s es) (parseline n m s es)"
    "s \<in> {s0..es} \<Longrightarrow> same s0 es (parsepipe n m2 s es) (parsepipe n m s es)"
    "s \<in> {s0..es} \<Longrightarrow> same s0 es (parseexec n m2 s es) (parseexec n m s es)"
    "s \<in> {s0..es} \<Longrightarrow> same s0 es (parseblock n m2 s es) (parseblock n m s es)"
proof (induction n arbitrary: s)
  case 0
  { case 1 show ?case by (simp add: parseline.simps same_ends)
  next case 2 show ?case by (simp add: parsepipe.simps same_ends)
  next case 3 show ?case by (simp add: parseexec.simps same_ends)
  next case 4 show ?case by (simp add: parseblock.simps same_ends) }
next
  case (Suc n)
  note R = same_peek[OF assms] same_gettoken[OF assms] same_bind same_if same_ends parseredirs_same[OF assms]
    parseback_same[OF assms] parseargs_same[OF assms] Suc
  { case 1 then show ?case unfolding parseline.simps by (intro R) auto
  next case 2 then show ?case unfolding parsepipe.simps by (intro R) auto
  next case 3 then show ?case unfolding parseexec.simps by (intro R) auto
  next case 4 then show ?case unfolding parseblock.simps by (intro R) auto }
qed

lemma cstr_line_at: "cstr_at m s xs \<Longrightarrow> line_at m s (s + length xs)"
proof -
  assume x: "cstr_at m s xs"
  then have "seg m s (s + length xs) = xs" by (intro nth_equalityI) (auto simp: seg_def cstr_at_nth)
  then show ?thesis using x by (auto simp: line_at_def cstr_at_nth)
qed

text \<open>\<^verbatim>\<open>parsecmd\<close> on a line and on another memory that holds the same line.\<close>

lemma parsecmd_agree:
  assumes x: "cstr_at m s xs" and eq: "\<forall>i. s \<le> i \<and> i \<le> s + length xs \<longrightarrow> m2 i = m i"
  shows "(\<exists>e. parsecmd m s = Some (Fail e) \<and> parsecmd m2 s = Some (Fail e)) \<or>
    (\<exists>c. cmd_ends c \<subseteq> {s..s + length xs} \<and> parsecmd m s = Some (Got (c, nulterminate c m) (s + length xs)) \<and>
       parsecmd m2 s = Some (Got (c, nulterminate c m2) (s + length xs)))"
proof -
  let ?es = "s + length xs" and ?n = "4 * length xs + 4"
  have x2: "cstr_at m2 s xs" using x eq by (simp add: cstr_at_nth)
  have ag: "agree m2 m s ?es" using x eq by (simp add: agree_def cstr_at_nth)
  have in_s: "s \<in> {s..?es}" by simp
  have sm: "same s ?es (parseline ?n m2 s ?es) (parseline ?n m s ?es)" by (rule parse_same(1)[OF ag in_s])
  have "fine m s ?es (parseline ?n m s ?es)" by (rule parse_fine(1)[OF cstr_line_at[OF x]]) simp
  then show ?thesis
  proof (cases "parseline ?n m s ?es")
    case (Got c t)
    then have t: "parseline ?n m2 s ?es = Got c t" "t \<in> {s..?es}" "cmd_ends c \<subseteq> {s..?es}" using sm by (auto simp: same_def)
    obtain b u where "peek m2 t ?es [] = (b, u)" "peek m t ?es [] = (b, u)" by (rule peek_agree[OF ag t(2)])
    then show ?thesis
      using Got t(1,3) ulib_strlen_cstr[OF x] ulib_strlen_cstr[OF x2] by (auto simp: parsecmd_def Let_def)
  qed (use sm ulib_strlen_cstr[OF x] ulib_strlen_cstr[OF x2] in \<open>auto simp: parsecmd_def Let_def same_def fine_def\<close>)
qed

text \<open>
  C34. The shell's parser comes back on every command line, whatever its syntax: the fuel \<^verbatim>\<open>parsecmd\<close> gives
  it is enough for every null-terminated string, so a line is parsed or rejected with a message. It never looks past
  the end of the line: on every memory with the same line it has the same outcome and builds the same command.
  The only bytes it changes are of the line and its null byte, and it sets them to null.
\<close>

theorem parsecmd_terminates:
  assumes "cstr_at m s xs"
  shows "((\<exists>e. parsecmd m s = Some (Fail e)) \<or>
      (\<exists>c m'. parsecmd m s = Some (Got (c, m') (s + length xs)) \<and>
         (\<forall>i. m' i \<noteq> m i \<longrightarrow> m' i = 0 \<and> s \<le> i \<and> i \<le> s + length xs))) \<and>
    (\<forall>m2. (\<forall>i. s \<le> i \<and> i \<le> s + length xs \<longrightarrow> m2 i = m i) \<longrightarrow>
      (\<forall>e. parsecmd m s = Some (Fail e) \<longrightarrow> parsecmd m2 s = Some (Fail e)) \<and>
      (\<forall>c m' t. parsecmd m s = Some (Got (c, m') t) \<longrightarrow>
         (\<exists>m2'. parsecmd m2 s = Some (Got (c, m2') t) \<and> (\<forall>i. s \<le> i \<and> i \<le> s + length xs \<longrightarrow> m2' i = m' i))))"
proof (intro conjI allI impI)
  show "(\<exists>e. parsecmd m s = Some (Fail e)) \<or> (\<exists>c m'. parsecmd m s = Some (Got (c, m') (s + length xs)) \<and>
      (\<forall>i. m' i \<noteq> m i \<longrightarrow> m' i = 0 \<and> s \<le> i \<and> i \<le> s + length xs))"
    using parsecmd_agree[OF assms, of m] nulterminate_writes by blast
next
  fix m2 e assume "\<forall>i. s \<le> i \<and> i \<le> s + length xs \<longrightarrow> m2 i = m i" "parsecmd m s = Some (Fail e)"
  then show "parsecmd m2 s = Some (Fail e)" using parsecmd_agree[OF assms, of m2] by auto
next
  fix m2 c m' t assume eq: "\<forall>i. s \<le> i \<and> i \<le> s + length xs \<longrightarrow> m2 i = m i" and p: "parsecmd m s = Some (Got (c, m') t)"
  have "parsecmd m2 s = Some (Got (c, nulterminate c m2) t)" "m' = nulterminate c m"
    using parsecmd_agree[OF assms eq] p by auto
  then show "\<exists>m2'. parsecmd m2 s = Some (Got (c, m2') t) \<and> (\<forall>i. s \<le> i \<and> i \<le> s + length xs \<longrightarrow> m2' i = m' i)"
    using eq by (auto simp: nulterminate_at)
qed

theorem parsecmd_terminates_witness:
  "(\<exists>e. parsecmd (arr (str ''(a'')) 0 = Some (Fail e) \<and> parsecmd ((arr (str ''(a''))(5 := 41)) 0 = Some (Fail e)) \<or>
   (\<exists>c m' m2'. parsecmd (arr (str ''(a'')) 0 = Some (Got (c, m') 2) \<and> parsecmd ((arr (str ''(a''))(5 := 41)) 0 = Some (Got (c, m2') 2))"
proof -
  have "cstr_at (arr (str ''(a'')) 0 (str ''(a'')" by (auto simp: cstr_at_nth arr_def str_def)
  note T = parsecmd_terminates[OF this]
  have "\<forall>i. 0 \<le> i \<and> i \<le> 0 + length (str ''(a'') \<longrightarrow> ((arr (str ''(a''))(5 := 41)) i = arr (str ''(a'') i"
    by (simp add: str_def)
  note same = T[THEN conjunct2, THEN spec, THEN mp, OF this]
  have "0 + length (str ''(a'') = 2" by (simp add: str_def)
  with T[THEN conjunct1] same show ?thesis by metis
qed

end
