(* ===== verification/Sh_Roundtrip.thy ===== *)
theory Sh_Roundtrip
  imports Sh_Correct
begin

text \<open>
  The shell's parser builds the command that its line spells: the grammar of command lines, their
  tokens and their meaning, and that \<^verbatim>\<open>parsecmd\<close> returns the meaning of a line from its tokens,
  as strings in memory after \<^verbatim>\<open>nulterminate\<close>.
\<close>

section \<open>Grammar and meaning\<close>

datatype redir = RIn "byte list" | ROut "byte list" | RApp "byte list"

text \<open>
  A line is a pipeline, some ampersands, and perhaps a semicolon and a line; a pipeline is commands
  between bars; a command is a line in parentheses with redirections, or words and redirections.
\<close>

datatype sline = SLine spipe nat "sline option"
  and spipe = SPipe sexec "spipe option"
  and sexec = SBlock sline "redir list" | SSimple "redir list" "(byte list \<times> redir list) list"

text \<open>Commands with their strings: arguments, and file name, open mode and descriptor of a redirection.\<close>

datatype scmd = XExec "byte list list" | XRedir scmd "byte list" nat nat | XPipe scmd scmd | XList scmd scmd | XBack scmd

fun rtoks :: "redir \<Rightarrow> token list" where
  "rtoks (RIn w) = [Sym cLT, Word w]"
| "rtoks (ROut w) = [Sym cGT, Word w]"
| "rtoks (RApp w) = [App, Word w]"

fun rmean :: "redir \<Rightarrow> scmd \<Rightarrow> scmd" where
  "rmean (RIn w) c = XRedir c w O_RDONLY 0"
| "rmean (ROut w) c = XRedir c w (O_WRONLY + O_CREATE + O_TRUNC) 1"
| "rmean (RApp w) c = XRedir c w (O_WRONLY + O_CREATE) 1"

definition rstoks :: "redir list \<Rightarrow> token list" where
  "rstoks rs = concat (map rtoks rs)"

definition atoks :: "(byte list \<times> redir list) list \<Rightarrow> token list" where
  "atoks as = concat (map (\<lambda>(w, rs). Word w # rstoks rs) as)"

primrec ltoks :: "sline \<Rightarrow> token list" and ptoks :: "spipe \<Rightarrow> token list" and etoks :: "sexec \<Rightarrow> token list" where
  "ltoks (SLine p k l) = ptoks p @ replicate k (Sym cAMP) @
     (case map_option ltoks l of None \<Rightarrow> [] | Some ts \<Rightarrow> Sym cSEMI # ts)"
| "ptoks (SPipe e p) = etoks e @ (case map_option ptoks p of None \<Rightarrow> [] | Some ts \<Rightarrow> Sym cBAR # ts)"
| "etoks (SBlock l rs) = Sym cLP # ltoks l @ Sym cRP # rstoks rs"
| "etoks (SSimple rs as) = rstoks rs @ atoks as"

primrec lmean :: "sline \<Rightarrow> scmd" and pmean :: "spipe \<Rightarrow> scmd" and emean :: "sexec \<Rightarrow> scmd" where
  "lmean (SLine p k l) =
     (let c = (XBack ^^ k) (pmean p) in case map_option lmean l of None \<Rightarrow> c | Some r \<Rightarrow> XList c r)"
| "pmean (SPipe e p) = (case map_option pmean p of None \<Rightarrow> emean e | Some r \<Rightarrow> XPipe (emean e) r)"
| "emean (SBlock l rs) = fold rmean rs (lmean l)"
| "emean (SSimple rs as) = fold rmean (rs @ concat (map snd as)) (XExec (map fst as))"

text \<open>No command has more arguments than fit.\<close>

primrec lwf :: "sline \<Rightarrow> bool" and pwf :: "spipe \<Rightarrow> bool" and ewf :: "sexec \<Rightarrow> bool" where
  "lwf (SLine p k l) \<longleftrightarrow> pwf p \<and> (case map_option lwf l of None \<Rightarrow> True | Some b \<Rightarrow> b)"
| "pwf (SPipe e p) \<longleftrightarrow> ewf e \<and> (case map_option pwf p of None \<Rightarrow> True | Some b \<Rightarrow> b)"
| "ewf (SBlock l rs) \<longleftrightarrow> lwf l"
| "ewf (SSimple rs as) \<longleftrightarrow> length as < MAXARGS"

text \<open>The strings of a parsed command.\<close>

primrec decode :: "bytes \<Rightarrow> cmd \<Rightarrow> scmd" where
  "decode m (EXEC as) = XExec (map (\<lambda>(q, e). seg m q e) as)"
| "decode m (REDIR c f e md fd) = XRedir (decode m c) (seg m f e) md fd"
| "decode m (PIPE l r) = XPipe (decode m l) (decode m r)"
| "decode m (LIST l r) = XList (decode m l) (decode m r)"
| "decode m (BACK c) = XBack (decode m c)"

primrec spans :: "cmd \<Rightarrow> (nat \<times> nat) set" where
  "spans (EXEC as) = set as"
| "spans (REDIR c f e md fd) = insert (f, e) (spans c)"
| "spans (PIPE l r) = spans l \<union> spans r"
| "spans (LIST l r) = spans l \<union> spans r"
| "spans (BACK c) = spans c"

text \<open>The strings are words of the line.\<close>

definition span_ok :: "bytes \<Rightarrow> nat \<Rightarrow> nat \<times> nat \<Rightarrow> bool" where
  "span_ok m es = (\<lambda>(q, e). q < e \<and> e \<le> es \<and> (\<forall>x\<in>set (seg m q e). wordch x \<and> x \<noteq> 0) \<and> (e = es \<or> \<not> wordch (m e)))"

definition cmd_ok :: "bytes \<Rightarrow> nat \<Rightarrow> cmd \<Rightarrow> bool" where
  "cmd_ok m es c \<longleftrightarrow> (\<forall>p\<in>spans c. span_ok m es p)"

section \<open>Parsing the tokens of a line\<close>

definition parsed :: "bytes \<Rightarrow> nat \<Rightarrow> token list \<Rightarrow> scmd \<Rightarrow> cmd parse \<Rightarrow> bool" where
  "parsed m es k v r \<longleftrightarrow> r = Stuck \<or>
     (\<exists>c s. r = Got c s \<and> line_at m s es \<and> tokens (seg m s es) = k \<and> cmd_ok m es c \<and> decode m c = v)"

lemma parsed_Stuck [simp]: "parsed m es k v Stuck"
  by (simp add: parsed_def)

lemma parsed_Got: "line_at m s es \<Longrightarrow> tokens (seg m s es) = k \<Longrightarrow> cmd_ok m es c \<Longrightarrow> decode m c = v \<Longrightarrow> parsed m es k v (Got c s)"
  by (simp add: parsed_def)

lemma parsed_bind:
  assumes "parsed m es k v r"
    and "\<And>c s. line_at m s es \<Longrightarrow> tokens (seg m s es) = k \<Longrightarrow> cmd_ok m es c \<Longrightarrow> decode m c = v \<Longrightarrow> parsed m es k' v' (f c s)"
  shows "parsed m es k' v' (pbind r f)"
  using assms by (auto simp: parsed_def[of m es k])

lemma peek_no:
  assumes "line_at m s es" "set (str toks) \<subseteq> set symbols" "\<not> starts (tokens (seg m s es)) (set (str toks))"
  obtains s' where "peek m s es toks = (False, s')" "line_at m s' es" "tokens (seg m s' es) = tokens (seg m s es)"
  using peekE[OF assms(1,2)] assms(3) by metis

lemma peek_yes:
  assumes "line_at m s es" "set (str toks) \<subseteq> set symbols" "tokens (seg m s es) = t # ts" "starts (t # ts) (set (str toks))"
  obtains s1 q e s2 where "peek m s es toks = (True, s1)" "gettoken m s1 es = (tok_code t, q, e, s2)" "line_at m s2 es"
    "tokens (seg m s2 es) = ts"
proof -
  obtain s1 where p: "peek m s es toks = (starts (tokens (seg m s es)) (set (str toks)), s1)" "s \<le> s1" "line_at m s1 es"
    "tokens (seg m s1 es) = tokens (seg m s es)" by (rule peekE[OF assms(1,2)])
  have "got_token m s1 es t ts" by (rule gettoken_token[OF p(3)]) (simp add: p(4) assms(3))
  then show thesis using that p(1) assms(3,4) by (auto simp: got_token_def)
qed

lemma word_subset: "tokens xs = Word w # ts \<Longrightarrow> set w \<subseteq> set xs"
proof -
  assume "tokens xs = Word w # ts"
  then obtain c cs where c: "dropWhile is_ws xs = c # cs" "w = takeWhile wordch (c # cs)"
    by (subst (asm) tokens.simps) (auto split: list.splits if_splits)
  have "set w \<subseteq> set (dropWhile is_ws xs)" unfolding c by (meson set_takeWhileD subsetI)
  then show ?thesis by (meson set_dropWhileD subset_iff)
qed

lemma word_token:
  assumes "line_at m s es" "tokens (seg m s es) = Word w # ts"
  obtains q e s2 where "gettoken m s es = (cWORD, q, e, s2)" "line_at m s2 es" "tokens (seg m s2 es) = ts"
    "seg m q e = w" "span_ok m es (q, e)"
proof -
  have z: "0 \<notin> set w" using word_subset[OF assms(2)] assms(1) by (auto simp: line_at_def)
  from gettoken_token[OF assms] obtain q e s2 where g: "gettoken m s es = (cWORD, q, e, s2)" "line_at m s2 es"
    "tokens (seg m s2 es) = ts" "q < e" "e \<le> es" "seg m q e = w" "\<forall>x\<in>set w. wordch x" "e = es \<or> \<not> wordch (m e)"
    by (auto simp: got_token_def)
  have "span_ok m es (q, e)" unfolding span_ok_def split g(6) using g(4,5,7,8) z by blast
  with g show thesis by (intro that)
qed

lemma cmd_ok_REDIR:
  "cmd_ok m es (REDIR c q e md fd) \<longleftrightarrow> cmd_ok m es c \<and> span_ok m es (q, e)"
  by (auto simp: cmd_ok_def)

lemma starts_str [simp]:
  "set (str ''<>'') = {cLT, cGT}" "set (str ''|)&;'') = {cBAR, cRP, cAMP, cSEMI}" "set (str ''&'') = {cAMP}"
  "set (str '';'') = {cSEMI}" "set (str ''|'') = {cBAR}" "set (str ''('') = {cLP}" "set (str '')'') = {cRP}"
  by (auto simp: str_def)

lemma redirs_parsed:
  assumes "line_at m s es" "tokens (seg m s es) = rstoks rs @ k" "\<not> starts k {cLT, cGT}" "cmd_ok m es c"
  shows "parsed m es k (fold rmean rs (decode m c)) (parseredirs n m c s es)"
  using assms
proof (induction n arbitrary: c s rs)
  case (Suc n)
  show ?case
  proof (cases rs)
    case Nil
    then have "tokens (seg m s es) = k" using Suc.prems(2) by (simp add: rstoks_def)
    then have "\<not> starts (tokens (seg m s es)) (set (str ''<>''))" using Suc.prems(3) by simp
    then obtain s1 where "peek m s es ''<>'' = (False, s1)" "line_at m s1 es" "tokens (seg m s1 es) = k"
      by (rule peek_no[OF Suc.prems(1) toks_symbols(1)]) (simp add: \<open>tokens (seg m s es) = k\<close>)
    then show ?thesis using Nil Suc.prems(4) by (simp add: parsed_Got)
  next
    case (Cons r rs')
    obtain t w where r: "rtoks r = [t, Word w]" "starts (t # ts) (set (str ''<>''))" for ts by (cases r) auto
    have tk: "tokens (seg m s es) = t # (Word w # rstoks rs' @ k)" using Suc.prems(2) Cons r(1) by (simp add: rstoks_def)
    obtain s1 q1 e1 s2 where p: "peek m s es ''<>'' = (True, s1)" "gettoken m s1 es = (tok_code t, q1, e1, s2)" "line_at m s2 es"
      "tokens (seg m s2 es) = Word w # rstoks rs' @ k" by (rule peek_yes[OF Suc.prems(1) toks_symbols(1) tk r(2)])
    obtain q e s3 where g: "gettoken m s2 es = (cWORD, q, e, s3)" "line_at m s3 es" "tokens (seg m s3 es) = rstoks rs' @ k"
      "seg m q e = w" "span_ok m es (q, e)"
      by (rule word_token[OF p(3,4)])
    define c' where "c' = (if tok_code t = cLT then REDIR c q e O_RDONLY 0
           else if tok_code t = cGT then REDIR c q e (O_WRONLY + O_CREATE + O_TRUNC) 1
           else if tok_code t = cAPP then REDIR c q e (O_WRONLY + O_CREATE) 1 else c)"
    have c': "decode m c' = rmean r (decode m c)" "cmd_ok m es c'"
    proof -
      have ok: "cmd_ok m es (REDIR c q e md fd)" for md fd using Suc.prems(4) g(5) unfolding cmd_ok_REDIR by blast
      consider "r = RIn w" "t = Sym cLT" | "r = ROut w" "t = Sym cGT" | "r = RApp w" "t = App" using r(1) by (cases r) auto
      then show "decode m c' = rmean r (decode m c)" "cmd_ok m es c'"
        by (cases; simp add: c'_def ok g(4))+
    qed
    have "parseredirs (Suc n) m c s es = parseredirs n m c' s3 es" using p(1,2) g(1) by (simp add: c'_def)
    then show ?thesis using Suc.IH[OF g(2,3) Suc.prems(3) c'(2)] by (simp add: Cons c'(1))
  qed
qed simp

text \<open>An argument goes into the command below the redirections.\<close>

fun xadd :: "byte list \<Rightarrow> scmd \<Rightarrow> scmd" where
  "xadd w (XExec as) = XExec (as @ [w])"
| "xadd w (XRedir c f md fd) = XRedir (xadd w c) f md fd"
| "xadd w c = c"

lemma decode_add_arg: "decode m (add_arg q e c) = xadd (seg m q e) (decode m c)"
  by (induction c) auto

lemma spans_add_arg: "spans (add_arg q e c) \<subseteq> insert (q, e) (spans c)"
  by (induction c) auto

lemma cmd_ok_add_arg:
  assumes "cmd_ok m es c" "span_ok m es (q, e)"
  shows "cmd_ok m es (add_arg q e c)"
  using assms spans_add_arg[of q e c] unfolding cmd_ok_def by blast

lemma xadd_rmean: "xadd w (rmean r c) = rmean r (xadd w c)"
  by (cases r) auto

lemma xadd_fold: "xadd w (fold rmean rs c) = fold rmean rs (xadd w c)"
  by (induction rs arbitrary: c) (simp_all add: xadd_rmean)

definition add_args :: "(byte list \<times> redir list) list \<Rightarrow> scmd \<Rightarrow> scmd" where
  "add_args as c = fold (\<lambda>(w, rs) c. fold rmean rs (xadd w c)) as c"

lemma add_args_mean: "add_args as (fold rmean rs (XExec ws)) = fold rmean (rs @ concat (map snd as)) (XExec (ws @ map fst as))"
proof (induction as arbitrary: rs ws)
  case (Cons a as)
  obtain w r where a: "a = (w, r)" by (cases a)
  have "add_args (a # as) (fold rmean rs (XExec ws)) = add_args as (fold rmean (rs @ r) (XExec (ws @ [w])))"
    by (simp add: add_args_def a xadd_fold)
  also have "\<dots> = fold rmean ((rs @ r) @ concat (map snd as)) (XExec ((ws @ [w]) @ map fst as))" by (rule Cons.IH)
  finally show ?case by (simp add: a)
qed (simp add: add_args_def)

lemma follow_other: "k = [] \<or> starts k S \<Longrightarrow> S \<inter> R = {} \<Longrightarrow> \<not> starts k R"
  by (cases k; cases "hd k") auto

lemma args_parsed:
  assumes "line_at m s es" "tokens (seg m s es) = atoks as @ k" "k = [] \<or> starts k {cBAR, cRP, cAMP, cSEMI}"
    "cmd_ok m es c" "argc + length as < MAXARGS"
  shows "parsed m es k (add_args as (decode m c)) (parseargs n m c argc s es)"
  using assms
proof (induction n arbitrary: c s as argc)
  case (Suc n)
  show ?case
  proof (cases as)
    case Nil
    then have k: "tokens (seg m s es) = k" using Suc.prems(2) by (simp add: atoks_def)
    obtain s1 where p: "peek m s es ''|)&;'' = (starts k {cBAR, cRP, cAMP, cSEMI}, s1)" "line_at m s1 es" "tokens (seg m s1 es) = k"
      by (rule peekE[OF Suc.prems(1) toks_symbols(2)]) (simp add: k)
    show ?thesis
    proof (cases "k = []")
      case True
      have "gettoken m s1 es = (0, es, es, es)" by (rule gettoken_end[OF p(2)]) (simp add: p(3) True)
      moreover have "line_at m es es" "tokens (seg m es es) = k"
        using Suc.prems(1) True by (simp_all add: line_at_def tokens.simps[of "[]"])
      ultimately show ?thesis using Suc.prems(4) p(1) True by (simp add: Nil add_args_def parsed_Got)
    next
      case False
      then show ?thesis using Suc.prems(3,4) p by (simp add: Nil add_args_def parsed_Got)
    qed
  next
    case (Cons a as')
    obtain w rs where a: "a = (w, rs)" by (cases a)
    have tk: "tokens (seg m s es) = Word w # (rstoks rs @ atoks as' @ k)" using Suc.prems(2) by (simp add: Cons a atoks_def)
    obtain s1 where p: "peek m s es ''|)&;'' = (False, s1)" "line_at m s1 es" "tokens (seg m s1 es) = Word w # (rstoks rs @ atoks as' @ k)"
      by (rule peek_no[OF Suc.prems(1) toks_symbols(2)]) (simp_all add: tk)
    obtain q e s2 where g: "gettoken m s1 es = (cWORD, q, e, s2)" "line_at m s2 es" "tokens (seg m s2 es) = rstoks rs @ atoks as' @ k"
      "seg m q e = w" "span_ok m es (q, e)"
      by (rule word_token[OF p(2,3)])
    have f: "\<not> starts (atoks as' @ k) {cLT, cGT}"
      using follow_other[OF Suc.prems(3), of "{cLT, cGT}"] by (cases as') (auto simp: atoks_def)
    have "parseargs (Suc n) m c argc s es =
        pbind (parseredirs n m (add_arg q e c) s2 es) (\<lambda>ret s. parseargs n m ret (argc + 1) s es)"
      using p(1) g(1) Suc.prems(5) by (simp add: Cons)
    moreover have "parsed m es k (add_args as (decode m c))
        (pbind (parseredirs n m (add_arg q e c) s2 es) (\<lambda>ret s. parseargs n m ret (argc + 1) s es))"
    proof (rule parsed_bind[OF redirs_parsed[OF g(2,3) f cmd_ok_add_arg[OF Suc.prems(4) g(5)]]])
      fix c1 s3 assume c1: "line_at m s3 es" "tokens (seg m s3 es) = atoks as' @ k" "cmd_ok m es c1"
        "decode m c1 = fold rmean rs (decode m (add_arg q e c))"
      have "parsed m es k (add_args as' (decode m c1)) (parseargs n m c1 (argc + 1) s3 es)"
        by (rule Suc.IH[OF c1(1,2) Suc.prems(3) c1(3)]) (use Suc.prems(5) in \<open>simp add: Cons\<close>)
      then show "parsed m es k (add_args as (decode m c)) (parseargs n m c1 (argc + 1) s3 es)"
        by (simp add: Cons a add_args_def c1(4) decode_add_arg g(4))
    qed
    ultimately show ?thesis by simp
  qed
qed simp

lemma back_parsed:
  assumes "line_at m s es" "tokens (seg m s es) = replicate j (Sym cAMP) @ k" "\<not> starts k {cAMP}" "cmd_ok m es c"
  shows "parsed m es k ((XBack ^^ j) (decode m c)) (parseback n m c s es)"
  using assms
proof (induction n arbitrary: c s j)
  case (Suc n)
  show ?case
  proof (cases j)
    case 0
    then have k: "tokens (seg m s es) = k" using Suc.prems(2) by simp
    obtain s1 where "peek m s es ''&'' = (False, s1)" "line_at m s1 es" "tokens (seg m s1 es) = k"
      by (rule peek_no[OF Suc.prems(1) toks_symbols(3)]) (use Suc.prems(3) k in simp_all)
    then show ?thesis using 0 Suc.prems(4) by (simp add: parsed_Got)
  next
    case (Suc i)
    have tk: "tokens (seg m s es) = Sym cAMP # (replicate i (Sym cAMP) @ k)" using Suc.prems(2) Suc by simp
    obtain s1 q e s2 where p: "peek m s es ''&'' = (True, s1)" "gettoken m s1 es = (tok_code (Sym cAMP), q, e, s2)" "line_at m s2 es"
      "tokens (seg m s2 es) = replicate i (Sym cAMP) @ k" by (rule peek_yes[OF Suc.prems(1) toks_symbols(3) tk]) simp
    have "cmd_ok m es (BACK c)" using Suc.prems(4) by (simp add: cmd_ok_def)
    from Suc.IH[OF p(3,4) Suc.prems(3) this] show ?thesis using p(1,2) by (simp add: Suc funpow_swap1)
  qed
qed simp

lemma cmd_ok_simps [simp]:
  "cmd_ok m es (PIPE l r) \<longleftrightarrow> cmd_ok m es l \<and> cmd_ok m es r" "cmd_ok m es (LIST l r) \<longleftrightarrow> cmd_ok m es l \<and> cmd_ok m es r"
  "cmd_ok m es (BACK c) \<longleftrightarrow> cmd_ok m es c" "cmd_ok m es (EXEC [])"
  by (auto simp: cmd_ok_def)

lemma simple_no_paren:
  assumes "k = [] \<or> starts k {cBAR, cRP, cAMP, cSEMI}"
  shows "\<not> starts (rstoks rs @ atoks as @ k) {cLP}"
proof (cases rs)
  case Nil
  then show ?thesis using follow_other[OF assms, of "{cLP}"] by (cases as) (auto simp: rstoks_def atoks_def)
next
  case (Cons r rs')
  then show ?thesis by (cases r) (auto simp: rstoks_def)
qed

text \<open>A symbol and what follows it, or no symbol.\<close>

lemma optional_parsed:
  assumes l: "line_at m s es" and toks: "set (str [x]) \<subseteq> set symbols"
    and t: "tokens (seg m s es) = (case ts of None \<Rightarrow> [] | Some u \<Rightarrow> Sym (ch x) # u) @ k" and f: "\<not> starts k {ch x}"
    and some: "\<And>u s'. ts = Some u \<Longrightarrow> line_at m s' es \<Longrightarrow> tokens (seg m s' es) = u @ k \<Longrightarrow> parsed m es k v (g s')"
    and none: "\<And>s'. ts = None \<Longrightarrow> line_at m s' es \<Longrightarrow> tokens (seg m s' es) = k \<Longrightarrow> parsed m es k v (h s')"
  shows "parsed m es k v (let (b, s) = peek m s es [x] in if b then let (_, _, _, s) = gettoken m s es in g s else h s)"
proof (cases ts)
  case None
  obtain s1 where "peek m s es [x] = (False, s1)" "line_at m s1 es" "tokens (seg m s1 es) = k"
    by (rule peek_no[OF l toks]) (use t f None in \<open>simp_all add: str_def\<close>)
  then show ?thesis using none[OF None] by simp
next
  case (Some u)
  then have tk: "tokens (seg m s es) = Sym (ch x) # (u @ k)" using t by simp
  obtain s1 q e s2 where "peek m s es [x] = (True, s1)" "gettoken m s1 es = (tok_code (Sym (ch x)), q, e, s2)" "line_at m s2 es"
    "tokens (seg m s2 es) = u @ k" by (rule peek_yes[OF l toks tk]) (simp add: str_def)
  then show ?thesis using some[OF Some] by simp
qed

lemma parse_parsed:
  "line_at m s es \<Longrightarrow> lwf l \<Longrightarrow> tokens (seg m s es) = ltoks l @ k \<Longrightarrow> k = [] \<or> starts k {cRP} \<Longrightarrow>
     parsed m es k (lmean l) (parseline n m s es)"
  "line_at m s es \<Longrightarrow> pwf p \<Longrightarrow> tokens (seg m s es) = ptoks p @ k \<Longrightarrow> k = [] \<or> starts k {cRP, cAMP, cSEMI} \<Longrightarrow>
     parsed m es k (pmean p) (parsepipe n m s es)"
  "line_at m s es \<Longrightarrow> ewf e \<Longrightarrow> tokens (seg m s es) = etoks e @ k \<Longrightarrow> k = [] \<or> starts k {cBAR, cRP, cAMP, cSEMI} \<Longrightarrow>
     parsed m es k (emean e) (parseexec n m s es)"
  "line_at m s es \<Longrightarrow> lwf l \<Longrightarrow> tokens (seg m s es) = etoks (SBlock l rs) @ k \<Longrightarrow> k = [] \<or> starts k {cBAR, cRP, cAMP, cSEMI} \<Longrightarrow>
     parsed m es k (emean (SBlock l rs)) (parseblock n m s es)"
proof (induction n arbitrary: s l p e rs k)
  case 0
  { case 1 show ?case by (simp add: parseline.simps)
  next case 2 show ?case by (simp add: parsepipe.simps)
  next case 3 show ?case by (simp add: parseexec.simps)
  next case 4 show ?case by (simp add: parseblock.simps) }
next
  case (Suc n)
  {
    case 1
    obtain p j nx where l: "l = SLine p j nx" by (cases l)
    define k2 where "k2 = (case map_option ltoks nx of None \<Rightarrow> [] | Some ts \<Rightarrow> Sym cSEMI # ts) @ k"
    have f2: "k2 = [] \<or> starts k2 {cRP, cSEMI}" using 1(4) by (cases nx; cases k; cases "hd k") (auto simp: k2_def)
    have f1: "replicate j (Sym cAMP) @ k2 = [] \<or> starts (replicate j (Sym cAMP) @ k2) {cRP, cAMP, cSEMI}"
      using f2 by (cases j; cases k2; cases "hd k2") auto
    have t: "tokens (seg m s es) = ptoks p @ (replicate j (Sym cAMP) @ k2)" "pwf p" using 1(2,3) by (simp_all add: l k2_def)
    show ?case
      unfolding parseline.simps
    proof (rule parsed_bind[OF Suc.IH(2)[OF 1(1) t(2,1) f1]], rule parsed_bind[OF back_parsed])
      fix c1 s1 assume "line_at m s1 es" "tokens (seg m s1 es) = replicate j (Sym cAMP) @ k2" "cmd_ok m es c1"
      then show "line_at m s1 es" "tokens (seg m s1 es) = replicate j (Sym cAMP) @ k2" "cmd_ok m es c1" by simp_all
      show "\<not> starts k2 {cAMP}" using follow_other[OF f2] by simp
    next
      fix c1 s1 c2 s2 assume c1: "decode m c1 = pmean p" and c2: "line_at m s2 es" "tokens (seg m s2 es) = k2" "cmd_ok m es c2"
        "decode m c2 = (XBack ^^ j) (decode m c1)"
      show "parsed m es k (lmean l) (let (b, s) = peek m s2 es '';'' in if b then let (_, _, _, s) = gettoken m s es in
          pbind (parseline n m s es) (\<lambda>r s. Got (LIST c2 r) s) else Got c2 s)"
      proof (rule optional_parsed[OF c2(1) toks_symbols(4), where ts = "map_option ltoks nx"])
        show "tokens (seg m s2 es) = (case map_option ltoks nx of None \<Rightarrow> [] | Some u \<Rightarrow> Sym cSEMI # u) @ k" using c2(2) by (simp add: k2_def)
        show "\<not> starts k {cSEMI}" using follow_other[OF 1(4)] by simp
        fix s3 assume s3: "line_at m s3 es"
        show "parsed m es k (lmean l) (Got c2 s3)" if "map_option ltoks nx = None" "tokens (seg m s3 es) = k"
          using that s3 c1 c2(3,4) by (intro parsed_Got) (auto simp: l)
        fix u assume u: "map_option ltoks nx = Some u" "tokens (seg m s3 es) = u @ k"
        then obtain l' where l': "nx = Some l'" "u = ltoks l'" by auto
        have "parsed m es k (lmean l') (parseline n m s3 es)"
          by (rule Suc.IH(1)[OF s3 _ _ 1(4)]) (use 1(2) u l' in \<open>simp_all add: l\<close>)
        then show "parsed m es k (lmean l) (pbind (parseline n m s3 es) (\<lambda>r s. Got (LIST c2 r) s))"
          by (rule parsed_bind) (use c1 c2(3,4) in \<open>auto intro!: parsed_Got simp: l l'\<close>)
      qed
    qed
  next
    case 2
    obtain e nx where p: "p = SPipe e nx" by (cases p)
    define k2 where "k2 = (case map_option ptoks nx of None \<Rightarrow> [] | Some ts \<Rightarrow> Sym cBAR # ts) @ k"
    have f2: "k2 = [] \<or> starts k2 {cBAR, cRP, cAMP, cSEMI}" using 2(4) by (cases nx; cases k; cases "hd k") (auto simp: k2_def)
    have t: "tokens (seg m s es) = etoks e @ k2" "ewf e" using 2(2,3) by (simp_all add: p k2_def)
    show ?case
      unfolding parsepipe.simps
    proof (rule parsed_bind[OF Suc.IH(3)[OF 2(1) t(2,1) f2]])
      fix c2 s2 assume c2: "line_at m s2 es" "tokens (seg m s2 es) = k2" "cmd_ok m es c2" "decode m c2 = emean e"
      show "parsed m es k (pmean p) (let (b, s) = peek m s2 es ''|'' in if b then let (_, _, _, s) = gettoken m s es in
          pbind (parsepipe n m s es) (\<lambda>r s. Got (PIPE c2 r) s) else Got c2 s)"
      proof (rule optional_parsed[OF c2(1) toks_symbols(5), where ts = "map_option ptoks nx"])
        show "tokens (seg m s2 es) = (case map_option ptoks nx of None \<Rightarrow> [] | Some u \<Rightarrow> Sym cBAR # u) @ k" using c2(2) by (simp add: k2_def)
        show "\<not> starts k {cBAR}" using follow_other[OF 2(4)] by simp
        fix s3 assume s3: "line_at m s3 es"
        show "parsed m es k (pmean p) (Got c2 s3)" if "map_option ptoks nx = None" "tokens (seg m s3 es) = k"
          using that s3 c2(3,4) by (intro parsed_Got) (auto simp: p)
        fix u assume u: "map_option ptoks nx = Some u" "tokens (seg m s3 es) = u @ k"
        then obtain p' where p': "nx = Some p'" "u = ptoks p'" by auto
        have "parsed m es k (pmean p') (parsepipe n m s3 es)"
          by (rule Suc.IH(2)[OF s3 _ _ 2(4)]) (use 2(2) u p' in \<open>simp_all add: p\<close>)
        then show "parsed m es k (pmean p) (pbind (parsepipe n m s3 es) (\<lambda>r s. Got (PIPE c2 r) s))"
          by (rule parsed_bind) (use c2(3,4) in \<open>auto intro!: parsed_Got simp: p p'\<close>)
      qed
    qed
  next
    case 3
    show ?case
    proof (cases e)
      case (SBlock l rs)
      then have tk: "tokens (seg m s es) = Sym cLP # (ltoks l @ Sym cRP # rstoks rs @ k)" using 3(3) by simp
      obtain s1 where p: "peek m s es ''('' = (True, s1)" "line_at m s1 es" "tokens (seg m s1 es) = tokens (seg m s es)"
        by (rule peekE[OF 3(1) toks_symbols(6)]) (simp add: tk)
      have "parsed m es k (emean (SBlock l rs)) (parseblock n m s1 es)"
        by (rule Suc.IH(4)[OF p(2) _ _ 3(4)]) (use 3(2) p(3) tk in \<open>simp_all add: SBlock\<close>)
      then show ?thesis using p(1) by (simp add: parseexec.simps SBlock)
    next
      case (SSimple rs as)
      then have tk: "tokens (seg m s es) = rstoks rs @ (atoks as @ k)" using 3(3) by simp
      obtain s1 where p: "peek m s es ''('' = (False, s1)" "line_at m s1 es" "tokens (seg m s1 es) = rstoks rs @ (atoks as @ k)"
        by (rule peek_no[OF 3(1) toks_symbols(6)]) (use simple_no_paren[OF 3(4)] tk in simp_all)
      have f: "\<not> starts (atoks as @ k) {cLT, cGT}"
        using follow_other[OF 3(4), of "{cLT, cGT}"] by (cases as) (auto simp: atoks_def)
      have "parsed m es k (emean e) (pbind (parseredirs n m (EXEC []) s1 es) (\<lambda>ret s. parseargs n m ret 0 s es))"
      proof (rule parsed_bind[OF redirs_parsed[OF p(2,3) f]])
        fix c2 s2 assume c2: "line_at m s2 es" "tokens (seg m s2 es) = atoks as @ k" "cmd_ok m es c2"
          "decode m c2 = fold rmean rs (decode m (EXEC []))"
        have "parsed m es k (add_args as (decode m c2)) (parseargs n m c2 0 s2 es)"
          by (rule args_parsed[OF c2(1,2) 3(4) c2(3)]) (use 3(2) in \<open>simp add: SSimple\<close>)
        then show "parsed m es k (emean e) (parseargs n m c2 0 s2 es)"
          using add_args_mean[of as rs "[]"] by (simp add: c2(4) SSimple)
      qed simp
      then show ?thesis using p(1) by (simp add: parseexec.simps)
    qed
  next
    case 4
    have tk: "tokens (seg m s es) = Sym cLP # (ltoks l @ Sym cRP # rstoks rs @ k)" using 4(3) by simp
    obtain s1 q e s2 where p: "peek m s es ''('' = (True, s1)" "gettoken m s1 es = (tok_code (Sym cLP), q, e, s2)" "line_at m s2 es"
      "tokens (seg m s2 es) = ltoks l @ Sym cRP # rstoks rs @ k" by (rule peek_yes[OF 4(1) toks_symbols(6) tk]) simp
    have "parsed m es k (emean (SBlock l rs)) (pbind (parseline n m s2 es) (\<lambda>c s. let (b, s) = peek m s es '')'' in
          if \<not> b then Fail ''syntax - missing )'' else let (_, _, _, s) = gettoken m s es in parseredirs n m c s es))"
    proof (rule parsed_bind[OF Suc.IH(1)[OF p(3) 4(2) p(4)]])
      fix c3 s3 assume c3: "line_at m s3 es" "tokens (seg m s3 es) = Sym cRP # rstoks rs @ k" "cmd_ok m es c3" "decode m c3 = lmean l"
      obtain s4 q e s5 where r: "peek m s3 es '')'' = (True, s4)" "gettoken m s4 es = (tok_code (Sym cRP), q, e, s5)" "line_at m s5 es"
        "tokens (seg m s5 es) = rstoks rs @ k" by (rule peek_yes[OF c3(1) toks_symbols(7) c3(2)]) simp
      have "parsed m es k (fold rmean rs (decode m c3)) (parseredirs n m c3 s5 es)"
        by (rule redirs_parsed[OF r(3,4) _ c3(3)]) (use follow_other[OF 4(4), of "{cLT, cGT}"] in simp)
      then show "parsed m es k (emean (SBlock l rs)) (let (b, s) = peek m s3 es '')'' in
          if \<not> b then Fail ''syntax - missing )'' else let (_, _, _, s) = gettoken m s es in parseredirs n m c3 s es)"
        using r(1,2) by (simp add: c3(4))
    qed simp
    then show ?case using p(1,2) by (simp add: parseblock.simps)
  }
qed

section \<open>The strings of the command\<close>

text \<open>
  \<^verbatim>\<open>nulterminate\<close> puts a null byte after every word, and no word loses a character: the byte
  after a word is the end of the line, white space or a symbol.
\<close>

lemma fold_nul: "fold (\<lambda>(q, e) m. m(e := 0)) as m x = (if x \<in> snd ` set as then 0 else m x)"
  by (induction as arbitrary: m) auto

lemma nulterminate_eq: "nulterminate c m x = (if x \<in> snd ` spans c then 0 else m x)"
  by (induction c arbitrary: m) (auto simp: fold_nul)

text \<open>The command \<open>v\<close>, read from memory as null-terminated strings.\<close>

fun reads :: "bytes \<Rightarrow> cmd \<Rightarrow> scmd \<Rightarrow> bool" where
  "reads m (EXEC as) (XExec ws) \<longleftrightarrow> list_all2 (\<lambda>(q, e) w. cstr_at m q w) as ws"
| "reads m (REDIR c f e md fd) (XRedir v w md' fd') \<longleftrightarrow> reads m c v \<and> cstr_at m f w \<and> md' = md \<and> fd' = fd"
| "reads m (PIPE l r) (XPipe v w) \<longleftrightarrow> reads m l v \<and> reads m r w"
| "reads m (LIST l r) (XList v w) \<longleftrightarrow> reads m l v \<and> reads m r w"
| "reads m (BACK c) (XBack v) \<longleftrightarrow> reads m c v"
| "reads m _ _ \<longleftrightarrow> False"

lemma reads_decode: "(\<And>q e. (q, e) \<in> spans c \<Longrightarrow> cstr_at m' q (seg m q e)) \<Longrightarrow> reads m' c (decode m c)"
proof (induction c)
  case (EXEC as)
  then show ?case by (induction as) auto
qed auto

lemma terminated_word:
  assumes ok: "cmd_ok m es c" and es: "m es = 0" and p: "(q, e) \<in> spans c"
  shows "cstr_at (nulterminate c m) q (seg m q e)"
proof -
  have s: "q < e" "e \<le> es" "\<forall>x\<in>set (seg m q e). wordch x \<and> x \<noteq> 0"
    using ok p by (auto simp: cmd_ok_def span_ok_def)
  have in_seg: "m (q + i) \<in> set (seg m q e)" if "i < e - q" for i using that by (auto simp: seg_def)
  have "q + i \<notin> snd ` spans c" if i: "i < e - q" for i
  proof
    assume "q + i \<in> snd ` spans c"
    then obtain q' where "(q', q + i) \<in> spans c" by auto
    then have "q + i = es \<or> \<not> wordch (m (q + i))" using ok by (auto simp: cmd_ok_def span_ok_def)
    moreover have "wordch (m (q + i))" using s(3) in_seg[OF i] by blast
    moreover have "q + i \<noteq> es" using s(2) i by linarith
    ultimately show False by blast
  qed
  moreover have "e \<in> snd ` spans c" using p by force
  moreover have "seg m q e ! i = m (q + i)" if "i < e - q" for i using that by (simp add: seg_def)
  ultimately show ?thesis using s in_seg by (auto simp: cstr_at_nth nulterminate_eq)
qed

lemma parse_line_reads:
  assumes "cstr_at m s xs" "tokens xs = ltoks l" "lwf l"
  shows "\<exists>c m'. parsecmd m s = Some (Got (c, m') (s + length xs)) \<and> reads m' c (lmean l)"
proof -
  let ?es = "s + length xs"
  have xs: "seg m s ?es = xs" using assms(1) by (intro nth_equalityI) (auto simp: seg_def cstr_at_nth)
  then have l: "line_at m s ?es" using assms(1) by (auto simp: line_at_def cstr_at_nth)
  let ?r = "parseline (4 * length xs + 4) m s ?es"
  have "fine m s ?es ?r" by (rule parse_fine(1)[OF l]) simp
  moreover have "parsed m ?es [] (lmean l) ?r" by (rule parse_parsed(1)[OF l assms(3)]) (simp_all add: xs assms(2))
  ultimately obtain c s1 where c: "?r = Got c s1" "line_at m s1 ?es" "tokens (seg m s1 ?es) = []" "cmd_ok m ?es c"
    "decode m c = lmean l" by (auto simp: parsed_def fine_def)
  have "dropWhile is_ws (seg m s1 ?es) = []" using c(3) by (subst (asm) tokens.simps) (auto split: list.splits if_splits)
  then have "skip_while is_ws m s1 ?es = ?es"
    using skip_while_seg[OF c(2), of is_ws] by (metis seg_simps(2) diff_is_0_eq le_antisym list.size(3))
  then have "parsecmd m s = Some (Got (c, nulterminate c m) ?es)"
    using ulib_strlen_cstr[OF assms(1)] c(1) by (simp add: parsecmd_def peek_def Let_def)
  moreover have "reads (nulterminate c m) c (decode m c)"
    by (rule reads_decode, rule terminated_word[OF c(4)]) (use l in \<open>simp_all add: line_at_def\<close>)
  ultimately show ?thesis by (auto simp: c(5))
qed

text \<open>
  C32. The shell parses what a line spells: if the tokens of a null-terminated line, however it is spaced, are
  those of a command with fewer than \<^verbatim>\<open>MAXARGS\<close> arguments in each part, then \<^verbatim>\<open>parsecmd\<close> returns that
  command, with the structure of lists, background marks, pipelines, blocks and redirections and with every
  argument and file name as a null-terminated string.
\<close>

theorem parsecmd_correct:
  assumes "cstr_at m s xs" "tokens xs = ltoks l" "lwf l"
  shows "\<exists>c m'. parsecmd m s = Some (Got (c, m') (s + length xs)) \<and> reads m' c (lmean l)"
  using parse_line_reads[OF assms] .

text \<open>The line \<^verbatim>\<open>ls -a|wc>out&\<close>.\<close>

definition demo_line :: "byte list" where "demo_line = str ''ls -a|wc>out&''"

definition demo_tree :: sline where
  "demo_tree = SLine (SPipe (SSimple [] [(str ''ls'', []), (str ''-a'', [])])
     (Some (SPipe (SSimple [] [(str ''wc'', [ROut (str ''out'')])]) None))) 1 None"

lemma demo_tokens: "tokens demo_line = ltoks demo_tree" "lwf demo_tree" "cstr_at (arr demo_line) 0 demo_line"
proof -
  have w: "whitespace = [32, 9, 13, 10, 11]" "symbols = [60, 124, 62, 38, 59, 40, 41]"
    by (simp_all add: whitespace_def symbols_def str_def ch_def)
  show "tokens demo_line = ltoks demo_tree"
    by (simp add: demo_line_def demo_tree_def tokens.simps w str_def ch_def rstoks_def atoks_def)
  show "lwf demo_tree" by (simp add: demo_tree_def MAXARGS_def)
  show "cstr_at (arr demo_line) 0 demo_line" by (auto simp: cstr_at_nth arr_def demo_line_def str_def ch_def)
qed

theorem parsecmd_correct_witness:
  "\<exists>c m'. parsecmd (arr demo_line) 0 = Some (Got (c, m') (length demo_line)) \<and>
     reads m' c (XBack (XPipe (XExec [str ''ls'', str ''-a'']) (XRedir (XExec [str ''wc'']) (str ''out'') 0x601 1)))"
  using parsecmd_correct[OF demo_tokens(3,1,2)] by (simp add: demo_tree_def O_WRONLY_def O_CREATE_def O_TRUNC_def)

end
