(* ===== verification/Sh_Run.thy ===== *)
theory Sh_Run
  imports Sh_Roundtrip
begin

text \<open>
  The rest of the shell, \<^verbatim>\<open>user/sh.c\<close>: running a parsed command, the built-in commands and the
  loop over the input. A program is the tree of its system calls: a call, and how the program goes on
  for every result and every list of values the call stores through its pointers. A formatted
  message is one \<^verbatim>\<open>write\<close>. What \<^verbatim>\<open>read\<close> returns to \<^verbatim>\<open>gets\<close> is an argument of the loop.
\<close>

section \<open>Programs\<close>

datatype ucall =
    CFork
  | CWait
  | CExec "byte list" "byte list list"
  | COpen "byte list" nat
  | CClose nat
  | CDup nat
  | CPipe
  | CWrite nat "byte list"
  | CChdir "byte list"
  | CSysinfo
  | CStatfs
  | CKlogctl int
  | CSetpriority int int

datatype prog = Exit int | Call ucall "int \<Rightarrow> nat list \<Rightarrow> prog"

text \<open>A call whose result is not looked at.\<close>

abbreviation seq :: "ucall \<Rightarrow> prog \<Rightarrow> prog" where
  "seq c p \<equiv> Call c (\<lambda>_ _. p)"

section \<open>Running a command\<close>

definition cstring :: "bytes \<Rightarrow> nat \<Rightarrow> byte list" where
  "cstring m a = (case ulib_strlen m a of None \<Rightarrow> [] | Some n \<Rightarrow> map m [a..<a + n])"

definition sh_panic :: "string \<Rightarrow> prog" where
  "sh_panic s = seq (CWrite 2 (str s @ [10])) (Exit 1)"

definition fork1 :: "(int \<Rightarrow> prog) \<Rightarrow> prog" where
  "fork1 k = Call CFork (\<lambda>pid _. if pid = -1 then sh_panic ''fork'' else k pid)"

primrec runcmd :: "bytes \<Rightarrow> cmd \<Rightarrow> prog" where
  "runcmd m (EXEC as) =
     (case as of
        [] \<Rightarrow> Exit 1
      | (q, e) # _ \<Rightarrow> seq (CExec (cstring m q) (map (\<lambda>(q, e). cstring m q) as))
          (seq (CWrite 2 (str ''exec '' @ cstring m q @ str '' failed'' @ [10])) (Exit 0)))"
| "runcmd m (REDIR c f e md fd) =
     seq (CClose fd) (Call (COpen (cstring m f) md) (\<lambda>r _.
       if r < 0 then seq (CWrite 2 (str ''open '' @ cstring m f @ str '' failed'' @ [10])) (Exit 1) else runcmd m c))"
| "runcmd m (LIST l r) = fork1 (\<lambda>pid. if pid = 0 then runcmd m l else seq CWait (runcmd m r))"
| "runcmd m (PIPE l r) =
     Call CPipe (\<lambda>res p. if res < 0 then sh_panic ''pipe'' else
       fork1 (\<lambda>pid. if pid = 0 then
           seq (CClose 1) (seq (CDup (p ! 1)) (seq (CClose (p ! 0)) (seq (CClose (p ! 1)) (runcmd m l))))
         else fork1 (\<lambda>pid. if pid = 0 then
           seq (CClose 0) (seq (CDup (p ! 0)) (seq (CClose (p ! 0)) (seq (CClose (p ! 1)) (runcmd m r))))
         else seq (CClose (p ! 0)) (seq (CClose (p ! 1)) (seq CWait (seq CWait (Exit 0)))))))"
| "runcmd m (BACK c) = fork1 (\<lambda>pid. if pid = 0 then runcmd m c else Exit 0)"

section \<open>Built-in commands\<close>

primrec starts_with :: "bytes \<Rightarrow> nat \<Rightarrow> byte list \<Rightarrow> bool" where
  "starts_with m s [] = True"
| "starts_with m s (c # p) = (if m s \<noteq> c then False else starts_with m (s + 1) p)"

definition show_int :: "int \<Rightarrow> byte list" where
  "show_int i = uprintint (scast (of_int i :: 32 word)) 10 True"

definition show_nat :: "nat \<Rightarrow> byte list" where
  "show_nat n = show_int (int n)"

text \<open>
  The values a system call stores in its structure are the list the program goes on with, in the order
  of the fields of \<^verbatim>\<open>struct hai_sysinfo\<close> and \<^verbatim>\<open>struct hai_statfs\<close>.
\<close>

definition print_prompt :: "prog \<Rightarrow> prog" where
  "print_prompt k = Call CSysinfo (\<lambda>r si.
     if r = 0 then seq (CWrite 1 (str ''[hai mem='' @ show_nat (si ! 2) @ str ''% procs='' @ show_nat (si ! 4) @
       str '' lvl='' @ show_nat (si ! 5) @ str '']$ '')) k
     else seq (CWrite 2 (str ''$ '')) k)"

definition print_sysinfo_cli :: "prog \<Rightarrow> prog" where
  "print_sysinfo_cli k = Call CSysinfo (\<lambda>r si.
     if r < 0 then seq (CWrite 2 (str ''sysinfo failed'' @ [10])) k
     else seq (CWrite 1 (str ''sysinfo: mem_used='' @ show_nat (si ! 2) @ str ''% total_pages='' @ show_nat (si ! 0) @
       str '' free_pages='' @ show_nat (si ! 1) @ str '' procs='' @ show_nat (si ! 4) @ str '' ticks='' @ show_nat (si ! 3) @
       str '' log_level='' @ show_nat (si ! 5) @ [10])) k)"

definition print_fsinfo_cli :: "prog \<Rightarrow> prog" where
  "print_fsinfo_cli k = Call CStatfs (\<lambda>r st.
     if r < 0 then seq (CWrite 2 (str ''statfs failed'' @ [10])) k
     else seq (CWrite 1 (str ''fsinfo: magic=0x'' @ uprintint (of_nat (st ! 0)) 16 False @ str '' ver='' @ show_nat (st ! 1) @
       str '' block='' @ show_nat (st ! 2) @ str '' used='' @ show_nat (st ! 9) @ str '' free='' @ show_nat (st ! 8) @
       str '' inodes='' @ show_nat (st ! 11) @ str ''/'' @ show_nat (st ! 7) @ str '' checksum='' @ show_nat (st ! 16) @ [10])) k)"

text \<open>\<^verbatim>\<open>atoi\<close> always returns on the line buffer, which ends with a null byte.\<close>

definition atoi_or :: "bytes \<Rightarrow> nat \<Rightarrow> int" where
  "atoi_or m s = (case atoi m s of None \<Rightarrow> 0 | Some i \<Rightarrow> i)"

text \<open>The built-in commands, going on with \<open>k\<close>; \<open>None\<close> when the line is none of them. The line ends at \<open>es\<close>.\<close>

definition try_builtin :: "bytes \<Rightarrow> nat \<Rightarrow> nat \<Rightarrow> prog \<Rightarrow> prog option" where
  "try_builtin m cmd es k =
     (if starts_with m cmd (str ''sysinfo'') then Some (print_sysinfo_cli k)
      else if starts_with m cmd (str ''fsinfo'') then Some (print_fsinfo_cli k)
      else if starts_with m cmd (str ''klog '') then
        let lvl = atoi_or m (cmd + 5) in
        Some (Call (CKlogctl lvl) (\<lambda>old _.
          seq (CWrite 1 (str ''klog level: old='' @ show_int old @ str '' new='' @ show_int lvl @ [10])) k))
      else if starts_with m cmd (str ''prio '') then
        let pid = atoi_or m (cmd + 5);
            p = skip_while (\<lambda>c. c = 32) m (skip_while (\<lambda>c. c \<noteq> 32) m (cmd + 5) es) es;
            pr = atoi_or m p in
        Some (Call (CSetpriority pid pr) (\<lambda>r _.
          if r < 0 then seq (CWrite 2 (str ''setpriority failed pid='' @ show_int pid @ str '' pr='' @ show_int pr @ [10])) k
          else seq (CWrite 1 (str ''setpriority ok pid='' @ show_int pid @ str '' pr='' @ show_int pr @ [10])) k))
      else None)"

section \<open>The loop\<close>

definition LINEBUF :: nat where "LINEBUF = 100"

text \<open>\<^verbatim>\<open>getcmd\<close> after the prompt: the new buffer, and the input left.\<close>

definition getcmd :: "bytes \<Rightarrow> nat \<Rightarrow> byte list \<Rightarrow> bytes \<times> byte list" where
  "getcmd m buf inp = gets (ulib_memset m buf 0 LINEBUF) buf (int LINEBUF) inp"

lemma gets_loop_consumes: "length (snd (gets_loop n buf i m inp)) \<le> length inp"
  by (induction n arbitrary: i m inp) (auto simp: Let_def split: list.splits intro: le_SucI)

lemma getcmd_consumes:
  assumes "fst (getcmd m buf inp) buf \<noteq> 0"
  shows "length (snd (getcmd m buf inp)) < length inp"
proof -
  obtain n where n: "nat (int LINEBUF - 1) = Suc n" by (simp add: LINEBUF_def)
  show ?thesis
  proof (cases inp)
    case Nil
    then show ?thesis using assms by (simp add: getcmd_def gets_def n)
  next
    case (Cons c cs)
    then show ?thesis using gets_loop_consumes by (auto simp: getcmd_def gets_def n Let_def less_Suc_eq_le)
  qed
qed

function sh_loop :: "bytes \<Rightarrow> nat \<Rightarrow> byte list \<Rightarrow> prog" where
  "sh_loop m0 buf inp =
     print_prompt
      (let m = fst (getcmd m0 buf inp); rest = snd (getcmd m0 buf inp) in
       if m buf = 0 then Exit 0
       else
         let es = buf + length (cstring m buf); cmd = skip_while (\<lambda>c. c = 32 \<or> c = 9) m buf es in
         if m cmd = 10 then sh_loop m buf rest
         else if m cmd = ch CHR ''c'' \<and> m (cmd + 1) = ch CHR ''d'' \<and> m (cmd + 2) = 32 then
           let m = m(es - 1 := 0) in
           Call (CChdir (cstring m (cmd + 3))) (\<lambda>r _.
             if r < 0 then seq (CWrite 2 (str ''cannot cd '' @ cstring m (cmd + 3) @ [10])) (sh_loop m buf rest)
             else sh_loop m buf rest)
         else
           case try_builtin m cmd es (sh_loop m buf rest) of
             Some p \<Rightarrow> p
           | None \<Rightarrow>
               fork1 (\<lambda>pid. if pid = 0 then
                   (case parsecmd m cmd of
                      Some (Got (c, m) _) \<Rightarrow> runcmd m c
                    | Some (Fail e) \<Rightarrow> sh_panic e
                    | _ \<Rightarrow> Exit 1)
                 else seq CWait (sh_loop m buf rest)))"
  by pat_completeness auto
termination
  by (relation "measure (\<lambda>(m, buf, inp). length inp)") (auto simp: getcmd_consumes)

declare sh_loop.simps [simp del]

section \<open>What a command line does\<close>

text \<open>
  The processes of a program whose system calls succeed: a process forks a child and goes on, waits for a child
  (with the files that are open meanwhile), becomes another program with its arguments and open files, or exits.
  \<^verbatim>\<open>fork\<close> copies the descriptors, \<^verbatim>\<open>open\<close>, \<^verbatim>\<open>dup\<close> and \<^verbatim>\<open>pipe\<close> take the lowest free
  ones, as \<^verbatim>\<open>fdalloc\<close> of \<^verbatim>\<open>kernel/sysfile.c\<close> does. \<open>n\<close> numbers the places in the tree of
  processes, and a pipe is named by the place that made it.
\<close>

datatype ofile = Term | File "byte list" nat | PipeR nat | PipeW nat

type_synonym fds = "nat \<Rightarrow> ofile option"

datatype ptree = PExec "byte list list" fds | PExit int | PFork ptree ptree | PWait fds ptree

definition low_fd :: "fds \<Rightarrow> nat option" where
  "low_fd d = find (\<lambda>i. d i = None) [0..<16]"

primrec run :: "prog \<Rightarrow> nat \<Rightarrow> fds \<Rightarrow> ptree" where
  "run (Exit c) n d = PExit c"
| "run (Call c k) n d =
     (case c of
        CFork \<Rightarrow> PFork (run (k 0 []) (2 * n + 1) d) (run (k 1 []) (2 * n + 2) d)
      | CWait \<Rightarrow> PWait d (run (k 1 []) n d)
      | CExec p as \<Rightarrow> PExec as d
      | COpen f md \<Rightarrow>
          (case low_fd d of None \<Rightarrow> run (k (-1) []) n d | Some i \<Rightarrow> run (k (int i) []) n (d(i \<mapsto> File f md)))
      | CClose i \<Rightarrow> run (k 0 []) n (d(i := None))
      | CDup i \<Rightarrow>
          (case low_fd d of None \<Rightarrow> run (k (-1) []) n d | Some j \<Rightarrow> run (k (int j) []) n (d(j := d i)))
      | CPipe \<Rightarrow>
          (case low_fd d of
             None \<Rightarrow> run (k (-1) []) n d
           | Some i \<Rightarrow>
               (case low_fd (d(i \<mapsto> PipeR n)) of
                  None \<Rightarrow> run (k (-1) []) n d
                | Some j \<Rightarrow> run (k 0 [i, j]) n (d(i \<mapsto> PipeR n, j \<mapsto> PipeW n))))
      | _ \<Rightarrow> run (k 0 []) n d)"

text \<open>
  What a command means. A redirection opens a file in place of a descriptor. A list runs its left part in a child,
  waits for it, and goes on as its right part. A pipeline runs both parts in children at the same time, the output of
  the left joined to the input of the right, and waits for both. A command in the background is not waited for. No
  process keeps a descriptor of a pipe beyond its standard ones, neither a program that is started nor a shell that waits.
\<close>

primrec plan :: "scmd \<Rightarrow> nat \<Rightarrow> fds \<Rightarrow> ptree" where
  "plan (XExec ws) n d = (if ws = [] then PExit 1 else PExec ws d)"
| "plan (XRedir c f md fd) n d = plan c n (d(fd \<mapsto> File f md))"
| "plan (XPipe l r) n d =
     PFork (plan l (2 * n + 1) (d(1 \<mapsto> PipeW n)))
       (PFork (plan r (4 * n + 5) (d(0 \<mapsto> PipeR n))) (PWait d (PWait d (PExit 0))))"
| "plan (XList l r) n d = PFork (plan l (2 * n + 1) d) (PWait d (plan r (2 * n + 2) d))"
| "plan (XBack c) n d = PFork (plan c (2 * n + 1) d) (PExit 0)"

text \<open>The open files of the started programs and of the shells that wait.\<close>

primrec fd_tables :: "ptree \<Rightarrow> fds set" where
  "fd_tables (PExec ws d) = {d}"
| "fd_tables (PExit c) = {}"
| "fd_tables (PFork c p) = fd_tables c \<union> fd_tables p"
| "fd_tables (PWait d p) = insert d (fd_tables p)"

text \<open>Standard input, output and error are open, and no other descriptor.\<close>

definition std_fds :: "fds \<Rightarrow> bool" where
  "std_fds d \<longleftrightarrow> (\<forall>i. d i \<noteq> None \<longleftrightarrow> i < 3)"

fun std_redirs :: "scmd \<Rightarrow> bool" where
  "std_redirs (XExec ws) \<longleftrightarrow> True"
| "std_redirs (XRedir c f md fd) \<longleftrightarrow> fd < 2 \<and> std_redirs c"
| "std_redirs (XPipe l r) \<longleftrightarrow> std_redirs l \<and> std_redirs r"
| "std_redirs (XList l r) \<longleftrightarrow> std_redirs l \<and> std_redirs r"
| "std_redirs (XBack c) \<longleftrightarrow> std_redirs c"

lemma low_fdI: "i < 16 \<Longrightarrow> d i = None \<Longrightarrow> (\<And>j. j < i \<Longrightarrow> d j \<noteq> None) \<Longrightarrow> low_fd d = Some i"
  unfolding low_fd_def find_Some_iff by (intro exI[of _ i]) simp

lemma cstring_cstr: "cstr_at m a w \<Longrightarrow> cstring m a = w"
proof -
  assume w: "cstr_at m a w"
  then have "map m [a..<a + length w] = w" by (intro nth_equalityI) (auto simp: cstr_at_nth)
  then show ?thesis using ulib_strlen_cstr[OF w] by (simp add: cstring_def)
qed

lemma std_fds_set: "std_fds d \<Longrightarrow> i < 3 \<Longrightarrow> std_fds (d(i \<mapsto> x))"
  by (auto simp: std_fds_def)

lemma std_fds_None: "std_fds d \<Longrightarrow> d i = None \<longleftrightarrow> 3 \<le> i"
  unfolding std_fds_def by (metis not_less)

lemma close_low: "std_fds d \<Longrightarrow> i < 3 \<Longrightarrow> low_fd (d(i := None)) = Some i"
  by (rule low_fdI) (auto simp: std_fds_None)

text \<open>The descriptors around a pipe: made, moved to a standard descriptor, and closed.\<close>

lemma pipe_fds:
  assumes "std_fds d"
  shows "low_fd d = Some 3" "low_fd (d(3 \<mapsto> x)) = Some 4" "i < 3 \<Longrightarrow> low_fd (d(3 \<mapsto> x, 4 \<mapsto> y, i := None)) = Some i"
proof -
  show "low_fd d = Some 3" by (rule low_fdI) (use assms in \<open>auto simp: std_fds_None\<close>)
  show "low_fd (d(3 \<mapsto> x)) = Some 4"
  proof (rule low_fdI, simp)
    show "(d(3 \<mapsto> x)) 4 = None" using assms by (simp add: std_fds_None)
    show "(d(3 \<mapsto> x)) j \<noteq> None" if "j < 4" for j using that assms by (cases "j = 3") (auto simp: std_fds_None)
  qed
  show "i < 3 \<Longrightarrow> low_fd (d(3 \<mapsto> x, 4 \<mapsto> y, i := None)) = Some i"
    by (rule low_fdI) (use assms in \<open>auto simp: std_fds_None\<close>)
qed

lemma pipe_closed:
  assumes "std_fds d" "i < 3"
  shows "d(3 \<mapsto> x, 4 \<mapsto> y, i := None, i \<mapsto> z, 3 := None, 4 := None) = d(i \<mapsto> z)"
  using assms std_fds_None[OF assms(1), of 3] std_fds_None[OF assms(1), of 4] by (auto simp: fun_eq_iff)

lemma pipe_parent: "std_fds d \<Longrightarrow> d(3 \<mapsto> x, 4 \<mapsto> y, 3 := None, 4 := None) = d"
  using std_fds_None[of d 3] std_fds_None[of d 4] by (auto simp: fun_eq_iff)

lemma run_fork1 [simp]: "run (fork1 k) n d = PFork (run (k 0) (2 * n + 1) d) (run (k 1) (2 * n + 2) d)"
  by (simp add: fork1_def)

lemma runcmd_plan: "reads m c v \<Longrightarrow> std_redirs v \<Longrightarrow> std_fds d \<Longrightarrow> run (runcmd m c) n d = plan v n d"
proof (induction m c v arbitrary: n d rule: reads.induct)
  case (1 m as ws)
  have "list_all2 (\<lambda>(q, e) w. cstr_at m q w) as ws \<Longrightarrow> map (\<lambda>(q, e). cstring m q) as = ws"
    by (induction as ws rule: list_all2_induct) (auto simp: cstring_cstr)
  then show ?case using 1 by (cases as; cases ws) auto
next
  case (2 m c f e md fd v w md' fd')
  then have fd: "fd < 3" by simp
  have f: "cstring m f = w" using 2(2) by (simp add: cstring_cstr)
  have "d(fd := None, fd \<mapsto> x) = d(fd \<mapsto> x)" for x by (simp add: fun_eq_iff)
  then show ?case using 2 close_low[OF 2(4) fd] std_fds_set[OF 2(4) fd] f by simp
next
  case (3 m l r v w)
  note p = pipe_fds[OF 3(5)] pipe_closed[OF 3(5)]
  have s: "std_fds (d(1 \<mapsto> PipeW n))" "std_fds (d(0 \<mapsto> PipeR n))" using 3(5) by (simp_all add: std_fds_set)
  have "run (runcmd m (PIPE l r)) n d = PFork (run (runcmd m l) (2 * n + 1) (d(1 \<mapsto> PipeW n)))
      (PFork (run (runcmd m r) (2 * (2 * n + 2) + 1) (d(0 \<mapsto> PipeR n))) (PWait d (PWait d (PExit 0))))"
    using p(3)[of 1] p(3)[of 0] p(4)[of 1] p(4)[of 0] pipe_parent[OF 3(5)] by (simp add: p(1,2))
  moreover have "2 * (2 * n + 2) + 1 = 4 * n + 5" by simp
  moreover have "run (runcmd m l) (2 * n + 1) (d(1 \<mapsto> PipeW n)) = plan v (2 * n + 1) (d(1 \<mapsto> PipeW n))"
    "run (runcmd m r) (4 * n + 5) (d(0 \<mapsto> PipeR n)) = plan w (4 * n + 5) (d(0 \<mapsto> PipeR n))"
    unfolding fun_upd_def by (rule 3(1,2); use 3(3,4) s in \<open>simp add: fun_upd_def\<close>)+
  ultimately show ?case by (metis plan.simps(3))
qed auto

lemma rmean_std: "std_redirs c \<Longrightarrow> std_redirs (fold rmean rs c)"
proof (induction rs arbitrary: c)
  case (Cons r rs)
  then show ?case by (cases r) auto
qed simp

lemma back_std: "std_redirs c \<Longrightarrow> std_redirs ((XBack ^^ k) c)"
  by (induction k) auto

lemma mean_std_redirs: "std_redirs (lmean l)" "std_redirs (pmean p)" "std_redirs (emean e)"
proof (induction l and p and e)
  case (SLine p k nx)
  then show ?case by (cases nx) (auto simp: back_std)
next
  case (SPipe e nx)
  then show ?case by (cases nx) auto
qed (auto simp: rmean_std)

lemma plan_std: "std_redirs v \<Longrightarrow> std_fds d \<Longrightarrow> f \<in> fd_tables (plan v n d) \<Longrightarrow> std_fds f"
proof (induction v arbitrary: n d)
  case (XRedir c g md fd)
  define d' where "d' = d(fd \<mapsto> File g md)"
  have "std_fds d'" unfolding d'_def by (rule std_fds_set) (use XRedir.prems in auto)
  then show ?case using XRedir.IH[of d' n] XRedir.prems by (simp add: d'_def[symmetric])
next
  case (XPipe l r)
  define d1 d2 where d: "d1 = d(1 \<mapsto> PipeW n)" "d2 = d(0 \<mapsto> PipeR n)"
  have "std_fds d1" "std_fds d2" unfolding d by (rule std_fds_set; use XPipe.prems in simp)+
  then show ?case using XPipe.IH(1)[of d1 "2 * n + 1"] XPipe.IH(2)[of d2 "4 * n + 5"] XPipe.prems
    by (auto simp: d[symmetric] simp del: One_nat_def)
qed (auto split: if_splits)


definition term_fds :: fds where
  "term_fds = (\<lambda>i. if i < 3 then Some Term else None)"


end
