(* ===== verification/Umalloc.thy ===== *)
theory Umalloc
  imports Klib
begin

text \<open>
  The memory allocator of user programs, \<^verbatim>\<open>user/umalloc.c\<close>: a circular list of free blocks, sorted by
  address, threaded through the headers of the blocks in the memory of the process. A header is 16
  bytes: the pointer and the size in units of 16 bytes. A loop that never ends is the outcome \<open>None\<close>.
\<close>

section \<open>State\<close>

text \<open>
  \<open>um\<close> is the memory, \<open>ubase\<close> the address of the static header \<^verbatim>\<open>base\<close>, \<open>ubrk\<close> the size of the process,
  and \<open>ugrant\<close> says to which sizes the kernel lets it grow.
\<close>

record ualloc =
  um :: bytes
  ubase :: nat
  freep :: nat
  ubrk :: nat
  ugrant :: "nat \<Rightarrow> bool"

definition hptr :: "bytes \<Rightarrow> nat \<Rightarrow> nat" where "hptr m p = get_le 8 m p"
definition hsize :: "bytes \<Rightarrow> nat \<Rightarrow> nat" where "hsize m p = get_le 4 m (p + 8)"
definition set_ptr :: "nat \<Rightarrow> nat \<Rightarrow> bytes \<Rightarrow> bytes" where "set_ptr p v m = put_le 8 m p v"
definition set_size :: "nat \<Rightarrow> nat \<Rightarrow> bytes \<Rightarrow> bytes" where "set_size p v m = put_le 4 m (p + 8) v"

section \<open>Operations\<close>

text \<open>The loop of \<^verbatim>\<open>free\<close> that looks for the place of block \<open>bp\<close>, from \<open>p\<close> on.\<close>

partial_function (option) free_find :: "bytes \<Rightarrow> nat \<Rightarrow> nat \<Rightarrow> nat option" where
  "free_find m bp p =
     (if p < bp \<and> bp < hptr m p then Some p
      else if hptr m p \<le> p \<and> (p < bp \<or> bp < hptr m p) then Some p
      else free_find m bp (hptr m p))"

definition ufree :: "nat \<Rightarrow> ualloc \<Rightarrow> ualloc option" where
  "ufree ap s =
     (let bp = ap - 16; m = um s in
      case free_find m bp (freep s) of
        None \<Rightarrow> None
      | Some p \<Rightarrow>
          let q = hptr m p;
              m1 = (if bp + 16 * hsize m bp = q
                    then let m' = set_size bp (hsize m bp + hsize m q) m in set_ptr bp (hptr m' q) m'
                    else set_ptr bp q m);
              m2 = (if p + 16 * hsize m1 p = bp
                    then let m' = set_size p (hsize m1 p + hsize m1 bp) m1 in set_ptr p (hptr m' bp) m'
                    else set_ptr p bp m1)
          in Some (s\<lparr>um := m2, freep := p\<rparr>))"

text \<open>
  \<^verbatim>\<open>sbrk\<close>: its argument is a signed 32-bit integer. The kernel may refuse to enlarge the process, never to
  shrink it; a size below zero wraps around and leaves the process as it is. The result is the old size.
\<close>

definition sbrk :: "int \<Rightarrow> ualloc \<Rightarrow> nat option \<times> ualloc" where
  "sbrk n s =
     (if n \<le> 0 then (Some (ubrk s), if int (ubrk s) + n < 0 then s else s\<lparr>ubrk := nat (int (ubrk s) + n)\<rparr>)
      else let sz = nat (int (ubrk s) + n) in
           if ugrant s sz then (Some (ubrk s), s\<lparr>ubrk := sz\<rparr>) else (None, s))"

definition morecore :: "nat \<Rightarrow> ualloc \<Rightarrow> (nat \<times> ualloc) option" where
  "morecore nu s =
     (let nu = (if nu < 4096 then 4096 else nu) in
      case sbrk (sint (of_nat (nu * 16) :: 32 word)) s of
        (None, s) \<Rightarrow> Some (0, s)
      | (Some p, s) \<Rightarrow>
          map_option (\<lambda>s. (freep s, s)) (ufree (p + 16) (s\<lparr>um := set_size p nu (um s)\<rparr>)))"

text \<open>The loop of \<^verbatim>\<open>malloc\<close>; the result is the address handed out, 0 if there is no memory.\<close>

partial_function (option) malloc_loop :: "nat \<Rightarrow> nat \<Rightarrow> nat \<Rightarrow> ualloc \<Rightarrow> (nat \<times> ualloc) option" where
  "malloc_loop nunits prevp p s =
     (if nunits \<le> hsize (um s) p then
        (if hsize (um s) p = nunits
         then Some (p + 16, s\<lparr>um := set_ptr prevp (hptr (um s) p) (um s), freep := prevp\<rparr>)
         else let m = set_size p (hsize (um s) p - nunits) (um s); p1 = p + 16 * hsize m p
              in Some (p1 + 16, s\<lparr>um := set_size p1 nunits m, freep := prevp\<rparr>))
      else if p = freep s then
        (case morecore nunits s of
           None \<Rightarrow> None
         | Some (p1, s1) \<Rightarrow> if p1 = 0 then Some (0, s1) else malloc_loop nunits p1 (hptr (um s1) p1) s1)
      else malloc_loop nunits p (hptr (um s) p) s)"

definition malloc :: "nat \<Rightarrow> ualloc \<Rightarrow> (nat \<times> ualloc) option" where
  "malloc nbytes s =
     (let nunits = (nbytes + 16 - 1) div 16 + 1;
          s = (if freep s = 0
               then s\<lparr>freep := ubase s, um := set_size (ubase s) 0 (set_ptr (ubase s) (ubase s) (um s))\<rparr>
               else s)
      in malloc_loop nunits (freep s) (hptr (um s) (freep s)) s)"

section \<open>Circular lists\<close>

fun links :: "(nat \<Rightarrow> nat) \<Rightarrow> nat \<Rightarrow> nat list \<Rightarrow> nat \<Rightarrow> bool" where
  "links h p [] q = (p = q)"
| "links h p (a # as) q = (p = a \<and> links h (h a) as q)"

lemma links_append: "links h p (xs @ ys) q \<longleftrightarrow> (\<exists>r. links h p xs r \<and> links h r ys q)"
  by (induction xs arbitrary: p) auto

lemma links_cong: "links h p xs q \<Longrightarrow> (\<And>x. x \<in> set xs \<Longrightarrow> h' x = h x) \<Longrightarrow> links h' p xs q"
  by (induction xs arbitrary: p) auto

lemma links_next: "links h p (us @ x # vs) q \<Longrightarrow> h x = hd (vs @ [q])"
  by (induction us arbitrary: p) (auto, cases vs, auto)

lemma links_first: "links h p (x # xs) q \<Longrightarrow> p = x"
  by simp

text \<open>From any element of a ring, one round leads through every element back to it.\<close>

lemma ring_round:
  assumes "links h b C b" "distinct C" "f \<in> set C" "C = b # cs"
  obtains V where "links h (h f) (V @ [f]) (h f)" "set (V @ [f]) = set C" "f \<notin> set V"
proof -
  obtain us vs where C: "C = us @ f # vs" using assms(3) split_list by metis
  have "links h b (us @ [f]) (h f)" "links h (h f) vs b"
    using assms(1) unfolding C by (auto simp: links_append)
  then have "links h (h f) ((vs @ us) @ [f]) (h f)" by (auto simp: links_append)
  with that[of "vs @ us"] show ?thesis using assms(2) C by auto
qed

lemma ring_walk:
  assumes "links h b C b" "distinct C" "p \<in> set C" "C = b # cs" "t \<in> set C"
  obtains xs where "links h p (xs @ [t]) (h t)" "set xs \<subseteq> set C" "t \<notin> set xs"
proof -
  obtain V where V: "links h (h p) (V @ [p]) (h p)" "set (V @ [p]) = set C"
    using ring_round[OF assms(1-4)] by metis
  have l: "links h p (p # V) p" using V(1) by (auto simp: links_append)
  have "t \<in> set (p # V)" using V(2) assms(5) by auto
  then obtain xs ys where x: "p # V = xs @ t # ys" "t \<notin> set xs" by (meson split_list_first)
  have "links h p (xs @ [t]) (h t)" using l unfolding x(1) by (auto simp: links_append)
  moreover have "set xs \<subseteq> set C" using x(1) V(2) by (metis Un_iff insert_iff list.simps(15) set_append subsetI empty_iff list.set(1))
  ultimately show ?thesis using that x(2) by blast
qed

text \<open>The test of \<^verbatim>\<open>free\<close> holds at one element of a sorted ring: the last one below the block.\<close>

definition spot :: "bytes \<Rightarrow> nat \<Rightarrow> nat \<Rightarrow> bool" where
  "spot m a p \<longleftrightarrow> p < a \<and> a < hptr m p \<or> hptr m p \<le> p \<and> (p < a \<or> a < hptr m p)"

lemma free_find_walk:
  "links (hptr m) p (xs @ [t]) r \<Longrightarrow> \<forall>x\<in>set xs. \<not> spot m a x \<Longrightarrow> spot m a t \<Longrightarrow> free_find m a p = Some t"
proof (induction xs arbitrary: p)
  case Nil
  then show ?case by (subst free_find.simps) (auto simp: spot_def)
next
  case (Cons x xs)
  then have "free_find m a (hptr m p) = Some t" "\<not> spot m a p" by auto
  then show ?case by (subst free_find.simps) (auto simp: spot_def)
qed

lemma spot_iff:
  assumes "links (hptr m) b C b" "C = b # cs" "sorted_wrt (<) C" "x \<in> set C" "b < a" "a \<notin> set C"
  shows "spot m a x \<longleftrightarrow> x < a \<and> (\<forall>c\<in>set C. c \<le> x \<or> a < c)"
proof -
  obtain us vs where C: "C = us @ x # vs" using assms(4) split_list by metis
  have h: "hptr m x = hd (vs @ [b])" using links_next assms(1) unfolding C by blast
  have lt: "\<forall>c\<in>set us. c < x" "\<forall>c\<in>set vs. x < c" "sorted_wrt (<) vs"
    using assms(3) unfolding C by (auto simp: sorted_wrt_append)
  have bx: "b \<le> x" using C assms(2) lt(1) by (cases us) auto
  show ?thesis
  proof (cases vs)
    case Nil
    then show ?thesis using h bx assms(5) lt C by (auto simp: spot_def)
  next
    case (Cons v ws)
    then have "hptr m x = v" "x < v" "\<forall>c\<in>set ws. v < c" "a \<noteq> v" using h lt C assms(6) by auto
    then have "spot m a x \<longleftrightarrow> x < a \<and> a < v" "\<forall>c\<in>set C. c \<le> x \<or> v \<le> c" "v \<in> set C"
      using Cons C lt(1) by (auto simp: spot_def less_imp_le)
    then show ?thesis using \<open>x < v\<close> by (meson leD less_le_trans not_le)
  qed
qed

lemma free_find_spot:
  assumes "links (hptr m) b C b" "C = b # cs" "sorted_wrt (<) C" "f \<in> set C" "b < a" "a \<notin> set C"
    and "p \<in> set C" "p < a" "\<forall>c\<in>set C. c \<le> p \<or> a < c"
  shows "free_find m a f = Some p"
proof -
  have "distinct C" using assms(3) strict_sorted_iff by blast
  then obtain xs where x: "links (hptr m) f (xs @ [p]) (hptr m p)" "set xs \<subseteq> set C" "p \<notin> set xs"
    using ring_walk[OF assms(1) _ assms(4,2,7)] by blast
  have "\<not> spot m a x" if "x \<in> set xs" for x
  proof -
    have "x \<in> set C" "x \<noteq> p" using that x by auto
    show ?thesis
    proof
      assume "spot m a x"
      then have "x < a" "p \<le> x \<or> a < p" using spot_iff[OF assms(1-3) \<open>x \<in> set C\<close> assms(5,6)] assms(7) by auto
      then show False using \<open>x \<noteq> p\<close> assms(8,9) \<open>x \<in> set C\<close> by force
    qed
  qed
  moreover have "spot m a p" using spot_iff[OF assms(1-3) assms(7) assms(5,6)] assms(8,9) by blast
  ultimately show ?thesis using free_find_walk x(1) by blast
qed

section \<open>Headers in memory\<close>

text \<open>\<open>only P m m'\<close>: \<open>m'\<close> differs from \<open>m\<close> in the headers at the addresses \<open>P\<close> only.\<close>

definition only :: "nat set \<Rightarrow> bytes \<Rightarrow> bytes \<Rightarrow> bool" where
  "only P m m' \<longleftrightarrow> (\<forall>x. (\<forall>p\<in>P. x < p \<or> p + 16 \<le> x) \<longrightarrow> m' x = m x)"

lemma only_trans: "only P m m' \<Longrightarrow> only Q m' m'' \<Longrightarrow> P \<subseteq> R \<Longrightarrow> Q \<subseteq> R \<Longrightarrow> only R m m''"
  unfolding only_def by (metis subsetD)

lemma only_set: "only {p} m (set_ptr p v m)" "only {p} m (set_size p v m)"
  by (auto simp: only_def set_ptr_def set_size_def put_le_outside)

lemma only_header:
  assumes "only P m m'" "\<forall>p\<in>P. c + 16 \<le> p \<or> p + 16 \<le> c"
  shows "hptr m' c = hptr m c" "hsize m' c = hsize m c"
proof -
  have "m' i = m i" if "c \<le> i" "i < c + 16" for i
    using assms that unfolding only_def by (metis (no_types, lifting) le_trans less_le_trans linorder_not_le)
  then show "hptr m' c = hptr m c" "hsize m' c = hsize m c"
    by (auto simp: hptr_def hsize_def intro!: get_le_cong)
qed

lemma set_here:
  "v < 2 ^ 64 \<Longrightarrow> hptr (set_ptr p v m) p = v" "hsize (set_ptr p v m) p = hsize m p"
  "v < 2 ^ 32 \<Longrightarrow> hsize (set_size p v m) p = v" "hptr (set_size p v m) p = hptr m p"
  by (simp_all add: hptr_def hsize_def set_ptr_def set_size_def get_put_le get_put_le_other)

lemma set_there:
  assumes "c + 16 \<le> p \<or> p + 16 \<le> c"
  shows "hptr (set_ptr p v m) c = hptr m c" "hsize (set_ptr p v m) c = hsize m c"
    "hptr (set_size p v m) c = hptr m c" "hsize (set_size p v m) c = hsize m c"
  using assms by (auto intro!: only_header only_set[of p])

section \<open>The invariant of the heap\<close>

text \<open>
  A block is its address and its number of units. \<open>heap_ok s lo F A\<close>: the free list of \<open>s\<close> is \<open>F\<close>, sorted,
  with no two adjacent blocks; \<open>A\<close> are the blocks handed out; all of them lie between \<open>lo\<close> and the
  end of the process, no two of them overlap, and each has its size in its header.
\<close>

type_synonym block = "nat \<times> nat"

definition apart :: "block \<Rightarrow> block \<Rightarrow> bool" where
  "apart b c \<longleftrightarrow> fst b + 16 * snd b \<le> fst c \<or> fst c + 16 * snd c \<le> fst b"

definition block_ok :: "ualloc \<Rightarrow> nat \<Rightarrow> block \<Rightarrow> bool" where
  "block_ok s lo b \<longleftrightarrow> 0 < snd b \<and> lo \<le> fst b \<and> fst b + 16 * snd b \<le> ubrk s \<and> hsize (um s) (fst b) = snd b"

definition space_ok :: "ualloc \<Rightarrow> nat \<Rightarrow> bool" where
  "space_ok s lo \<longleftrightarrow> 0 < ubase s \<and> ubase s + 16 \<le> lo \<and> lo \<le> ubrk s \<and> ubrk s \<le> 2 ^ 32 \<and> (\<forall>n. ugrant s n \<longrightarrow> n \<le> 2 ^ 32)"

definition heap_ok :: "ualloc \<Rightarrow> nat \<Rightarrow> block list \<Rightarrow> block set \<Rightarrow> bool" where
  "heap_ok s lo F A \<longleftrightarrow>
     space_ok s lo \<and>
     links (hptr (um s)) (ubase s) (ubase s # map fst F) (ubase s) \<and> hsize (um s) (ubase s) = 0 \<and>
     freep s \<in> set (ubase s # map fst F) \<and>
     sorted_wrt (\<lambda>b c. fst b + 16 * snd b < fst c) F \<and>
     (\<forall>b\<in>set F. block_ok s lo b) \<and> (\<forall>b\<in>A. block_ok s lo b) \<and>
     (\<forall>b\<in>A. \<forall>c\<in>set F. apart b c) \<and> (\<forall>b\<in>A. \<forall>c\<in>A. b = c \<or> apart b c)"

text \<open>\<open>keeps A m m'\<close>: the contents of the blocks \<open>A\<close>, headers included, are the same.\<close>

definition keeps :: "block set \<Rightarrow> bytes \<Rightarrow> bytes \<Rightarrow> bool" where
  "keeps A m m' \<longleftrightarrow> (\<forall>b\<in>A. \<forall>x. fst b \<le> x \<and> x < fst b + 16 * snd b \<longrightarrow> m' x = m x)"

lemma keeps_trans: "keeps A m m' \<Longrightarrow> keeps A m' m'' \<Longrightarrow> keeps A m m''"
  by (auto simp: keeps_def)

lemma only_keeps: "only P m m' \<Longrightarrow> (\<And>b p. b \<in> A \<Longrightarrow> p \<in> P \<Longrightarrow> fst b + 16 * snd b \<le> p \<or> p + 16 \<le> fst b) \<Longrightarrow> keeps A m m'"
  unfolding keeps_def only_def by (meson le_trans less_le_trans not_le)

section \<open>Freeing a block\<close>

text \<open>The two joins of \<^verbatim>\<open>free\<close>: with the block above, then with the block below.\<close>

definition join_above :: "nat \<Rightarrow> nat \<Rightarrow> bytes \<Rightarrow> bytes" where
  "join_above bp q m =
     (if bp + 16 * hsize m bp = q
      then let m' = set_size bp (hsize m bp + hsize m q) m in set_ptr bp (hptr m' q) m'
      else set_ptr bp q m)"

definition join_below :: "nat \<Rightarrow> nat \<Rightarrow> bytes \<Rightarrow> bytes" where
  "join_below bp p m =
     (if p + 16 * hsize m p = bp
      then let m' = set_size p (hsize m p + hsize m bp) m in set_ptr p (hptr m' bp) m'
      else set_ptr p bp m)"

lemma ufree_joins:
  "free_find (um s) (ap - 16) (freep s) = Some p \<Longrightarrow>
   ufree ap s = Some (s\<lparr>um := join_below (ap - 16) p (join_above (ap - 16) (hptr (um s) p) (um s)), freep := p\<rparr>)"
  by (simp add: ufree_def join_above_def join_below_def Let_def)

lemma join_above_ok:
  assumes "links (hptr m) q (map fst Y) b" "sorted_wrt (\<lambda>b c. fst b + 16 * snd b < fst c) Y"
    and "\<forall>c\<in>set Y. 0 < snd c \<and> hsize m (fst c) = snd c \<and> a + 16 * n \<le> fst c \<and> fst c + 16 * snd c \<le> 2 ^ 32"
    and "hsize m a = n" "0 < n" "b + 16 \<le> a" "a < 2 ^ 32"
  obtains n' Y' where "only {a} m (join_above a q m)"
    "links (hptr (join_above a q m)) (hptr (join_above a q m) a) (map fst Y') b"
    "hsize (join_above a q m) a = n'" "\<forall>c\<in>set Y'. a + 16 * n' < fst c"
    "Y = Y' \<and> n' = n \<or> (\<exists>j. Y = (a + 16 * n, j) # Y' \<and> n' = n + j)"
proof (cases "a + 16 * n = q")
  case True
  obtain j Y' where Y: "Y = (q, j) # Y'"
    using assms(1,5,6) True by (cases Y) auto
  have j: "hsize m q = j" "0 < j" "q + 16 * j \<le> 2 ^ 32" using assms(3) unfolding Y by auto
  let ?m = "join_above a q m"
  have m: "?m = set_ptr a (hptr m q) (set_size a (n + j) m)"
    using True assms(4,5) j(1) by (simp add: join_above_def Let_def set_there)
  have nxt: "hptr m q = hd (map fst Y' @ [b])" using assms(1) unfolding Y by (cases Y') auto
  have lt: "hptr m q < 2 ^ 64"
    using nxt assms(3,6,7) unfolding Y by (cases Y') force+
  have o: "only {a} m ?m" unfolding m using only_trans[OF only_set(2) only_set(1)] by blast
  have far: "a + 16 \<le> c" if "c \<in> set (map fst Y')" for c using that assms(3,5) unfolding Y by force
  have h: "hptr ?m a = hptr m q" "hsize ?m a = n + j" unfolding m using lt j True by (auto simp: set_here)
  have "links (hptr m) (hptr m q) (map fst Y') b" using assms(1) unfolding Y by simp
  then have "links (hptr ?m) (hptr ?m a) (map fst Y') b"
    unfolding h(1) using far by (elim links_cong) (auto intro!: only_header(1)[OF o])
  moreover have "\<forall>c\<in>set Y'. a + 16 * (n + j) < fst c" using assms(2) True unfolding Y by auto
  ultimately show ?thesis using that[of Y' "n + j"] o h(2) Y True by blast
next
  case False
  let ?m = "join_above a q m"
  have m: "?m = set_ptr a q m" using False assms(4) by (simp add: join_above_def)
  have q: "q = hd (map fst Y @ [b])" using assms(1) by (cases Y) auto
  have lt: "q < 2 ^ 64" using q assms(3,6,7) by (cases Y) force+
  have o: "only {a} m ?m" unfolding m by (rule only_set)
  have far: "a + 16 \<le> c" if "c \<in> set (map fst Y)" for c using that assms(3,5) by force
  have h: "hptr ?m a = q" unfolding m using lt by (rule set_here)
  have "links (hptr ?m) (hptr ?m a) (map fst Y) b"
    unfolding h using assms(1) far by (elim links_cong) (auto intro!: only_header(1)[OF o])
  moreover have "\<forall>c\<in>set Y. a + 16 * n < fst c"
  proof (cases Y)
    case (Cons y Y1)
    then have "fst y \<noteq> a + 16 * n" using False q by simp
    then show ?thesis using assms(2,3) Cons by fastforce
  qed simp
  ultimately show ?thesis using that[of Y n] o assms(4) by (simp add: m set_here)
qed

lemma join_below_ok:
  assumes "links (hptr m) b (b # map fst X) q" "p = last (b # map fst X)" "hsize m b = 0" "b + 16 \<le> a"
    and "sorted_wrt (\<lambda>b c. fst b + 16 * snd b < fst c) X"
    and "\<forall>c\<in>set X. 0 < snd c \<and> hsize m (fst c) = snd c \<and> b + 16 \<le> fst c \<and> fst c + 16 * snd c \<le> a"
    and "links (hptr m) (hptr m a) (map fst Y) b" "\<forall>c\<in>set Y. a + 16 * n < fst c \<and> fst c < 2 ^ 32"
    and "hsize m a = n" "0 < n" "a + 16 * n \<le> 2 ^ 32"
  obtains a' n' X' where "only {p} m (join_below a p m)" "hsize (join_below a p m) b = 0"
    "links (hptr (join_below a p m)) b (b # map fst (X' @ (a', n') # Y)) b"
    "hsize (join_below a p m) a' = n'"
    "\<forall>c\<in>set X'. fst c + 16 * snd c < a' \<and> hsize (join_below a p m) (fst c) = snd c"
    "X = X' \<and> a' = a \<and> n' = n \<or> (\<exists>k. X = X' @ [(a', k)] \<and> a' + 16 * k = a \<and> n' = k + n)"
proof -
  let ?m = "join_below a p m"
  obtain us where us: "b # map fst X = us @ [p]" using assms(2) by (metis append_butlast_last_id list.discI)
  have lus: "links (hptr m) b us p" using assms(1) unfolding us by (auto simp: links_append)
  have gap: "sorted_wrt (\<lambda>x y. x + 16 \<le> y) (b # map fst X)"
    using assms(5,6) by (auto simp: sorted_wrt_map elim!: sorted_wrt_mono_rel[rotated])
  have below: "x + 16 \<le> p" if "x \<in> set us" for x using gap that unfolding us by (auto simp: sorted_wrt_append)
  have pa: "p + 16 \<le> a" using assms(2,4,6) by (cases X rule: rev_cases) auto
  have far: "p + 16 \<le> y" if "y \<in> set (map fst Y)" for y using that assms(8,10) pa by auto
  have ha: "hptr m a < 2 ^ 64" using assms(7,8,4,11) by (cases Y) force+
  show ?thesis
  proof (cases "p + 16 * hsize m p = a")
    case True
    have "X \<noteq> []" using True assms(2,3,4) by auto
    then obtain X' c where X': "X = X' @ [c]" using rev_exhaust by blast
    define k where "k = snd c"
    have X: "X = X' @ [(p, k)]" using X' assms(2) by (simp add: k_def)
    have k: "hsize m p = k" "a = p + 16 * k" using assms(6) True unfolding X by auto
    have m: "?m = set_ptr p (hptr m a) (set_size p (k + n) m)"
      using True assms(9) pa k(1) by (simp add: join_below_def Let_def set_there)
    have o: "only {p} m ?m" unfolding m using only_trans[OF only_set(2) only_set(1)] by blast
    have h: "hptr ?m p = hptr m a" "hsize ?m p = k + n" unfolding m using ha k assms(11) by (auto simp: set_here)
    have u: "us = b # map fst X'" using us unfolding X by simp
    have "links (hptr ?m) b us p" using lus below by (elim links_cong) (auto intro!: only_header(1)[OF o])
    moreover have "links (hptr ?m) (hptr m a) (map fst Y) b"
      using assms(7) far by (elim links_cong) (auto intro!: only_header(1)[OF o])
    ultimately have "links (hptr ?m) b (us @ p # map fst Y) b" using h by (auto simp: links_append)
    moreover have "hsize ?m b = 0" using below u assms(3) by (auto simp: only_header(2)[OF o])
    moreover have "\<forall>c\<in>set X'. fst c + 16 * snd c < p" using assms(5) unfolding X by (auto simp: sorted_wrt_append)
    moreover have "\<forall>c\<in>set X'. hsize ?m (fst c) = snd c"
      using assms(6) below unfolding X u by (auto simp: only_header(2)[OF o])
    ultimately show ?thesis using that[of X' p "k + n"] o h(2) X k(2) unfolding u by auto
  next
    case False
    have m: "?m = set_ptr p a m" using False by (simp add: join_below_def)
    have o: "only {p} m ?m" unfolding m by (rule only_set)
    have h: "hptr ?m p = a" "hptr ?m a = hptr m a" "hsize ?m a = n"
      unfolding m using assms(9,10,11) pa by (auto simp: set_here set_there)
    have "links (hptr ?m) b us p" using lus below by (elim links_cong) (auto intro!: only_header(1)[OF o])
    moreover have "links (hptr ?m) (hptr m a) (map fst Y) b"
      using assms(7) far by (elim links_cong) (auto intro!: only_header(1)[OF o])
    ultimately have "links (hptr ?m) b ((us @ [p]) @ a # map fst Y) b" using h by (auto simp: links_append)
    moreover have "hsize ?m b = 0"
      using below us assms(3) by (cases "b = p") (auto simp: m set_here set_there Cons_eq_append_conv)
    moreover have "\<forall>c\<in>set X. hsize ?m (fst c) = snd c"
    proof
      fix c assume c: "c \<in> set X"
      then have "fst c \<in> set (us @ [p])" unfolding us[symmetric] by simp
      then show "hsize ?m (fst c) = snd c"
        using c assms(6) below by (cases "fst c = p") (auto simp: m set_here set_there)
    qed
    moreover have "\<forall>c\<in>set X. fst c + 16 * snd c < a"
    proof (cases X rule: rev_cases)
      case (snoc ys y)
      then have "p = fst y" "hsize m p = snd y" "fst y + 16 * snd y \<le> a" "0 < snd y" using assms(2,6) by auto
      then have "fst y + 16 * snd y < a" "\<forall>c\<in>set ys. fst c + 16 * snd c < fst y"
        using False assms(5) snoc by (auto simp: sorted_wrt_append)
      then show ?thesis using snoc by fastforce
    qed simp
    ultimately show ?thesis using that[of X a n] o h(3) unfolding us[symmetric] by auto
  qed
qed

lemma apart_join: "apart b (x, k) \<Longrightarrow> apart b (x + 16 * k, n) \<Longrightarrow> 0 < snd b \<Longrightarrow> apart b (x, k + n)"
  by (auto simp: apart_def)

lemma split_blocks:
  assumes "sorted_wrt (\<lambda>b c. fst b + 16 * snd b < fst c) F" "\<forall>c\<in>set F. 0 < snd c \<and> apart (a, n) c" "0 < n"
  obtains X Y where "F = X @ Y" "\<forall>c\<in>set X. fst c + 16 * snd c \<le> a" "\<forall>c\<in>set Y. a + 16 * n \<le> fst c"
  using assms(1,2)
proof (induction F arbitrary: thesis)
  case Nil
  show ?case by (rule Nil.prems(1)[of "[]" "[]"]) simp_all
next
  case (Cons c F)
  have p: "sorted_wrt (\<lambda>b c. fst b + 16 * snd b < fst c) F" "\<forall>c\<in>set F. 0 < snd c \<and> apart (a, n) c"
    using Cons.prems by auto
  obtain X Y where XY: "F = X @ Y" "\<forall>c\<in>set X. fst c + 16 * snd c \<le> a" "\<forall>c\<in>set Y. a + 16 * n \<le> fst c"
    by (rule Cons.IH[OF _ p])
  have "a + 16 * n \<le> fst c \<or> fst c + 16 * snd c \<le> a" using Cons.prems(3) by (auto simp: apart_def)
  then show ?case
  proof
    assume "a + 16 * n \<le> fst c"
    then have "\<forall>d\<in>set (c # F). a + 16 * n \<le> fst d" using Cons.prems(2) by fastforce
    then show thesis using Cons.prems(1)[of "[]" "c # F"] by simp
  next
    assume "fst c + 16 * snd c \<le> a"
    then show thesis using Cons.prems(1)[of "c # X" Y] XY by simp
  qed
qed

text \<open>The free list after a block was joined with its neighbours: \<open>X' @ (a', n') # Y'\<close>.\<close>

definition joined :: "block list \<Rightarrow> nat \<Rightarrow> nat \<Rightarrow> block list \<Rightarrow> nat \<Rightarrow> nat \<Rightarrow> block list \<Rightarrow> bool" where
  "joined F a n X' a' n' Y' \<longleftrightarrow>
     (\<exists>X Y n1. F = X @ Y \<and> (Y = Y' \<and> n1 = n \<or> (\<exists>j. Y = (a + 16 * n, j) # Y' \<and> n1 = n + j)) \<and>
        (X = X' \<and> a' = a \<and> n' = n1 \<or> (\<exists>k. X = X' @ [(a', k)] \<and> a' + 16 * k = a \<and> n' = k + n1)))"

lemma joined_incl: "joined F a n X' a' n' Y' \<Longrightarrow> set X' \<subseteq> set F \<and> set Y' \<subseteq> set F \<and> n \<le> n' \<and> a + 16 * n \<le> a' + 16 * n'"
  by (auto simp: joined_def)

lemma joined_sorted:
  "joined F a n X' a' n' Y' \<Longrightarrow> sorted_wrt (\<lambda>b c. fst b + 16 * snd b < fst c) F \<Longrightarrow>
   \<forall>c\<in>set X'. fst c + 16 * snd c < a' \<Longrightarrow> \<forall>c\<in>set Y'. a' + 16 * n' < fst c \<Longrightarrow>
   sorted_wrt (\<lambda>b c. fst b + 16 * snd b < fst c) (X' @ (a', n') # Y')"
  by (auto simp: joined_def sorted_wrt_append) fastforce+

lemma joined_apart:
  assumes "joined F a n X' a' n' Y'" "\<forall>c\<in>set F. apart b c" "apart b (a, n)" "0 < snd b"
  shows "apart b (a', n')"
proof -
  obtain X Y n1 where j: "F = X @ Y" "Y = Y' \<and> n1 = n \<or> (\<exists>j. Y = (a + 16 * n, j) # Y' \<and> n1 = n + j)"
    "X = X' \<and> a' = a \<and> n' = n1 \<or> (\<exists>k. X = X' @ [(a', k)] \<and> a' + 16 * k = a \<and> n' = k + n1)"
    using assms(1) unfolding joined_def by blast
  have "apart b (a, n1)" using j(1,2) assms(2-4) by (auto intro: apart_join)
  then show ?thesis using j(1,3) assms(2,4) by (auto intro: apart_join)
qed

lemma joined_bounds:
  assumes "joined F a n X' a' n' Y'" "\<forall>c\<in>set F. lo \<le> fst c \<and> fst c + 16 * snd c \<le> hi" "lo \<le> a" "a + 16 * n \<le> hi"
  shows "lo \<le> a' \<and> a' + 16 * n' \<le> hi"
proof -
  obtain X Y n1 where j: "F = X @ Y" "Y = Y' \<and> n1 = n \<or> (\<exists>j. Y = (a + 16 * n, j) # Y' \<and> n1 = n + j)"
    "X = X' \<and> a' = a \<and> n' = n1 \<or> (\<exists>k. X = X' @ [(a', k)] \<and> a' + 16 * k = a \<and> n' = k + n1)"
    using assms(1) unfolding joined_def by blast
  have "a + 16 * n1 \<le> hi" using j(1,2) assms(2,4) by auto
  then show ?thesis using j(1,3) assms(2,3) by auto
qed

lemma heap_okI:
  assumes "space_ok s lo" "um s = m" "ubase s = b" "links (hptr m) b (b # map fst F) b" "hsize m b = 0"
    "freep s \<in> set (b # map fst F)" "sorted_wrt (\<lambda>b c. fst b + 16 * snd b < fst c) F"
    "\<forall>c\<in>set F. block_ok s lo c" "\<forall>c\<in>A. block_ok s lo c" "\<forall>b\<in>A. \<forall>c\<in>set F. apart b c"
    "\<forall>b\<in>A. \<forall>c\<in>A. b = c \<or> apart b c"
  shows "heap_ok s lo F A"
  unfolding heap_ok_def assms(2,3) using assms(1,4-) by blast

lemma heap_sorted:
  assumes "heap_ok s lo F A"
  shows "sorted_wrt (\<lambda>x y. x + 16 \<le> y) (ubase s # map fst F)" "sorted_wrt (<) (ubase s # map fst F)"
proof -
  show s: "sorted_wrt (\<lambda>x y. x + 16 \<le> y) (ubase s # map fst F)"
    using assms unfolding heap_ok_def space_ok_def block_ok_def
    by (auto simp: sorted_wrt_map elim!: sorted_wrt_mono_rel[rotated])
  show "sorted_wrt (<) (ubase s # map fst F)" by (rule sorted_wrt_mono_rel[OF _ s]) simp
qed

lemma heap_free_blocks:
  assumes "heap_ok s lo F A"
  shows "\<forall>c\<in>set F. 0 < snd c \<and> hsize (um s) (fst c) = snd c \<and> ubase s + 16 \<le> fst c \<and> fst c + 16 * snd c \<le> 2 ^ 32"
  using assms by (fastforce simp: heap_ok_def block_ok_def space_ok_def)

text \<open>Where the block goes: \<open>X\<close> are the free blocks below it, \<open>Y\<close> those above, \<open>p\<close> the header before it.\<close>

lemma free_place:
  assumes ok: "heap_ok s lo F (insert (a, n) A)"
  obtains X Y p where "F = X @ Y" "\<forall>c\<in>set X. fst c + 16 * snd c \<le> a" "\<forall>c\<in>set Y. a + 16 * n \<le> fst c"
    "p = last (ubase s # map fst X)" "\<forall>x\<in>set (ubase s # map fst X). x + 16 \<le> a"
    "links (hptr (um s)) (hptr (um s) p) (map fst Y) (ubase s)"
    "links (hptr (um s)) (ubase s) (ubase s # map fst X) (hptr (um s) p)" "free_find (um s) a (freep s) = Some p"
proof -
  let ?b = "ubase s" and ?m = "um s"
  have h: "links (hptr ?m) ?b (?b # map fst F) ?b" "freep s \<in> set (?b # map fst F)"
    "sorted_wrt (\<lambda>b c. fst b + 16 * snd b < fst c) F" "\<forall>c\<in>set F. apart (a, n) c" "0 < n" "?b + 16 \<le> a"
    using ok by (auto simp: heap_ok_def block_ok_def space_ok_def)
  note c = heap_free_blocks[OF ok]
  obtain X Y where F: "F = X @ Y" "\<forall>c\<in>set X. fst c + 16 * snd c \<le> a" "\<forall>c\<in>set Y. a + 16 * n \<le> fst c"
    using split_blocks[OF h(3) _ h(5), of a] h(4) c by blast
  define p where "p = last (?b # map fst X)"
  have pin: "p \<in> set (?b # map fst X)" unfolding p_def by (rule last_in_set) simp
  have "fst c + 16 \<le> a" if "c \<in> set X" for c
  proof -
    have "0 < snd c" "fst c + 16 * snd c \<le> a" using that F(1,2) c by auto
    then show ?thesis by linarith
  qed
  then have below: "\<forall>x\<in>set (?b # map fst X). x + 16 \<le> a" using h(6) by auto
  have "sorted_wrt (\<lambda>x y. x + 16 \<le> y) (?b # map fst X)"
    using heap_sorted(1)[OF ok] unfolding F(1) by (auto simp: sorted_wrt_append)
  moreover obtain us where us: "?b # map fst X = us @ [p]" using p_def by (metis append_butlast_last_id list.discI)
  ultimately have lt: "\<forall>c\<in>set us. c < p" by (auto simp: sorted_wrt_append)
  have split: "?b # map fst F = us @ p # map fst Y" using us F(1) by simp
  have q: "links (hptr ?m) (hptr ?m p) (map fst Y) ?b" "links (hptr ?m) ?b (?b # map fst X) (hptr ?m p)"
    using h(1) unfolding split us by (auto simp: links_append)
  have pa: "p + 16 \<le> a" using below pin by blast
  have "free_find ?m a (freep s) = Some p"
  proof (rule free_find_spot[OF h(1) refl heap_sorted(2)[OF ok] h(2)])
    show "a \<notin> set (?b # map fst F)" "\<forall>c\<in>set (?b # map fst F). c \<le> p \<or> a < c"
      unfolding split using lt F h(5) pa by (force, force)
  qed (use h(6) pa pin F in auto)
  then show ?thesis using that[OF F p_def below q] by blast
qed

lemma free_list:
  assumes ok: "heap_ok s lo F (insert (a, n) A)"
  obtains p m X' a' n' Y' where "ufree (a + 16) s = Some (s\<lparr>um := m, freep := p\<rparr>)"
    "only {a, p} (um s) m" "p \<in> set (ubase s # map fst F)" "p + 16 \<le> a" "hsize m (ubase s) = 0"
    "links (hptr m) (ubase s) (ubase s # map fst (X' @ (a', n') # Y')) (ubase s)" "hsize m a' = n'"
    "\<forall>c\<in>set X'. fst c + 16 * snd c < a' \<and> hsize m (fst c) = snd c" "\<forall>c\<in>set Y'. a' + 16 * n' < fst c"
    "p \<in> set (ubase s # map fst (X' @ [(a', n')]))" "joined F a n X' a' n' Y'"
proof -
  let ?b = "ubase s" and ?m = "um s"
  have h: "hsize ?m ?b = 0" "sorted_wrt (\<lambda>b c. fst b + 16 * snd b < fst c) F"
    and n: "0 < n" "hsize ?m a = n" "?b + 16 \<le> a" "a + 16 * n \<le> 2 ^ 32"
    using ok by (auto simp: heap_ok_def block_ok_def space_ok_def)
  note c = heap_free_blocks[OF ok]
  obtain X Y p where F: "F = X @ Y" "\<forall>c\<in>set X. fst c + 16 * snd c \<le> a" "\<forall>c\<in>set Y. a + 16 * n \<le> fst c"
    and p_def: "p = last (?b # map fst X)" and below: "\<forall>x\<in>set (?b # map fst X). x + 16 \<le> a"
    and q: "links (hptr ?m) (hptr ?m p) (map fst Y) ?b" "links (hptr ?m) ?b (?b # map fst X) (hptr ?m p)"
    and ff: "free_find ?m a (freep s) = Some p"
    by (rule free_place[OF ok])
  have pin: "p \<in> set (?b # map fst X)" unfolding p_def by (rule last_in_set) simp
  note uf = ufree_joins[of s "a + 16", simplified, OF ff]
  let ?m1 = "join_above a (hptr ?m p) ?m"
  have sXY: "sorted_wrt (\<lambda>b c. fst b + 16 * snd b < fst c) X" "sorted_wrt (\<lambda>b c. fst b + 16 * snd b < fst c) Y"
    and a32: "a < 2 ^ 32" using h(2) F(1) n by (auto simp: sorted_wrt_append)
  have Y: "\<forall>c\<in>set Y. 0 < snd c \<and> hsize ?m (fst c) = snd c \<and> a + 16 * n \<le> fst c \<and> fst c + 16 * snd c \<le> 2 ^ 32"
    using c F by auto
  obtain n1 Y' where j1: "only {a} ?m ?m1" "links (hptr ?m1) (hptr ?m1 a) (map fst Y') ?b" "hsize ?m1 a = n1"
    "\<forall>c\<in>set Y'. a + 16 * n1 < fst c" "Y = Y' \<and> n1 = n \<or> (\<exists>j. Y = (a + 16 * n, j) # Y' \<and> n1 = n + j)"
    by (rule join_above_ok[OF q(1) sXY(2) Y n(2,1,3) a32])
  have away: "hptr ?m1 x = hptr ?m x" "hsize ?m1 x = hsize ?m x" if "x + 16 \<le> a" for x
    using only_header[OF j1(1)] that by auto
  have q1: "links (hptr ?m1) ?b (?b # map fst X) (hptr ?m p)" using q(2) below away by (elim links_cong) blast
  have X: "\<forall>c\<in>set X. 0 < snd c \<and> hsize ?m1 (fst c) = snd c \<and> ?b + 16 \<le> fst c \<and> fst c + 16 * snd c \<le> a"
    using c F below away by simp
  have Y': "\<forall>c\<in>set Y'. a + 16 * n1 < fst c \<and> fst c < 2 ^ 32" "a + 16 * n1 \<le> 2 ^ 32" "0 < n1"
    using j1(4,5) Y n by fastforce+
  have b0: "hsize ?m1 ?b = 0" using away(2)[OF n(3)] h(1) by simp
  let ?m2 = "join_below a p ?m1"
  obtain a' n' X' where j2: "only {p} ?m1 ?m2" "hsize ?m2 ?b = 0"
    "links (hptr ?m2) ?b (?b # map fst (X' @ (a', n') # Y')) ?b" "hsize ?m2 a' = n'"
    "\<forall>c\<in>set X'. fst c + 16 * snd c < a' \<and> hsize ?m2 (fst c) = snd c"
    "X = X' \<and> a' = a \<and> n' = n1 \<or> (\<exists>k. X = X' @ [(a', k)] \<and> a' + 16 * k = a \<and> n' = k + n1)"
    by (rule join_below_ok[OF q1 p_def b0 n(3) sXY(1) X j1(2) Y'(1) j1(3) Y'(3,2)])
  have o: "only {a, p} ?m ?m2" by (rule only_trans[OF j1(1) j2(1)]) auto
  have "a' + 16 * n' = a + 16 * n1" using j2(6) by auto
  moreover have "p \<in> set (?b # map fst (X' @ [(a', n')]))"
    using j2(6)
  proof
    assume "X = X' \<and> a' = a \<and> n' = n1"
    then show ?thesis using pin by (simp, blast)
  qed (use p_def in auto)
  moreover have "joined F a n X' a' n' Y'" unfolding joined_def using F(1) j1(5) j2(6) by blast
  moreover have "p \<in> set (?b # map fst F)" using pin F(1) by auto
  ultimately show ?thesis using that[OF uf o _ bspec[OF below pin] j2(2,3,4,5)] j1(4) by simp
qed

text \<open>Freeing a block returns, joins the block to the free list, and touches no other block.\<close>

lemma heap_apart_free:
  assumes "heap_ok s lo F A" "b \<in> A" "p \<in> set (ubase s # map fst F)"
  shows "fst b + 16 * snd b \<le> p \<or> p + 16 \<le> fst b"
proof (cases "p = ubase s")
  case True
  then show ?thesis using assms by (auto simp: heap_ok_def block_ok_def space_ok_def)
next
  case False
  then obtain c where "c \<in> set F" "p = fst c" using assms(3) by auto
  then have "apart b c" "0 < snd c" using assms(1,2) by (auto simp: heap_ok_def block_ok_def)
  then show ?thesis using \<open>p = fst c\<close> by (auto simp: apart_def)
qed

lemma block_ok_keeps:
  assumes "keeps A (um s) (um s')" "b \<in> A" "block_ok s lo b" "ubrk s \<le> ubrk s'"
  shows "block_ok s' lo b"
proof -
  have "hsize (um s') (fst b) = hsize (um s) (fst b)"
    unfolding hsize_def using assms(1-3) by (intro get_le_cong) (auto simp: keeps_def block_ok_def)
  then show ?thesis using assms(3,4) by (auto simp: block_ok_def)
qed

lemma free_ok:
  assumes ok: "heap_ok s lo F (insert (a, n) A)" and new: "(a, n) \<notin> A"
  obtains m p F' where "ufree (a + 16) s = Some (s\<lparr>um := m, freep := p\<rparr>)" "heap_ok (s\<lparr>um := m, freep := p\<rparr>) lo F' A"
    "keeps A (um s) m" "\<exists>c\<in>set F'. n \<le> snd c"
proof -
  obtain p m X' a' n' Y' where f: "ufree (a + 16) s = Some (s\<lparr>um := m, freep := p\<rparr>)"
    and o: "only {a, p} (um s) m" and p: "p \<in> set (ubase s # map fst F)" "p + 16 \<le> a" and b0: "hsize m (ubase s) = 0"
    and l: "links (hptr m) (ubase s) (ubase s # map fst (X' @ (a', n') # Y')) (ubase s)" and a': "hsize m a' = n'"
    and X': "\<forall>c\<in>set X'. fst c + 16 * snd c < a' \<and> hsize m (fst c) = snd c" and Y': "\<forall>c\<in>set Y'. a' + 16 * n' < fst c"
    and fp: "p \<in> set (ubase s # map fst (X' @ [(a', n')]))" and j: "joined F a n X' a' n' Y'"
    by (rule free_list[OF ok])
  let ?s = "s\<lparr>um := m, freep := p\<rparr>" and ?F = "X' @ (a', n') # Y'"
  have h: "space_ok s lo" "sorted_wrt (\<lambda>b c. fst b + 16 * snd b < fst c) F" "\<forall>c\<in>set F. block_ok s lo c"
    "block_ok s lo (a, n)" "\<forall>b\<in>A. block_ok s lo b" "\<forall>b\<in>A. \<forall>c\<in>set F. apart b c" "\<forall>b\<in>A. apart b (a, n)"
    "\<forall>b\<in>A. \<forall>c\<in>A. b = c \<or> apart b c"
    using ok new by (auto simp: heap_ok_def)
  have k: "keeps A (um s) m"
  proof (rule only_keeps[OF o])
    fix b q assume b: "b \<in> A" "q \<in> {a, p}"
    then show "fst b + 16 * snd b \<le> q \<or> q + 16 \<le> fst b"
      using heap_apart_free[OF ok, of b p] p(1) bspec[OF h(7) b(1)] h(4) by (auto simp: apart_def block_ok_def)
  qed
  have above: "hsize m (fst c) = snd c" if "c \<in> set Y'" for c
  proof -
    have c: "c \<in> set F" "a' + 16 * n' < fst c" using that Y' joined_incl[OF j] by auto
    then have "a + 16 \<le> fst c" using joined_incl[OF j] h(4) by (auto simp: block_ok_def)
    then show ?thesis using only_header(2)[OF o, of "fst c"] p(2) c(1) h(3) by (auto simp: block_ok_def)
  qed
  have "lo \<le> a' \<and> a' + 16 * n' \<le> ubrk s" by (rule joined_bounds[OF j]) (use h(3,4) in \<open>auto simp: block_ok_def\<close>)
  then have "block_ok ?s lo (a', n')" using a' joined_incl[OF j] h(4) by (auto simp: block_ok_def)
  moreover have "block_ok ?s lo c" if "c \<in> set X' \<union> set Y'" for c
    using that X' above h(3) joined_incl[OF j] by (auto simp: block_ok_def)
  ultimately have blocks: "\<forall>c\<in>set ?F. block_ok ?s lo c" by auto
  have A: "\<forall>b\<in>A. block_ok ?s lo b" using block_ok_keeps[of A s ?s] k h(5) by simp
  have "\<forall>b\<in>A. apart b (a', n')" using joined_apart[OF j] h(5-7) by (auto simp: block_ok_def)
  then have ap: "\<forall>b\<in>A. \<forall>c\<in>set ?F. apart b c" using joined_incl[OF j] h(6) by auto
  have "freep ?s \<in> set (ubase s # map fst ?F)" using fp by auto
  moreover have "space_ok ?s lo" using h(1) by (simp add: space_ok_def)
  moreover have "sorted_wrt (\<lambda>b c. fst b + 16 * snd b < fst c) ?F" using joined_sorted[OF j h(2)] X' Y' by blast
  ultimately have "heap_ok ?s lo ?F A" by (intro heap_okI[OF _ _ _ l b0 _ _ blocks A ap h(8)]) simp_all
  then show ?thesis using that[OF f _ k, of ?F] joined_incl[OF j] by auto
qed

section \<open>Handing out a block\<close>

lemma malloc_walk:
  "links (hptr (um s)) p (xs @ [t]) r \<Longrightarrow> \<forall>x\<in>set xs. hsize (um s) x < nu \<and> x \<noteq> freep s \<Longrightarrow> hptr (um s) p0 = p \<Longrightarrow>
   \<exists>pr. malloc_loop nu p0 p s = malloc_loop nu pr t s \<and> hptr (um s) pr = t \<and> pr \<in> set (p0 # xs)"
proof (induction xs arbitrary: p0 p)
  case Nil
  then show ?case by auto
next
  case (Cons x xs)
  then have "malloc_loop nu p0 p s = malloc_loop nu p (hptr (um s) p) s" by (subst malloc_loop.simps) auto
  moreover have "\<exists>pr. malloc_loop nu p (hptr (um s) p) s = malloc_loop nu pr t s \<and> hptr (um s) pr = t \<and> pr \<in> set (p # xs)"
    using Cons by auto
  ultimately show ?case using Cons.prems(1) by auto
qed

text \<open>The block at \<open>t\<close> is large enough: it is unlinked, or its upper end is cut off.\<close>

definition took :: "ualloc \<Rightarrow> nat \<Rightarrow> block set \<Rightarrow> nat \<Rightarrow> (nat \<times> ualloc) option \<Rightarrow> bool" where
  "took s lo A nu r \<longleftrightarrow>
     (\<exists>a s' F'. r = Some (a + 16, s') \<and> heap_ok s' lo F' (insert (a, nu) A) \<and> (\<forall>b\<in>A. apart (a, nu) b) \<and>
        keeps A (um s) (um s') \<and> ubrk s' = ubrk s \<and> ubase s' = ubase s \<and> ugrant s' = ugrant s)"

lemma heap_block_at:
  assumes "heap_ok s lo F A" "t \<in> set (ubase s # map fst F)" "0 < hsize (um s) t"
  obtains X Y where "F = X @ (t, hsize (um s) t) # Y"
proof -
  have "t \<noteq> ubase s" using assms(1,3) by (auto simp: heap_ok_def)
  then obtain c where c: "c \<in> set F" "t = fst c" using assms(2) by auto
  then have "c = (t, hsize (um s) t)" using assms(1) by (auto simp: heap_ok_def block_ok_def)
  then show ?thesis using that c(1) split_list by metis
qed

lemma heap_before:
  assumes ok: "heap_ok s lo F A" and F: "F = X @ (t, n) # Y" and pr: "pr \<in> set (ubase s # map fst F)" "hptr (um s) pr = t"
  shows "pr = last (ubase s # map fst X)"
proof -
  let ?C = "ubase s # map fst F"
  obtain us vs where C: "?C = us @ pr # vs" using pr(1) split_list by metis
  have l: "links (hptr (um s)) (ubase s) ?C (ubase s)" using ok by (auto simp: heap_ok_def)
  have st: "sorted_wrt (<) ?C" by (rule heap_sorted[OF ok])
  have "t \<noteq> ubase s" using st F by auto
  moreover have "t = hd (vs @ [ubase s])" using links_next l pr(2) unfolding C by blast
  ultimately obtain ws where vs: "vs = t # ws" by (cases vs) auto
  have d: "distinct ?C" using st strict_sorted_iff by blast
  have e: "(us @ [pr]) @ t # ws = (ubase s # map fst X) @ t # map fst Y" using C unfolding vs F by simp
  have ni: "t \<notin> set (us @ [pr])" "t \<notin> set ws" using d unfolding C vs by auto
  have "us @ [pr] = ubase s # map fst X" by (rule iffD1[OF append_Cons_eq_iff[OF ni] e, THEN conjunct1])
  then show ?thesis by (metis last_snoc)
qed

lemma tookI:
  assumes ok: "heap_ok s lo F A" and m: "keeps A (um s) m" "hsize m (ubase s) = 0"
    and l: "links (hptr m) (ubase s) (ubase s # map fst F') (ubase s)" "pr \<in> set (ubase s # map fst F')"
    and F': "sorted_wrt (\<lambda>b c. fst b + 16 * snd b < fst c) F'" "\<forall>c\<in>set ((a, nu) # F'). block_ok (s\<lparr>um := m, freep := pr\<rparr>) lo c"
    and ap: "\<forall>c\<in>set F'. apart (a, nu) c" "\<forall>b\<in>A. apart b (a, nu)" "\<forall>b\<in>A. \<forall>c\<in>set F'. apart b c"
  shows "took s lo A nu (Some (a + 16, s\<lparr>um := m, freep := pr\<rparr>))"
proof -
  let ?s = "s\<lparr>um := m, freep := pr\<rparr>"
  have h: "space_ok s lo" "\<forall>b\<in>A. block_ok s lo b" "\<forall>b\<in>A. \<forall>c\<in>A. b = c \<or> apart b c"
    using ok by (auto simp: heap_ok_def)
  have A: "\<forall>b\<in>A. block_ok ?s lo b" using block_ok_keeps[of A s ?s] m(1) h(2) by simp
  have sym: "\<forall>b\<in>A. apart (a, nu) b" using ap(2) by (auto simp: apart_def)
  have "heap_ok ?s lo F' (insert (a, nu) A)"
  proof (rule heap_okI[OF _ _ _ l(1) m(2) _ F'(1)])
    show "\<forall>b\<in>insert (a, nu) A. \<forall>c\<in>set F'. apart b c" using ap(1,3) by blast
    show "\<forall>b\<in>insert (a, nu) A. \<forall>c\<in>insert (a, nu) A. b = c \<or> apart b c" using ap(2) sym h(3) by blast
  qed (use h(1) A F'(2) l(2) in \<open>auto simp: space_ok_def\<close>)
  then show ?thesis unfolding took_def using m(1) sym by (intro exI[of _ a] exI[of _ ?s] exI[of _ F']) simp
qed

lemma take_whole:
  assumes ok: "heap_ok s lo F A" and F: "F = X @ (t, nu) # Y" and p: "pr = last (ubase s # map fst X)"
  shows "took s lo A nu (Some (t + 16, s\<lparr>um := set_ptr pr (hptr (um s) t) (um s), freep := pr\<rparr>))"
proof -
  let ?b = "ubase s" and ?m = "set_ptr pr (hptr (um s) t) (um s)"
  let ?s = "s\<lparr>um := ?m, freep := pr\<rparr>"
  have h: "space_ok s lo" "links (hptr (um s)) ?b (?b # map fst F) ?b" "hsize (um s) ?b = 0"
    "sorted_wrt (\<lambda>b c. fst b + 16 * snd b < fst c) F" "\<forall>c\<in>set F. block_ok s lo c" "\<forall>b\<in>A. block_ok s lo b"
    "\<forall>b\<in>A. \<forall>c\<in>set F. apart b c"
    using ok by (auto simp: heap_ok_def)
  obtain us where us: "?b # map fst X = us @ [pr]" using p by (metis append_butlast_last_id list.discI)
  have C: "?b # map fst F = us @ pr # t # map fst Y" using us F by simp
  have gap: "sorted_wrt (\<lambda>x y. x + 16 \<le> y) (us @ pr # t # map fst Y)" using heap_sorted(1)[OF ok] unfolding C .
  have hs: "hsize ?m x = hsize (um s) x" if "x \<in> set (?b # map fst F)" for x
    using that gap unfolding C by (cases "x = pr") (auto simp: sorted_wrt_append set_here set_there)
  have "hptr (um s) t = hd (map fst Y @ [?b])" using links_next[of _ _ "us @ [pr]" t] h(2) unfolding C by simp
  then have "hptr (um s) t \<in> set (?b # map fst F)" using F by (cases Y) auto
  then have lt: "hptr (um s) t < 2 ^ 64"
    using heap_free_blocks[OF ok] h(1) by (fastforce simp: space_ok_def)
  have "links (hptr (um s)) ?b us pr" "links (hptr (um s)) (hptr (um s) t) (map fst Y) ?b"
    using h(2) unfolding C by (auto simp: links_append)
  moreover have "\<forall>x\<in>set us. x + 16 \<le> pr" "\<forall>y\<in>set (map fst Y). pr + 16 \<le> y"
    using gap by (auto simp: sorted_wrt_append)
  ultimately have "links (hptr ?m) ?b us pr" "links (hptr ?m) (hptr (um s) t) (map fst Y) ?b"
    by (auto elim!: links_cong intro!: set_there(1) simp del: set_map)
  then have "links (hptr ?m) ?b ((us @ [pr]) @ map fst Y) ?b" using lt by (auto simp: links_append set_here)
  then have l: "links (hptr ?m) ?b (?b # map fst (X @ Y)) ?b" unfolding us[symmetric] by simp
  have k: "keeps A (um s) ?m"
    by (rule only_keeps[OF only_set(1)]) (use heap_apart_free[OF ok] C in auto)
  show ?thesis
  proof (rule tookI[OF ok k _ l])
    have "pr \<in> set (?b # map fst X)" unfolding us by simp
    then show "pr \<in> set (?b # map fst (X @ Y))" by auto
    show "sorted_wrt (\<lambda>b c. fst b + 16 * snd b < fst c) (X @ Y)" "\<forall>c\<in>set (X @ Y). apart (t, nu) c"
      using h(4) unfolding F by (auto simp: sorted_wrt_append apart_def)
    have "\<forall>c\<in>set F. block_ok ?s lo c" using h(5) hs by (auto simp: block_ok_def)
    then show "\<forall>c\<in>set ((t, nu) # X @ Y). block_ok ?s lo c" using F by auto
  qed (use h(3,7) hs[of ?b] F in auto)
qed

lemma take_part:
  assumes ok: "heap_ok s lo F A" and F: "F = X @ (t, n) # Y" and p: "pr \<in> set (ubase s # map fst F)" and nu: "0 < nu" "nu < n"
  defines "a \<equiv> t + 16 * (n - nu)"
  defines "m \<equiv> set_size a nu (set_size t (n - nu) (um s))"
  shows "took s lo A nu (Some (a + 16, s\<lparr>um := m, freep := pr\<rparr>))"
proof -
  let ?b = "ubase s" and ?s = "s\<lparr>um := m, freep := pr\<rparr>" and ?F = "X @ (t, n - nu) # Y"
  have h: "space_ok s lo" "links (hptr (um s)) ?b (?b # map fst F) ?b" "hsize (um s) ?b = 0"
    "sorted_wrt (\<lambda>b c. fst b + 16 * snd b < fst c) F" "\<forall>c\<in>set F. block_ok s lo c" "\<forall>b\<in>A. block_ok s lo b"
    "\<forall>b\<in>A. \<forall>c\<in>set F. apart b c"
    using ok by (auto simp: heap_ok_def)
  have t: "lo \<le> t" "t + 16 * n \<le> ubrk s" "n < 2 ^ 32" "t + 16 \<le> a" "a + 16 * nu = t + 16 * n"
    using h(1,5) F nu by (auto simp: block_ok_def space_ok_def a_def algebra_simps)
  have F': "map fst ?F = map fst F" using F by simp
  have o: "only {t, a} (um s) m" unfolding m_def by (rule only_trans[OF only_set(2) only_set(2)]) auto
  have here: "hsize m a = nu" "hsize m t = n - nu" using t nu by (auto simp: m_def set_here set_there)
  have pt: "hptr m x = hptr (um s) x" if "x + 16 \<le> a \<or> a + 16 \<le> x" "x = t \<or> x + 16 \<le> t \<or> t + 16 \<le> x" for x
    using that t(4) by (auto simp: m_def set_here set_there)
  have away: "x + 16 \<le> t \<or> t + 16 * n \<le> x" if "x \<in> set (?b # map fst (X @ Y))" for x
  proof (cases "x = ?b")
    case False
    with that have "x \<in> fst ` set (X @ Y)" by (simp add: image_Un)
    then obtain c where "c \<in> set (X @ Y)" "x = fst c" by blast
    moreover have "c \<in> set X \<longrightarrow> fst c + 16 * snd c < t" "c \<in> set Y \<longrightarrow> t + 16 * n < fst c" "c \<in> set (X @ Y) \<longrightarrow> 0 < snd c"
      using h(4,5) unfolding F by (auto simp: sorted_wrt_append block_ok_def)
    ultimately show ?thesis by auto
  qed (use h(1) t(1) in \<open>auto simp: space_ok_def\<close>)
  have out: "x = t \<or> x + 16 \<le> t \<or> a + 16 \<le> x" if "x \<in> set (?b # map fst F)" for x
  proof (cases "x = t")
    case False
    then have "x \<in> set (?b # map fst (X @ Y))" using that F by (auto simp: image_Un)
    then show ?thesis using away[of x] t(5) nu(1) by linarith
  qed simp
  have l: "links (hptr m) ?b (?b # map fst ?F) ?b"
    unfolding F' using h(2)
  proof (elim links_cong)
    fix x assume "x \<in> set (?b # map fst F)"
    then show "hptr m x = hptr (um s) x" using out[of x] t(4) by (intro pt) linarith+
  qed
  have hs: "hsize m x = hsize (um s) x" if "x \<in> set (?b # map fst (X @ Y))" for x
    using away[OF that] t(4,5) nu by (intro only_header(2)[OF o]) auto
  have k: "keeps A (um s) m"
  proof (rule only_keeps[OF o])
    fix b q assume b: "b \<in> A" "q \<in> {t, a}"
    then have "apart b (t, n)" using h(7) F by simp
    then show "fst b + 16 * snd b \<le> q \<or> q + 16 \<le> fst b" using b(2) t nu by (auto simp: apart_def)
  qed
  show ?thesis
  proof (rule tookI[OF ok k _ l])
    show "pr \<in> set (?b # map fst ?F)" unfolding F' by (rule p)
    show "sorted_wrt (\<lambda>b c. fst b + 16 * snd b < fst c) ?F" using h(4) unfolding F by (fastforce simp: sorted_wrt_append)
    show "\<forall>c\<in>set ?F. apart (a, nu) c"
      using h(4) t(4,5) unfolding F by (auto simp: sorted_wrt_append apart_def a_def)
    show "\<forall>b\<in>A. apart b (a, nu)" "\<forall>b\<in>A. \<forall>c\<in>set ?F. apart b c"
      using h(7) t unfolding F by (auto simp: apart_def a_def)
    have "\<forall>c\<in>set (X @ Y). hsize m (fst c) = hsize (um s) (fst c)"
      by (intro ballI hs) (metis image_eqI list.set_intros(2) set_map)
    then have "\<forall>c\<in>set (X @ Y). block_ok ?s lo c" using h(5) F by (auto simp: block_ok_def)
    then show "\<forall>c\<in>set ((a, nu) # ?F). block_ok ?s lo c" using here nu t by (auto simp: block_ok_def)
  qed (use h(3) hs[of ?b] in auto)
qed

lemma malloc_loop_take:
  assumes ok: "heap_ok s lo F A" and pr: "pr \<in> set (ubase s # map fst F)" "hptr (um s) pr = t"
    and t: "t \<in> set (ubase s # map fst F)" "nu \<le> hsize (um s) t" "0 < nu"
  shows "took s lo A nu (malloc_loop nu pr t s)"
proof -
  obtain X Y where F: "F = X @ (t, hsize (um s) t) # Y" using heap_block_at[OF ok t(1)] t(2,3) by auto
  have n: "hsize (um s) t < 2 ^ 32" unfolding hsize_def using get_le_bound[of 4] by simp
  show ?thesis
  proof (cases "hsize (um s) t = nu")
    case True
    then show ?thesis
      using take_whole[OF ok F heap_before[OF ok F pr]] by (subst malloc_loop.simps) simp
  next
    case False
    then have lt: "nu < hsize (um s) t" using t(2) by simp
    have "hsize (set_size t (hsize (um s) t - nu) (um s)) t = hsize (um s) t - nu" using n by (simp add: set_here)
    then show ?thesis
      using take_part[OF ok F pr(1) t(3) lt] t(2) False by (subst malloc_loop.simps) (simp add: Let_def)
  qed
qed

lemma heap_round:
  assumes ok: "heap_ok s lo F A"
  obtains V where "links (hptr (um s)) (hptr (um s) (freep s)) (V @ [freep s]) (hptr (um s) (freep s))"
    "set (V @ [freep s]) = set (ubase s # map fst F)" "freep s \<notin> set V"
proof -
  have "distinct (ubase s # map fst F)" using heap_sorted(2)[OF ok] strict_sorted_iff by blast
  then show ?thesis using ring_round[OF _ _ _ refl] that ok unfolding heap_ok_def by blast
qed

lemma malloc_fits:
  assumes ok: "heap_ok s lo F A" and fit: "\<exists>c\<in>set F. nu \<le> snd c" and nu: "0 < nu"
  shows "took s lo A nu (malloc_loop nu (freep s) (hptr (um s) (freep s)) s)"
proof -
  obtain V where V: "links (hptr (um s)) (hptr (um s) (freep s)) (V @ [freep s]) (hptr (um s) (freep s))"
    "set (V @ [freep s]) = set (ubase s # map fst F)" "freep s \<notin> set V"
    by (rule heap_round[OF ok])
  obtain c where "c \<in> set F" "nu \<le> hsize (um s) (fst c)" using fit ok by (auto simp: heap_ok_def block_ok_def)
  then have "\<exists>x\<in>set (V @ [freep s]). nu \<le> hsize (um s) x" unfolding V(2) by auto
  then obtain xs t ys where x: "V @ [freep s] = xs @ t # ys" "nu \<le> hsize (um s) t" "\<forall>x\<in>set xs. \<not> nu \<le> hsize (um s) x"
    using split_list_first_prop[of "V @ [freep s]" "\<lambda>x. nu \<le> hsize (um s) x"] by blast
  have xV: "set xs \<subseteq> set V" using x(1) by (cases ys rule: rev_cases) auto
  have lk: "links (hptr (um s)) (hptr (um s) (freep s)) (xs @ [t]) (hptr (um s) t)"
    using V(1) unfolding x(1) by (auto simp: links_append)
  have "\<forall>x\<in>set xs. hsize (um s) x < nu \<and> x \<noteq> freep s" using x(3) xV V(3) by auto
  from malloc_walk[OF lk this refl] obtain pr where pr: "malloc_loop nu (freep s) (hptr (um s) (freep s)) s = malloc_loop nu pr t s"
    "hptr (um s) pr = t" "pr \<in> set (freep s # xs)"
    by blast
  have "t \<in> set (ubase s # map fst F)" "pr \<in> set (ubase s # map fst F)"
    unfolding V(2)[symmetric] using pr(3) xV by (simp add: x(1), auto)
  then show ?thesis unfolding pr(1) using malloc_loop_take[OF ok _ pr(2) _ x(2) nu] by blast
qed

section \<open>Growing the heap\<close>

lemma grown_heap:
  assumes ok: "heap_ok s lo F A" and sz: "ubrk s + 16 * k \<le> 2 ^ 32" "0 < k"
  defines "s0 \<equiv> s\<lparr>ubrk := ubrk s + 16 * k, um := set_size (ubrk s) k (um s)\<rparr>"
  shows "heap_ok s0 lo F (insert (ubrk s, k) A)" "keeps A (um s) (um s0)" "(ubrk s, k) \<notin> A"
proof -
  have h: "space_ok s lo" "links (hptr (um s)) (ubase s) (ubase s # map fst F) (ubase s)" "hsize (um s) (ubase s) = 0"
    "freep s \<in> set (ubase s # map fst F)" "sorted_wrt (\<lambda>b c. fst b + 16 * snd b < fst c) F"
    "\<forall>c\<in>set F. block_ok s lo c" "\<forall>b\<in>A. block_ok s lo b" "\<forall>b\<in>A. \<forall>c\<in>set F. apart b c"
    "\<forall>b\<in>A. \<forall>c\<in>A. b = c \<or> apart b c"
    using ok by (auto simp: heap_ok_def)
  have o: "only {ubrk s} (um s) (um s0)" unfolding s0_def using only_set(2) by simp
  have below: "fst b + 16 * snd b \<le> ubrk s" "fst b + 16 \<le> ubrk s" if "b \<in> set F \<union> A" for b
    using that h(6,7) by (auto simp: block_ok_def)
  then show k: "keeps A (um s) (um s0)" by (intro only_keeps[OF o]) auto
  show "(ubrk s, k) \<notin> A" using below(2) by fastforce
  have bb: "ubase s + 16 \<le> ubrk s" using h(1) by (simp add: space_ok_def)
  have same: "hptr (um s0) x = hptr (um s) x" "hsize (um s0) x = hsize (um s) x" if "x + 16 \<le> ubrk s" for x
    using that by (auto intro!: only_header[OF o])
  have new: "hsize (um s0) (ubrk s) = k" unfolding s0_def using sz by (simp add: set_here)
  have C: "\<forall>x\<in>set (ubase s # map fst F). x + 16 \<le> ubrk s" using below(2) bb by auto
  show "heap_ok s0 lo F (insert (ubrk s, k) A)"
  proof (rule heap_okI[where m = "um s0" and b = "ubase s"])
    show "space_ok s0 lo" using h(1) sz by (auto simp: space_ok_def s0_def)
    show "links (hptr (um s0)) (ubase s) (ubase s # map fst F) (ubase s)"
      using h(2) C same(1) by (elim links_cong) blast
    show "hsize (um s0) (ubase s) = 0" using same(2) bb h(3) by simp
    show "\<forall>c\<in>set F. block_ok s0 lo c"
      using h(6) below(2) same(2) by (auto simp: block_ok_def s0_def)
    have "\<forall>b\<in>A. block_ok s0 lo b" using block_ok_keeps[OF k] h(7) by (simp add: s0_def)
    then show "\<forall>b\<in>insert (ubrk s, k) A. block_ok s0 lo b"
      using new sz h(1) by (auto simp: block_ok_def s0_def space_ok_def)
    show "\<forall>b\<in>insert (ubrk s, k) A. \<forall>c\<in>set F. apart b c"
      using h(8) below(1) by (auto simp: apart_def)
    show "\<forall>b\<in>insert (ubrk s, k) A. \<forall>c\<in>insert (ubrk s, k) A. b = c \<or> apart b c"
      using h(9) below(1) by (auto simp: apart_def)
  qed (use h(4,5) in \<open>simp_all add: s0_def\<close>)
qed

lemma morecore_ok:
  assumes ok: "heap_ok s lo F A" and nu: "0 < nu" "16 * nu < 2 ^ 31"
  defines "k \<equiv> max 4096 nu"
  shows "if ugrant s (ubrk s + 16 * k)
         then \<exists>s' F'. morecore nu s = Some (freep s', s') \<and> heap_ok s' lo F' A \<and> keeps A (um s) (um s') \<and> (\<exists>c\<in>set F'. nu \<le> snd c)
         else morecore nu s = Some (0, s)"
proof -
  have "sint (of_nat (k * 16) :: 32 word) = int (16 * k)"
  proof -
    have "sint (of_nat (k * 16) :: 32 word) = signed_take_bit 31 (int (k * 16))" by (simp only: signed_of_nat) simp
    also have "\<dots> = int (k * 16)" using nu(2) by (intro signed_take_bit_int_eq_self) (auto simp: k_def)
    finally show ?thesis by (simp add: mult.commute)
  qed
  moreover have "(if nu < 4096 then 4096 else nu) = k" by (simp add: k_def)
  ultimately have m: "morecore nu s =
      (if ugrant s (ubrk s + 16 * k)
       then map_option (\<lambda>s. (freep s, s)) (ufree (ubrk s + 16) (s\<lparr>ubrk := ubrk s + 16 * k, um := set_size (ubrk s) k (um s)\<rparr>))
       else Some (0, s))"
    using nu(1) by (simp add: morecore_def sbrk_def Let_def nat_add_distrib nat_mult_distrib k_def)
  show ?thesis
  proof (cases "ugrant s (ubrk s + 16 * k)")
    case True
    let ?s0 = "s\<lparr>ubrk := ubrk s + 16 * k, um := set_size (ubrk s) k (um s)\<rparr>"
    have "ubrk s + 16 * k \<le> 2 ^ 32" "0 < k" using True ok by (auto simp: heap_ok_def space_ok_def k_def)
    note g = grown_heap[OF ok this]
    obtain m' p F' where f: "ufree (ubrk s + 16) ?s0 = Some (?s0\<lparr>um := m', freep := p\<rparr>)"
      "heap_ok (?s0\<lparr>um := m', freep := p\<rparr>) lo F' A" "keeps A (um ?s0) m'" "\<exists>c\<in>set F'. k \<le> snd c"
      by (rule free_ok[OF g(1,3)])
    have "keeps A (um s) m'" by (rule keeps_trans[OF g(2) f(3)])
    moreover have "\<exists>c\<in>set F'. nu \<le> snd c" using f(4) by (auto simp: k_def)
    ultimately show ?thesis using True m f(1,2) by auto
  qed (use m in simp)
qed

section \<open>The allocator\<close>

text \<open>Before the first call the list is not set up yet, and no block is handed out.\<close>

definition heap_inv :: "ualloc \<Rightarrow> nat \<Rightarrow> block list \<Rightarrow> block set \<Rightarrow> bool" where
  "heap_inv s lo F A \<longleftrightarrow> (if freep s = 0 then space_ok s lo \<and> F = [] \<and> A = {} else heap_ok s lo F A)"

definition units :: "nat \<Rightarrow> nat" where "units nbytes = (nbytes + 16 - 1) div 16 + 1"

definition malloc_init :: "ualloc \<Rightarrow> ualloc" where
  "malloc_init s =
     (if freep s = 0
      then s\<lparr>freep := ubase s, um := set_size (ubase s) 0 (set_ptr (ubase s) (ubase s) (um s))\<rparr> else s)"

lemma malloc_unfold:
  "malloc nbytes s = malloc_loop (units nbytes) (freep (malloc_init s)) (hptr (um (malloc_init s)) (freep (malloc_init s))) (malloc_init s)"
  by (simp add: malloc_def units_def malloc_init_def Let_def)

lemma malloc_init_ok:
  assumes "heap_inv s lo F A"
  shows "heap_ok (malloc_init s) lo F A" "keeps A (um s) (um (malloc_init s))"
    "ubrk (malloc_init s) = ubrk s" "ugrant (malloc_init s) = ugrant s"
  using assms
  by (auto simp: heap_inv_def malloc_init_def heap_ok_def space_ok_def keeps_def set_here split: if_splits)

lemma heap_ok_inv: "heap_ok s lo F A \<Longrightarrow> heap_inv s lo F A"
  by (auto simp: heap_inv_def heap_ok_def space_ok_def block_ok_def)

text \<open>
  The result of \<^verbatim>\<open>malloc\<close>: a new block that overlaps none of the old ones, or 0 if the kernel refused
  more memory; the contents of the old blocks are the same.
\<close>

definition malloc_result :: "ualloc \<Rightarrow> nat \<Rightarrow> block set \<Rightarrow> nat \<Rightarrow> nat \<Rightarrow> ualloc \<Rightarrow> bool" where
  "malloc_result s lo A nu p s' \<longleftrightarrow>
     keeps A (um s) (um s') \<and>
     (p = 0 \<and> \<not> ugrant s (ubrk s + 16 * max 4096 nu) \<and> (\<exists>F'. heap_inv s' lo F' A) \<or>
      (\<exists>a F'. p = a + 16 \<and> (\<forall>b\<in>A. apart (a, nu) b) \<and> heap_inv s' lo F' (insert (a, nu) A)))"

lemma took_result:
  "took s1 lo A nu r \<Longrightarrow> keeps A (um s) (um s1) \<Longrightarrow> \<exists>p s'. r = Some (p, s') \<and> malloc_result s lo A nu p s'"
  unfolding took_def malloc_result_def using heap_ok_inv keeps_trans by blast

lemma malloc_loop_ok:
  assumes ok: "heap_ok s lo F A" and nu: "0 < nu" "16 * nu < 2 ^ 31"
  shows "\<exists>p s'. malloc_loop nu (freep s) (hptr (um s) (freep s)) s = Some (p, s') \<and> malloc_result s lo A nu p s'"
proof (cases "\<exists>c\<in>set F. nu \<le> snd c")
  case True
  show ?thesis by (rule took_result[OF malloc_fits[OF ok True nu(1)]]) (simp add: keeps_def)
next
  case False
  obtain V where V: "links (hptr (um s)) (hptr (um s) (freep s)) (V @ [freep s]) (hptr (um s) (freep s))"
    "set (V @ [freep s]) = set (ubase s # map fst F)" "freep s \<notin> set V"
    by (rule heap_round[OF ok])
  have small: "\<forall>x\<in>set (V @ [freep s]). hsize (um s) x < nu"
    unfolding V(2) using False ok nu(1) by (auto simp: heap_ok_def block_ok_def not_le)
  then have "\<forall>x\<in>set V. hsize (um s) x < nu \<and> x \<noteq> freep s" using V(3) by auto
  from malloc_walk[OF V(1) this refl] obtain pr
    where "malloc_loop nu (freep s) (hptr (um s) (freep s)) s = malloc_loop nu pr (freep s) s" by blast
  also have "\<dots> = (case morecore nu s of None \<Rightarrow> None
      | Some (p1, s1) \<Rightarrow> if p1 = 0 then Some (0, s1) else malloc_loop nu p1 (hptr (um s1) p1) s1)"
    using small by (subst malloc_loop.simps) simp
  finally have l: "malloc_loop nu (freep s) (hptr (um s) (freep s)) s = \<dots>" .
  show ?thesis
  proof (cases "ugrant s (ubrk s + 16 * max 4096 nu)")
    case True
    then obtain s' F' where g: "morecore nu s = Some (freep s', s')" "heap_ok s' lo F' A" "keeps A (um s) (um s')"
      "\<exists>c\<in>set F'. nu \<le> snd c" using morecore_ok[OF ok nu] by auto
    have "freep s' \<noteq> 0" using g(2) by (auto simp: heap_ok_def space_ok_def block_ok_def)
    then have e: "malloc_loop nu (freep s) (hptr (um s) (freep s)) s = malloc_loop nu (freep s') (hptr (um s') (freep s')) s'"
      using l g(1) by simp
    show ?thesis unfolding e by (rule took_result[OF malloc_fits[OF g(2,4) nu(1)] g(3)])
  next
    case refused: False
    then have "morecore nu s = Some (0, s)" using morecore_ok[OF ok nu] by simp
    then show ?thesis using l refused heap_ok_inv[OF ok] by (auto simp: malloc_result_def keeps_def)
  qed
qed

lemma malloc_ok:
  assumes "heap_inv s lo F A" "nbytes + 32 \<le> 2 ^ 31"
  shows "\<exists>p s'. malloc nbytes s = Some (p, s') \<and> malloc_result s lo A (units nbytes) p s'"
proof -
  note i = malloc_init_ok[OF assms(1)]
  have "0 < units nbytes" "16 * units nbytes < 2 ^ 31" using assms(2) by (auto simp: units_def)
  then obtain p s' where m: "malloc nbytes s = Some (p, s')" "malloc_result (malloc_init s) lo A (units nbytes) p s'"
    using malloc_loop_ok[OF i(1)] malloc_unfold by metis
  then have "malloc_result s lo A (units nbytes) p s'"
    unfolding malloc_result_def i(3,4) using keeps_trans[OF i(2)] by blast
  then show ?thesis using m(1) by blast
qed

lemma free_inv:
  assumes "heap_inv s lo F A" "(a, n) \<in> A"
  shows "\<exists>s' F'. ufree (a + 16) s = Some s' \<and> heap_inv s' lo F' (A - {(a, n)}) \<and> keeps (A - {(a, n)}) (um s) (um s')"
proof -
  have "heap_ok s lo F (insert (a, n) (A - {(a, n)}))"
    using assms by (auto simp: heap_inv_def insert_absorb split: if_splits)
  then obtain m p F' where f: "ufree (a + 16) s = Some (s\<lparr>um := m, freep := p\<rparr>)"
    "heap_ok (s\<lparr>um := m, freep := p\<rparr>) lo F' (A - {(a, n)})" "keeps (A - {(a, n)}) (um s) m"
    by (rule free_ok) auto
  show ?thesis using f(1,3) heap_ok_inv[OF f(2)] by (intro exI[of _ "s\<lparr>um := m, freep := p\<rparr>"] exI[of _ F']) simp
qed

text \<open>A process before its first allocation: the program ends at 8192, and the kernel has one megabyte for it.\<close>

definition fresh_heap :: ualloc where
  "fresh_heap = \<lparr>um = (\<lambda>_. 0), ubase = 4096, freep = 0, ubrk = 8192, ugrant = (\<lambda>n. n \<le> 1048576)\<rparr>"

lemma fresh_heap_inv: "heap_inv fresh_heap 8192 [] {}"
  by (simp add: heap_inv_def fresh_heap_def space_ok_def)

text \<open>
  C35. \<^verbatim>\<open>malloc\<close> on a well-formed heap, for any request of at most \<open>2 ^ 31 - 32\<close> bytes, returns. Either the kernel
  refused to enlarge the process and the result is 0, or the result is the payload of a block that
  holds the requested bytes and overlaps no block handed out before. In both cases the contents of
  the blocks handed out before are unchanged and the heap is well-formed.
\<close>

theorem malloc_correct:
  assumes "heap_inv s lo F A" "nbytes + 32 \<le> 2 ^ 31"
  shows "\<exists>p s'. malloc nbytes s = Some (p, s') \<and>
           (\<forall>(b, k)\<in>A. \<forall>x. b \<le> x \<and> x < b + 16 * k \<longrightarrow> um s' x = um s x) \<and>
           (p = 0 \<and> \<not> ugrant s (ubrk s + 16 * max 4096 (units nbytes)) \<and> (\<exists>F'. heap_inv s' lo F' A) \<or>
            (\<exists>a n F'. p = a + 16 \<and> nbytes \<le> 16 * (n - 1) \<and> lo \<le> a \<and> a + 16 * n \<le> ubrk s' \<and>
               (\<forall>(b, k)\<in>A. a + 16 * n \<le> b \<or> b + 16 * k \<le> a) \<and> heap_inv s' lo F' (insert (a, n) A)))"
proof -
  obtain p s' where m: "malloc nbytes s = Some (p, s')" "keeps A (um s) (um s')"
    and r: "p = 0 \<and> \<not> ugrant s (ubrk s + 16 * max 4096 (units nbytes)) \<and> (\<exists>F'. heap_inv s' lo F' A) \<or>
      (\<exists>a F'. p = a + 16 \<and> (\<forall>b\<in>A. apart (a, units nbytes) b) \<and> heap_inv s' lo F' (insert (a, units nbytes) A))"
    using malloc_ok[OF assms] unfolding malloc_result_def by blast
  have "\<forall>(b, k)\<in>A. \<forall>x. b \<le> x \<and> x < b + 16 * k \<longrightarrow> um s' x = um s x" using m(2) by (auto simp: keeps_def)
  moreover have "lo \<le> a \<and> a + 16 * n \<le> ubrk s'" if "heap_inv s' lo F' (insert (a, n) A)" for a n F'
    using that by (auto simp: heap_inv_def heap_ok_def block_ok_def split: if_splits)
  moreover have "nbytes \<le> 16 * (units nbytes - 1)" by (simp add: units_def)
  moreover have "\<forall>(b, k)\<in>A. a + 16 * n \<le> b \<or> b + 16 * k \<le> a" if "\<forall>b\<in>A. apart (a, n) b" for a n
    using that by (auto simp: apart_def)
  ultimately show ?thesis using m(1) r by (intro exI[of _ p] exI[of _ s']) blast
qed

theorem malloc_correct_witness:
  "\<exists>p s' a n F'. malloc 100 fresh_heap = Some (p, s') \<and> p = a + 16 \<and> 100 \<le> 16 * (n - 1) \<and> 8192 \<le> a \<and>
     heap_inv s' 8192 F' {(a, n)}"
proof -
  have "ugrant fresh_heap (ubrk fresh_heap + 16 * max 4096 (units 100))" by (simp add: fresh_heap_def units_def)
  then show ?thesis using malloc_correct[OF fresh_heap_inv, of 100] by simp blast
qed

section \<open>Programs that use the allocator\<close>

text \<open>
  The steps of a program, with the blocks it holds: it allocates, it frees a block it holds, or it
  stores a byte into the payload of such a block.
\<close>

inductive heap_use :: "ualloc \<times> block set \<Rightarrow> ualloc \<times> block set \<Rightarrow> bool" where
  use_malloc: "malloc nbytes s = Some (a + 16, s') \<Longrightarrow> nbytes + 32 \<le> 2 ^ 31 \<Longrightarrow> heap_use (s, A) (s', insert (a, units nbytes) A)"
| use_refused: "malloc nbytes s = Some (0, s') \<Longrightarrow> nbytes + 32 \<le> 2 ^ 31 \<Longrightarrow> heap_use (s, A) (s', A)"
| use_free: "(a, n) \<in> A \<Longrightarrow> ufree (a + 16) s = Some s' \<Longrightarrow> heap_use (s, A) (s', A - {(a, n)})"
| use_store: "(a, n) \<in> A \<Longrightarrow> a + 16 \<le> x \<Longrightarrow> x < a + 16 * n \<Longrightarrow> heap_use (s, A) (s\<lparr>um := (um s)(x := v)\<rparr>, A)"

lemma store_inv:
  assumes "heap_inv s lo F A" "(a, n) \<in> A" "a + 16 \<le> x" "x < a + 16 * n"
  shows "heap_inv (s\<lparr>um := (um s)(x := v)\<rparr>) lo F A"
proof -
  let ?s = "s\<lparr>um := (um s)(x := v)\<rparr>"
  have ok: "heap_ok s lo F A" using assms(1,2) by (auto simp: heap_inv_def split: if_splits)
  have head: "hptr (um ?s) c = hptr (um s) c \<and> hsize (um ?s) c = hsize (um s) c" if "x < c \<or> c + 16 \<le> x" for c
    using that by (auto simp: hptr_def hsize_def intro!: get_le_cong)
  have free: "x < c \<or> c + 16 \<le> x" if "c \<in> set (ubase s # map fst F)" for c
    using heap_apart_free[OF ok assms(2) that] assms(3,4) by auto
  have A: "x < fst b \<or> fst b + 16 \<le> x" if "b \<in> A" for b
  proof (cases "b = (a, n)")
    case False
    then have "apart b (a, n)" "0 < snd b" using that assms(2) ok by (auto simp: heap_ok_def block_ok_def)
    then show ?thesis using assms(3,4) by (auto simp: apart_def)
  qed (use assms(3) in auto)
  have "heap_ok ?s lo F A"
  proof (rule heap_okI[where m = "um ?s" and b = "ubase s"])
    show "links (hptr (um ?s)) (ubase s) (ubase s # map fst F) (ubase s)"
      using ok head free unfolding heap_ok_def by (blast intro: links_cong)
    show "hsize (um ?s) (ubase s) = 0" using head[OF free] ok by (simp add: heap_ok_def)
    show "\<forall>c\<in>set F. block_ok ?s lo c" using ok head[OF free] by (auto simp: heap_ok_def block_ok_def)
    show "\<forall>c\<in>A. block_ok ?s lo c" using ok head[OF A] by (auto simp: heap_ok_def block_ok_def)
  qed (use ok in \<open>auto simp: heap_ok_def space_ok_def\<close>)
  then show ?thesis by (rule heap_ok_inv)
qed

lemma heap_use_inv:
  assumes "heap_use x y" "\<exists>F. heap_inv (fst x) lo F (snd x)"
  shows "\<exists>F. heap_inv (fst y) lo F (snd y)"
  using assms
proof cases
  case (use_malloc nbytes s a s' A)
  then show ?thesis using malloc_ok[of s lo _ A nbytes] assms(2) by (auto simp: malloc_result_def)
next
  case (use_refused nbytes s s' A)
  then show ?thesis using malloc_ok[of s lo _ A nbytes] assms(2) by (auto simp: malloc_result_def)
next
  case (use_free a n A s s')
  then show ?thesis using free_inv[of s lo _ A a n] assms(2) by auto
next
  case (use_store a n A x s v)
  then show ?thesis using store_inv[of s lo _ A a n x v] assms(2) by auto
qed

lemma heap_use_reach:
  assumes "heap_use\<^sup>*\<^sup>* (s, {}) (t, A)" "freep s = 0" "space_ok s lo"
  shows "\<exists>F. heap_inv t lo F A"
proof -
  have "\<exists>F. heap_inv (fst y) lo F (snd y)" if "heap_use\<^sup>*\<^sup>* (s, {}) y" for y
    using that by induction (use assms(2,3) heap_use_inv in \<open>auto simp: heap_inv_def\<close>)
  from this[OF assms(1)] show ?thesis by simp
qed

text \<open>
  C36. However a program mixes allocations, frees of blocks it holds and stores into their payloads,
  the blocks it holds lie above its image and within the process, no two of them overlap, and the
  allocator never loops: every request of at most \<open>2 ^ 31 - 32\<close> bytes returns, and so does freeing any held
  block, which leaves the contents of all the others as they were.
\<close>

theorem heap_use_safe:
  assumes "freep s = 0" "space_ok s lo" "heap_use\<^sup>*\<^sup>* (s, {}) (t, A)"
  shows "(\<forall>(a, n)\<in>A. lo \<le> a \<and> a + 16 * n \<le> ubrk t) \<and>
         (\<forall>(a, n)\<in>A. \<forall>(b, k)\<in>A. (a, n) = (b, k) \<or> a + 16 * n \<le> b \<or> b + 16 * k \<le> a) \<and>
         (\<forall>nbytes. nbytes + 32 \<le> 2 ^ 31 \<longrightarrow> (\<exists>r. malloc nbytes t = Some r)) \<and>
         (\<forall>(a, n)\<in>A. \<exists>t'. ufree (a + 16) t = Some t' \<and>
            (\<forall>(b, k)\<in>A - {(a, n)}. \<forall>x. b \<le> x \<and> x < b + 16 * k \<longrightarrow> um t' x = um t x))"
proof -
  obtain F where inv: "heap_inv t lo F A" using heap_use_reach assms by blast
  have "\<forall>b\<in>A. block_ok t lo b" "\<forall>b\<in>A. \<forall>c\<in>A. b = c \<or> apart b c"
    using inv by (auto simp: heap_inv_def heap_ok_def split: if_splits)
  then have "\<forall>(a, n)\<in>A. lo \<le> a \<and> a + 16 * n \<le> ubrk t"
    "\<forall>(a, n)\<in>A. \<forall>(b, k)\<in>A. (a, n) = (b, k) \<or> a + 16 * n \<le> b \<or> b + 16 * k \<le> a"
    by (auto simp: block_ok_def) (force simp: apart_def)+
  moreover have "\<forall>nbytes. nbytes + 32 \<le> 2 ^ 31 \<longrightarrow> (\<exists>r. malloc nbytes t = Some r)" using malloc_ok[OF inv] by blast
  moreover have "\<exists>t'. ufree (a + 16) t = Some t' \<and>
      (\<forall>(b, k)\<in>A - {(a, n)}. \<forall>x. b \<le> x \<and> x < b + 16 * k \<longrightarrow> um t' x = um t x)" if "(a, n) \<in> A" for a n
    using free_inv[OF inv that] unfolding keeps_def case_prod_beta by blast
  ultimately show ?thesis by blast
qed

lemma fresh_alloc:
  obtains a s' where "malloc 100 fresh_heap = Some (a + 16, s')"
proof -
  have "ugrant fresh_heap (ubrk fresh_heap + 16 * max 4096 (units 100))" by (simp add: fresh_heap_def units_def)
  then show ?thesis using that malloc_ok[OF fresh_heap_inv, of 100] by (auto simp: malloc_result_def)
qed

theorem heap_use_safe_witness:
  "\<exists>a s' t'. malloc 100 fresh_heap = Some (a + 16, s') \<and> 8192 \<le> a \<and> a + 16 * 8 \<le> ubrk s' \<and> ufree (a + 16) s' = Some t'"
proof -
  obtain a s' where m: "malloc 100 fresh_heap = Some (a + 16, s')" by (rule fresh_alloc)
  have "heap_use\<^sup>*\<^sup>* (fresh_heap, {}) (s', {(a, units 100)})"
    using use_malloc[OF m, of "{}"] by (intro r_into_rtranclp) simp
  then have "8192 \<le> a \<and> a + 16 * units 100 \<le> ubrk s' \<and> (\<exists>t'. ufree (a + 16) s' = Some t')"
    using heap_use_safe[of fresh_heap 8192 s' "{(a, units 100)}"] by (simp add: fresh_heap_def space_ok_def)
  then show ?thesis using m by (auto simp: units_def)
qed

end
