(* ===== verification/Spec2Isabelle.thy ===== *)
theory Spec2Isabelle
  imports Trap_Timer Fs_Names Spinlock Pipe_Queue Console_Input Grep Sh_Run Umalloc
begin

text \<open>
  Hai-OS is a teaching operating system for RISC-V: a kernel (\<^verbatim>\<open>src/kernel\<close>) with paged virtual memory,
  a preemptive scheduler, a logged file system and a few drivers, and user programs (\<^verbatim>\<open>src/user\<close>) that
  reach it by system calls. This library models the kernel, the user library, the allocator, the
  shell and grep, function by function, and proves what makes them correct.

  \<^bold>\<open>How the parts interact.\<close> The page allocator hands out physical pages; page tables, trapframes
  and pipes live in them. The process table and the scheduler decide who runs; a kernel function that
  must wait gives up the processor on a channel, and \<^verbatim>\<open>wakeup\<close> on that channel makes the process runnable
  again. The buffer cache holds disk blocks under sleep locks; the log groups block writes into
  transactions; the file system builds bitmaps, inodes, files and directories on logged blocks; the
  file table gives open files, pipes and devices one interface; system calls fetch their arguments
  from user memory and call these layers; traps dispatch system calls, faults and interrupts.

  \<^bold>\<open>Conventions.\<close> C memory is a function from addresses to bytes, integers are read and written
  little-endian by \<open>get_le\<close> and \<open>put_le\<close>; fixed-width counters that wrap are words, or numbers with the
  reduction written out; counters of events that only serve as statistics are unbounded numbers. The kernel state is one record that grows along the layers (\<open>kmem_state\<close>,
  \<open>sched_state\<close>, \<open>bio_state\<close>, \<open>log_state\<close>, \<open>fs_state\<close>, \<open>cons_state\<close>, \<open>file_state\<close>, \<open>vdisk_state\<close>,
  \<open>driver_state\<close>, \<open>trap_state\<close>); each function is typed by the smallest layer it needs. A kernel function
  returns \<open>Ok\<close> with its results, \<open>Panic\<close> with the message of \<^verbatim>\<open>panic\<close>, or \<open>Sleep\<close> with the channel it waits
  on; a function that can resume in the middle returns \<open>Done\<close> or \<open>Wait\<close> with where it stands. A kernel
  function is one step, as its locks make it; what interleaves below that, the locks themselves, is
  modelled at the level of single memory accesses in \<open>Spinlock\<close>, and the crash of the machine as a
  prefix of the sequence of disk writes in \<open>Log\<close>.

  \<^bold>\<open>Theories.\<close>
  \<^item> \<open>Hai_Prelude\<close>: bytes, outcomes, folds over fallible steps, and their lemmas.
  \<^item> \<open>Klib\<close> (\<^verbatim>\<open>string.c\<close>): \<open>memmove\<close> copies as if through a temporary buffer; names stored by \<open>strncpy\<close> are
    found by \<open>strncmp\<close>; \<open>safestrcpy\<close> terminates its result.
  \<^item> \<open>Printf\<close> (\<^verbatim>\<open>kernel/printf.c\<close>, \<^verbatim>\<open>user/printf.c\<close>): \<open>printint\<close> prints the digits of the number; the
    conversions and the loop of each formatter, translated separately, send what a common reading of the format
    string as a list of directives prescribes, with the digits of each.
  \<^item> \<open>Kalloc\<close> (\<^verbatim>\<open>kalloc.c\<close>): the free list threaded through the free pages, with reference counts. The
    locale \<open>page_allocator\<close> is the interface that virtual memory uses.
  \<^item> \<open>Proc_Table\<close>, \<open>Sleeplock\<close>, \<open>Proc_Life\<close> (\<^verbatim>\<open>proc.c\<close>, \<^verbatim>\<open>sleeplock.c\<close>): scheduler, priorities and slices,
    sleep and wakeup; fork, exit and wait. The steps of the process table are what a CPU does under the lock of
    one slot, so a timer trap is several steps that interleave with other CPUs. A process is RUNNING exactly on one CPU
    in every reachable state, with a slice that is full, or one tick short between \<^verbatim>\<open>proc_tick\<close> and
    \<^verbatim>\<open>yield\<close>; the scheduler picks the longest-waiting process of the highest priority.
  \<^item> \<open>Spinlock\<close> (\<^verbatim>\<open>spinlock.c\<close>): mutual exclusion under every interleaving of the CPUs, and panics
    exactly on misuse.
  \<^item> \<open>Vm\<close>, \<open>Vm_Map\<close>, \<open>Vm_User\<close> (\<^verbatim>\<open>vm.c\<close>): three-level page tables in physical memory. \<open>Vm_Map\<close> relates a
    page table to the map from pages to entries it stands for and proves mapping and copy-on-write
    faults against it; \<open>Vm_User\<close> proves that \<open>copyin\<close> reads what \<open>copyout\<close> wrote.
  \<^item> \<open>Bio\<close>, \<open>Log\<close> (\<^verbatim>\<open>bio.c\<close>, \<^verbatim>\<open>log.c\<close>): the locale \<open>block_store\<close> is the interface of reading and changing a
    block, interpreted for the raw cache, for a transaction, and for a transaction on a given set of
    blocks. An operation commits when it is the last one outstanding. A crash at any disk write of a commit,
    followed by recovery, gives the old blocks or the new ones.
  \<^item> \<open>Fs_Block\<close>, \<open>Fs_Inode\<close>, \<open>Fs_Content\<close>, \<open>Fs_Dir\<close>, \<open>Fs_Names\<close> (\<^verbatim>\<open>fs.c\<close>): bitmap, inodes with extents,
    file contents with checksums, directories and paths. \<open>readi\<close> and \<open>writei\<close> are proved against the
    list of bytes a file stands for, \<open>dirlookup\<close> and \<open>dirlink\<close> against the map from names to entries a
    directory stands for, the directory cache included.
  \<^item> \<open>Console\<close>, \<open>Pipe\<close>, \<open>File\<close> (\<^verbatim>\<open>console.c\<close>, \<^verbatim>\<open>uart.c\<close>, \<^verbatim>\<open>pipe.c\<close>, \<^verbatim>\<open>file.c\<close>). The locale \<open>ring\<close> of \<open>Ring\<close> is a
    circular buffer with counters that wrap; \<open>Pipe_Queue\<close> and \<open>Console_Input\<close> interpret it and prove
    that pipes are first-in first-out queues and that line editing does what its specification says.
  \<^item> \<open>Virtio\<close>, \<open>Driver\<close> (\<^verbatim>\<open>virtio_disk.c\<close>, \<^verbatim>\<open>driver.c\<close>, \<^verbatim>\<open>plic.c\<close>), \<open>Exec\<close> (\<^verbatim>\<open>exec.c\<close>), \<open>Sysfile\<close>, \<open>Sysproc\<close>, \<open>Trap\<close>
    (\<^verbatim>\<open>sysfile.c\<close>, \<^verbatim>\<open>sysproc.c\<close>, \<^verbatim>\<open>syscall.c\<close>, \<^verbatim>\<open>trap.c\<close>): the remaining kernel, every operation modelled.
    \<open>Trap_Timer\<close> shows what the timer trap of user mode does to the priority of a process.
  \<^item> \<open>Files_Frame\<close>, \<open>Open_Files\<close> (\<^verbatim>\<open>file.c\<close>, \<^verbatim>\<open>sysfile.c\<close>, \<^verbatim>\<open>proc.c\<close> together): \<open>Files_Frame\<close> shows what every routine
    of the kernel leaves alone of the open files, \<open>Open_Files\<close> that every system call, forks, exits and
    error paths included, keeps the counts of the file table equal to the descriptors that name a file.
  \<^item> \<open>Ulib\<close> (\<^verbatim>\<open>ulib.c\<close>), \<open>Umalloc\<close> (\<^verbatim>\<open>umalloc.c\<close>), \<open>Grep\<close> (\<^verbatim>\<open>grep.c\<close>): \<open>atoi\<close> reads what \<open>printint\<close> prints;
    \<open>malloc\<close> and \<open>free\<close> keep the circular free list and hand out disjoint blocks; the matcher agrees
    with the language of the pattern, and grep prints the matching lines however reads cut the input.
  \<^item> \<open>Sh_Parse\<close>, \<open>Sh_Tokens\<close>, \<open>Sh_Correct\<close>, \<open>Sh_Roundtrip\<close>, \<open>Sh_Run\<close> (\<^verbatim>\<open>sh.c\<close>): the parser works in place on the
    line buffer; it terminates on every line, reads and writes nothing outside it, and recovers the tree of every
    well-formed line. Running the tree is a tree of system calls; \<open>run\<close> reads it as the processes that fork, wait,
    execute and exit when the calls succeed, and \<open>plan\<close> is what the command means. The lemma \<open>fdalloc_low_fd\<close> below
    relates the choice of descriptors in \<open>run\<close> to \<^verbatim>\<open>fdalloc\<close> of the kernel.

  \<^bold>\<open>Bounds and fuel.\<close> Loops are structural or have a termination proof. Three groups are different. The
  parser of the shell takes fuel: \<open>parsecmd\<close> starts it with four times the length of the line plus
  four, and \<open>parsecmd_terminates\<close> shows that this is always enough. The loops that search for
  the end of a string, and the loops of \<open>malloc\<close> and \<open>free\<close>, may run forever on bad data, so their
  results are options, and the theorems state that they return. The results about \<open>writei\<close>
  and the log bound the blocks of a transaction by the room in the log and the cache, as the callers
  do. Requests to \<open>malloc\<close> with its headers are at most two gigabytes, because \<^verbatim>\<open>sbrk\<close> takes a signed 32-bit number.

  \<^bold>\<open>Not modelled.\<close> Assembly (\<^verbatim>\<open>entry.S\<close>, \<^verbatim>\<open>swtch.S\<close>, \<^verbatim>\<open>trampoline.S\<close>, \<^verbatim>\<open>kernelvec.S\<close>) and the accessors of
  control registers in \<^verbatim>\<open>riscv.h\<close>: a context switch and the return to user space are single steps.
  Machine-mode start-up (\<^verbatim>\<open>start.c\<close>) and the order of initialisation (\<^verbatim>\<open>main.c\<close>), which only set
  registers and call the modelled initialisers. The linker script: its symbols are arguments. The
  devices: register values, pending interrupts and characters received are inputs; a disk transfer of
  the buffer cache is one step on the disk image. Data races on state that the kernel protects with
  locks, beyond the locks themselves. User programs other than the shell and grep: the small tools
  only print what a system call returned, and \<^verbatim>\<open>usertests.c\<close>, \<^verbatim>\<open>grind.c\<close>, \<^verbatim>\<open>forktest.c\<close> and the stress programs
  exercise the kernel from outside. The stubs \<^verbatim>\<open>usys.pl\<close> generates.
\<close>

section \<open>The descriptors of the shell and of the kernel\<close>

text \<open>
  The descriptor that \<open>run\<close> of \<open>Sh_Run\<close> gives to an opened file, a duplicate or an end of a pipe is the one the kernel's
  \<^verbatim>\<open>fdalloc\<close> takes; \<open>g\<close> reads the files of the table as the shell's view of them.
\<close>

lemma fdalloc_low_fd:
  assumes "myproc s = Some i"
  shows "fdalloc f s =
    (case low_fd (\<lambda>fd. map_option g (p_ofile (procs s i) fd)) of
       None \<Rightarrow> Ok (-1, s)
     | Some fd \<Rightarrow> Ok (int fd, upd_proc i (\<lambda>p. p\<lparr>p_ofile := (p_ofile p)(fd := Some f)\<rparr>) s))"
  using assms by (simp add: fdalloc_def low_fd_def NOFILE_def)

end
